(* ===== verification/DPsim_Prelude.thy ===== *)
theory DPsim_Prelude
  imports Complex_Main "HOL-Library.AList" "HOL-Library.Multiset"
begin

text \<open>The prelude of the development: the collections of facts the component
  theories add to, the multimap operations that stand for the
  std::unordered_map<K, std::deque<V>> of the scheduler, and the generic lemmas
  on lists and association lists that several components share.\<close>

named_theorems edge_simps \<open>reading a multimap after an update\<close>
named_theorems inv_intros \<open>introduction rules of the component invariants\<close>

section \<open>Errors\<close>

text \<open>The exceptions of dpsim-models/Definitions.h and dpsim/Scheduler.h that the
  modelled code throws.  A fallible operation returns a sum whose left side is the
  exception.\<close>

datatype error =
    Exception
  | SchedulingException
  | InvalidAttributeException
  | InvalidArgumentException
  | TypeException
  | SystemError
  | SolverException
  | UndefinedBehaviour

abbreviation throw :: "error \<Rightarrow> error + 'a" where "throw e \<equiv> Inl e"
abbreviation ok :: "'a \<Rightarrow> error + 'a" where "ok x \<equiv> Inr x"

definition bind_err :: "error + 'a \<Rightarrow> ('a \<Rightarrow> error + 'b) \<Rightarrow> error + 'b" where
  "bind_err m f = (case m of Inl e \<Rightarrow> Inl e | Inr x \<Rightarrow> f x)"

lemma bind_err_simps [simp]:
  "bind_err (Inl e) f = Inl e"
  "bind_err (Inr x) f = f x"
  by (simp_all add: bind_err_def)

lemma bind_err_eq_Inr [simp]:
  "bind_err m f = Inr y \<longleftrightarrow> (\<exists>x. m = Inr x \<and> f x = Inr y)"
  by (cases m) simp_all

lemma bind_err_eq_Inl:
  "bind_err m f = Inl e \<longleftrightarrow> m = Inl e \<or> (\<exists>x. m = Inr x \<and> f x = Inl e)"
  by (cases m) simp_all

text \<open>A loop over a list whose body may throw.\<close>

primrec foldE :: "('a \<Rightarrow> 's \<Rightarrow> error + 's) \<Rightarrow> 'a list \<Rightarrow> 's \<Rightarrow> error + 's" where
  "foldE f [] s = ok s"
| "foldE f (x # xs) s = bind_err (f x s) (foldE f xs)"

lemma foldE_append: "foldE f (xs @ ys) s = bind_err (foldE f xs s) (foldE f ys)"
proof (induction xs arbitrary: s)
  case (Cons x xs)
  then show ?case by (cases "f x s") simp_all
qed simp

lemma foldE_invariant:
  assumes "foldE f xs s = ok s'" "I s"
    and "\<And>x s s'. x \<in> set xs \<Longrightarrow> I s \<Longrightarrow> f x s = ok s' \<Longrightarrow> I s'"
  shows "I s'"
  using assms
proof (induction xs arbitrary: s)
  case (Cons x xs)
  from Cons.prems(1) obtain s1 where s1: "f x s = ok s1" "foldE f xs s1 = ok s'" by auto
  have "I s1" using Cons.prems(3) [of x s s1] Cons.prems(2) s1(1) by simp
  then show ?case using Cons.IH [OF s1(2)] Cons.prems(3) by (metis list.set_intros(2))
qed simp

lemma foldE_pure: "foldE (\<lambda>x s. ok (f x s)) xs s = ok (fold f xs s)"
  by (induction xs arbitrary: s) simp_all

section \<open>Multimaps\<close>

text \<open>An std::unordered_map from keys to deques, as an association list.  operator[]
  default-constructs a missing entry, so reading a missing key gives the empty
  deque.\<close>

type_synonym ('k, 'v) multimap = "('k \<times> 'v list) list"

definition edges_at :: "('k, 'v) multimap \<Rightarrow> 'k \<Rightarrow> 'v list" where
  "edges_at m k = (case map_of m k of None \<Rightarrow> [] | Some vs \<Rightarrow> vs)"

definition edges_set :: "('k, 'v) multimap \<Rightarrow> 'k \<Rightarrow> 'v list \<Rightarrow> ('k, 'v) multimap" where
  "edges_set m k vs = AList.update k vs m"

definition edges_push :: "('k, 'v) multimap \<Rightarrow> 'k \<Rightarrow> 'v \<Rightarrow> ('k, 'v) multimap" where
  "edges_push m k v = edges_set m k (edges_at m k @ [v])"

definition edges_erase :: "('k, 'v) multimap \<Rightarrow> 'k \<Rightarrow> ('k, 'v) multimap" where
  "edges_erase m k = AList.delete k m"

lemma edges_at_Nil [edge_simps, simp]: "edges_at [] k = []"
  by (simp add: edges_at_def)

lemma edges_at_set [edge_simps]:
  "edges_at (edges_set m k vs) k' = (if k' = k then vs else edges_at m k')"
  by (simp add: edges_at_def edges_set_def update_conv')

lemma edges_at_push [edge_simps]:
  "edges_at (edges_push m k v) k' = (if k' = k then edges_at m k @ [v] else edges_at m k')"
  by (simp add: edges_push_def edge_simps)

lemma edges_at_erase [edge_simps]:
  "edges_at (edges_erase m k) k' = (if k' = k then [] else edges_at m k')"
  by (simp add: edges_at_def edges_erase_def delete_conv')

definition edges_count :: "('k, 'v) multimap \<Rightarrow> nat" where
  "edges_count m = sum_list (map (length \<circ> snd) m)"

lemma edges_count_erase:
  "edges_count (edges_erase m k) + length (edges_at m k) \<le> edges_count m"
proof (induction m)
  case Nil
  then show ?case by (simp add: edges_count_def edges_erase_def)
next
  case (Cons p m)
  obtain k' vs where p: "p = (k', vs)" by (cases p)
  have le: "edges_count (edges_erase m k) \<le> edges_count m"
    using Cons.IH by linarith
  show ?case
    using Cons.IH le
    by (auto simp: p edges_count_def edges_erase_def edges_at_def AList.delete_eq)
qed

text \<open>All values a multimap stores: a finite universe for the searches.\<close>

definition edges_vals :: "('k, 'v) multimap \<Rightarrow> 'v set" where
  "edges_vals m = set (concat (map snd m))"

lemma finite_edges_vals [simp]: "finite (edges_vals m)"
  by (simp add: edges_vals_def)

lemma edges_at_vals: "set (edges_at m k) \<subseteq> edges_vals m"
proof (cases "map_of m k")
  case (Some vs)
  then have "(k, vs) \<in> set m" by (rule map_of_SomeD)
  with Some show ?thesis by (force simp: edges_at_def edges_vals_def)
qed (simp add: edges_at_def)

section \<open>Lists\<close>

lemma count_list_remove1:
  "count_list (remove1 x xs) y =
     (if x = y \<and> x \<in> set xs then count_list xs y - 1 else count_list xs y)"
  by (induction xs) (auto simp: count_list_0_iff Suc_pred' dest: count_notin)

lemma count_list_filter': "P x \<Longrightarrow> count_list (filter P xs) x = count_list xs x"
  by (induction xs) auto

lemma filter_neq_remove1: "filter (\<lambda>y. y \<noteq> x) (remove1 x xs) = filter (\<lambda>y. y \<noteq> x) xs"
  by (induction xs) auto

lemma count_0_filter_neq: "count_list xs x = 0 \<Longrightarrow> filter (\<lambda>y. y \<noteq> x) xs = xs"
  by (metis (mono_tags, lifting) count_list_0_iff filter_True)

lemma sorted_map_append:
  "sorted (map f (xs @ ys)) \<longleftrightarrow>
     sorted (map f xs) \<and> sorted (map f ys) \<and> (\<forall>x\<in>set xs. \<forall>y\<in>set ys. f x \<le> f y)"
  by (simp add: sorted_append)

lemmas sorted_map_appendI = sorted_map_append [THEN iffD2, OF conjI, OF _ conjI]

lemma distinct_takeD:
  assumes "distinct xs" "i < length xs"
  shows "xs ! i \<notin> set (take i xs)"
  using assms by (simp add: distinct_conv_nth in_set_conv_nth nth_eq_iff_index_eq)

lemma in_set_takeE:
  assumes "x \<in> set (take i xs)"
  obtains j where "j < i" "j < length xs" "xs ! j = x"
  using assms by (auto simp: in_set_conv_nth)

end
