(* ===== verification/Scheduler.thy ===== *)
theory Scheduler
  imports DPsim_Prelude
begin

text \<open>dpsim/src/Scheduler.cpp and dpsim/include/dpsim/Scheduler.h: tasks and their
  attribute dependencies, the task graph that \<open>resolveDeps\<close> derives from them, the
  pruning topological sort, the level schedule, and the time measurements.

  A task is named by its pointer (\<open>task_ref\<close>); the table \<open>tbl\<close> gives the object.  An
  attribute is named by its pointer, the null pointer \<open>Scheduler::external\<close> being
  \<open>None\<close>.\<close>

section \<open>Tasks\<close>

type_synonym task_ref = nat
type_synonym attr_ref = "nat option"
type_synonym edges = "(task_ref, task_ref) multimap"

record task =
  mName :: string
  mAttributeDependencies :: "attr_ref list"
  mModifiedAttributes :: "attr_ref list"
  mPrevStepDependencies :: "attr_ref list"

definition external :: attr_ref where
  "external = None"

definition Root :: task where
  "Root = \<lparr>mName = ''Root'', mAttributeDependencies = [external],
           mModifiedAttributes = [], mPrevStepDependencies = []\<rparr>"

section \<open>Resolving attribute dependencies to task dependencies\<close>

text \<open>\<open>gd\<close> is \<open>AttributeBase::getDependencies\<close>, the set of attributes an attribute is
  computed from (theory Attributes).\<close>

definition dep_attrs :: "(attr_ref \<Rightarrow> attr_ref list) \<Rightarrow> task \<Rightarrow> attr_ref list" where
  "dep_attrs gd tk =
     concat (map (\<lambda>a. if a \<noteq> external then gd a else [a]) (mAttributeDependencies tk))"

fun collect_deps ::
  "(task_ref \<Rightarrow> task) \<Rightarrow> (attr_ref \<Rightarrow> attr_ref list) \<Rightarrow> task_ref list
   \<Rightarrow> (attr_ref, task_ref) multimap \<Rightarrow> attr_ref set
   \<Rightarrow> (attr_ref, task_ref) multimap \<times> attr_ref set" where
  "collect_deps tbl gd [] deps prev = (deps, prev)"
| "collect_deps tbl gd (t # ts) deps prev =
     collect_deps tbl gd ts
       (fold (\<lambda>a m. edges_push m a t) (dep_attrs gd (tbl t)) deps)
       (prev \<union> set (mPrevStepDependencies (tbl t)))"

type_synonym graph = "edges \<times> edges"

definition add_edge :: "task_ref \<Rightarrow> task_ref \<Rightarrow> graph \<Rightarrow> graph" where
  "add_edge src dst g = (edges_push (fst g) dst src, edges_push (snd g) src dst)"

definition link_attr ::
  "task_ref \<Rightarrow> (attr_ref, task_ref) multimap \<Rightarrow> attr_ref set \<Rightarrow> task_ref \<Rightarrow> attr_ref
   \<Rightarrow> graph \<Rightarrow> graph" where
  "link_attr mRoot deps prev src a g =
     (let g' = fold (add_edge src) (edges_at deps a) g
      in if a \<in> prev then add_edge src mRoot g' else g')"

definition link_task ::
  "(task_ref \<Rightarrow> task) \<Rightarrow> task_ref \<Rightarrow> (attr_ref, task_ref) multimap \<Rightarrow> attr_ref set
   \<Rightarrow> task_ref \<Rightarrow> graph \<Rightarrow> graph" where
  "link_task tbl mRoot deps prev src g =
     fold (link_attr mRoot deps prev src) (mModifiedAttributes (tbl src)) g"

definition resolveDeps ::
  "(task_ref \<Rightarrow> task) \<Rightarrow> (attr_ref \<Rightarrow> attr_ref list) \<Rightarrow> task_ref
   \<Rightarrow> task_ref list \<Rightarrow> edges \<Rightarrow> edges \<Rightarrow> task_ref list \<times> edges \<times> edges" where
  "resolveDeps tbl gd mRoot tasks inEdges outEdges =
     (let tasks' = tasks @ [mRoot];
          (deps, prev) = collect_deps tbl gd tasks' [] {};
          (inE, outE) = fold (link_task tbl mRoot deps prev) tasks' (inEdges, outEdges)
      in (tasks', inE, outE))"

section \<open>The topological sort\<close>

lemma backSearch_measure:
  assumes "t \<notin> visited"
  shows "card ((edges_vals inE \<union> set (q @ filter P (edges_at inE t))) - insert t visited)
         < card ((edges_vals inE \<union> set (t # q)) - visited)"
proof (rule psubset_card_mono)
  show "finite (edges_vals inE \<union> set (t # q) - visited)" by simp
  show "edges_vals inE \<union> set (q @ filter P (edges_at inE t)) - insert t visited
        \<subset> edges_vals inE \<union> set (t # q) - visited"
    using assms edges_at_vals [of inE t] by auto
qed

text \<open>The breadth-first search backwards from the root; \<open>visited\<close> is the code's
  unordered_set.\<close>

function backSearch :: "edges \<Rightarrow> task_ref list \<Rightarrow> task_ref set \<Rightarrow> task_ref set" where
  "backSearch inE [] visited = visited"
| "backSearch inE (t # q) visited =
     (if t \<in> visited then backSearch inE q visited
      else backSearch inE
             (q @ filter (\<lambda>d. d \<notin> insert t visited) (edges_at inE t)) (insert t visited))"
  by pat_completeness auto

termination
proof (relation "(\<lambda>(inE, q, visited). card ((edges_vals inE \<union> set q) - visited))
                 <*mlex*> measure (\<lambda>(inE, q, visited). length q)", goal_cases)
  case 1
  show ?case by (rule wf_mlex) simp
next
  case (2 inE t q visited)
  have "card ((edges_vals inE \<union> set q) - visited) \<le> card ((edges_vals inE \<union> set (t # q)) - visited)"
    by (rule card_mono) auto
  then show ?case by (intro mlex_leq) simp_all
next
  case (3 inE t q visited)
  then show ?case
    using backSearch_measure [of t visited inE q "\<lambda>d. d \<notin> insert t visited"]
    by (intro mlex_less) simp
qed

text \<open>The inner loop of the sort: for every outgoing edge of \<open>t\<close>, remove one
  incoming copy of it and queue the target once it has no incoming edge left.\<close>

fun relaxEdges :: "task_ref \<Rightarrow> task_ref list \<Rightarrow> edges \<Rightarrow> task_ref list \<Rightarrow> edges \<times> task_ref list" where
  "relaxEdges t [] inE q = (inE, q)"
| "relaxEdges t (after # rest) inE q =
     (let inE' = edges_set inE after (remove1 t (edges_at inE after))
      in relaxEdges t rest inE' (if edges_at inE' after = [] then q @ [after] else q))"

lemma length_relaxEdges: "length (snd (relaxEdges t ys inE q)) \<le> length q + length ys"
proof (induction ys arbitrary: inE q)
  case (Cons y ys)
  show ?case
    using Cons.IH [of "edges_set inE y (remove1 t (edges_at inE y))"
        "if edges_at (edges_set inE y (remove1 t (edges_at inE y))) y = [] then q @ [y] else q"]
    by (auto simp: Let_def split: if_splits)
qed simp

function kahn ::
  "task_ref \<Rightarrow> task_ref set \<Rightarrow> edges \<Rightarrow> edges \<Rightarrow> task_ref list \<Rightarrow> task_ref list
   \<Rightarrow> edges \<times> edges \<times> task_ref list" where
  "kahn mRoot visited inE outE [] acc = (inE, outE, acc)"
| "kahn mRoot visited inE outE (t # q) acc =
     (let acc' = (if t \<notin> visited then acc
                     else if t \<noteq> mRoot then acc @ [t] else acc);
          (inE', q') = relaxEdges t (edges_at outE t) inE q
      in kahn mRoot visited inE' (edges_erase outE t) q' acc')"
  by pat_completeness auto
termination
proof (relation "measure (\<lambda>(r, v, inE, outE, q, s). edges_count outE + length q)", goal_cases)
  case (2 mRoot visited inE outE t q acc acc' p inE' q')
  have "length q' \<le> length q + length (edges_at outE t)"
    using 2 length_relaxEdges [of t "edges_at outE t" inE q] by (metis snd_conv)
  then show ?case using edges_count_erase [of outE t] by simp
qed simp

definition topologicalSort ::
  "task_ref \<Rightarrow> task_ref list \<Rightarrow> edges \<Rightarrow> edges \<Rightarrow> error + task_ref list" where
  "topologicalSort mRoot tasks inEdges outEdges =
     (let visited = backSearch inEdges [mRoot] {};
          q = filter (\<lambda>t. edges_at inEdges t = []) tasks;
          (inE, outE, sortedTasks) = kahn mRoot visited inEdges outEdges q []
      in if \<exists>t \<in> set tasks. edges_at outE t \<noteq> [] \<or> edges_at inE t \<noteq> []
         then throw SchedulingException else ok sortedTasks)"

section \<open>The level schedule\<close>

definition taskLevel :: "edges \<Rightarrow> (task_ref \<Rightarrow> nat) \<Rightarrow> task_ref \<Rightarrow> nat" where
  "taskLevel inEdges tm task =
     (if edges_at inEdges task = [] then 0
      else fold (\<lambda>before maxdist. if tm before > maxdist then tm before else maxdist)
             (edges_at inEdges task) 0 + 1)"

fun levelTimes :: "edges \<Rightarrow> task_ref list \<Rightarrow> (task_ref \<Rightarrow> nat) \<Rightarrow> (task_ref \<Rightarrow> nat)" where
  "levelTimes inEdges [] tm = tm"
| "levelTimes inEdges (task # rest) tm =
     levelTimes inEdges rest (tm(task := taskLevel inEdges tm task))"

fun fillLevels :: "(task_ref \<Rightarrow> nat) \<Rightarrow> task_ref list \<Rightarrow> task_ref list list
                   \<Rightarrow> error + task_ref list list" where
  "fillLevels tm [] levels = ok levels"
| "fillLevels tm (task # rest) levels =
     (if tm task < length levels
      then fillLevels tm rest (levels[tm task := levels ! tm task @ [task]])
      else throw UndefinedBehaviour)"

text \<open>\<open>tasks.back()\<close> on an empty vector and an index past the resized vector are
  undefined in C++, and so here.\<close>

definition levelSchedule :: "task_ref list \<Rightarrow> edges \<Rightarrow> error + task_ref list list" where
  "levelSchedule tasks inEdges =
     (let tm = levelTimes inEdges tasks (\<lambda>_. 0)
      in if tasks = [] then throw UndefinedBehaviour
         else fillLevels tm tasks (replicate (tm (last tasks) + 1) []))"

section \<open>The graph that resolveDeps builds\<close>

definition edge_rel :: "edges \<Rightarrow> (task_ref \<times> task_ref) set" where
  "edge_rel inE = {(a, b). a \<in> set (edges_at inE b)}"

lemma edge_rel_iff: "(a, b) \<in> edge_rel inE \<longleftrightarrow> a \<in> set (edges_at inE b)"
  by (simp add: edge_rel_def)

text \<open>Every edge is recorded as often at its source as at its target.\<close>

definition balanced :: "edges \<Rightarrow> edges \<Rightarrow> bool" where
  "balanced inE outE \<longleftrightarrow>
     (\<forall>a b. count_list (edges_at outE a) b = count_list (edges_at inE b) a)"

lemma balancedD: "balanced inE outE \<Longrightarrow> count_list (edges_at outE a) b = count_list (edges_at inE b) a"
  by (simp add: balanced_def)

lemma balanced_mem:
  assumes "balanced inE outE"
  shows "b \<in> set (edges_at outE a) \<longleftrightarrow> a \<in> set (edges_at inE b)"
  using balancedD [OF assms, of a b] by (metis count_list_0_iff)

lemma balanced_Nil [simp]: "balanced [] []"
  by (simp add: balanced_def)

lemma add_edge_balanced [inv_intros]:
  "balanced (fst g) (snd g) \<Longrightarrow> balanced (fst (add_edge a b g)) (snd (add_edge a b g))"
  by (auto simp: balanced_def add_edge_def edge_simps)

lemma add_edge_rel: "edge_rel (fst (add_edge a b g)) = insert (a, b) (edge_rel (fst g))"
  by (auto simp: edge_rel_def add_edge_def edge_simps split: if_splits)

lemma fold_add_edge:
  "edge_rel (fst (fold (add_edge a) bs g)) = {a} \<times> set bs \<union> edge_rel (fst g)"
  by (induction bs arbitrary: g) (auto simp: add_edge_rel)

lemma fold_preserves:
  assumes "\<And>x s. P s \<Longrightarrow> P (f x s)" "P s"
  shows "P (fold f xs s)"
  using assms(2) by (induction xs arbitrary: s) (auto intro: assms(1))

lemma link_attr_balanced [inv_intros]:
  "balanced (fst g) (snd g) \<Longrightarrow>
   balanced (fst (link_attr r deps prev a x g)) (snd (link_attr r deps prev a x g))"
  unfolding link_attr_def Let_def
  by (auto intro!: inv_intros fold_preserves [where P = "\<lambda>g. balanced (fst g) (snd g)"])

lemma link_task_balanced [inv_intros]:
  "balanced (fst g) (snd g) \<Longrightarrow>
   balanced (fst (link_task tbl r deps prev a g)) (snd (link_task tbl r deps prev a g))"
  unfolding link_task_def
  by (rule fold_preserves [where P = "\<lambda>g. balanced (fst g) (snd g)"]) (rule inv_intros)

lemma link_attr_rel:
  "edge_rel (fst (link_attr r deps prev a x g)) =
     {a} \<times> (set (edges_at deps x) \<union> (if x \<in> prev then {r} else {})) \<union> edge_rel (fst g)"
  by (auto simp: link_attr_def Let_def fold_add_edge add_edge_rel)

lemma fold_link_attr_rel:
  "edge_rel (fst (fold (link_attr r deps prev a) xs g)) =
     {a} \<times> (\<Union>x\<in>set xs. set (edges_at deps x) \<union> (if x \<in> prev then {r} else {}))
     \<union> edge_rel (fst g)"
  by (induction xs arbitrary: g) (auto simp: link_attr_rel)

lemma fold_link_task_rel:
  "edge_rel (fst (fold (link_task tbl r deps prev) ts g)) =
     (\<Union>a\<in>set ts. {a} \<times> (\<Union>x\<in>set (mModifiedAttributes (tbl a)).
        set (edges_at deps x) \<union> (if x \<in> prev then {r} else {})))
     \<union> edge_rel (fst g)"
  by (induction ts arbitrary: g) (auto simp: link_task_def fold_link_attr_rel)

lemma fold_push_mem:
  "t \<in> set (edges_at (fold (\<lambda>a m. edges_push m a u) as m) x) \<longleftrightarrow>
     (t = u \<and> x \<in> set as) \<or> t \<in> set (edges_at m x)"
  by (induction as arbitrary: m) (auto simp: edge_simps)

lemma collect_deps_mem:
  "collect_deps tbl gd ts d p = (d', p') \<Longrightarrow>
     (t \<in> set (edges_at d' x) \<longleftrightarrow>
        (t \<in> set ts \<and> x \<in> set (dep_attrs gd (tbl t))) \<or> t \<in> set (edges_at d x))
   \<and> p' = p \<union> (\<Union>t\<in>set ts. set (mPrevStepDependencies (tbl t)))"
proof (induction ts arbitrary: d p)
  case (Cons u ts)
  show ?case using Cons.IH [OF Cons.prems [simplified]] by (auto simp: fold_push_mem)
qed simp

text \<open>What the graph means: an edge runs from a task that modifies an attribute to a
  task whose dependencies, resolved through dynamic attributes, contain it, and to the
  root when some task needs the attribute in the next step.\<close>

definition needs :: "(task_ref \<Rightarrow> task) \<Rightarrow> (attr_ref \<Rightarrow> attr_ref list) \<Rightarrow> task_ref
    \<Rightarrow> task_ref list \<Rightarrow> (task_ref \<times> task_ref) set" where
  "needs tbl gd mRoot ts =
     {(a, b). a \<in> set ts \<and> (\<exists>x \<in> set (mModifiedAttributes (tbl a)).
        (b \<in> set ts \<and> x \<in> set (dep_attrs gd (tbl b)))
        \<or> (b = mRoot \<and> (\<exists>t \<in> set ts. x \<in> set (mPrevStepDependencies (tbl t)))))}"

lemma resolveDeps_graph:
  assumes "resolveDeps tbl gd mRoot tasks [] [] = (ts, inE, outE)"
  shows "ts = tasks @ [mRoot]" "balanced inE outE" "edge_rel inE = needs tbl gd mRoot ts"
proof -
  obtain deps prev where dp: "collect_deps tbl gd (tasks @ [mRoot]) [] {} = (deps, prev)"
    by (cases "collect_deps tbl gd (tasks @ [mRoot]) [] {}")
  let ?g = "fold (link_task tbl mRoot deps prev) (tasks @ [mRoot]) ([], [])"
  have eq: "ts = tasks @ [mRoot]" "inE = fst ?g" "outE = snd ?g"
    using assms dp by (auto simp: resolveDeps_def Let_def split: prod.splits)
  show "ts = tasks @ [mRoot]" by fact
  show "balanced inE outE" unfolding eq(2,3)
    by (rule fold_preserves [where P = "\<lambda>g. balanced (fst g) (snd g)"]) (auto intro: inv_intros)
  have mem: "t \<in> set (edges_at deps x) \<longleftrightarrow> t \<in> set ts \<and> x \<in> set (dep_attrs gd (tbl t))" for t x
    using collect_deps_mem [OF dp, of t x] by (simp add: eq(1))
  have pv: "x \<in> prev \<longleftrightarrow> (\<exists>t\<in>set ts. x \<in> set (mPrevStepDependencies (tbl t)))" for x
    using collect_deps_mem [OF dp] by (simp add: eq(1))
  have "(a, b) \<in> edge_rel inE \<longleftrightarrow> a \<in> set ts \<and> (\<exists>x\<in>set (mModifiedAttributes (tbl a)).
      b \<in> set (edges_at deps x) \<or> (b = mRoot \<and> x \<in> prev))" for a b
    unfolding eq(2) fold_link_task_rel eq(1) [symmetric] by (auto simp: edge_rel_def)
  then show "edge_rel inE = needs tbl gd mRoot ts"
    unfolding needs_def mem pv by blast
qed


section \<open>The tasks the backward search keeps\<close>

text \<open>The search visits exactly the tasks with a path to the root.\<close>

lemma backSearch_sound:
  "x \<in> backSearch inE q visited \<Longrightarrow>
     x \<in> visited \<or> (\<exists>y\<in>set q. (x, y) \<in> (edge_rel inE)\<^sup>*)"
proof (induction inE q visited rule: backSearch.induct)
  case (2 inE t q visited)
  show ?case
  proof (cases "t \<in> visited")
    case True
    then show ?thesis using 2 by auto
  next
    case False
    then consider "x \<in> insert t visited"
      | y where "y \<in> set q \<or> (y, t) \<in> edge_rel inE" "(x, y) \<in> (edge_rel inE)\<^sup>*"
      using 2 by (auto simp: edge_rel_iff)
    then show ?thesis
      by cases (auto dest: rtrancl_into_rtrancl)
  qed
qed simp

lemma backSearch_superset: "visited \<union> set q \<subseteq> backSearch inE q visited"
proof (induction inE q visited rule: backSearch.induct)
  case (2 inE t q visited)
  then show ?case by (cases "t \<in> visited") auto
qed simp

text \<open>Backward closure up to the pending queue is an invariant of the search.\<close>

lemma backSearch_closed:
  assumes "\<And>a b. b \<in> visited \<Longrightarrow> (a, b) \<in> edge_rel inE \<Longrightarrow> a \<in> visited \<union> set q"
    and "b \<in> backSearch inE q visited" "(a, b) \<in> edge_rel inE"
  shows "a \<in> backSearch inE q visited"
  using assms
proof (induction inE q visited rule: backSearch.induct)
  case (2 inE t q visited)
  show ?case
  proof (cases "t \<in> visited")
    case True
    with 2 show ?thesis by auto
  next
    case False
    have "a \<in> backSearch inE (q @ filter (\<lambda>d. d \<notin> insert t visited) (edges_at inE t)) (insert t visited)"
    proof (rule 2(2) [OF False])
      fix a b assume "b \<in> insert t visited" "(a, b) \<in> edge_rel inE"
      then show "a \<in> insert t visited
          \<union> set (q @ filter (\<lambda>d. d \<notin> insert t visited) (edges_at inE t))"
        using 2(3) [of b a] by (auto simp: edge_rel_iff)
    qed (use 2 False in auto)
    with False show ?thesis by simp
  qed
qed simp

lemma backSearch_root:
  "backSearch inE [r] {} = {x. (x, r) \<in> (edge_rel inE)\<^sup>*}"
proof
  show "backSearch inE [r] {} \<subseteq> {x. (x, r) \<in> (edge_rel inE)\<^sup>*}"
    using backSearch_sound [of _ inE "[r]" "{}"] by auto
  have root: "r \<in> backSearch inE [r] {}"
    using backSearch_superset [of "{}" "[r]" inE] by simp
  have "x \<in> backSearch inE [r] {}" if "(x, r) \<in> (edge_rel inE)\<^sup>*" for x
    using that
  proof (induction rule: converse_rtrancl_induct)
    case (step a b)
    then show ?case using backSearch_closed [of "{}" inE "[r]" b a] by simp
  qed (rule root)
  then show "{x. (x, r) \<in> (edge_rel inE)\<^sup>*} \<subseteq> backSearch inE [r] {}" by blast
qed

section \<open>The loop of the topological sort\<close>

lemma relaxEdges_spec:
  assumes "relaxEdges t ys inE q = (inE', q')"
    and "\<And>b. count_list ys b = count_list (edges_at inE b) t"
  shows "edges_at inE' b = filter (\<lambda>x. x \<noteq> t) (edges_at inE b)"
    and "\<exists>new. q' = q @ new \<and> distinct new
           \<and> set new = {b \<in> set ys. filter (\<lambda>x. x \<noteq> t) (edges_at inE b) = []}"
proof -
  have "(\<forall>b. edges_at inE' b = filter (\<lambda>x. x \<noteq> t) (edges_at inE b)) \<and>
        (\<exists>new. q' = q @ new \<and> distinct new
           \<and> set new = {b \<in> set ys. filter (\<lambda>x. x \<noteq> t) (edges_at inE b) = []})"
    using assms
  proof (induction ys arbitrary: inE q)
    case Nil
    then have "t \<notin> set (edges_at inE b)" for b by (metis count_list.simps(1) count_list_0_iff)
    with Nil show ?case by (auto intro!: filter_True [symmetric])
  next
    case (Cons y ys)
    let ?r = "remove1 t (edges_at inE y)"
    let ?inE1 = "edges_set inE y ?r"
    let ?q1 = "if ?r = [] then q @ [y] else q"
    have t: "t \<in> set (edges_at inE y)"
      using Cons.prems(2) [of y] by (metis count_list_0_iff list.set_intros(1))
    have cnt: "count_list ys b = count_list (edges_at ?inE1 b) t" for b
      using Cons.prems(2) [of b] t by (auto simp: edge_simps count_list_remove1)
    have run: "relaxEdges t ys ?inE1 ?q1 = (inE', q')"
      using Cons.prems(1) by (simp add: Let_def edge_simps)
    have flt: "filter (\<lambda>x. x \<noteq> t) (edges_at ?inE1 b) = filter (\<lambda>x. x \<noteq> t) (edges_at inE b)" for b
      by (simp add: edge_simps filter_neq_remove1)
    obtain new where new: "q' = ?q1 @ new" "distinct new"
        "set new = {b \<in> set ys. filter (\<lambda>x. x \<noteq> t) (edges_at inE b) = []}"
      and ins: "\<forall>b. edges_at inE' b = filter (\<lambda>x. x \<noteq> t) (edges_at inE b)"
      using Cons.IH [OF run cnt] unfolding flt by blast
    show ?case
    proof (cases "?r = []")
      case True
      then have y: "y \<notin> set ys" using cnt [of y] by (simp add: edge_simps count_list_0_iff)
      have fy: "filter (\<lambda>x. x \<noteq> t) (edges_at inE y) = []"
        using True filter_neq_remove1 [of t "edges_at inE y"] by simp
      have "q' = q @ (y # new)" using new(1) True by simp
      moreover have "distinct (y # new)" using new(2,3) y by simp
      moreover have "set (y # new) = {b \<in> set (y # ys). filter (\<lambda>x. x \<noteq> t) (edges_at inE b) = []}"
        unfolding list.set(2) new(3) using fy by blast
      ultimately show ?thesis using ins by blast
    next
      case False
      have "y \<in> set ys" if "filter (\<lambda>x. x \<noteq> t) (edges_at inE y) = []"
      proof -
        obtain z where z: "z \<in> set ?r" using False by (cases ?r) auto
        then have "z \<in> set (edges_at inE y)" by (rule subsetD [OF set_remove1_subset])
        with that z have "t \<in> set ?r" by (auto simp: filter_empty_conv)
        then have "count_list ?r t \<noteq> 0" by (simp only: count_list_0_iff not_not)
        moreover have "count_list ys y = count_list ?r t"
          using cnt [of y] by (simp only: edge_simps if_True simp_thms)
        ultimately have "count_list ys y \<noteq> 0" by argo
        then show ?thesis by (simp only: count_list_0_iff not_not)
      qed
      then have "set new = {b \<in> set (y # ys). filter (\<lambda>x. x \<noteq> t) (edges_at inE b) = []}"
        unfolding list.set(2) new(3) by blast
      moreover have "q' = q @ new" using new(1) False by simp
      ultimately show ?thesis using ins new(2) by blast
    qed
  qed
  then show "edges_at inE' b = filter (\<lambda>x. x \<noteq> t) (edges_at inE b)"
    and "\<exists>new. q' = q @ new \<and> distinct new
           \<and> set new = {b \<in> set ys. filter (\<lambda>x. x \<noteq> t) (edges_at inE b) = []}" by blast+
qed

text \<open>A list in which every task comes after all its predecessors.\<close>

definition topo_list :: "edges \<Rightarrow> task_ref list \<Rightarrow> bool" where
  "topo_list inE xs \<longleftrightarrow> (\<forall>i < length xs. set (edges_at inE (xs ! i)) \<subseteq> set (take i xs))"

lemma topo_list_Nil [simp]: "topo_list inE []"
  by (simp add: topo_list_def)

lemma topo_list_snoc [simp]:
  "topo_list inE (xs @ [x]) \<longleftrightarrow> topo_list inE xs \<and> set (edges_at inE x) \<subseteq> set xs"
  by (auto simp: topo_list_def nth_append less_Suc_eq)

lemma topo_list_closed:
  assumes "topo_list inE xs" "x \<in> set xs"
  shows "set (edges_at inE x) \<subseteq> set xs"
proof -
  obtain i where "i < length xs" "xs ! i = x" using assms(2) by (auto simp: in_set_conv_nth)
  then have "set (edges_at inE x) \<subseteq> set (take i xs)" using assms(1) by (auto simp: topo_list_def)
  then show ?thesis using set_take_subset by fast
qed

definition edges_within :: "task_ref set \<Rightarrow> edges \<Rightarrow> bool" where
  "edges_within T inE \<longleftrightarrow> edge_rel inE \<subseteq> T \<times> T"

lemma edges_withinD:
  assumes "edges_within T inE" "a \<in> set (edges_at inE b)"
  shows "a \<in> T" "b \<in> T"
  using assms unfolding edges_within_def edge_rel_def by blast+

definition kahn_inv ::
  "task_ref set \<Rightarrow> edges \<Rightarrow> edges \<Rightarrow> task_ref list \<Rightarrow> edges \<Rightarrow> edges \<Rightarrow> task_ref list \<Rightarrow> bool" where
  "kahn_inv T inE0 outE0 P inE outE q \<longleftrightarrow>
     distinct (P @ q) \<and> set (P @ q) \<subseteq> T
   \<and> (\<forall>b. edges_at inE b = filter (\<lambda>x. x \<notin> set P) (edges_at inE0 b))
   \<and> (\<forall>a. edges_at outE a = (if a \<in> set P then [] else edges_at outE0 a))
   \<and> (\<forall>x\<in>T. edges_at inE x = [] \<longrightarrow> x \<in> set (P @ q))
   \<and> (\<forall>x\<in>set q. set (edges_at inE0 x) \<subseteq> set P)
   \<and> topo_list inE0 P"

lemma kahn_inv_init:
  assumes "distinct tasks"
  shows "kahn_inv (set tasks) inE outE [] inE outE (filter (\<lambda>t. edges_at inE t = []) tasks)"
  using assms by (auto simp: kahn_inv_def)

lemma kahn_inv_step:
  assumes inv: "kahn_inv T inE0 outE0 P inE outE (t # q)"
    and bal: "balanced inE0 outE0" and wi: "edges_within T inE0"
    and run: "relaxEdges t (edges_at outE t) inE q = (inE', q')"
  shows "kahn_inv T inE0 outE0 (P @ [t]) inE' (edges_erase outE t) q'"
    and "\<exists>new. q' = q @ new \<and> (\<forall>b\<in>set new. t \<in> set (edges_at inE0 b)
                                 \<and> set (edges_at inE0 b) \<subseteq> set (P @ [t]))"
proof -
  have D: "distinct (P @ t # q)" "set (P @ t # q) \<subseteq> T"
    and I: "\<And>b. edges_at inE b = filter (\<lambda>x. x \<notin> set P) (edges_at inE0 b)"
    and outE: "\<And>a. edges_at outE a = (if a \<in> set P then [] else edges_at outE0 a)"
    and R: "\<And>x. x \<in> T \<Longrightarrow> edges_at inE x = [] \<Longrightarrow> x \<in> set (P @ t # q)"
    and Q: "\<And>x. x \<in> set (t # q) \<Longrightarrow> set (edges_at inE0 x) \<subseteq> set P"
    and Tp: "topo_list inE0 P"
    using inv by (auto simp: kahn_inv_def)
  have tP: "t \<notin> set P" using D by simp
  have cnt: "count_list (edges_at outE t) b = count_list (edges_at inE b) t" for b
  proof -
    have "count_list (filter (\<lambda>x. x \<notin> set P) (edges_at inE0 b)) t = count_list (edges_at inE0 b) t"
      using tP by (intro count_list_filter')
    with balancedD [OF bal, of t b] show ?thesis by (simp add: I outE tP)
  qed
  note spec = relaxEdges_spec [OF run cnt]
  have I': "edges_at inE' b = filter (\<lambda>x. x \<notin> set (P @ [t])) (edges_at inE0 b)" for b
    by (simp add: spec(1) I) (metis (mono_tags, opaque_lifting))
  obtain new where new: "q' = q @ new" "distinct new"
      "set new = {b \<in> set (edges_at outE t). edges_at inE' b = []}"
    using spec(2) unfolding spec(1) [symmetric] by blast
  have newD: "t \<in> set (edges_at inE0 b)" "set (edges_at inE0 b) \<subseteq> set (P @ [t])" "b \<in> T"
      if "b \<in> set new" for b
  proof -
    have "b \<in> set (edges_at outE0 t)" using that new(3) outE tP by auto
    then show "t \<in> set (edges_at inE0 b)" using balanced_mem [OF bal] by blast
    then have "(t, b) \<in> edge_rel inE0" by (simp add: edge_rel_iff)
    then show "b \<in> T" using wi unfolding edges_within_def by blast
    have "edges_at inE' b = []" using that new(3) by auto
    then show "set (edges_at inE0 b) \<subseteq> set (P @ [t])" by (auto simp: I' filter_empty_conv)
  qed
  then show "\<exists>new. q' = q @ new \<and> (\<forall>b\<in>set new. t \<in> set (edges_at inE0 b)
                                 \<and> set (edges_at inE0 b) \<subseteq> set (P @ [t]))"
    using new(1) by blast
  have disj: "b \<notin> set (P @ t # q)" if "b \<in> set new" for b
  proof
    assume "b \<in> set (P @ t # q)"
    then have "set (edges_at inE0 b) \<subseteq> set P"
      using Q topo_list_closed [OF Tp] by auto
    with newD(1) [OF that] tP show False by blast
  qed
  have "x \<in> set ((P @ [t]) @ q')" if x: "x \<in> T" "edges_at inE' x = []" for x
  proof (cases "edges_at inE x = []")
    case True
    then show ?thesis using R [OF x(1)] new(1) by auto
  next
    case False
    have "t \<in> set (edges_at inE x)"
      using False x(2) by (auto simp: spec(1) filter_empty_conv neq_Nil_conv)
    then have "t \<in> set (edges_at inE0 x)" by (simp add: I)
    then have "x \<in> set (edges_at outE t)" using balanced_mem [OF bal] outE tP by auto
    then show ?thesis using new x by auto
  qed
  moreover have "distinct ((P @ [t]) @ q')"
    using D(1) new(1,2) disj by auto
  moreover have "set ((P @ [t]) @ q') \<subseteq> T"
    using D(2) new(1) newD(3) by auto
  moreover have "set (edges_at inE0 x) \<subseteq> set (P @ [t])" if "x \<in> set q'" for x
    using that new(1) Q [of x] newD(2) [of x] by auto
  moreover have "topo_list inE0 (P @ [t])"
    using Tp Q [of t] by simp
  moreover have "edges_at (edges_erase outE t) a = (if a \<in> set (P @ [t]) then [] else edges_at outE0 a)" for a
    by (simp add: edge_simps outE)
  ultimately show "kahn_inv T inE0 outE0 (P @ [t]) inE' (edges_erase outE t) q'"
    unfolding kahn_inv_def using I' by blast
qed

text \<open>Levels: a task without predecessors is on level 0, any other one level above
  the highest of its predecessors.\<close>

definition level_eq :: "task_ref set \<Rightarrow> edges \<Rightarrow> (task_ref \<Rightarrow> nat) \<Rightarrow> bool" where
  "level_eq T inE lv \<longleftrightarrow> (\<forall>x\<in>T. lv x =
     (if edges_at inE x = [] then 0 else Suc (Max (lv ` set (edges_at inE x)))))"

lemma level_eq_edge:
  assumes "level_eq T inE lv" "b \<in> T" "a \<in> set (edges_at inE b)"
  shows "lv a < lv b"
proof -
  have "edges_at inE b \<noteq> []" using assms(3) by auto
  then have "lv b = Suc (Max (lv ` set (edges_at inE b)))"
    using assms(1,2) by (simp add: level_eq_def)
  moreover have "lv a \<le> Max (lv ` set (edges_at inE b))" using assms(3) by (intro Max_ge) auto
  ultimately show ?thesis by simp
qed

text \<open>The queue of the sort never spans more than two adjacent levels, so that the
  processed list is sorted by level.\<close>

definition level_front :: "(task_ref \<Rightarrow> nat) \<Rightarrow> task_ref list \<Rightarrow> task_ref list \<Rightarrow> bool" where
  "level_front lv P q \<longleftrightarrow> sorted (map lv (P @ q)) \<and> (\<forall>x\<in>set q. lv x \<le> Suc (lv (hd q)))"

lemma level_front_step:
  assumes lf: "level_front lv P (t # q)" and eq: "level_eq T inE lv"
    and new: "\<And>b. b \<in> set new \<Longrightarrow> b \<in> T \<and> t \<in> set (edges_at inE b) \<and> set (edges_at inE b) \<subseteq> set (P @ [t])"
  shows "level_front lv (P @ [t]) (q @ new)"
proof -
  have le: "lv x \<le> lv t" if "x \<in> set (P @ [t])" for x
    using lf that by (auto simp: level_front_def sorted_append)
  have lvb: "lv b = Suc (lv t)" if "b \<in> set new" for b
  proof -
    have ne: "edges_at inE b \<noteq> []" using new [OF that] by auto
    have "Max (lv ` set (edges_at inE b)) = lv t"
      using new [OF that] le by (intro Max_eqI) auto
    with ne show ?thesis using eq new [OF that] by (simp add: level_eq_def)
  qed
  have qle: "lv t \<le> lv x \<and> lv x \<le> Suc (lv t)" if "x \<in> set q" for x
    using lf that by (auto simp: level_front_def sorted_append)
  have s1: "sorted (map lv new)"
    using lvb by (auto simp: sorted_iff_nth_mono)
  have s2: "sorted (map lv q)" and s3: "sorted (map lv (P @ [t]))"
    using lf by (auto simp: level_front_def sorted_append)
  have "\<forall>x\<in>set q. \<forall>b\<in>set new. lv x \<le> lv b"
    using qle lvb by simp
  with s1 s2 have s4: "sorted (map lv (q @ new))"
    by (simp add: sorted_append)
  have qn: "lv t \<le> lv y" if "y \<in> set (q @ new)" for y
    using that qle [of y] lvb [of y] by auto
  have "\<forall>x\<in>set (P @ [t]). \<forall>y\<in>set (q @ new). lv x \<le> lv y"
  proof (intro ballI)
    fix x y assume "x \<in> set (P @ [t])" "y \<in> set (q @ new)"
    then show "lv x \<le> lv y" by (rule le_trans [OF le qn])
  qed
  with s3 s4 have srt: "sorted (map lv ((P @ [t]) @ (q @ new)))"
    by (rule sorted_map_appendI)
  have ub: "lv x \<le> Suc (lv t)" if "x \<in> set (q @ new)" for x
    using that qle [of x] lvb [of x] by auto
  have "lv x \<le> Suc (lv (hd (q @ new)))" if x: "x \<in> set (q @ new)" for x
  proof -
    have "hd (q @ new) \<in> set (q @ new)" using x by (intro hd_in_set) auto
    then have "Suc (lv t) \<le> Suc (lv (hd (q @ new)))" using qn by (simp only: Suc_le_mono)
    with ub [OF x] show ?thesis by (rule le_trans)
  qed
  with srt show ?thesis by (simp add: level_front_def)
qed

lemma kahn_run:
  assumes "kahn r V inE outE q acc = (inE', outE', res)"
    and "kahn_inv T inE0 outE0 P inE outE q"
    and "balanced inE0 outE0" "edges_within T inE0"
    and "acc = filter (\<lambda>x. x \<in> V \<and> x \<noteq> r) P"
  shows "\<exists>P'. kahn_inv T inE0 outE0 P' inE' outE' [] \<and> res = filter (\<lambda>x. x \<in> V \<and> x \<noteq> r) P'
           \<and> (\<forall>lv. level_eq T inE0 lv \<longrightarrow> level_front lv P q \<longrightarrow> sorted (map lv P'))"
  using assms
proof (induction r V inE outE q acc arbitrary: P rule: kahn.induct)
  case (1 r V inE outE acc)
  then show ?case by (auto simp: level_front_def)
next
  case (2 r V inE outE t q acc)
  obtain inE1 q1 where run: "relaxEdges t (edges_at outE t) inE q = (inE1, q1)"
    by (cases "relaxEdges t (edges_at outE t) inE q")
  let ?acc = "if t \<notin> V then acc else if t \<noteq> r then acc @ [t] else acc"
  note step = kahn_inv_step [OF 2(3) 2(4) 2(5) run]
  have "\<exists>P'. kahn_inv T inE0 outE0 P' inE' outE' [] \<and> res = filter (\<lambda>x. x \<in> V \<and> x \<noteq> r) P'
      \<and> (\<forall>lv. level_eq T inE0 lv \<longrightarrow> level_front lv (P @ [t]) q1 \<longrightarrow> sorted (map lv P'))"
    using 2(2) run by (intro 2(1) [OF refl run [symmetric] refl _ step(1) 2(4) 2(5)]) (auto simp: 2(6) Let_def)
  moreover have "level_front lv (P @ [t]) q1"
    if "level_eq T inE0 lv" "level_front lv P (t # q)" for lv
  proof -
    obtain new where new: "q1 = q @ new" "\<forall>b\<in>set new. t \<in> set (edges_at inE0 b)
                                 \<and> set (edges_at inE0 b) \<subseteq> set (P @ [t])" using step(2) by blast
    moreover have "set new \<subseteq> T" using step(1) new(1) by (auto simp: kahn_inv_def)
    ultimately show ?thesis
      using level_front_step [OF that(2,1), of new] by auto
  qed
  ultimately show ?case by blast
qed

section \<open>When the sort succeeds, and what it returns\<close>

lemma topo_list_acyclic:
  assumes "topo_list inE P" "distinct P" "edge_rel inE \<subseteq> UNIV \<times> set P"
  shows "acyclic (edge_rel inE)"
proof -
  have "x \<notin> set P" if cyc: "(x, x) \<in> (edge_rel inE)\<^sup>+" for x
    using assms(1,2)
  proof (induction P rule: rev_induct)
    case (snoc y P)
    have closed: "a \<in> set P" if "(a, b) \<in> (edge_rel inE)\<^sup>*" "b \<in> set P" for a b
      using that
      by (induction rule: converse_rtrancl_induct)
        (use topo_list_closed [of inE P] snoc.prems(1) in \<open>auto simp: edge_rel_iff\<close>)
    have "x \<noteq> y"
    proof
      assume [simp]: "x = y"
      obtain z where "(x, z) \<in> (edge_rel inE)\<^sup>*" "(z, x) \<in> edge_rel inE"
        using tranclD2 [OF cyc] by blast
      then have "x \<in> set P" using snoc.prems(1) by (intro closed [of x z]) (auto simp: edge_rel_iff)
      then show False using snoc.prems(2) by simp
    qed
    with snoc show ?case by simp
  qed simp
  moreover have "x \<in> set P" if "(x, x) \<in> (edge_rel inE)\<^sup>+" for x
    using that assms(3) by (metis SigmaD2 subsetD tranclD2)
  ultimately show ?thesis by (auto simp: acyclic_def)
qed

lemma kahn_inv_done:
  assumes "kahn_inv T inE0 outE0 P inE outE []" "edges_within T inE0" "finite T"
  shows "T \<subseteq> set P \<longleftrightarrow> acyclic (edge_rel inE0)"
proof
  assume T: "T \<subseteq> set P"
  have "edge_rel inE0 \<subseteq> UNIV \<times> set P" using T assms(2) by (auto simp: edges_within_def)
  then show "acyclic (edge_rel inE0)"
    using assms(1) by (intro topo_list_acyclic [of _ P]) (auto simp: kahn_inv_def)
next
  assume ac: "acyclic (edge_rel inE0)"
  have "finite (edge_rel inE0)"
    using assms(2,3) by (auto simp: edges_within_def intro: finite_subset [of _ "T \<times> T"])
  with ac have wf: "wf (edge_rel inE0)" by (intro finite_acyclic_wf)
  show "T \<subseteq> set P"
  proof
    fix x assume "x \<in> T"
    with wf show "x \<in> set P"
    proof (induction x rule: wf_induct_rule)
      case (less x)
      have "y \<in> set P" if "y \<in> set (edges_at inE0 x)" for y
        using less.IH [of y] that edges_withinD [OF assms(2) that] by (simp add: edge_rel_iff)
      then have "edges_at inE x = []"
        using assms(1) by (auto simp: kahn_inv_def filter_empty_conv)
      with less.prems show ?case using assms(1) by (auto simp: kahn_inv_def)
    qed
  qed
qed

lemma topologicalSort_run:
  assumes "distinct tasks" "balanced inE outE" "edges_within (set tasks) inE"
  obtains P where "distinct P" "set P \<subseteq> set tasks" "topo_list inE P"
    "topologicalSort r tasks inE outE =
       (if acyclic (edge_rel inE)
        then ok (filter (\<lambda>x. (x, r) \<in> (edge_rel inE)\<^sup>* \<and> x \<noteq> r) P)
        else throw SchedulingException)"
    "acyclic (edge_rel inE) \<longleftrightarrow> set P = set tasks"
    "\<And>lv. level_eq (set tasks) inE lv \<Longrightarrow> sorted (map lv P)"
proof -
  let ?V = "backSearch inE [r] {}" and ?q = "filter (\<lambda>t. edges_at inE t = []) tasks"
  obtain inE' outE' s where run: "kahn r ?V inE outE ?q [] = (inE', outE', s)"
    by (cases "kahn r ?V inE outE ?q []")
  from kahn_run [OF run kahn_inv_init [OF assms(1)] assms(2,3)]
  obtain P where inv: "kahn_inv (set tasks) inE outE P inE' outE' []"
    and s: "s = filter (\<lambda>x. x \<in> ?V \<and> x \<noteq> r) P"
    and lv: "\<And>lv. level_eq (set tasks) inE lv \<Longrightarrow> level_front lv [] ?q \<Longrightarrow> sorted (map lv P)"
    by auto
  note d = kahn_inv_done [OF inv assms(3)]
  have sub: "set P \<subseteq> set tasks" using inv by (simp add: kahn_inv_def)
  have empties: "(\<forall>t\<in>set tasks. edges_at outE' t = [] \<and> edges_at inE' t = []) \<longleftrightarrow> set P = set tasks"
  proof
    assume "\<forall>t\<in>set tasks. edges_at outE' t = [] \<and> edges_at inE' t = []"
    with inv sub show "set P = set tasks" by (auto simp: kahn_inv_def)
  next
    assume P: "set P = set tasks"
    then have "edges_at inE' t = []" for t
      using inv edges_withinD(1) [OF assms(3)] by (auto simp: kahn_inv_def filter_empty_conv)
    with P inv show "\<forall>t\<in>set tasks. edges_at outE' t = [] \<and> edges_at inE' t = []"
      by (simp add: kahn_inv_def)
  qed
  have front: "level_front lv [] ?q" if "level_eq (set tasks) inE lv" for lv
  proof -
    have z: "lv x = 0" if "x \<in> set ?q" for x
      using that \<open>level_eq (set tasks) inE lv\<close> by (simp add: level_eq_def)
    then have "map lv ?q = map (\<lambda>_. 0) ?q" by (intro map_cong refl)
    then have "sorted (map lv ?q)" by (simp add: map_replicate_const)
    with z show ?thesis by (simp add: level_front_def)
  qed
  have top: "topologicalSort r tasks inE outE =
      (if \<exists>t\<in>set tasks. edges_at outE' t \<noteq> [] \<or> edges_at inE' t \<noteq> []
       then throw SchedulingException else ok s)"
    by (simp only: topologicalSort_def Let_def run prod.case)
  have ac: "acyclic (edge_rel inE) \<longleftrightarrow> set P = set tasks" using d sub by auto
  show ?thesis
  proof (rule that)
    show "distinct P" "topo_list inE P" using inv by (auto simp: kahn_inv_def)
    show "set P \<subseteq> set tasks" by fact
    show "acyclic (edge_rel inE) \<longleftrightarrow> set P = set tasks" by fact
    show "sorted (map lv P)" if "level_eq (set tasks) inE lv" for lv
      using lv front that by blast
    show "topologicalSort r tasks inE outE =
       (if acyclic (edge_rel inE)
        then ok (filter (\<lambda>x. (x, r) \<in> (edge_rel inE)\<^sup>* \<and> x \<noteq> r) P)
        else throw SchedulingException)"
      unfolding top ac empties [symmetric] s backSearch_root by auto
  qed
qed

lemma topo_list_filter:
  assumes "topo_list inE P" "\<And>x y. x \<in> set P \<Longrightarrow> keep x \<Longrightarrow> y \<in> set (edges_at inE x) \<Longrightarrow> keep y"
  shows "topo_list inE (filter keep P)"
  using assms
proof (induction P rule: rev_induct)
  case (snoc x P)
  have "topo_list inE (filter keep P)"
    using snoc.prems by (intro snoc.IH) auto
  moreover have "set (edges_at inE x) \<subseteq> set (filter keep P)" if "keep x"
    using snoc.prems(1) snoc.prems(2) [of x] that by auto
  ultimately show ?case by simp
qed simp

lemma fold_max_eq:
  "fold (\<lambda>b m. if f b > m then f b else m) xs (m :: nat) = Max (insert m (f ` set xs))"
proof (induction xs arbitrary: m)
  case (Cons x xs)
  have "(if f x > m then f x else m) = max m (f x)" by simp
  with Cons show ?case
    by (cases "xs = []") (simp_all add: Max_insert2 insert_commute max.assoc max.left_commute)
qed simp

lemma taskLevel_eq:
  "taskLevel inE tm x = (if edges_at inE x = [] then 0 else Suc (Max (tm ` set (edges_at inE x))))"
proof (cases "edges_at inE x = []")
  case False
  then have "Max (insert 0 (tm ` set (edges_at inE x))) = Max (tm ` set (edges_at inE x))"
    by (subst Max_insert) auto
  with False show ?thesis
    unfolding taskLevel_def fold_max_eq [of tm] by simp
qed (simp add: taskLevel_def)

lemma levelTimes_snoc:
  "levelTimes inE (xs @ [x]) tm =
     (levelTimes inE xs tm)(x := taskLevel inE (levelTimes inE xs tm) x)"
  by (induction xs arbitrary: tm) auto

lemma level_eq_cong:
  assumes "level_eq T inE lv" "\<And>x. x \<in> T \<Longrightarrow> set (edges_at inE x) \<subseteq> T"
    "\<And>x. x \<in> T \<Longrightarrow> lv' x = lv x"
  shows "level_eq T inE lv'"
proof -
  have "lv' ` set (edges_at inE x) = lv ` set (edges_at inE x)" if "x \<in> T" for x
    using assms(2) [OF that] assms(3) by (intro image_cong) auto
  with assms(1,3) show ?thesis by (simp add: level_eq_def)
qed

lemma levelTimes_level_eq:
  assumes "topo_list inE xs" "distinct xs"
  shows "level_eq (set xs) inE (levelTimes inE xs tm)"
  using assms
proof (induction xs rule: rev_induct)
  case (snoc x xs)
  let ?tm = "levelTimes inE xs tm" and ?tm' = "levelTimes inE (xs @ [x]) tm"
  have old: "?tm' y = ?tm y" if "y \<in> set xs" for y
    using that snoc.prems(2) by (auto simp: levelTimes_snoc)
  have "level_eq (set xs) inE ?tm'"
    using snoc topo_list_closed [of inE xs] old by (intro level_eq_cong [OF snoc.IH]) auto
  moreover have img: "?tm' ` set (edges_at inE x) = ?tm ` set (edges_at inE x)"
    using snoc.prems(1) old by (intro image_cong) auto
  have "?tm' x = (if edges_at inE x = [] then 0 else Suc (Max (?tm' ` set (edges_at inE x))))"
    unfolding img by (simp add: levelTimes_snoc taskLevel_eq)
  ultimately show ?case by (simp add: level_eq_def)
qed (simp add: level_eq_def)

lemma level_eq_unique:
  assumes "topo_list inE xs" "level_eq (set xs) inE lv" "level_eq (set xs) inE lv'" "x \<in> set xs"
  shows "lv x = lv' x"
  using assms
proof (induction xs arbitrary: x rule: rev_induct)
  case (snoc y xs)
  have sub: "level_eq (set xs) inE l" if "level_eq (set (xs @ [y])) inE l" for l
    using that by (simp add: level_eq_def)
  have eq: "lv z = lv' z" if "z \<in> set xs" for z
    using snoc.IH [OF _ sub [OF snoc.prems(2)] sub [OF snoc.prems(3)] that] snoc.prems(1) by simp
  have "lv ` set (edges_at inE y) = lv' ` set (edges_at inE y)"
    using snoc.prems(1) eq by (intro image_cong) auto
  with eq snoc.prems(2-) show ?case by (auto simp: level_eq_def)
qed simp

text \<open>What a successful sort returns.\<close>

lemma topologicalSort_ok:
  assumes g: "distinct tasks" "balanced inE outE" "edges_within (set tasks) inE" "r \<in> set tasks"
    and s: "topologicalSort r tasks inE outE = ok s"
  shows "distinct s"
    and "set s = {x. (x, r) \<in> (edge_rel inE)\<^sup>+}"
    and "topo_list inE s"
    and "sorted (map (levelTimes inE s (\<lambda>_. 0)) s)"
    and "acyclic (edge_rel inE)"
proof -
  from topologicalSort_run [OF g(1-3), of r]
  obtain P where P: "distinct P" "set P \<subseteq> set tasks" "topo_list inE P"
    and res: "topologicalSort r tasks inE outE =
       (if acyclic (edge_rel inE)
        then ok (filter (\<lambda>x. (x, r) \<in> (edge_rel inE)\<^sup>* \<and> x \<noteq> r) P)
        else throw SchedulingException)"
    and ac: "acyclic (edge_rel inE) \<longleftrightarrow> set P = set tasks"
    and lv: "\<And>lv. level_eq (set tasks) inE lv \<Longrightarrow> sorted (map lv P)" by blast
  let ?keep = "\<lambda>x. (x, r) \<in> (edge_rel inE)\<^sup>* \<and> x \<noteq> r"
  show acyc: "acyclic (edge_rel inE)" using s res by (auto split: if_splits)
  then have s': "s = filter ?keep P" using s res by simp
  have PT: "set P = set tasks" using ac acyc by blast
  show "distinct s" using P by (simp add: s')
  have keepcl: "?keep y" if "?keep x" "y \<in> set (edges_at inE x)" for x y
  proof -
    have e: "(y, x) \<in> edge_rel inE" using that by (simp add: edge_rel_iff)
    have "y \<noteq> r" using acyc e that(1) unfolding acyclic_def by (metis rtrancl_into_trancl2)
    with e that(1) show ?thesis by (meson converse_rtrancl_into_rtrancl)
  qed
  then show topo: "topo_list inE s" unfolding s' by (intro topo_list_filter [OF P(3)])
  have "x \<in> set tasks" if "(x, r) \<in> (edge_rel inE)\<^sup>*" for x
    using that
  proof (cases rule: converse_rtranclE)
    case (step y)
    then show ?thesis using edges_withinD [OF g(3), of x y] by (simp add: edge_rel_iff)
  qed (use g(4) in simp)
  then have "set s = {x. ?keep x}" by (auto simp: s' PT)
  also have "\<dots> = {x. (x, r) \<in> (edge_rel inE)\<^sup>+}"
    using acyc by (auto simp: acyclic_def rtrancl_eq_or_trancl)
  finally show "set s = {x. (x, r) \<in> (edge_rel inE)\<^sup>+}" .
  let ?lv = "levelTimes inE P (\<lambda>_. 0)"
  have eqP: "level_eq (set P) inE ?lv" using P by (intro levelTimes_level_eq)
  then have "level_eq (set s) inE ?lv" by (auto simp: level_eq_def s')
  moreover have "level_eq (set s) inE (levelTimes inE s (\<lambda>_. 0))"
    using topo \<open>distinct s\<close> by (rule levelTimes_level_eq)
  ultimately have "map (levelTimes inE s (\<lambda>_. 0)) s = map ?lv s"
    using level_eq_unique [OF topo] by (intro map_cong refl) blast
  moreover have "sorted (map ?lv s)"
    unfolding s' using lv [of ?lv] eqP PT by (simp add: sorted_filter)
  ultimately show "sorted (map (levelTimes inE s (\<lambda>_. 0)) s)" by (simp only:)
qed

section \<open>The levels\<close>

lemma fillLevels_eq:
  assumes "\<And>t. t \<in> set ts \<Longrightarrow> tm t < length ls"
  shows "fillLevels tm ts ls = ok (map (\<lambda>i. ls ! i @ filter (\<lambda>t. tm t = i) ts) [0..<length ls])"
  using assms
proof (induction ts arbitrary: ls)
  case Nil
  show ?case by (simp add: map_nth)
next
  case (Cons t ts)
  have "fillLevels tm ts (ls[tm t := ls ! tm t @ [t]]) =
        ok (map (\<lambda>i. ls[tm t := ls ! tm t @ [t]] ! i @ filter (\<lambda>t. tm t = i) ts) [0..<length ls])"
    using Cons.prems by (subst Cons.IH) auto
  also have "\<dots> = ok (map (\<lambda>i. ls ! i @ filter (\<lambda>u. tm u = i) (t # ts)) [0..<length ls])"
    using Cons.prems by (auto simp: nth_list_update)
  finally show ?case using Cons.prems by simp
qed

lemma sorted_map_last:
  assumes "sorted (map f s)" "t \<in> set s"
  shows "(f t :: nat) \<le> f (last s)"
  using assms by (induction s rule: rev_induct) (auto simp: sorted_append)

text \<open>The vector of levels sized after the last task is large enough for all.\<close>

lemma levelSchedule_eq:
  assumes "s \<noteq> []" "sorted (map (levelTimes inE s (\<lambda>_. 0)) s)"
  shows "levelSchedule s inE =
    ok (map (\<lambda>i. filter (\<lambda>t. levelTimes inE s (\<lambda>_. 0) t = i) s)
          [0..<Suc (levelTimes inE s (\<lambda>_. 0) (last s))])"
proof -
  let ?tm = "levelTimes inE s (\<lambda>_. 0)"
  have "?tm t < Suc (?tm (last s))" if "t \<in> set s" for t
    using sorted_map_last [OF assms(2) that] by simp
  then show ?thesis
    using assms(1) by (auto simp: levelSchedule_def Let_def fillLevels_eq simp del: replicate_Suc upt_Suc)
qed

lemma concat_by_level:
  assumes "sorted (map f s)" "\<And>t. t \<in> set s \<Longrightarrow> f t < n"
  shows "concat (map (\<lambda>i. filter (\<lambda>t. f t = i) s) [0..<n]) = s"
  using assms
proof (induction s rule: rev_induct)
  case (snoc t s)
  let ?c = "\<lambda>s is. concat (map (\<lambda>i. filter (\<lambda>t. f t = i) s) is)"
  have n: "[0..<n] = [0..<f t] @ f t # [Suc (f t)..<n]"
    using snoc.prems(2) [of t] upt_add_eq_append [of 0 "f t" "n - f t"] upt_conv_Cons [of "f t" n] by simp
  have le: "f u \<le> f t" if "u \<in> set s" for u
    using snoc.prems(1) that by (auto simp: sorted_append)
  have lo: "?c (s @ [t]) [0..<f t] = ?c s [0..<f t]"
    by (intro arg_cong [of _ _ concat] map_cong) auto
  have "filter (\<lambda>v. f v = i) u = []" if "Suc (f t) \<le> i" "\<And>v. v \<in> set u \<Longrightarrow> f v \<le> f t" for u i
    unfolding filter_empty_conv
  proof
    fix v assume "v \<in> set u"
    then show "f v \<noteq> i" using that(1) that(2) [of v] by linarith
  qed
  note none = this
  have hi: "?c (s @ [t]) [Suc (f t)..<n] = []" "?c s [Suc (f t)..<n] = []"
    unfolding concat_eq_Nil_conv set_map using le by (auto intro!: none)
  have "?c s [0..<n] = s" using snoc.prems by (intro snoc.IH) (auto simp: sorted_append)
  then have "?c s [0..<f t] @ filter (\<lambda>u. f u = f t) s = s"
    unfolding n by (simp add: hi(2))
  then show ?case unfolding n by (simp add: lo hi(1) del: filter_append) simp
qed simp

lemma topo_list_nth:
  "topo_list inE s \<Longrightarrow> j < length s \<Longrightarrow> (a, s ! j) \<in> edge_rel inE \<Longrightarrow> a \<in> set (take j s)"
  by (auto simp: topo_list_def edge_rel_iff)

text \<open>A list of levels in which every predecessor lies on an earlier level.\<close>

definition levels_ok :: "edges \<Rightarrow> task_ref list list \<Rightarrow> bool" where
  "levels_ok inE levels \<longleftrightarrow>
     (\<forall>j < length levels. \<forall>b \<in> set (levels ! j). \<forall>a \<in> set (edges_at inE b).
        \<exists>i < j. a \<in> set (levels ! i))"

lemma levelSchedule_levels:
  assumes s: "s \<noteq> []" "distinct s" "topo_list inE s"
    and srt: "sorted (map (levelTimes inE s (\<lambda>_. 0)) s)"
  obtains levels where "levelSchedule s inE = ok levels" "concat levels = s" "levels_ok inE levels"
proof -
  let ?tm = "levelTimes inE s (\<lambda>_. 0)" and ?n = "Suc (levelTimes inE s (\<lambda>_. 0) (last s))"
  let ?L = "map (\<lambda>i. filter (\<lambda>t. ?tm t = i) s) [0..<?n]"
  have ub: "?tm t < ?n" if "t \<in> set s" for t
    using sorted_map_last [OF srt that] by simp
  have lv: "level_eq (set s) inE ?tm" by (rule levelTimes_level_eq [OF s(3,2)])
  have "\<exists>i < j. a \<in> set (?L ! i)"
    if "j < length ?L" "b \<in> set (?L ! j)" "a \<in> set (edges_at inE b)" for j a b
  proof -
    have b: "b \<in> set s" "?tm b = j" using that(1,2) by (auto simp del: upt_Suc)
    have "a \<in> set s" using topo_list_closed [OF s(3) b(1)] that(3) by blast
    moreover have "?tm a < j" using level_eq_edge [OF lv b(1) that(3)] b(2) by simp
    ultimately show ?thesis
      using that(1) by (intro exI [of _ "?tm a"]) (auto simp del: upt_Suc)
  qed
  then have "levels_ok inE ?L" unfolding levels_ok_def by blast
  with that [OF levelSchedule_eq [OF s(1) srt] concat_by_level [OF srt ub]] show thesis by blast
qed

section \<open>From tasks to schedules\<close>

lemma resolveDeps_facts:
  assumes "resolveDeps tbl gd mRoot tasks [] [] = (ts, inE, outE)" "distinct (tasks @ [mRoot])"
  shows "distinct ts" "balanced inE outE" "edges_within (set ts) inE" "mRoot \<in> set ts"
    "edge_rel inE = needs tbl gd mRoot ts"
  using resolveDeps_graph [OF assms(1)] assms(2)
  by (auto simp: edges_within_def needs_def)

definition demo_tbl :: "task_ref \<Rightarrow> task" where
  "demo_tbl t =
     (if t = 0 then \<lparr>mName = ''MnaStep'', mAttributeDependencies = [Some 1],
                    mModifiedAttributes = [Some 2], mPrevStepDependencies = [Some 2]\<rparr>
      else if t = 1 then \<lparr>mName = ''Source'', mAttributeDependencies = [],
                    mModifiedAttributes = [Some 1], mPrevStepDependencies = []\<rparr>
      else if t = 2 then \<lparr>mName = ''Logger'', mAttributeDependencies = [Some 2],
                    mModifiedAttributes = [external], mPrevStepDependencies = []\<rparr>
      else if t = 3 then \<lparr>mName = ''Unused'', mAttributeDependencies = [Some 2],
                    mModifiedAttributes = [Some 4], mPrevStepDependencies = []\<rparr>
      else Root)"

lemma demo_graph:
  "resolveDeps demo_tbl (\<lambda>a. [a]) 9 [0, 1, 2, 3] [] [] =
     ([0, 1, 2, 3, 9], [(2, [0]), (3, [0]), (9, [0, 2]), (0, [1])],
      [(0, [2, 3, 9]), (1, [0]), (2, [9])])"
  by code_simp

lemma demo_sort:
  "topologicalSort 9 [0, 1, 2, 3, 9] [(2, [0]), (3, [0]), (9, [0, 2]), (0, [1])]
      [(0, [2, 3, 9]), (1, [0]), (2, [9])] = ok [1, 0, 2]"
  by code_simp

text \<open>C2. For distinct tasks, the graph that resolveDeps builds is sorted by topologicalSort
  exactly when the attribute dependencies of the tasks are acyclic; otherwise topologicalSort
  throws SchedulingException.\<close>

theorem sort_succeeds_iff_acyclic:
  assumes "resolveDeps tbl gd mRoot tasks [] [] = (ts, inE, outE)" "distinct (tasks @ [mRoot])"
  shows "(if acyclic (needs tbl gd mRoot ts)
          then \<exists>s. topologicalSort mRoot ts inE outE = ok s
          else topologicalSort mRoot ts inE outE = throw SchedulingException)"
proof -
  note f = resolveDeps_facts [OF assms]
  from topologicalSort_run [OF f(1-3), of mRoot] show ?thesis unfolding f(5) by (metis (full_types))
qed

text \<open>Two tasks that read each other's attribute, one of which a logger task needs.\<close>

definition cyclic_tbl :: "task_ref \<Rightarrow> task" where
  "cyclic_tbl t =
     (if t = 0 then \<lparr>mName = ''X'', mAttributeDependencies = [Some 2],
                    mModifiedAttributes = [Some 1, external], mPrevStepDependencies = []\<rparr>
      else if t = 1 then \<lparr>mName = ''Y'', mAttributeDependencies = [Some 1],
                    mModifiedAttributes = [Some 2], mPrevStepDependencies = []\<rparr>
      else Root)"

lemma cyclic_graph:
  "resolveDeps cyclic_tbl (\<lambda>a. [a]) 9 [0, 1] [] [] =
     ([0, 1, 9], [(1, [0]), (9, [0]), (0, [1])], [(0, [1, 9]), (1, [0])])"
  by code_simp

theorem sort_succeeds_iff_acyclic_witness:
  "acyclic (needs demo_tbl (\<lambda>a. [a]) 9 [0, 1, 2, 3, 9])
   \<and> \<not> acyclic (needs cyclic_tbl (\<lambda>a. [a]) 9 [0, 1, 9])
   \<and> topologicalSort 9 [0, 1, 9] [(1, [0]), (9, [0]), (0, [1])] [(0, [1, 9]), (1, [0])]
       = throw SchedulingException"
proof (intro conjI)
  show "acyclic (needs demo_tbl (\<lambda>a. [a]) 9 [0, 1, 2, 3, 9])"
    using sort_succeeds_iff_acyclic [OF demo_graph] demo_sort by (auto split: if_splits)
  have "(0, 1) \<in> needs cyclic_tbl (\<lambda>a. [a]) 9 [0, 1, 9]" "(1, 0) \<in> needs cyclic_tbl (\<lambda>a. [a]) 9 [0, 1, 9]"
    using resolveDeps_facts(5) [OF cyclic_graph, symmetric] by (simp_all add: edge_rel_iff edges_at_def)
  then have "(0, 0) \<in> (needs cyclic_tbl (\<lambda>a. [a]) 9 [0, 1, 9])\<^sup>+"
    by (rule trancl_into_trancl [OF r_into_trancl])
  then show cyc: "\<not> acyclic (needs cyclic_tbl (\<lambda>a. [a]) 9 [0, 1, 9])" unfolding acyclic_def by blast
  show "topologicalSort 9 [0, 1, 9] [(1, [0]), (9, [0]), (0, [1])] [(0, [1, 9]), (1, [0])]
       = throw SchedulingException"
    using sort_succeeds_iff_acyclic [OF cyclic_graph] cyc by auto
qed



text \<open>C1. Every task runs after all tasks it has a data dependency on: whoever modifies
  an attribute is scheduled before everyone whose dependencies resolve to it.\<close>

theorem schedule_respects_dependencies:
  assumes "resolveDeps tbl gd mRoot tasks [] [] = (ts, inE, outE)" "distinct (tasks @ [mRoot])"
    and "topologicalSort mRoot ts inE outE = ok s"
    and "j < length s" "a \<in> set ts" "x \<in> set (mModifiedAttributes (tbl a))"
    and "x \<in> set (dep_attrs gd (tbl (s ! j)))"
  shows "\<exists>i < j. s ! i = a"
proof -
  note f = resolveDeps_facts [OF assms(1,2)]
  note r = topologicalSort_ok [OF f(1-4) assms(3)]
  have "s ! j \<in> set s" using assms(4) by simp
  then have "s ! j \<in> set ts"
    using r(2) f(3) by (auto simp: edges_within_def dest!: tranclD)
  then have "(a, s ! j) \<in> edge_rel inE"
    unfolding f(5) needs_def using assms(5-7) by blast
  then have "a \<in> set (take j s)" by (rule topo_list_nth [OF r(3) assms(4)])
  then show ?thesis using assms(4) by (auto simp: in_set_conv_nth)
qed

theorem schedule_respects_dependencies_witness:
  "\<exists>i < (2 :: nat). [1, 0, 2 :: task_ref] ! i = 0"
  using schedule_respects_dependencies [OF demo_graph _ demo_sort, of 2 0 "Some 2"]
  by (simp add: demo_tbl_def dep_attrs_def external_def)

text \<open>C23. For every non-empty schedule the level schedule is defined, its levels read in
  order are the schedule itself, and each dependency crosses from a level to a strictly
  later one: the tasks of a level can run in parallel.\<close>

theorem levels_parallel_safe:
  assumes "resolveDeps tbl gd mRoot tasks [] [] = (ts, inE, outE)" "distinct (tasks @ [mRoot])"
    and "topologicalSort mRoot ts inE outE = ok s" "s \<noteq> []"
  shows "\<exists>levels. levelSchedule s inE = ok levels \<and> concat levels = s \<and>
           (\<forall>j < length levels. \<forall>b \<in> set (levels ! j). \<forall>a. (a, b) \<in> needs tbl gd mRoot ts \<longrightarrow>
              (\<exists>i < j. a \<in> set (levels ! i)))"
proof -
  note f = resolveDeps_facts [OF assms(1,2)]
  note r = topologicalSort_ok [OF f(1-4) assms(3)]
  obtain levels where "levelSchedule s inE = ok levels" "concat levels = s" "levels_ok inE levels"
    by (rule levelSchedule_levels [OF assms(4) r(1,3,4)])
  then show ?thesis
    unfolding f(5) [symmetric] levels_ok_def by (auto simp: edge_rel_iff)
qed

theorem levels_parallel_safe_witness:
  "\<exists>levels. levelSchedule [1, 0, 2] [(2, [0]), (3, [0]), (9, [0, 2]), (0, [1])] = ok levels
     \<and> concat levels = [1, 0, 2 :: task_ref]"
  using levels_parallel_safe [OF demo_graph _ demo_sort] by auto

end
