(* ===== verification/Measurements.thy ===== *)
theory Measurements
  imports Scheduler
begin

text \<open>The task time measurements of dpsim/src/Scheduler.cpp: the table of durations per
  task, its averages, and the measurement file one run writes and a later run reads to
  balance its schedule.  Durations are ticks of steady_clock, which never runs
  backwards, so they are natural numbers; int64 overflow of a sum of durations is not
  modelled.  The file is its character sequence.\<close>

section \<open>The table of measurements\<close>

type_synonym measurements = "(task_ref, nat) multimap"

definition initMeasurements :: "task_ref list \<Rightarrow> measurements \<Rightarrow> measurements" where
  "initMeasurements tasks m = fold (\<lambda>t m. edges_set m t []) tasks m"

definition updateMeasurement :: "measurements \<Rightarrow> task_ref \<Rightarrow> nat \<Rightarrow> measurements" where
  "updateMeasurement m t time = edges_push m t time"

definition getAveragedMeasurement :: "measurements \<Rightarrow> task_ref \<Rightarrow> nat" where
  "getAveragedMeasurement m t =
     (let tot = fold (+) (edges_at m t) 0
      in if edges_at m t \<noteq> [] then tot div length (edges_at m t) else 0)"

definition averages :: "(task_ref \<Rightarrow> task) \<Rightarrow> measurements \<Rightarrow> (string \<times> nat) list" where
  "averages tbl m =
     fold (\<lambda>(t, _) av. AList.update (mName (tbl t)) (getAveragedMeasurement m t) av) m []"

section \<open>Decimal numbers\<close>

definition digit_char :: "nat \<Rightarrow> char" where
  "digit_char d = char_of (48 + d)"

definition char_digit :: "char \<Rightarrow> nat option" where
  "char_digit c = (let n = of_char c :: nat in if 48 \<le> n \<and> n \<le> 57 then Some (n - 48) else None)"

text \<open>Printing with \<open>operator<<\<close>.\<close>

fun show_nat :: "nat \<Rightarrow> string" where
  "show_nat n = (if n < 10 then [digit_char n] else show_nat (n div 10) @ [digit_char (n mod 10)])"

declare show_nat.simps [simp del]

fun read_digits :: "string \<Rightarrow> nat \<Rightarrow> nat" where
  "read_digits [] acc = acc"
| "read_digits (c # cs) acc =
     (case char_digit c of None \<Rightarrow> acc | Some d \<Rightarrow> read_digits cs (acc * 10 + d))"

text \<open>\<open>std::stol\<close>: leading white space is skipped, an optional sign is read, digits are
  read up to the first other character, and the absence of digits raises
  \<open>std::invalid_argument\<close>.  Values beyond the range of long are not modelled.\<close>

definition is_space :: "char \<Rightarrow> bool" where
  "is_space c = (of_char c \<in> {9, 10, 11, 12, 13, 32 :: nat})"

definition read_unsigned :: "string \<Rightarrow> error + int" where
  "read_unsigned cs =
     (case cs of [] \<Rightarrow> throw InvalidArgumentException
      | c # _ \<Rightarrow> if char_digit c = None then throw InvalidArgumentException
                else ok (int (read_digits cs 0)))"

definition stol :: "string \<Rightarrow> error + int" where
  "stol s = (case dropWhile is_space s of
       [] \<Rightarrow> throw InvalidArgumentException
     | c # cs \<Rightarrow> if c = CHR ''-'' then map_sum id uminus (read_unsigned cs)
               else if c = CHR ''+'' then read_unsigned cs else read_unsigned (c # cs))"

section \<open>The measurement file\<close>

abbreviation newline :: char where "newline \<equiv> CHR 0x0A"

definition writeMeasurements :: "(task_ref \<Rightarrow> task) \<Rightarrow> measurements \<Rightarrow> string" where
  "writeMeasurements tbl m =
     concat (map (\<lambda>(name, avg). name @ '','' @ show_nat avg @ [newline]) (averages tbl m))"

text \<open>\<open>std::getline\<close> until the stream is no longer good: the text after the last line
  break, empty or not, is the last line read.\<close>

fun file_lines :: "string \<Rightarrow> string \<Rightarrow> string list" where
  "file_lines cur [] = [cur]"
| "file_lines cur (c # cs) = (if c = newline then cur # file_lines [] cs else file_lines (cur @ [c]) cs)"

definition readLine :: "string \<Rightarrow> (string \<times> int) list \<Rightarrow> error + (string \<times> int) list" where
  "readLine line ms =
     (if CHR '','' \<notin> set line
      then (if line = [] then ok ms else throw SchedulingException)
      else bind_err (stol (tl (dropWhile (\<lambda>c. c \<noteq> CHR '','') line)))
             (\<lambda>v. ok (AList.update (takeWhile (\<lambda>c. c \<noteq> CHR '','') line) v ms)))"

fun readLines :: "string list \<Rightarrow> (string \<times> int) list \<Rightarrow> error + (string \<times> int) list" where
  "readLines [] ms = ok ms"
| "readLines (l # ls) ms = bind_err (readLine l ms) (readLines ls)"

definition readMeasurements ::
  "string option \<Rightarrow> (string \<times> int) list \<Rightarrow> error + (string \<times> int) list" where
  "readMeasurements file ms =
     (case file of None \<Rightarrow> throw SchedulingException | Some cs \<Rightarrow> readLines (file_lines [] cs) ms)"

section \<open>What is written is what is read\<close>

lemma char_digit_digit_char: "d < 10 \<Longrightarrow> char_digit (digit_char d) = Some d"
  by (simp add: char_digit_def digit_char_def Let_def)

lemma show_nat_digits: "c \<in> set (show_nat n) \<Longrightarrow> \<exists>d < 10. c = digit_char d"
proof (induction n rule: show_nat.induct)
  case (1 n)
  then show ?case
    by (cases "n < 10") (auto simp: show_nat.simps [of n] intro: exI [of _ "n mod 10"])
qed

lemma digit_char_plain:
  assumes "d < 10"
  shows "digit_char d \<noteq> newline \<and> digit_char d \<noteq> CHR '','' \<and> digit_char d \<noteq> CHR ''-''
     \<and> digit_char d \<noteq> CHR ''+'' \<and> \<not> is_space (digit_char d)"
proof -
  have "\<forall>d\<in>set [0..<10]. digit_char d \<noteq> newline \<and> digit_char d \<noteq> CHR '','' \<and> digit_char d \<noteq> CHR ''-''
     \<and> digit_char d \<noteq> CHR ''+'' \<and> \<not> is_space (digit_char d)"
    by code_simp
  with assms show ?thesis by simp
qed

lemma show_nat_plain: "newline \<notin> set (show_nat v)"
  using show_nat_digits [of newline v] digit_char_plain by metis

lemma read_digits_append:
  "(\<And>c. c \<in> set xs \<Longrightarrow> char_digit c \<noteq> None) \<Longrightarrow>
     read_digits (xs @ ys) acc = read_digits ys (read_digits xs acc)"
proof (induction xs arbitrary: acc)
  case (Cons c xs)
  obtain d where "char_digit c = Some d" using Cons.prems [of c] by auto
  with Cons show ?case by simp
qed simp

lemma show_nat_char_digit: "c \<in> set (show_nat n) \<Longrightarrow> char_digit c \<noteq> None"
  using show_nat_digits char_digit_digit_char by fastforce

lemma read_show_nat: "read_digits (show_nat n) 0 = n"
proof (induction n rule: show_nat.induct)
  case (1 n)
  show ?case
  proof (cases "n < 10")
    case True
    then show ?thesis by (simp add: show_nat.simps [of n] char_digit_digit_char)
  next
    case False
    then show ?thesis
      using 1 show_nat_char_digit
      by (simp add: show_nat.simps [of n] read_digits_append char_digit_digit_char)
  qed
qed

lemma show_nat_nonempty: "show_nat n \<noteq> []"
  by (subst show_nat.simps) simp

lemma stol_show_nat: "stol (show_nat n) = ok (int n)"
proof -
  obtain c cs where cs: "show_nat n = c # cs" using show_nat_nonempty by (cases "show_nat n") auto
  then obtain d where d: "d < 10" "c = digit_char d" using show_nat_digits [of c n] by auto
  note p = digit_char_plain [OF d(1)]
  have "char_digit c \<noteq> None" using show_nat_char_digit [of c n] cs by simp
  then have "read_unsigned (c # cs) = ok (int n)"
    using read_show_nat [of n] cs by (simp add: read_unsigned_def)
  with p d cs show ?thesis by (simp add: stol_def)
qed

definition plain_name :: "string \<Rightarrow> bool" where
  "plain_name s \<longleftrightarrow> CHR '','' \<notin> set s \<and> newline \<notin> set s"

lemma file_lines_line:
  "newline \<notin> set l \<Longrightarrow> file_lines cur (l @ newline # cs) = (cur @ l) # file_lines [] cs"
  by (induction l arbitrary: cur) auto

lemma readLine_entry:
  assumes "plain_name name"
  shows "readLine (name @ '','' @ show_nat v) ms = ok (AList.update name (int v) ms)"
proof -
  have "takeWhile (\<lambda>c. c \<noteq> CHR '','') (name @ '','' @ show_nat v) = name"
    "dropWhile (\<lambda>c. c \<noteq> CHR '','') (name @ '','' @ show_nat v) = '','' @ show_nat v"
    using assms by (auto simp: plain_name_def takeWhile_append dropWhile_append)
  then show ?thesis by (simp add: readLine_def stol_show_nat)
qed

lemma read_entries:
  assumes "\<And>name v. (name, v) \<in> set av \<Longrightarrow> plain_name name"
  shows "readLines (file_lines [] (concat (map (\<lambda>(name, v). name @ '','' @ show_nat v @ [newline]) av))) ms
         = ok (fold (\<lambda>(name, v). AList.update name (int v)) av ms)"
  using assms
proof (induction av arbitrary: ms)
  case Nil
  show ?case by (simp add: readLine_def)
next
  case (Cons p av)
  obtain name v where p: "p = (name, v)" by (cases p)
  have pl: "plain_name name" using Cons.prems p by auto
  have "newline \<notin> set (name @ '','' @ show_nat v)"
    using pl show_nat_plain by (simp add: plain_name_def)
  from file_lines_line [OF this, of "[]"]
  have "file_lines [] (name @ '','' @ show_nat v @ [newline] @ cs)
        = (name @ '','' @ show_nat v) # file_lines [] cs" for cs by simp
  moreover have "readLines (file_lines [] (concat (map (\<lambda>(name, v). name @ '','' @ show_nat v @ [newline]) av))) ms
      = ok (fold (\<lambda>(name, v). AList.update name (int v)) av ms)" for ms
    using Cons.prems by (intro Cons.IH) (meson list.set_intros(2))
  ultimately show ?case using pl by (simp add: p readLine_entry del: append_Cons)
qed

lemma map_of_fold_update:
  "distinct (map fst av) \<Longrightarrow>
   map_of (fold (\<lambda>(name, v). AList.update name (f v)) av ms) k =
     (case map_of av k of None \<Rightarrow> map_of ms k | Some v \<Rightarrow> Some (f v))"
proof (induction av arbitrary: ms)
  case (Cons p av)
  obtain name v where p: "p = (name, v)" by (cases p)
  show ?case using Cons by (auto simp: p update_conv' split: option.splits dest: map_of_SomeD)
     (metis fst_conv image_eqI map_of_SomeD)
qed simp

lemma averages_fst:
  "fst ` set (fold (\<lambda>(t, _) av. AList.update (mName (tbl t)) (g t) av) xs av0)
     = (\<lambda>(t, _). mName (tbl t)) ` set xs \<union> fst ` set av0"
proof (induction xs arbitrary: av0)
  case (Cons p xs)
  obtain t ts where p: "p = (t, ts)" by (cases p)
  show ?case by (simp add: p Cons.IH dom_update)
qed simp

lemma distinct_fold_update:
  fixes g :: "task_ref \<Rightarrow> nat"
  assumes "distinct (map fst av)"
  shows "distinct (map fst (fold (\<lambda>(t, _) av. AList.update (mName (tbl t)) (g t) av) xs av))"
  using assms by (induction xs arbitrary: av) (auto simp: distinct_update)

lemma averages_distinct: "distinct (map fst (averages tbl m))"
  unfolding averages_def by (rule distinct_fold_update) simp

text \<open>C40. A measurement file that one run writes is read back by the next: without
  commas and line breaks in the task names, every name is mapped to the average
  that was written, and nothing else is added.\<close>

theorem measurements_roundtrip:
  assumes "\<And>t. t \<in> fst ` set m \<Longrightarrow> plain_name (mName (tbl t))"
  shows "\<exists>ms. readMeasurements (Some (writeMeasurements tbl m)) [] = ok ms \<and>
           map_of ms = map_option int \<circ> map_of (averages tbl m)"
proof -
  have pl: "plain_name name" if "(name, v) \<in> set (averages tbl m)" for name v
  proof -
    have "name \<in> fst ` set (averages tbl m)" using that by force
    then obtain t ts where "(t, ts) \<in> set m" "name = mName (tbl t)"
      unfolding averages_def averages_fst by auto
    then show ?thesis using assms [of t] by force
  qed
  from read_entries [of "averages tbl m" "[]", OF pl]
  have "readMeasurements (Some (writeMeasurements tbl m)) []
        = ok (fold (\<lambda>(name, v). AList.update name (int v)) (averages tbl m) [])"
    by (simp add: readMeasurements_def writeMeasurements_def)
  moreover have "map_of (fold (\<lambda>(name, v). AList.update name (int v)) (averages tbl m) [])
      = map_option int \<circ> map_of (averages tbl m)"
    by (rule ext) (simp add: map_of_fold_update averages_distinct split: option.splits)
  ultimately show ?thesis by blast
qed

theorem measurements_roundtrip_witness:
  "\<exists>ms. readMeasurements (Some (writeMeasurements demo_tbl [(0, [3, 4]), (2, [12])])) [] = ok ms \<and>
        map_of ms = map_option int \<circ> map_of (averages demo_tbl [(0, [3, 4]), (2, [12])])"
  by (rule measurements_roundtrip) (auto simp: demo_tbl_def plain_name_def)

end
