(* ===== verification/Distribution.thy ===== *)
theory Distribution
  imports Measurements "HOL-Library.Sublist" "HOL-Library.Signed_Division"
begin

text \<open>How the threaded schedulers distribute a schedule over their threads:
  dpsim/src/ThreadLevelScheduler.cpp, dpsim/src/ThreadListScheduler.cpp and the
  \<open>scheduleTask\<close> of dpsim/src/ThreadScheduler.cpp.  The result, one task list per
  thread, is what ThreadScheduler executes (theory ThreadExecution).  The locale
  \<open>distribution\<close> is the interface between the two.

  std::sort is the library's stable sort here (C++ leaves the order of equivalent
  elements open); \<open>typeKey\<close> ranks the dynamic types of the tasks in the order of
  \<open>type_info::before\<close>.\<close>

section \<open>Pushing tasks to threads\<close>

definition scheduleTask :: "nat \<Rightarrow> task_ref \<Rightarrow> task_ref list list \<Rightarrow> task_ref list list" where
  "scheduleTask thread t temps = temps[thread := temps ! thread @ [t]]"

definition minIndex :: "int list \<Rightarrow> nat" where
  "minIndex xs = fold (\<lambda>i best. if xs ! i < xs ! best then i else best) [0..<length xs] 0"

definition costOf :: "(task_ref \<Rightarrow> task) \<Rightarrow> (string \<times> int) list \<Rightarrow> task_ref \<Rightarrow> int" where
  "costOf tbl ms t = (case map_of ms (mName (tbl t)) of Some c \<Rightarrow> c | None \<Rightarrow> 0)"

definition complete :: "(task_ref \<Rightarrow> task) \<Rightarrow> (string \<times> int) list \<Rightarrow> task_ref list \<Rightarrow> bool" where
  "complete tbl ms ts = list_all (\<lambda>t. map_of ms (mName (tbl t)) \<noteq> None) ts"

section \<open>ThreadLevelScheduler\<close>

text \<open>One level spread evenly: thread \<open>i\<close> gets the index range from
  \<open>size * i / n\<close> up to \<open>size * (i + 1) / n\<close>.\<close>

definition spreadThread :: "nat \<Rightarrow> task_ref list \<Rightarrow> nat \<Rightarrow> task_ref list list \<Rightarrow> task_ref list list" where
  "spreadThread n level i temps =
     fold (\<lambda>idx. scheduleTask i (level ! idx))
       [length level * i div n ..< length level * (i + 1) div n] temps"

definition spreadLevel :: "nat \<Rightarrow> task_ref list \<Rightarrow> task_ref list list \<Rightarrow> task_ref list list" where
  "spreadLevel n level temps = fold (spreadThread n level) [0..<n] temps"

definition sortTasksByType :: "(task_ref \<Rightarrow> nat) \<Rightarrow> task_ref list \<Rightarrow> task_ref list" where
  "sortTasksByType typeKey ts = sort_key typeKey ts"

fun fillThread :: "(task_ref \<Rightarrow> int) \<Rightarrow> int \<Rightarrow> nat \<Rightarrow> int \<Rightarrow> task_ref list \<Rightarrow> task_ref list list
    \<Rightarrow> task_ref list \<times> task_ref list list" where
  "fillThread cost avgTime thread curTime [] temps = ([], temps)"
| "fillThread cost avgTime thread curTime (t # ts) temps =
     (if curTime < avgTime
      then fillThread cost avgTime thread (curTime + cost t) ts (scheduleTask thread t temps)
      else (t # ts, temps))"

fun fillThreads :: "(task_ref \<Rightarrow> int) \<Rightarrow> int \<Rightarrow> nat list \<Rightarrow> task_ref list \<Rightarrow> task_ref list list
    \<Rightarrow> task_ref list \<times> task_ref list list" where
  "fillThreads cost avgTime [] ts temps = (ts, temps)"
| "fillThreads cost avgTime (i # is) ts temps =
     (let (ts', temps') = fillThread cost avgTime i 0 ts temps
      in fillThreads cost avgTime is ts' temps')"

fun greedy :: "(task_ref \<Rightarrow> int) \<Rightarrow> task_ref list \<Rightarrow> int list \<Rightarrow> task_ref list list \<Rightarrow> task_ref list list" where
  "greedy cost [] totalTimes temps = temps"
| "greedy cost (t # ts) totalTimes temps =
     (let minIdx = minIndex totalTimes
      in greedy cost ts (totalTimes[minIdx := totalTimes ! minIdx + cost t])
           (scheduleTask minIdx t temps))"

definition scheduleLevel ::
  "nat \<Rightarrow> bool \<Rightarrow> (task_ref \<Rightarrow> nat) \<Rightarrow> (task_ref \<Rightarrow> task) \<Rightarrow> (string \<times> int) list
   \<Rightarrow> task_ref list \<Rightarrow> task_ref list list \<Rightarrow> error + task_ref list list" where
  "scheduleLevel n sortTypes typeKey tbl ms tasks temps =
     (if \<not> complete tbl ms tasks then throw SchedulingException
      else if sortTypes
      then (let totalTime = sum_list (map (costOf tbl ms) tasks);
                avgTime = totalTime sdiv int n;
                (rest, temps') = fillThreads (costOf tbl ms) avgTime [0..<n]
                                   (sortTasksByType typeKey tasks) temps
            in ok (fold (scheduleTask (n - 1)) rest temps'))
      else ok (greedy (costOf tbl ms) (sort_key (\<lambda>t. - costOf tbl ms t) tasks)
                 (replicate n 0) temps))"

fun scheduleLevels ::
  "(task_ref list \<Rightarrow> task_ref list list \<Rightarrow> error + task_ref list list) \<Rightarrow> task_ref list list
   \<Rightarrow> task_ref list list \<Rightarrow> error + task_ref list list" where
  "scheduleLevels f [] temps = ok temps"
| "scheduleLevels f (l # ls) temps = bind_err (f l temps) (scheduleLevels f ls)"

record level_config =
  mTypeKey :: "task_ref \<Rightarrow> nat"
  mTable :: "task_ref \<Rightarrow> task"
  mInMeasurementFile :: "(string option) option"
  mSortTaskTypes :: bool

text \<open>\<open>mInMeasurementFile\<close> is \<open>None\<close> when no file name is configured and otherwise the
  content of the file, itself \<open>None\<close> when it cannot be opened.  The result is the vector
  \<open>mTempSchedules\<close> before \<open>finishSchedule\<close>.\<close>

definition createThreadLevel ::
  "level_config \<Rightarrow> nat \<Rightarrow> task_ref \<Rightarrow> task_ref list \<Rightarrow> edges \<Rightarrow> edges \<Rightarrow> error + task_ref list list" where
  "createThreadLevel cfg n mRoot tasks inEdges outEdges =
     bind_err (topologicalSort mRoot tasks inEdges outEdges) (\<lambda>ordered.
     bind_err (levelSchedule ordered inEdges) (\<lambda>levels.
       case mInMeasurementFile cfg of
         Some file \<Rightarrow> bind_err (readMeasurements file []) (\<lambda>ms.
           scheduleLevels (scheduleLevel n (mSortTaskTypes cfg) (mTypeKey cfg) (mTable cfg) ms)
             levels (replicate n []))
       | None \<Rightarrow> scheduleLevels
           (\<lambda>level temps. ok (spreadLevel n
              (if mSortTaskTypes cfg then sortTasksByType (mTypeKey cfg) level else level) temps))
           levels (replicate n [])))"

section \<open>ThreadListScheduler\<close>

text \<open>The highest-level-first priorities.\<close>

definition listPriority :: "edges \<Rightarrow> (task_ref \<Rightarrow> int) \<Rightarrow> (task_ref \<Rightarrow> int) \<Rightarrow> task_ref \<Rightarrow> int" where
  "listPriority outEdges cost prio t =
     cost t + fold (\<lambda>dep m. if prio dep > m then prio dep else m) (edges_at outEdges t) 0"

definition priorities :: "edges \<Rightarrow> (task_ref \<Rightarrow> int) \<Rightarrow> task_ref list \<Rightarrow> task_ref \<Rightarrow> int" where
  "priorities outEdges cost ordered =
     fold (\<lambda>t prio. prio(t := listPriority outEdges cost prio t)) (rev ordered) (\<lambda>_. 0)"

text \<open>std::priority_queue: \<open>top\<close> is an element of greatest priority.  Which one of several
  is left open by C++; the model takes the first pushed.\<close>

definition queueTop :: "(task_ref \<Rightarrow> int) \<Rightarrow> task_ref list \<Rightarrow> task_ref" where
  "queueTop prio q = fold (\<lambda>t best. if prio best < prio t then t else best) q (hd q)"

definition queuePop :: "(task_ref \<Rightarrow> int) \<Rightarrow> task_ref list \<Rightarrow> task_ref list" where
  "queuePop prio q = remove1 (queueTop prio q) q"

fun releaseEdges ::
  "task_ref \<Rightarrow> task_ref list \<Rightarrow> task_ref list \<Rightarrow> edges \<Rightarrow> task_ref list \<Rightarrow> edges \<times> task_ref list" where
  "releaseEdges t ordered [] inE q = (inE, q)"
| "releaseEdges t ordered (after # rest) inE q =
     (let inE' = edges_set inE after (remove1 t (edges_at inE after))
      in releaseEdges t ordered rest inE'
           (if edges_at inE' after = [] \<and> after \<in> set ordered then q @ [after] else q))"

lemma fold_pick_in:
  "fold (\<lambda>t best. if f best < (f t :: int) then t else best) xs b \<in> insert b (set xs)"
proof (induction xs arbitrary: b)
  case (Cons x xs)
  show ?case using Cons.IH [of b] Cons.IH [of x] by auto
qed simp

lemma queueTop_in: "q \<noteq> [] \<Longrightarrow> queueTop prio q \<in> set q"
  using fold_pick_in [of prio q "hd q"] by (cases q) (auto simp: queueTop_def)

lemma fold_pick_max:
  "x \<in> insert b (set xs) \<Longrightarrow>
     f x \<le> f (fold (\<lambda>t best. if f best < (f t :: int) then t else best) xs b)"
proof (induction xs arbitrary: b x)
  case (Cons y xs)
  let ?b = "if f b < f y then y else b"
  have "f z \<le> f (fold (\<lambda>t best. if f best < f t then t else best) xs ?b)"
    if "z \<in> insert ?b (set xs)" for z using that by (rule Cons.IH)
  from this [of x] this [of ?b] Cons.prems show ?case by (auto split: if_splits)
qed simp

lemma queueTop_max: "x \<in> set q \<Longrightarrow> prio x \<le> prio (queueTop prio q)"
  by (auto simp: queueTop_def intro: fold_pick_max)

text \<open>The main loop, with fuel: every task is queued once, so as many rounds as there are
  tasks empty the queue (\<open>listLoop_distributes\<close>).\<close>

fun listLoop ::
  "nat \<Rightarrow> (task_ref \<Rightarrow> int) \<Rightarrow> (task_ref \<Rightarrow> int) \<Rightarrow> task_ref list \<Rightarrow> edges \<Rightarrow> edges \<Rightarrow> task_ref list
   \<Rightarrow> int list \<Rightarrow> task_ref list list \<Rightarrow> (task_ref list list) option" where
  "listLoop fuel cost prio ordered outE inE [] totalTimes temps = Some temps"
| "listLoop 0 cost prio ordered outE inE (q # qs) totalTimes temps = None"
| "listLoop (Suc fuel) cost prio ordered outE inE (q # qs) totalTimes temps =
     (let t = queueTop prio (q # qs);
          minIdx = minIndex totalTimes;
          (inE', q') = releaseEdges t ordered (edges_at outE t) inE (queuePop prio (q # qs))
      in listLoop fuel cost prio ordered outE inE' q'
           (totalTimes[minIdx := totalTimes ! minIdx + cost t]) (scheduleTask minIdx t temps))"

record list_config =
  mListTable :: "task_ref \<Rightarrow> task"
  mListMeasurementFile :: "(string option) option"

definition listMeasurements ::
  "list_config \<Rightarrow> task_ref list \<Rightarrow> error + (string \<times> int) list" where
  "listMeasurements cfg ordered =
     (case mListMeasurementFile cfg of
        Some file \<Rightarrow> bind_err (readMeasurements file []) (\<lambda>ms.
          if complete (mListTable cfg) ms ordered then ok ms else throw SchedulingException)
      | None \<Rightarrow> ok (fold (\<lambda>t. AList.update (mName (mListTable cfg t)) 1) ordered []))"

definition createThreadList ::
  "list_config \<Rightarrow> nat \<Rightarrow> task_ref \<Rightarrow> task_ref list \<Rightarrow> edges \<Rightarrow> edges \<Rightarrow> error + task_ref list list" where
  "createThreadList cfg n mRoot tasks inEdges outEdges =
     bind_err (topologicalSort mRoot tasks inEdges outEdges) (\<lambda>ordered.
     bind_err (listMeasurements cfg ordered) (\<lambda>ms.
       (let cost = costOf (mListTable cfg) ms;
            prio = priorities outEdges cost ordered;
            queue = takeWhile (\<lambda>t. edges_at inEdges t = []) ordered
        in case listLoop (length ordered) cost prio ordered outEdges inEdges queue
                  (replicate n 0) (replicate n []) of
             Some temps \<Rightarrow> ok temps | None \<Rightarrow> throw UndefinedBehaviour)))"

section \<open>Every task goes to one thread, in the order of distribution\<close>

inductive placed :: "task_ref list \<Rightarrow> task_ref list list \<Rightarrow> task_ref list list \<Rightarrow> bool" where
  placed_Nil: "placed [] temps temps"
| placed_snoc: "placed ts a b \<Longrightarrow> i < length b \<Longrightarrow> placed (ts @ [t]) a (scheduleTask i t b)"

lemma placed_length: "placed ts a b \<Longrightarrow> length b = length a"
  by (induction rule: placed.induct) (simp_all add: scheduleTask_def)

lemma placed_append: "placed ys b c \<Longrightarrow> placed xs a b \<Longrightarrow> placed (xs @ ys) a c"
proof (induction rule: placed.induct)
  case (placed_snoc ts a' b' i t)
  then show ?case
    using placed.placed_snoc [of "xs @ ts" a b' i t] by simp
qed simp

lemma placed_one: "i < length a \<Longrightarrow> placed [t] a (scheduleTask i t a)"
  using placed.placed_snoc [OF placed_Nil, of i a t] by simp

lemma placed_Cons: "i < length a \<Longrightarrow> placed ts (scheduleTask i t a) b \<Longrightarrow> placed (t # ts) a b"
  using placed_append [OF _ placed_one, of ts i t a b] by simp

lemma mset_concat_update:
  "i < length temps \<Longrightarrow>
     mset (concat (temps[i := temps ! i @ [t]])) = add_mset t (mset (concat temps))"
proof (induction temps arbitrary: i)
  case (Cons l temps)
  then show ?case by (cases i) auto
qed simp

lemma placed_mset: "placed ts a b \<Longrightarrow> mset (concat b) = mset (concat a) + mset ts"
  by (induction rule: placed.induct) (simp_all add: scheduleTask_def mset_concat_update)

lemma placed_subseq:
  "placed ts a b \<Longrightarrow> i < length a \<Longrightarrow> \<exists>l. b ! i = a ! i @ l \<and> subseq l ts"
proof (induction rule: placed.induct)
  case (placed_snoc ts a b j t)
  then obtain l where l: "b ! i = a ! i @ l" "subseq l ts" by blast
  show ?case
  proof (cases "i = j")
    case True
    with l placed_snoc show ?thesis
      by (intro exI [of _ "l @ [t]"]) (simp add: scheduleTask_def list_emb_append_mono)
  next
    case False
    with l placed_snoc show ?thesis
      by (intro exI [of _ l]) (simp add: scheduleTask_def list_emb_prefix)
  qed
qed simp

lemma placed_fold:
  "(\<And>x. x \<in> set xs \<Longrightarrow> g x < length a) \<Longrightarrow>
     placed (map f xs) a (fold (\<lambda>x. scheduleTask (g x) (f x)) xs a)"
proof (induction xs arbitrary: a)
  case (Cons x xs)
  have "placed (map f xs) (scheduleTask (g x) (f x) a)
          (fold (\<lambda>x. scheduleTask (g x) (f x)) xs (scheduleTask (g x) (f x) a))"
    using Cons.prems by (intro Cons.IH) (simp add: scheduleTask_def)
  with Cons.prems show ?case by (auto intro: placed_Cons)
qed (simp add: placed_Nil)

subsection \<open>The even spread of a level\<close>

lemma spreadThread_placed:
  "i < length a \<Longrightarrow> placed (map ((!) level) [length level * i div n..<length level * Suc i div n]) a
     (spreadThread n level i a)"
  unfolding spreadThread_def using placed_fold [where g = "\<lambda>_. i"] by simp

lemma spread_placed:
  "k \<le> length a \<Longrightarrow> placed (map ((!) level) [0..<length level * k div n]) a
     (fold (spreadThread n level) [0..<k] a)"
proof (induction k)
  case (Suc k)
  let ?b = "fold (spreadThread n level) [0..<k] a"
  have IH: "placed (map ((!) level) [0..<length level * k div n]) a ?b" using Suc by simp
  have "length level * k div n \<le> length level * Suc k div n"
    by (intro div_le_mono) simp
  then have "[0..<length level * Suc k div n] =
      [0..<length level * k div n] @ [length level * k div n..<length level * Suc k div n]"
    by (metis le0 upt_add_eq_append le_add_diff_inverse)
  moreover have "k < length ?b" using placed_length [OF IH] Suc.prems by simp
  ultimately show ?case
    using placed_append [OF spreadThread_placed IH] by simp
qed (simp add: placed_Nil)

lemma spreadLevel_placed:
  assumes "0 < n" "length a = n"
  shows "placed level a (spreadLevel n level a)"
  using spread_placed [of n a level n] assms by (simp add: spreadLevel_def map_nth)

subsection \<open>The distribution by measured times\<close>

lemma fillThread_placed:
  "fillThread cost avg i cur ts a = (rest, b) \<Longrightarrow> i < length a \<Longrightarrow>
     \<exists>used. ts = used @ rest \<and> placed used a b"
proof (induction cost avg i cur ts a rule: fillThread.induct)
  case (2 cost avg i cur t ts a)
  show ?case
  proof (cases "cur < avg")
    case True
    then obtain used where "ts = used @ rest" "placed used (scheduleTask i t a) b"
      using 2 by (auto simp: scheduleTask_def)
    with 2(3) show ?thesis by (intro exI [of _ "t # used"]) (simp add: placed_Cons)
  qed (use 2 in \<open>auto intro: placed_Nil\<close>)
qed (auto intro: placed_Nil)

lemma fillThreads_placed:
  "fillThreads cost avg is ts a = (rest, b) \<Longrightarrow> (\<And>i. i \<in> set is \<Longrightarrow> i < length a) \<Longrightarrow>
     \<exists>used. ts = used @ rest \<and> placed used a b"
proof (induction cost avg "is" ts a rule: fillThreads.induct)
  case (2 cost avg i "is" ts a)
  obtain ts' a' where r: "fillThread cost avg i 0 ts a = (ts', a')"
    by (cases "fillThread cost avg i 0 ts a")
  obtain u where u: "ts = u @ ts'" "placed u a a'"
    using fillThread_placed [OF r] 2(3) by auto
  have "\<exists>used. ts' = used @ rest \<and> placed used a' b"
    using 2(2,3) r placed_length [OF u(2)] by (intro 2(1) [OF r [symmetric] refl]) auto
  with u show ?case by (auto intro: placed_append)
qed (auto intro: placed_Nil)

lemma minIndex_less: "xs \<noteq> [] \<Longrightarrow> minIndex xs < length xs"
proof -
  have "fold (\<lambda>i best. if xs ! i < xs ! best then i else best) is b < m"
    if "b < m" "\<forall>i\<in>set is. i < m" for "is" b m
    using that by (induction "is" arbitrary: b) auto
  from this [of 0 "length xs" "[0..<length xs]"] show "xs \<noteq> [] \<Longrightarrow> minIndex xs < length xs"
    by (simp add: minIndex_def)
qed

lemma greedy_placed:
  "length tot = length a \<Longrightarrow> a \<noteq> [] \<Longrightarrow> placed ts a (greedy cost ts tot a)"
proof (induction ts arbitrary: tot a)
  case (Cons t ts)
  have "tot \<noteq> []" using Cons.prems by (metis length_0_conv)
  then have "minIndex tot < length a" using Cons.prems(1) minIndex_less [of tot] by simp
  with Cons show ?case by (auto simp: Let_def scheduleTask_def intro!: placed_Cons)
qed (simp add: placed_Nil)

lemma scheduleLevel_placed:
  assumes "scheduleLevel n st key tbl ms level a = ok b" "0 < n" "length a = n"
  shows "\<exists>l. mset l = mset level \<and> placed l a b"
proof (cases st)
  case True
  let ?l = "sortTasksByType key level"
  let ?avg = "sum_list (map (costOf tbl ms) level) sdiv int n"
  obtain rest a' where r: "fillThreads (costOf tbl ms) ?avg [0..<n] ?l a = (rest, a')"
    by (cases "fillThreads (costOf tbl ms) ?avg [0..<n] ?l a")
  obtain used where u: "?l = used @ rest" "placed used a a'"
    using fillThreads_placed [OF r] assms(3) by auto
  have "placed rest a' (fold (scheduleTask (n - 1)) rest a')"
    using placed_fold [of rest "\<lambda>_. n - 1" a' "\<lambda>x. x"] placed_length [OF u(2)] assms(2,3) by simp
  then have "placed ?l a b"
    using assms(1) True r u placed_append by (auto simp: scheduleLevel_def Let_def split: if_splits)
  then show ?thesis by (intro exI [of _ ?l]) (simp add: sortTasksByType_def)
next
  case False
  then have "b = greedy (costOf tbl ms) (sort_key (\<lambda>t. - costOf tbl ms t) level) (replicate n 0) a"
    using assms(1) by (auto simp: scheduleLevel_def split: if_splits)
  then show ?thesis
    using greedy_placed [of "replicate n 0" a] assms(2,3)
    by (intro exI [of _ "sort_key (\<lambda>t. - costOf tbl ms t) level"]) auto
qed

lemma scheduleLevels_placed:
  assumes "scheduleLevels f levels a = ok b" "length a = n"
    and f: "\<And>level a b. f level a = ok b \<Longrightarrow> length a = n \<Longrightarrow> \<exists>l. mset l = mset level \<and> placed l a b"
  shows "\<exists>ls. list_all2 (\<lambda>l level. mset l = mset level) ls levels \<and> placed (concat ls) a b"
  using assms(1,2)
proof (induction levels arbitrary: a)
  case (Cons level levels)
  then obtain c where c: "f level a = ok c" "scheduleLevels f levels c = ok b" by auto
  obtain l where l: "mset l = mset level" "placed l a c" using f c(1) Cons.prems(2) by blast
  obtain ls where "list_all2 (\<lambda>l level. mset l = mset level) ls levels" "placed (concat ls) c b"
    using Cons.IH [OF c(2)] placed_length [OF l(2)] Cons.prems(2) by auto
  with l show ?case by (intro exI [of _ "l # ls"]) (auto intro: placed_append)
qed (auto intro: placed_Nil)

section \<open>The contract of a distribution\<close>

text \<open>What the execution relies on: one list per thread, together holding exactly the
  schedule; and one global order, respecting all dependencies, of which every thread's
  list is a subsequence.\<close>

definition distributes :: "nat \<Rightarrow> edges \<Rightarrow> task_ref list \<Rightarrow> task_ref list list \<Rightarrow> bool" where
  "distributes n inE s temps \<longleftrightarrow>
     length temps = n \<and> mset (concat temps) = mset s \<and>
     (\<exists>ord. mset ord = mset s \<and> topo_list inE ord \<and> (\<forall>l \<in> set temps. subseq l ord))"

definition graph_ok :: "task_ref \<Rightarrow> task_ref list \<Rightarrow> edges \<Rightarrow> edges \<Rightarrow> bool" where
  "graph_ok mRoot tasks inE outE \<longleftrightarrow>
     distinct tasks \<and> balanced inE outE \<and> edges_within (set tasks) inE \<and> mRoot \<in> set tasks"

lemma placed_distributes:
  assumes "placed ord (replicate n []) temps" "mset ord = mset s" "topo_list inE ord"
  shows "distributes n inE s temps"
proof -
  have len: "length temps = n" using placed_length [OF assms(1)] by simp
  have "subseq l ord" if "l \<in> set temps" for l
    using that placed_subseq [OF assms(1)] len by (auto simp: in_set_conv_nth)
  moreover have "mset (concat temps) = mset s"
    using placed_mset [OF assms(1)] assms(2) by simp
  ultimately show ?thesis using len assms(2,3) by (auto simp: distributes_def)
qed

lemma topo_list_append:
  assumes "topo_list inE P" "\<forall>b\<in>set l. set (edges_at inE b) \<subseteq> set P"
  shows "topo_list inE (P @ l)"
  using assms(2)
proof (induction l rule: rev_induct)
  case (snoc x l)
  then show ?case by (simp flip: append_assoc) auto
qed (simp add: assms(1))

lemma levels_ok_take:
  "levels_ok inE ls \<longleftrightarrow>
     (\<forall>j<length ls. \<forall>b\<in>set (ls ! j). set (edges_at inE b) \<subseteq> set (concat (take j ls)))"
proof -
  have "(\<exists>i<j. a \<in> set (ls ! i)) \<longleftrightarrow> a \<in> set (concat (take j ls))" if "j < length ls" for a j
  proof
    assume "a \<in> set (concat (take j ls))"
    then obtain k where k: "k \<in> set (take j ls)" "a \<in> set k" by auto
    then obtain i where "i < j" "take j ls ! i = k" using that by (auto simp: in_set_conv_nth)
    with k(2) show "\<exists>i<j. a \<in> set (ls ! i)" by (intro exI [of _ i]) simp
  next
    assume "\<exists>i<j. a \<in> set (ls ! i)"
    then obtain i where "i < j" "a \<in> set (ls ! i)" by blast
    with that show "a \<in> set (concat (take j ls))" by (force simp: in_set_conv_nth)
  qed
  then show ?thesis unfolding levels_ok_def subset_eq by simp
qed

lemma levels_ok_snoc:
  "levels_ok inE (ls @ [l]) \<longleftrightarrow>
     levels_ok inE ls \<and> (\<forall>b\<in>set l. set (edges_at inE b) \<subseteq> set (concat ls))"
proof -
  have "(\<forall>j<Suc (length ls). P j) \<longleftrightarrow> (\<forall>j<length ls. P j) \<and> P (length ls)" for P
    by (auto simp: less_Suc_eq)
  then show ?thesis
    unfolding levels_ok_take length_append_singleton by (simp add: nth_append)
qed

lemma levels_topo:
  assumes "levels_ok inE levels" "list_all2 (\<lambda>l level. mset l = mset level) ls levels"
  shows "topo_list inE (concat ls)" "mset (concat ls) = mset (concat levels)"
proof -
  have "topo_list inE (concat ls) \<and> mset (concat ls) = mset (concat levels)"
    using assms
  proof (induction levels arbitrary: ls rule: rev_induct)
    case (snoc level levels)
    from snoc.prems(2) obtain ls' l where ls: "ls = ls' @ [l]" "mset l = mset level"
      and r: "list_all2 (\<lambda>l level. mset l = mset level) ls' levels"
      by (auto simp: list_all2_append2 list_all2_Cons2)
    have IH: "topo_list inE (concat ls')" "mset (concat ls') = mset (concat levels)"
      using snoc.IH [OF _ r] snoc.prems(1) by (auto simp: levels_ok_snoc)
    have sets: "set l = set level" "set (concat ls') = set (concat levels)"
      using ls(2) IH(2) by (metis mset_eq_setD)+
    have "topo_list inE (concat ls' @ l)"
      using snoc.prems(1) sets unfolding levels_ok_snoc by (intro topo_list_append [OF IH(1)]) simp
    then show ?case using ls IH(2) by simp
  qed simp
  then show "topo_list inE (concat ls)" "mset (concat ls) = mset (concat levels)" by auto
qed

lemma createThreadLevel_distributes:
  assumes "graph_ok mRoot tasks inE outE" "0 < n"
    and "createThreadLevel cfg n mRoot tasks inE outE = ok temps"
  shows "\<exists>s. topologicalSort mRoot tasks inE outE = ok s \<and> distributes n inE s temps"
proof -
  obtain s levels where s: "topologicalSort mRoot tasks inE outE = ok s"
    and lv: "levelSchedule s inE = ok levels"
    using assms(3) by (auto simp: createThreadLevel_def)
  note r = topologicalSort_ok [OF _ _ _ _ s] 
  have ne: "s \<noteq> []" using lv by (auto simp: levelSchedule_def)
  have g: "distinct s" "topo_list inE s" "sorted (map (levelTimes inE s (\<lambda>_. 0)) s)"
    using r assms(1) by (auto simp: graph_ok_def)
  have L: "concat levels = s" "levels_ok inE levels"
    using levelSchedule_levels [OF ne g] lv by auto
  have "\<exists>ls. list_all2 (\<lambda>l level. mset l = mset level) ls levels
            \<and> placed (concat ls) (replicate n []) temps"
  proof (cases "mInMeasurementFile cfg")
    case None
    let ?f = "\<lambda>level temps. ok (spreadLevel n
              (if mSortTaskTypes cfg then sortTasksByType (mTypeKey cfg) level else level) temps)"
    have "scheduleLevels ?f levels (replicate n []) = ok temps"
      using assms(3) s lv None by (simp add: createThreadLevel_def)
    moreover have "\<exists>l. mset l = mset level \<and> placed l a b"
      if "?f level a = ok b" "length a = n" for level a b
    proof -
      let ?l = "if mSortTaskTypes cfg then sortTasksByType (mTypeKey cfg) level else level"
      have "placed ?l a b" using that spreadLevel_placed [OF assms(2) that(2), of ?l] by simp
      then show ?thesis by (intro exI [of _ ?l]) (simp add: sortTasksByType_def)
    qed
    ultimately show ?thesis by (intro scheduleLevels_placed [where n = n]) auto
  next
    case (Some content)
    then obtain ms where "scheduleLevels (scheduleLevel n (mSortTaskTypes cfg) (mTypeKey cfg)
        (mTable cfg) ms) levels (replicate n []) = ok temps"
      using assms(3) s lv by (auto simp: createThreadLevel_def)
    then show ?thesis
      using scheduleLevel_placed assms(2)
      by (intro scheduleLevels_placed [where n = n]) auto
  qed
  then obtain ls where ls: "list_all2 (\<lambda>l level. mset l = mset level) ls levels"
    and "placed (concat ls) (replicate n []) temps" by blast
  then have "distributes n inE s temps"
    using levels_topo [OF L(2) ls] L(1) by (intro placed_distributes) auto
  with s show ?thesis by blast
qed

section \<open>The list scheduler\<close>

text \<open>Releasing the edges of a task is the inner loop of the topological sort, with the
  released tasks that are not part of the schedule left out.\<close>

lemma relaxEdges_queue:
  "relaxEdges t ys inE q = (fst (relaxEdges t ys inE []), q @ snd (relaxEdges t ys inE []))"
proof (induction ys arbitrary: inE q)
  case (Cons y ys)
  let ?inE = "edges_set inE y (remove1 t (edges_at inE y))"
  show ?case
    using Cons.IH [of ?inE q] Cons.IH [of ?inE "q @ [y]"] Cons.IH [of ?inE "[y]"]
    by (simp add: Let_def)
qed simp

lemma releaseEdges_relax:
  "releaseEdges t ordered ys inE q =
     (fst (relaxEdges t ys inE []), q @ filter (\<lambda>b. b \<in> set ordered) (snd (relaxEdges t ys inE [])))"
proof (induction ys arbitrary: inE q)
  case (Cons y ys)
  let ?inE = "edges_set inE y (remove1 t (edges_at inE y))"
  show ?case
    using Cons.IH [of ?inE q] Cons.IH [of ?inE "q @ [y]"] relaxEdges_queue [of t ys ?inE "[y]"]
    by (simp add: Let_def)
qed simp

lemma releaseEdges_spec:
  assumes "releaseEdges t ordered ys inE q = (inE', q')"
    and "\<And>b. count_list ys b = count_list (edges_at inE b) t"
  shows "edges_at inE' b = filter (\<lambda>x. x \<noteq> t) (edges_at inE b)"
    and "\<exists>new. q' = q @ new \<and> distinct new
           \<and> set new = {b \<in> set ys \<inter> set ordered. filter (\<lambda>x. x \<noteq> t) (edges_at inE b) = []}"
proof -
  obtain i p where r: "relaxEdges t ys inE [] = (i, p)" by (cases "relaxEdges t ys inE []")
  have eq: "inE' = i" "q' = q @ filter (\<lambda>b. b \<in> set ordered) p"
    using assms(1) releaseEdges_relax [of t ordered ys inE q] r by auto
  note spec = relaxEdges_spec [OF r assms(2)]
  show "edges_at inE' b = filter (\<lambda>x. x \<noteq> t) (edges_at inE b)" using spec(1) eq by simp
  show "\<exists>new. q' = q @ new \<and> distinct new
      \<and> set new = {b \<in> set ys \<inter> set ordered. filter (\<lambda>x. x \<noteq> t) (edges_at inE b) = []}"
    using spec(2) eq by auto
qed

definition list_inv :: "task_ref set \<Rightarrow> edges \<Rightarrow> task_ref list \<Rightarrow> edges \<Rightarrow> task_ref list \<Rightarrow> bool" where
  "list_inv S inE0 P inE q \<longleftrightarrow>
     distinct (P @ q) \<and> set (P @ q) \<subseteq> S
   \<and> (\<forall>b. edges_at inE b = filter (\<lambda>x. x \<notin> set P) (edges_at inE0 b))
   \<and> (\<forall>x\<in>S. edges_at inE x = [] \<longrightarrow> x \<in> set (P @ q))
   \<and> (\<forall>x\<in>set q. set (edges_at inE0 x) \<subseteq> set P)
   \<and> topo_list inE0 P"

lemma list_inv_step:
  assumes inv: "list_inv S inE0 P inE q" and t: "t \<in> set q"
    and bal: "balanced inE0 outE0" and S: "S = set ordered"
    and run: "releaseEdges t ordered (edges_at outE0 t) inE (remove1 t q) = (inE', q')"
  shows "list_inv S inE0 (P @ [t]) inE' q'"
proof -
  have D: "distinct (P @ q)" "set (P @ q) \<subseteq> S"
    and I: "\<And>b. edges_at inE b = filter (\<lambda>x. x \<notin> set P) (edges_at inE0 b)"
    and R: "\<And>x. x \<in> S \<Longrightarrow> edges_at inE x = [] \<Longrightarrow> x \<in> set (P @ q)"
    and Q: "\<And>x. x \<in> set q \<Longrightarrow> set (edges_at inE0 x) \<subseteq> set P"
    and Tp: "topo_list inE0 P"
    using inv by (auto simp: list_inv_def)
  have tP: "t \<notin> set P" using D t by auto
  have rq: "set (remove1 t q) = set q - {t}" using D by simp
  have cnt: "count_list (edges_at outE0 t) b = count_list (edges_at inE b) t" for b
    using balancedD [OF bal, of t b] tP by (simp add: I count_list_filter')
  note spec = releaseEdges_spec [OF run cnt]
  have I': "edges_at inE' b = filter (\<lambda>x. x \<notin> set (P @ [t])) (edges_at inE0 b)" for b
    by (simp add: spec(1) I) (metis (mono_tags, opaque_lifting))
  obtain new where new: "q' = remove1 t q @ new" "distinct new"
      "set new = {b \<in> set (edges_at outE0 t) \<inter> S. edges_at inE' b = []}"
    using spec(2) unfolding spec(1) [symmetric] S by blast
  have newD: "t \<in> set (edges_at inE0 b)" "set (edges_at inE0 b) \<subseteq> set (P @ [t])" "b \<in> S"
    if "b \<in> set new" for b
  proof -
    show "t \<in> set (edges_at inE0 b)" using that new(3) balanced_mem [OF bal] by blast
    show "b \<in> S" using that new(3) by blast
    have "edges_at inE' b = []" using that new(3) by auto
    then show "set (edges_at inE0 b) \<subseteq> set (P @ [t])" by (auto simp: I' filter_empty_conv)
  qed
  have disj: "b \<notin> set (P @ q)" if "b \<in> set new" for b
  proof
    assume "b \<in> set (P @ q)"
    then have "set (edges_at inE0 b) \<subseteq> set P"
      using Q topo_list_closed [OF Tp] by auto
    with newD(1) [OF that] tP show False by blast
  qed
  have "distinct ((P @ [t]) @ q')"
    using D(1) new(1,2) disj disj [of t] t tP by auto
  moreover have "set ((P @ [t]) @ q') \<subseteq> S"
    using D(2) new(1) newD(3) rq t by auto
  moreover have "x \<in> set ((P @ [t]) @ q')" if x: "x \<in> S" "edges_at inE' x = []" for x
  proof (cases "edges_at inE x = []")
    case True
    then show ?thesis using R [OF x(1)] new(1) rq by auto
  next
    case False
    have "t \<in> set (edges_at inE x)"
      using False x(2) by (auto simp: spec(1) filter_empty_conv neq_Nil_conv)
    then have "x \<in> set (edges_at outE0 t)" using balanced_mem [OF bal] by (simp add: I)
    then show ?thesis using new x by auto
  qed
  moreover have "set (edges_at inE0 x) \<subseteq> set (P @ [t])" if "x \<in> set q'" for x
    using that new(1) Q [of x] newD(2) [of x] rq by auto
  moreover have "topo_list inE0 (P @ [t])" using Tp Q [OF t] by simp
  ultimately show ?thesis unfolding list_inv_def using I' by blast
qed

lemma list_inv_done:
  assumes "list_inv S inE0 P inE []" "acyclic (edge_rel inE0)" "finite S"
    and closed: "\<And>x. x \<in> S \<Longrightarrow> set (edges_at inE0 x) \<subseteq> S"
  shows "S = set P"
proof
  show "set P \<subseteq> S" using assms(1) by (simp add: list_inv_def)
  let ?r = "edge_rel inE0 \<inter> S \<times> S"
  have "acyclic ?r" using assms(2) by (rule acyclic_subset) blast
  then have "wf ?r" using assms(3) by (intro finite_acyclic_wf finite_Int) simp_all
  then have "x \<in> S \<Longrightarrow> x \<in> set P" for x
  proof (induction x rule: wf_induct_rule)
    case (less x)
    have "y \<in> set P" if "y \<in> set (edges_at inE0 x)" for y
      using less closed [OF less.prems] that by (auto simp: edge_rel_iff)
    then have "edges_at inE x = []"
      using assms(1) by (auto simp: list_inv_def filter_empty_conv)
    with less.prems show ?case using assms(1) by (auto simp: list_inv_def)
  qed
  then show "S \<subseteq> set P" by blast
qed

lemma listLoop_placed:
  assumes "list_inv (set ordered) inE0 P inE q" "balanced inE0 outE0"
    and "length tot = n" "0 < n" "placed P (replicate n []) temps"
    and "card (set ordered) \<le> length P + fuel"
  shows "\<exists>temps' P' inE'. listLoop fuel cost prio ordered outE0 inE q tot temps = Some temps'
           \<and> list_inv (set ordered) inE0 P' inE' [] \<and> placed P' (replicate n []) temps'"
  using assms(1,3,5,6)
proof (induction fuel arbitrary: P inE q tot temps)
  case 0
  have d: "distinct (P @ q)" "set (P @ q) \<subseteq> set ordered" using 0(1) by (simp_all add: list_inv_def)
  have "length (P @ q) \<le> card (set ordered)"
    unfolding distinct_card [OF d(1), symmetric] using d(2) by (intro card_mono) auto
  then have "length q = 0" using 0(4) unfolding length_append by linarith
  then have "q = []" by simp
  with 0 show ?case by auto
next
  case (Suc fuel)
  show ?case
  proof (cases q)
    case Nil
    with Suc.prems show ?thesis by auto
  next
    case (Cons x xs)
    let ?t = "queueTop prio q" and ?i = "minIndex tot"
    obtain inE' q' where run: "releaseEdges ?t ordered (edges_at outE0 ?t) inE (remove1 ?t q) = (inE', q')"
      by (cases "releaseEdges ?t ordered (edges_at outE0 ?t) inE (remove1 ?t q)")
    have t: "?t \<in> set q" using queueTop_in Cons by blast
    note inv = list_inv_step [OF Suc.prems(1) t assms(2) refl run]
    have len: "length temps = n" using placed_length [OF Suc.prems(3)] by simp
    have "tot \<noteq> []" using assms(4) Suc.prems(2) by auto
    then have "?i < length temps" using len Suc.prems(2) minIndex_less [of tot] by simp
    then have "placed (P @ [?t]) (replicate n []) (scheduleTask ?i ?t temps)"
      by (rule placed_snoc [OF Suc.prems(3)])
    from Suc.IH [OF inv _ this, of "tot[?i := tot ! ?i + cost ?t]"] Suc.prems(2,4)
    show ?thesis using Cons run by (auto simp: Let_def queuePop_def)
  qed
qed

lemma takeWhile_ready:
  assumes "sorted (map lv s)" "level_eq (set s) inE lv"
  shows "set (takeWhile (\<lambda>t. edges_at inE t = []) s) = {t \<in> set s. edges_at inE t = []}"
proof -
  have "(edges_at inE t = []) = (lv t = 0)" if "t \<in> set s" for t
    using assms(2) that by (simp add: level_eq_def)
  then have "takeWhile (\<lambda>t. edges_at inE t = []) s = takeWhile (\<lambda>t. lv t = 0) s"
    "{t \<in> set s. edges_at inE t = []} = {t \<in> set s. lv t = 0}"
    by (auto cong: takeWhile_cong)
  moreover have "set (takeWhile (\<lambda>t. lv t = 0) s) = {t \<in> set s. lv t = 0}"
    using assms(1) by (induction s) auto
  ultimately show ?thesis by simp
qed

lemma createThreadList_distributes:
  assumes g: "graph_ok mRoot tasks inE outE" and n: "0 < n"
    and c: "createThreadList cfg n mRoot tasks inE outE = ok temps"
  shows "\<exists>s. topologicalSort mRoot tasks inE outE = ok s \<and> distributes n inE s temps"
proof -
  obtain s ms where s: "topologicalSort mRoot tasks inE outE = ok s"
    and ms: "listMeasurements cfg s = ok ms"
    using c by (auto simp: createThreadList_def)
  define cost where "cost = costOf (mListTable cfg) ms"
  define prio where "prio = priorities outE cost s"
  let ?q = "takeWhile (\<lambda>t. edges_at inE t = []) s"
  note r = topologicalSort_ok [OF _ _ _ _ s]
  have g': "distinct tasks" "balanced inE outE" "edges_within (set tasks) inE" "mRoot \<in> set tasks"
    using g by (auto simp: graph_ok_def)
  note r = topologicalSort_ok [OF g' s]
  have q: "set ?q = {t \<in> set s. edges_at inE t = []}"
    by (rule takeWhile_ready [OF r(4) levelTimes_level_eq [OF r(3,1)]])
  have "list_inv (set s) inE [] inE ?q"
    using r(1) q by (auto simp: list_inv_def distinct_takeWhile)
  from listLoop_placed [OF this g'(2), of "replicate n 0" n "replicate n []" "length s" cost prio]
  obtain temps' P inE' where l: "listLoop (length s) cost prio s outE inE ?q (replicate n 0) (replicate n []) = Some temps'"
    "list_inv (set s) inE P inE' []" "placed P (replicate n []) temps'"
    using n by (auto simp: card_length placed_Nil)
  have "temps = temps'"
    using c s ms l(1) by (simp add: createThreadList_def Let_def cost_def prio_def)
  moreover have "set s = set P"
    by (rule list_inv_done [OF l(2) r(5)]) (auto dest: topo_list_closed [OF r(3)])
  then have "mset P = mset s"
    using r(1) l(2) by (simp add: list_inv_def set_eq_iff_mset_eq_distinct)
  ultimately have "distributes n inE s temps"
    using l(2) by (intro placed_distributes [of P]) (auto simp: list_inv_def l(3))
  with s show ?thesis by blast
qed

section \<open>The interface\<close>

locale distribution =
  fixes create :: "'cfg \<Rightarrow> nat \<Rightarrow> task_ref \<Rightarrow> task_ref list \<Rightarrow> edges \<Rightarrow> edges \<Rightarrow> error + task_ref list list"
  assumes create_distributes:
    "\<lbrakk>graph_ok mRoot tasks inE outE; 0 < n; create cfg n mRoot tasks inE outE = ok temps\<rbrakk>
     \<Longrightarrow> \<exists>s. topologicalSort mRoot tasks inE outE = ok s \<and> distributes n inE s temps"
begin

lemma scheduled_once:
  assumes "graph_ok mRoot tasks inE outE" "0 < n" "create cfg n mRoot tasks inE outE = ok temps"
  shows "distinct (concat temps) \<and> set (concat temps) = {t. (t, mRoot) \<in> (edge_rel inE)\<^sup>+}"
proof -
  from create_distributes [OF assms] obtain s
    where s: "topologicalSort mRoot tasks inE outE = ok s" "mset (concat temps) = mset s"
    by (auto simp: distributes_def)
  have "distinct s" "set s = {t. (t, mRoot) \<in> (edge_rel inE)\<^sup>+}"
    using topologicalSort_ok(1,2) [OF _ _ _ _ s(1)] assms(1) by (auto simp: graph_ok_def)
  with s(2) show ?thesis by (metis mset_eq_imp_distinct_iff mset_eq_setD)
qed

end

interpretation level_scheduler: distribution createThreadLevel
  by unfold_locales (rule createThreadLevel_distributes)

interpretation list_scheduler: distribution createThreadList
  by unfold_locales (rule createThreadList_distributes)

end
