(* ===== verification/ThreadExecution.thy ===== *)
theory ThreadExecution
  imports Distribution
begin

text \<open>How the schedulers execute a schedule: dpsim/src/ThreadScheduler.cpp as a step
  relation over its threads, and the sequential and OpenMP level schedulers
  (dpsim/src/SequentialScheduler.cpp, dpsim/src/OpenMPLevelScheduler.cpp).  The virtual
  call \<open>Task::execute\<close> is a parameter.\<close>

section \<open>Independent tasks can be reordered\<close>

text \<open>\<open>commuting\<close>: two tasks commute when no chain of dependencies leads from one to the
  other.  Nothing is asked of tasks that are ordered through others, such as the pre-step and
  the post-step of a component, which the solve task lies between.\<close>

definition commuting :: "edges \<Rightarrow> task_ref set \<Rightarrow> (task_ref \<Rightarrow> 's \<Rightarrow> 's) \<Rightarrow> bool" where
  "commuting inE S exec \<longleftrightarrow>
     (\<forall>a\<in>S. \<forall>b\<in>S. a \<noteq> b \<longrightarrow> (a, b) \<notin> (edge_rel inE)\<^sup>+ \<longrightarrow> (b, a) \<notin> (edge_rel inE)\<^sup>+ \<longrightarrow>
        (\<forall>s. exec a (exec b s) = exec b (exec a s)))"

lemma topo_list_before:
  assumes "(a, b) \<in> (edge_rel inE)\<^sup>+" "topo_list inE s"
  shows "j < length s \<Longrightarrow> s ! j = b \<Longrightarrow> a \<in> set (take j s)"
  using assms(1)
proof (induction arbitrary: j rule: trancl_induct)
  case (base y)
  then show ?case using topo_list_nth [OF assms(2)] by blast
next
  case (step y z)
  have "y \<in> set (take j s)" using topo_list_nth [OF assms(2)] step by blast
  then obtain i where i: "i < j" "s ! i = y" "i < length s"
    using step.prems(1) by (auto simp: in_set_conv_nth)
  have "a \<in> set (take i s)" by (rule step.IH [OF i(3,2)])
  then show ?case using set_take_subset_set_take [of i j s] i(1) by auto
qed

lemma fold_move_last:
  assumes "\<And>v s. v \<in> set vs \<Longrightarrow> exec v (exec x s) = exec x (exec v s)"
  shows "fold exec (x # vs) s = fold exec (vs @ [x]) s"
  using assms by (induction vs arbitrary: s) auto

lemma topo_orders_agree:
  assumes "topo_list inE xs" "topo_list inE ys" "distinct xs" "mset xs = mset ys"
    and "commuting inE (set xs) exec"
  shows "fold exec xs s = fold exec ys s"
  using assms
proof (induction xs arbitrary: ys rule: rev_induct)
  case (snoc x xs)
  have x: "x \<in> set ys" and dys: "distinct ys"
    using snoc.prems(3,4) by (metis in_set_conv_decomp mset_eq_setD, metis mset_eq_imp_distinct_iff)
  then obtain us vs where ys: "ys = us @ x # vs" by (auto dest: split_list)
  have set: "set xs = set us \<union> set vs"
    using snoc.prems(3,4) dys mset_eq_setD [OF snoc.prems(4)] by (auto simp: ys)
  have xnot: "(x, v) \<notin> (edge_rel inE)\<^sup>+" if "v \<in> set xs" for v
  proof
    assume xv: "(x, v) \<in> (edge_rel inE)\<^sup>+"
    from that obtain j where j: "j < length xs" "xs ! j = v" by (auto simp: in_set_conv_nth)
    from topo_list_before [OF xv snoc.prems(1), of j] j have "x \<in> set (take j xs)"
      by (simp add: nth_append)
    then show False using snoc.prems(3) in_set_takeD by fastforce
  qed
  have xpred: "x \<notin> set (edges_at inE v)" if "v \<in> set xs" for v
    using xnot [OF that] by (auto simp: edge_rel_iff)
  have "filter (\<lambda>y. y \<noteq> x) us = us" "filter (\<lambda>y. y \<noteq> x) vs = vs"
    by (rule filter_True, use dys in \<open>auto simp: ys\<close>)+
  then have "filter (\<lambda>y. y \<noteq> x) ys = us @ vs" by (simp add: ys)
  then have topo: "topo_list inE (us @ vs)"
    using topo_list_filter [OF snoc.prems(2), of "\<lambda>y. y \<noteq> x"] xpred set dys by (auto simp: ys)
  have vnot: "(v, x) \<notin> (edge_rel inE)\<^sup>+" if "v \<in> set vs" for v
  proof
    assume "(v, x) \<in> (edge_rel inE)\<^sup>+"
    from topo_list_before [OF this snoc.prems(2), of "length us"] have "v \<in> set us" by (simp add: ys)
    then show False using dys that by (auto simp: ys)
  qed
  have "exec v (exec x s) = exec x (exec v s)" if "v \<in> set vs" for v s
    using snoc.prems(5) xnot [of v] vnot [OF that] that set dys
    by (auto simp: commuting_def ys)
  from fold_move_last [of vs exec x] this have "fold exec ys s = exec x (fold exec (us @ vs) s)"
    by (simp add: ys)
  moreover have "fold exec xs s = fold exec (us @ vs) s"
    using snoc.prems topo by (intro snoc.IH) (auto simp: ys commuting_def)
  ultimately show ?case by simp
qed simp

section \<open>The sequential scheduler\<close>

record seq_scheduler =
  mSchedule :: "task_ref list"
  mSeqMeasure :: bool
  mSeqMeasurements :: measurements

definition seqCreateSchedule ::
  "task_ref \<Rightarrow> task_ref list \<Rightarrow> edges \<Rightarrow> edges \<Rightarrow> seq_scheduler \<Rightarrow> error + seq_scheduler" where
  "seqCreateSchedule mRoot tasks inE outE sch =
     (let sch' = (if mSeqMeasure sch
                  then sch\<lparr>mSeqMeasurements := initMeasurements tasks (mSeqMeasurements sch)\<rparr>
                  else sch)
      in bind_err (topologicalSort mRoot tasks inE outE) (\<lambda>s. ok (sch'\<lparr>mSchedule := s\<rparr>)))"

text \<open>\<open>dur\<close> is the measured duration of a task.\<close>

definition seqStep ::
  "(task_ref \<Rightarrow> 's \<Rightarrow> 's) \<Rightarrow> (task_ref \<Rightarrow> nat) \<Rightarrow> seq_scheduler \<Rightarrow> 's \<Rightarrow> seq_scheduler \<times> 's" where
  "seqStep exec dur sch s =
     (if mSeqMeasure sch
      then fold (\<lambda>t (sch, s).
             (sch\<lparr>mSeqMeasurements := updateMeasurement (mSeqMeasurements sch) t (dur t)\<rparr>, exec t s))
             (mSchedule sch) (sch, s)
      else (sch, fold exec (mSchedule sch) s))"

definition seqStop :: "(task_ref \<Rightarrow> task) \<Rightarrow> seq_scheduler \<Rightarrow> string option" where
  "seqStop tbl sch = (if mSeqMeasure sch then Some (writeMeasurements tbl (mSeqMeasurements sch)) else None)"

lemma seqStep_state: "snd (seqStep exec dur sch s) = fold exec (mSchedule sch) s"
proof -
  have "snd (fold (\<lambda>t (sch, s).
          (sch\<lparr>mSeqMeasurements := updateMeasurement (mSeqMeasurements sch) t (dur t)\<rparr>, exec t s))
          ts (sch, s)) = fold exec ts s" for ts
    by (induction ts arbitrary: sch s) auto
  then show ?thesis by (simp add: seqStep_def)
qed

section \<open>The OpenMP level scheduler\<close>

text \<open>\<open>omp for\<close> runs the tasks of a level in an order the runtime chooses and joins at the
  end of the level; \<open>pick\<close> stands for that order.\<close>

definition ompCreateSchedule ::
  "task_ref \<Rightarrow> task_ref list \<Rightarrow> edges \<Rightarrow> edges \<Rightarrow> error + task_ref list list" where
  "ompCreateSchedule mRoot tasks inE outE =
     bind_err (topologicalSort mRoot tasks inE outE) (\<lambda>ordered. levelSchedule ordered inE)"

definition ompStep ::
  "(task_ref list \<Rightarrow> task_ref list) \<Rightarrow> (task_ref \<Rightarrow> 's \<Rightarrow> 's) \<Rightarrow> task_ref list list \<Rightarrow> 's \<Rightarrow> 's" where
  "ompStep pick exec levels s = fold (\<lambda>level. fold exec (pick level)) levels s"

lemma ompStep_concat: "ompStep pick exec levels s = fold exec (concat (map pick levels)) s"
  unfolding ompStep_def by (induction levels arbitrary: s) auto

lemma ompCreate_eq:
  assumes "graph_ok mRoot tasks inE outE" "ompCreateSchedule mRoot tasks inE outE = ok levels"
  obtains s where "topologicalSort mRoot tasks inE outE = ok s" "concat levels = s"
    "levels_ok inE levels" "distinct s" "topo_list inE s"
proof -
  obtain s where s: "topologicalSort mRoot tasks inE outE = ok s" "levelSchedule s inE = ok levels"
    using assms(2) by (auto simp: ompCreateSchedule_def)
  have g: "distinct s" "topo_list inE s" "sorted (map (levelTimes inE s (\<lambda>_. 0)) s)"
    using topologicalSort_ok [OF _ _ _ _ s(1)] assms(1) by (auto simp: graph_ok_def)
  have ne: "s \<noteq> []" using s(2) by (auto simp: levelSchedule_def)
  show thesis using levelSchedule_levels [OF ne g] s that g by auto
qed

text \<open>Whatever order the OpenMP runtime chooses within the levels, a step of the level
  scheduler computes the state that a step of the sequential scheduler computes.\<close>

theorem omp_step_sequential:
  assumes "graph_ok mRoot tasks inE outE" "ompCreateSchedule mRoot tasks inE outE = ok levels"
    and "seqCreateSchedule mRoot tasks inE outE sch = ok sch'"
    and "\<And>l. mset (pick l) = mset l"
    and "commuting inE {t. (t, mRoot) \<in> (edge_rel inE)\<^sup>+} exec"
  shows "ompStep pick exec levels st = snd (seqStep exec dur sch' st)"
proof -
  obtain s where s: "topologicalSort mRoot tasks inE outE = ok s" "concat levels = s"
    "levels_ok inE levels" "distinct s" "topo_list inE s"
    by (rule ompCreate_eq [OF assms(1,2)])
  have sch: "mSchedule sch' = s"
    using assms(3) s(1) by (auto simp: seqCreateSchedule_def Let_def)
  have set: "set s = {t. (t, mRoot) \<in> (edge_rel inE)\<^sup>+}"
    using topologicalSort_ok(2) [OF _ _ _ _ s(1)] assms(1) by (auto simp: graph_ok_def)
  have "list_all2 (\<lambda>l level. mset l = mset level) (map pick levels) levels"
    using assms(4) by (simp add: list_all2_conv_all_nth)
  from levels_topo [OF s(3) this]
  have "topo_list inE (concat (map pick levels))" "mset (concat (map pick levels)) = mset s"
    using s(2) by auto
  from topo_orders_agree [OF s(5) this(1) s(4) this(2) [symmetric], of exec st] assms(5) set
  show ?thesis by (simp add: ompStep_concat seqStep_state sch)
qed

definition demo_exec :: "task_ref \<Rightarrow> (nat \<Rightarrow> int) \<Rightarrow> (nat \<Rightarrow> int)" where
  "demo_exec t s = (if t = 0 then s(2 := s 1 + 1) else if t = 1 then s(1 := 5)
                    else if t = 2 then s(9 := s 2) else s)"

abbreviation demo_in :: edges where "demo_in \<equiv> [(2, [0]), (3, [0]), (9, [0, 2]), (0, [1])]"
abbreviation demo_out :: edges where "demo_out \<equiv> [(0, [2, 3, 9]), (1, [0]), (2, [9])]"

lemma demo_graph_ok: "graph_ok 9 [0, 1, 2, 3, 9] demo_in demo_out"
  using resolveDeps_facts [OF demo_graph] by (simp add: graph_ok_def)

lemma demo_live: "{t. (t, 9) \<in> (edge_rel demo_in)\<^sup>+} = {0, 1, 2}"
  using topologicalSort_ok(2) [OF _ _ _ _ demo_sort] demo_graph_ok by (auto simp: graph_ok_def)

lemma demo_edge: "(1, 0) \<in> (edge_rel demo_in)\<^sup>+" "(0, 2) \<in> (edge_rel demo_in)\<^sup>+" "(1, 2) \<in> (edge_rel demo_in)\<^sup>+"
proof -
  have e: "(1, 0) \<in> edge_rel demo_in" "(0, 2) \<in> edge_rel demo_in"
    by (simp_all add: edge_rel_iff edges_at_def)
  show "(1, 0) \<in> (edge_rel demo_in)\<^sup>+" "(0, 2) \<in> (edge_rel demo_in)\<^sup>+" using e by blast+
  show "(1, 2) \<in> (edge_rel demo_in)\<^sup>+" by (rule trancl_into_trancl [OF r_into_trancl [OF e(1)] e(2)])
qed

lemma demo_commuting: "commuting demo_in {t. (t, 9) \<in> (edge_rel demo_in)\<^sup>+} demo_exec"
  unfolding demo_live commuting_def using demo_edge by simp

theorem omp_step_sequential_witness:
  "ompStep rev demo_exec [[1], [0], [2]] (\<lambda>_. 0) 9 = 6"
proof -
  have o: "ompCreateSchedule 9 [0, 1, 2, 3, 9] demo_in demo_out = ok [[1], [0], [2]]"
    by code_simp
  have c: "seqCreateSchedule 9 [0, 1, 2, 3, 9] demo_in demo_out
             \<lparr>mSchedule = [], mSeqMeasure = False, mSeqMeasurements = []\<rparr>
           = ok \<lparr>mSchedule = [1, 0, 2], mSeqMeasure = False, mSeqMeasurements = []\<rparr>"
    by code_simp
  show ?thesis
    unfolding omp_step_sequential [OF demo_graph_ok o c mset_rev demo_commuting, where dur = "\<lambda>_. 0"]
    by (simp add: seqStep_def demo_exec_def)
qed

section \<open>The thread scheduler\<close>

text \<open>\<open>finishSchedule\<close> turns the task lists into arrays of entries and resolves every
  incoming edge to the counter of the entry that holds the required task.  A counter is
  named by the position (thread, index) of its entry; \<open>counters[req]\<close> for a task that is
  in no list is the null pointer.\<close>

record schedule_entry =
  entryTask :: task_ref
  reqCounters :: "(nat \<times> nat) option list"

definition entryPositions :: "task_ref list list \<Rightarrow> (task_ref \<times> (nat \<times> nat)) list" where
  "entryPositions temps =
     concat (map (\<lambda>i. map (\<lambda>j. (temps ! i ! j, (i, j))) [0..<length (temps ! i)]) [0..<length temps])"

definition counterOf :: "task_ref list list \<Rightarrow> task_ref \<Rightarrow> (nat \<times> nat) option" where
  "counterOf temps = fold (\<lambda>(t, p) m. m(t \<mapsto> p)) (entryPositions temps) Map.empty"

definition finishSchedule :: "task_ref list list \<Rightarrow> edges \<Rightarrow> schedule_entry list list" where
  "finishSchedule temps inE =
     map (map (\<lambda>t. \<lparr>entryTask = t, reqCounters = map (counterOf temps) (edges_at inE t)\<rparr>)) temps"

text \<open>The threads run \<open>doStep\<close> concurrently.  \<open>position\<close> is the loop index \<open>i\<close> of a
  thread, \<open>passed\<close> the number of counters it has waited for, \<open>running\<close> whether it is
  inside \<open>execute\<close>; \<open>k\<close> is \<open>mTimeStepCount\<close>.\<close>

datatype event = Begin task_ref | End task_ref

record exec_state =
  endCounter :: "nat \<times> nat \<Rightarrow> nat"
  position :: "nat \<Rightarrow> nat"
  passed :: "nat \<Rightarrow> nat"
  running :: "nat \<Rightarrow> bool"
  events :: "event list"

definition stepStart :: "nat \<Rightarrow> exec_state" where
  "stepStart k = \<lparr>endCounter = \<lambda>_. k, position = \<lambda>_. 0, passed = \<lambda>_. 0,
                  running = \<lambda>_. False, events = []\<rparr>"

inductive doStep :: "schedule_entry list list \<Rightarrow> nat \<Rightarrow> exec_state \<Rightarrow> exec_state \<Rightarrow> bool"
  for sc :: "schedule_entry list list" and k :: nat where
  waitCounter:
    "\<lbrakk>i < length sc; position st i < length (sc ! i); \<not> running st i;
      passed st i < length (reqCounters (sc ! i ! position st i));
      reqCounters (sc ! i ! position st i) ! passed st i = Some c; endCounter st c = k + 1\<rbrakk>
     \<Longrightarrow> doStep sc k st (st\<lparr>passed := (passed st)(i := passed st i + 1)\<rparr>)"
| execute:
    "\<lbrakk>i < length sc; position st i < length (sc ! i); \<not> running st i;
      passed st i = length (reqCounters (sc ! i ! position st i))\<rbrakk>
     \<Longrightarrow> doStep sc k st (st\<lparr>running := (running st)(i := True),
            events := events st @ [Begin (entryTask (sc ! i ! position st i))]\<rparr>)"
| finish:
    "\<lbrakk>i < length sc; running st i\<rbrakk>
     \<Longrightarrow> doStep sc k st (st\<lparr>running := (running st)(i := False),
            events := events st @ [End (entryTask (sc ! i ! position st i))],
            endCounter := (endCounter st)((i, position st i) := endCounter st (i, position st i) + 1),
            position := (position st)(i := position st i + 1),
            passed := (passed st)(i := 0)\<rparr>)"

inductive_cases doStepE: "doStep sc k st st'"

text \<open>The main thread returns from \<open>step\<close> when its own list is done and the last counter
  of every other thread has reached \<open>mTimeStepCount + 1\<close>.\<close>

definition stepReturns :: "schedule_entry list list \<Rightarrow> nat \<Rightarrow> exec_state \<Rightarrow> bool" where
  "stepReturns sc k st \<longleftrightarrow>
     position st 0 = length (sc ! 0) \<and>
     (\<forall>i \<in> {1..<length sc}. sc ! i \<noteq> [] \<longrightarrow> endCounter st (i, length (sc ! i) - 1) = k + 1)"

subsection \<open>Positions and counters\<close>

lemma map_of_entries:
  "fold (\<lambda>(t, p) m. m(t \<mapsto> p)) es m t =
     (case map_of (rev es) t of None \<Rightarrow> m t | Some p \<Rightarrow> Some p)"
  by (induction es arbitrary: m) (auto simp: map_add_def split: option.splits)

lemma entryPositions_iff:
  "(t, (i, j)) \<in> set (entryPositions temps) \<longleftrightarrow>
     i < length temps \<and> j < length (temps ! i) \<and> temps ! i ! j = t"
  by (auto simp: entryPositions_def image_iff)

lemma counterOf_Some:
  assumes "t \<in> set (concat temps)"
  obtains i j where "counterOf temps t = Some (i, j)" "i < length temps" "j < length (temps ! i)"
    "temps ! i ! j = t"
proof -
  obtain i j where "i < length temps" "j < length (temps ! i)" "temps ! i ! j = t"
    using assms by (auto simp: in_set_conv_nth)
  then have "(t, (i, j)) \<in> set (entryPositions temps)" by (simp add: entryPositions_iff)
  then obtain p where p: "map_of (rev (entryPositions temps)) t = Some p"
    by (metis fst_conv image_eqI map_of_eq_None_iff not_Some_eq set_map set_rev)
  obtain i' j' where ij: "p = (i', j')" by (cases p)
  have "(t, (i', j')) \<in> set (entryPositions temps)"
    using map_of_SomeD [OF p] ij by simp
  moreover have "counterOf temps t = Some (i', j')"
    by (simp add: counterOf_def map_of_entries p ij)
  ultimately show thesis using that by (auto simp: entryPositions_iff)
qed

lemma distinct_concat_positions:
  assumes "distinct (concat temps)" "i < length temps" "j < length (temps ! i)"
    "i' < length temps" "j' < length (temps ! i')" "temps ! i ! j = temps ! i' ! j'"
  shows "i = i' \<and> j = j'"
proof -
  have "i = i'"
  proof (rule ccontr)
    assume "i \<noteq> i'"
    have "set (temps ! i) \<inter> set (temps ! i') = {}"
      using assms(1,2,4) \<open>i \<noteq> i'\<close>
    proof (induction temps arbitrary: i i')
      case (Cons l temps)
      then show ?case
        by (cases i; cases i') (auto, (metis UN_I disjoint_iff nth_mem)+)
    qed simp
    moreover have "temps ! i ! j \<in> set (temps ! i)" "temps ! i ! j \<in> set (temps ! i')"
      using nth_mem [OF assms(3)] nth_mem [OF assms(5)] assms(6) by simp_all
    ultimately show False by blast
  qed
  moreover have "distinct (temps ! i)" using assms(1,2) by (simp add: distinct_concat_iff)
  ultimately show ?thesis using assms by (simp add: nth_eq_iff_index_eq)
qed

lemma finishSchedule_simps [simp]:
  "length (finishSchedule temps inE) = length temps"
  "i < length temps \<Longrightarrow> length (finishSchedule temps inE ! i) = length (temps ! i)"
  "\<lbrakk>i < length temps; j < length (temps ! i)\<rbrakk> \<Longrightarrow> finishSchedule temps inE ! i ! j =
     \<lparr>entryTask = temps ! i ! j, reqCounters = map (counterOf temps) (edges_at inE (temps ! i ! j))\<rparr>"
  by (simp_all add: finishSchedule_def)

lemma counterOf_SomeD:
  assumes "counterOf temps t = Some (i, j)"
  shows "i < length temps" "j < length (temps ! i)" "temps ! i ! j = t"
proof -
  have "map_of (rev (entryPositions temps)) t = Some (i, j)"
    using assms by (simp add: counterOf_def map_of_entries split: option.splits)
  then have "(t, (i, j)) \<in> set (entryPositions temps)" by (auto dest: map_of_SomeD)
  then show "i < length temps" "j < length (temps ! i)" "temps ! i ! j = t"
    by (auto simp: entryPositions_iff)
qed

subsection \<open>Traces\<close>

definition ends :: "event list \<Rightarrow> task_ref list" where
  "ends ev = concat (map (\<lambda>e. case e of End t \<Rightarrow> [t] | Begin t \<Rightarrow> []) ev)"

definition trace_ok :: "edges \<Rightarrow> event list \<Rightarrow> bool" where
  "trace_ok inE ev \<longleftrightarrow> (\<forall>p < length ev. case ev ! p of
       Begin b \<Rightarrow> \<forall>a \<in> set (edges_at inE b). End a \<in> set (take p ev)
     | End b \<Rightarrow> Begin b \<in> set (take p ev))"

lemma trace_ok_Nil [simp]: "trace_ok inE []"
  by (simp add: trace_ok_def)

lemma trace_ok_snoc:
  "trace_ok inE (ev @ [e]) \<longleftrightarrow> trace_ok inE ev \<and>
     (case e of Begin b \<Rightarrow> \<forall>a \<in> set (edges_at inE b). End a \<in> set ev | End b \<Rightarrow> Begin b \<in> set ev)"
proof -
  have 1: "(\<forall>p<Suc (length ev). P p) \<longleftrightarrow> (\<forall>p<length ev. P p) \<and> P (length ev)" for P
    by (auto simp: less_Suc_eq)
  show ?thesis
    unfolding trace_ok_def length_append_singleton 1
    by (simp add: nth_append cong: event.case_cong)
qed

lemma ends_simps [simp]:
  "ends [] = []" "ends (ev @ [End t]) = ends ev @ [t]" "ends (ev @ [Begin t]) = ends ev"
  by (simp_all add: ends_def)

lemma set_ends: "t \<in> set (ends ev) \<longleftrightarrow> End t \<in> set ev"
  by (auto simp: ends_def split: event.splits)

lemma trace_ok_begin:
  "trace_ok inE ev \<Longrightarrow> Begin b \<in> set ev \<Longrightarrow> a \<in> set (edges_at inE b) \<Longrightarrow> End a \<in> set ev"
  by (induction ev rule: rev_induct) (auto simp: trace_ok_snoc split: event.splits)

lemma trace_ok_topo: "trace_ok inE ev \<Longrightarrow> topo_list inE (ends ev)"
proof (induction ev rule: rev_induct)
  case (snoc e ev)
  show ?case
  proof (cases e)
    case (End t)
    then show ?thesis
      using snoc trace_ok_begin [of inE ev t] by (auto simp: trace_ok_snoc set_ends)
  qed (use snoc in \<open>simp add: trace_ok_snoc\<close>)
qed simp

lemma distinct_ends: "distinct ev \<Longrightarrow> distinct (ends ev)"
proof (induction ev rule: rev_induct)
  case (snoc e ev)
  then show ?case by (cases e) (auto simp: set_ends)
qed simp

subsection \<open>The invariant of a step\<close>

definition exec_inv :: "task_ref list list \<Rightarrow> edges \<Rightarrow> nat \<Rightarrow> exec_state \<Rightarrow> bool" where
  "exec_inv temps inE k st \<longleftrightarrow>
     (\<forall>i<length temps. position st i \<le> length (temps ! i))
   \<and> (\<forall>i<length temps. running st i \<longrightarrow> position st i < length (temps ! i)
        \<and> passed st i = length (edges_at inE (temps ! i ! position st i)))
   \<and> (\<forall>i<length temps. \<forall>j<length (temps ! i).
        endCounter st (i, j) = (if j < position st i then k + 1 else k))
   \<and> (\<forall>i<length temps. position st i < length (temps ! i) \<longrightarrow>
        passed st i \<le> length (edges_at inE (temps ! i ! position st i)) \<and>
        (\<forall>m<passed st i. End (edges_at inE (temps ! i ! position st i) ! m) \<in> set (events st)))
   \<and> (\<forall>i<length temps. \<forall>j<length (temps ! i).
        (End (temps ! i ! j) \<in> set (events st) \<longleftrightarrow> j < position st i))
   \<and> (\<forall>i<length temps. \<forall>j<length (temps ! i).
        (Begin (temps ! i ! j) \<in> set (events st) \<longleftrightarrow> j < position st i \<or> j = position st i \<and> running st i))
   \<and> (\<forall>t. End t \<in> set (events st) \<longrightarrow> t \<in> set (concat temps))
   \<and> distinct (events st) \<and> trace_ok inE (events st)"

lemma exec_invD:
  assumes "exec_inv temps inE k st" "i < length temps"
  shows "position st i \<le> length (temps ! i)"
    and "running st i \<Longrightarrow> position st i < length (temps ! i)"
    and "running st i \<Longrightarrow> passed st i = length (edges_at inE (temps ! i ! position st i))"
    and "j < length (temps ! i) \<Longrightarrow> endCounter st (i, j) = (if j < position st i then k + 1 else k)"
    and "position st i < length (temps ! i) \<Longrightarrow>
           passed st i \<le> length (edges_at inE (temps ! i ! position st i))"
    and "position st i < length (temps ! i) \<Longrightarrow> m < passed st i \<Longrightarrow>
           End (edges_at inE (temps ! i ! position st i) ! m) \<in> set (events st)"
    and "j < length (temps ! i) \<Longrightarrow> End (temps ! i ! j) \<in> set (events st) \<longleftrightarrow> j < position st i"
    and "j < length (temps ! i) \<Longrightarrow> Begin (temps ! i ! j) \<in> set (events st) \<longleftrightarrow>
           j < position st i \<or> j = position st i \<and> running st i"
  using assms unfolding exec_inv_def by blast+

lemma exec_inv_start: "exec_inv temps inE k (stepStart k)"
  by (simp add: exec_inv_def stepStart_def)

lemma counter_ended:
  assumes "exec_inv temps inE k st" "counterOf temps a = Some c" "endCounter st c = k + 1"
  shows "End a \<in> set (events st)"
proof -
  obtain i j where c: "c = (i, j)" by (cases c)
  note p = counterOf_SomeD [OF assms(2) [unfolded c]]
  have "j < position st i"
    using exec_invD(4) [OF assms(1) p(1,2)] assms(3) c by (auto split: if_splits)
  then show ?thesis using exec_invD(7) [OF assms(1) p(1,2)] p(3) by simp
qed

lemma exec_inv_step:
  assumes step: "doStep (finishSchedule temps inE) k st st'"
    and inv: "exec_inv temps inE k st" and dist: "distinct (concat temps)"
  shows "exec_inv temps inE k st'"
  using step
proof cases
  case (waitCounter i c)
  let ?t = "temps ! i ! position st i"
  have i: "i < length temps" "position st i < length (temps ! i)"
    "passed st i < length (edges_at inE ?t)"
    "counterOf temps (edges_at inE ?t ! passed st i) = Some c"
    using waitCounter by (simp_all add: finishSchedule_def)
  have "End (edges_at inE ?t ! passed st i) \<in> set (events st)"
    by (rule counter_ended [OF inv i(4) waitCounter(7)])
  with inv i waitCounter(4) show ?thesis
    unfolding exec_inv_def waitCounter(1) by (auto simp: less_Suc_eq)
next
  case (execute i)
  let ?t = "temps ! i ! position st i"
  have i: "i < length temps" "position st i < length (temps ! i)" "passed st i = length (edges_at inE ?t)"
    using execute by (simp_all add: finishSchedule_def)
  have task: "entryTask (finishSchedule temps inE ! i ! position st i) = ?t" using i by simp
  have new: "Begin ?t \<notin> set (events st)"
    using exec_invD(8) [OF inv i(1,2)] execute(4) by simp
  have req: "\<forall>a\<in>set (edges_at inE ?t). End a \<in> set (events st)"
    using exec_invD(6) [OF inv i(1,2)] i(3) by (auto simp: in_set_conv_nth)
  have same: "i' = i \<and> j = position st i"
    if "i' < length temps" "j < length (temps ! i')" "temps ! i' ! j = ?t" for i' j
    using distinct_concat_positions [OF dist that(1,2) i(1,2)] that(3) by simp
  show ?thesis
    using inv i new req same
    unfolding exec_inv_def execute(1) task by (auto simp: trace_ok_snoc)
next
  case (finish i)
  let ?t = "temps ! i ! position st i"
  have i: "i < length temps" using finish by simp
  note r = exec_invD(2,3) [OF inv i finish(3)]
  have task: "entryTask (finishSchedule temps inE ! i ! position st i) = ?t" using i r by simp
  have new: "End ?t \<notin> set (events st)" using exec_invD(7) [OF inv i r(1)] by simp
  have beg: "Begin ?t \<in> set (events st)" using exec_invD(8) [OF inv i r(1)] finish(3) by simp
  have mem: "?t \<in> set (concat temps)" using nth_mem [OF i] nth_mem [OF r(1)] by auto
  have same: "i' = i \<and> j = position st i"
    if "i' < length temps" "j < length (temps ! i')" "temps ! i' ! j = ?t" for i' j
    using distinct_concat_positions [OF dist that(1,2) i r(1)] that(3) by simp
  note old = inv [unfolded exec_inv_def]
  show ?thesis
    unfolding exec_inv_def finish(1) task
  proof (intro conjI, goal_cases)
    case 1
    show ?case using exec_invD(1) [OF inv] r(1) by simp
  next
    case 2
    show ?case using old by simp
  next
    case 3
    show ?case using exec_invD(4) [OF inv] i r(1) by simp
  next
    case 4
    show ?case using exec_invD(5,6) [OF inv] by simp
  next
    case 5
    show ?case using exec_invD(7) [OF inv] same by (auto simp: less_Suc_eq)
  next
    case 6
    show ?case using exec_invD(8) [OF inv] finish(3) by (auto simp: less_Suc_eq)
  next
    case 7
    show ?case using old mem by auto
  next
    case 8
    show ?case using old new by auto
  next
    case 9
    show ?case using old beg by (auto simp: trace_ok_snoc)
  qed
qed

lemma exec_inv_reachable:
  assumes "(doStep (finishSchedule temps inE) k)\<^sup>*\<^sup>* (stepStart k) st" "distinct (concat temps)"
  shows "exec_inv temps inE k st"
  using assms(1) by induction (auto intro: exec_inv_start exec_inv_step assms(2))

subsection \<open>Deadlock freedom\<close>

lemma subseq_earlier:
  assumes "subseq (l1 @ x # l2) (us @ x # vs)" "distinct (us @ x # vs)" "y \<in> set l1"
  shows "y \<in> set us"
proof -
  obtain us' vs' where o: "us @ x # vs = us' @ vs'" "subseq l1 us'" "subseq (x # l2) vs'"
    using list_emb_appendD [OF assms(1)] by blast
  have "x \<in> set vs'" using list_emb_set [OF o(3), of x] by auto
  then have "x \<notin> set us'" using assms(2) unfolding o(1) by auto
  then obtain ws where "us = us' @ ws"
    using o(1) by (auto simp: append_eq_append_conv2 Cons_eq_append_conv append_eq_Cons_conv)
  moreover have "y \<in> set us'" using list_emb_set [OF o(2) assms(3)] by auto
  ultimately show ?thesis by simp
qed

definition allDone :: "task_ref list list \<Rightarrow> exec_state \<Rightarrow> bool" where
  "allDone temps st \<longleftrightarrow> (\<forall>i<length temps. position st i = length (temps ! i))"

lemma progress:
  assumes D: "distributes n inE s temps" "distinct s"
    and inv: "exec_inv temps inE k st" and nd: "\<not> allDone temps st"
  shows "\<exists>st'. doStep (finishSchedule temps inE) k st st'"
proof -
  obtain ord where ord: "mset ord = mset s" "topo_list inE ord" "\<And>l. l \<in> set temps \<Longrightarrow> subseq l ord"
    using D(1) by (auto simp: distributes_def)
  have mem: "set (concat temps) = set ord"
    using D(1) ord(1) by (metis distributes_def mset_eq_setD)
  have dord: "distinct ord" using D(2) ord(1) by (metis mset_eq_imp_distinct_iff)
  define U where "U t \<longleftrightarrow> (\<exists>i<length temps. \<exists>j<length (temps ! i). position st i \<le> j \<and> temps ! i ! j = t)" for t
  obtain i where i: "i < length temps" "position st i < length (temps ! i)"
    using nd exec_invD(1) [OF inv] by (auto simp: allDone_def le_less)
  have "temps ! i ! position st i \<in> set ord"
    unfolding mem [symmetric] using nth_mem [OF i(1)] nth_mem [OF i(2)] by auto
  moreover have "U (temps ! i ! position st i)" unfolding U_def using i by blast
  ultimately have "\<exists>t\<in>set ord. U t" by blast
  from split_list_first_prop [OF this]
  obtain us t vs where o: "ord = us @ t # vs" "U t" "\<forall>u\<in>set us. \<not> U u" by blast
  then obtain i j where ij: "i < length temps" "j < length (temps ! i)" "position st i \<le> j"
    "temps ! i ! j = t" unfolding U_def by blast
  let ?p = "position st i"
  have "j = ?p"
  proof (rule ccontr)
    assume "j \<noteq> ?p"
    then have lt: "?p < j" using ij(3) by simp
    have "temps ! i = take j (temps ! i) @ t # drop (Suc j) (temps ! i)"
      using ij(2,4) id_take_nth_drop by blast
    moreover have "temps ! i ! ?p \<in> set (take j (temps ! i))"
      using lt ij(2) by (auto simp: in_set_conv_nth)
    ultimately have "temps ! i ! ?p \<in> set us"
      using subseq_earlier [of "take j (temps ! i)" t "drop (Suc j) (temps ! i)" us vs]
        ord(3) [OF nth_mem [OF ij(1)]] dord o(1) by simp
    moreover have "U (temps ! i ! ?p)" unfolding U_def using ij(1,2) lt by (intro exI [of _ i] conjI exI [of _ ?p]) auto
    ultimately show False using o(3) by blast
  qed
  with ij have t: "temps ! i ! ?p = t" "?p < length (temps ! i)" by auto
  have pre: "\<exists>c. counterOf temps a = Some c \<and> endCounter st c = k + 1" if "a \<in> set (edges_at inE t)" for a
  proof -
    have "a \<in> set us"
      using ord(2) that by (auto simp: o(1) topo_list_def dest!: spec [of _ "length us"])
    then have "\<not> U a" and am: "a \<in> set (concat temps)" using o(1,3) mem by simp_all
    from counterOf_Some [OF am] obtain i' j' where "counterOf temps a = Some (i', j')" "i' < length temps"
      "j' < length (temps ! i')" "temps ! i' ! j' = a" by metis
    moreover from this \<open>\<not> U a\<close> have "j' < position st i'" unfolding U_def using not_less by blast
    ultimately show ?thesis
      using exec_invD(4) [OF inv, of i' j'] by (intro exI [of _ "(i', j')"]) simp
  qed
  let ?sc = "finishSchedule temps inE"
  show ?thesis
  proof (cases "running st i")
    case True
    then show ?thesis using doStep.finish [of i ?sc st k] ij(1) by auto
  next
    case nr: False
    show ?thesis
    proof (cases "passed st i < length (edges_at inE t)")
      case True
      then obtain c where "counterOf temps (edges_at inE t ! passed st i) = Some c" "endCounter st c = k + 1"
        using pre [of "edges_at inE t ! passed st i"] by auto
      then show ?thesis
        using doStep.waitCounter [of i ?sc st c k] ij(1) t nr True by auto
    next
      case False
      then have "passed st i = length (edges_at inE t)"
        using exec_invD(5) [OF inv ij(1)] t by simp
      then show ?thesis using doStep.execute [of i ?sc st k] ij(1) t nr by auto
    qed
  qed
qed

subsection \<open>Termination of a step\<close>

text \<open>Each thread still has to pass its counters, start and finish each of its entries.\<close>

definition threadWork :: "schedule_entry list list \<Rightarrow> exec_state \<Rightarrow> nat \<Rightarrow> nat" where
  "threadWork sc st i =
     sum_list (map (\<lambda>e. length (reqCounters e) + 2) (drop (position st i) (sc ! i)))
     - (passed st i + (if running st i then 1 else 0))"

definition stepWork :: "schedule_entry list list \<Rightarrow> exec_state \<Rightarrow> nat" where
  "stepWork sc st = (\<Sum>i<length sc. threadWork sc st i)"

lemma sum_decrease:
  fixes f g :: "nat \<Rightarrow> nat"
  assumes "i < n" "g i < f i" "\<And>j. j \<noteq> i \<Longrightarrow> g j = f j"
  shows "(\<Sum>j<n. g j) < (\<Sum>j<n. f j)"
  using assms by (intro sum_strict_mono_ex1) (auto, metis le_less)

lemma drop_finish:
  assumes "i < length temps" "p < length (temps ! i)"
  shows "drop p (finishSchedule temps inE ! i) =
     \<lparr>entryTask = temps ! i ! p, reqCounters = map (counterOf temps) (edges_at inE (temps ! i ! p))\<rparr>
       # drop (Suc p) (finishSchedule temps inE ! i)"
  using assms by (subst Cons_nth_drop_Suc [symmetric]) auto

lemma doStep_work:
  assumes "doStep (finishSchedule temps inE) k st st'" "exec_inv temps inE k st"
  shows "stepWork (finishSchedule temps inE) st' < stepWork (finishSchedule temps inE) st"
  using assms(1)
proof cases
  case (waitCounter i c)
  have i: "i < length temps" "position st i < length (temps ! i)" using waitCounter by auto
  show ?thesis unfolding stepWork_def
    by (rule sum_decrease [of i])
      (use waitCounter i in \<open>auto simp: threadWork_def drop_finish [OF i]\<close>)
next
  case (execute i)
  have i: "i < length temps" "position st i < length (temps ! i)" using execute by auto
  show ?thesis unfolding stepWork_def
    by (rule sum_decrease [of i])
      (use execute i in \<open>auto simp: threadWork_def drop_finish [OF i]\<close>)
next
  case (finish i)
  have i: "i < length temps" using finish by simp
  note r = exec_invD(2,3) [OF assms(2) i finish(3)]
  show ?thesis unfolding stepWork_def
    by (rule sum_decrease [of i])
      (use finish i r in \<open>auto simp: threadWork_def drop_finish [OF i r(1)]\<close>)
qed

lemma step_bounded:
  assumes "(doStep (finishSchedule temps inE) k ^^ m) (stepStart k) st" "distinct (concat temps)"
  shows "stepWork (finishSchedule temps inE) st + m \<le> stepWork (finishSchedule temps inE) (stepStart k)"
  using assms(1)
proof (induction m arbitrary: st)
  case (Suc m)
  then obtain st1 where st1: "(doStep (finishSchedule temps inE) k ^^ m) (stepStart k) st1"
    "doStep (finishSchedule temps inE) k st1 st" by auto
  have "exec_inv temps inE k st1"
    using exec_inv_reachable [OF relpowp_imp_rtranclp [OF st1(1)] assms(2)] .
  with doStep_work [OF st1(2)] Suc.IH [OF st1(1)] show ?case by simp
qed simp

subsection \<open>The result of a step\<close>

lemma stepReturns_iff:
  assumes "exec_inv temps inE k st" "0 < length temps"
  shows "stepReturns (finishSchedule temps inE) k st \<longleftrightarrow> allDone temps st"
proof -
  have "endCounter st (i, length (temps ! i) - 1) = k + 1 \<longleftrightarrow> position st i = length (temps ! i)"
    if "i < length temps" "temps ! i \<noteq> []" for i
  proof -
    have "length (temps ! i) - 1 < length (temps ! i)" using that(2) by simp
    from exec_invD(4) [OF assms(1) that(1) this] exec_invD(1) [OF assms(1) that(1)] that(2)
    show ?thesis by auto
  qed
  moreover have "position st i = 0" if "i < length temps" "temps ! i = []" for i
    using exec_invD(1) [OF assms(1) that(1)] that(2) by simp
  ultimately have "(temps ! i \<noteq> [] \<longrightarrow> endCounter st (i, length (temps ! i) - 1) = k + 1) \<longleftrightarrow>
      position st i = length (temps ! i)" if "i < length temps" for i
    using that by (cases "temps ! i = []") auto
  moreover have "finishSchedule temps inE ! i \<noteq> [] \<longleftrightarrow> temps ! i \<noteq> []"
      "length (finishSchedule temps inE ! i) = length (temps ! i)" if "i < length temps" for i
    using that by (simp_all add: finishSchedule_def)
  moreover have "(\<forall>i<length temps. P i) \<longleftrightarrow> P 0 \<and> (\<forall>i\<in>{1..<length temps}. P i)" for P
    using assms(2) by (metis One_nat_def atLeastLessThan_iff less_one not_less)
  ultimately show ?thesis
    using assms(2) unfolding stepReturns_def allDone_def by simp
qed

lemma allDone_ends:
  assumes "exec_inv temps inE k st" "allDone temps st" "distinct (concat temps)"
  shows "mset (ends (events st)) = mset (concat temps)" "topo_list inE (ends (events st))"
proof -
  have ev: "distinct (events st)" "trace_ok inE (events st)"
    "\<And>t. End t \<in> set (events st) \<Longrightarrow> t \<in> set (concat temps)"
    using assms(1) unfolding exec_inv_def by blast+
  have "End t \<in> set (events st)" if t: "t \<in> set (concat temps)" for t
  proof -
    obtain i j where "i < length temps" "j < length (temps ! i)" "temps ! i ! j = t"
      using counterOf_Some [OF t] by metis
    then show ?thesis using exec_invD(7) [OF assms(1)] assms(2) by (auto simp: allDone_def)
  qed
  then have "t \<in> set (ends (events st)) \<longleftrightarrow> t \<in> set (concat temps)" for t
    unfolding set_ends using ev(3) by blast
  then have "set (ends (events st)) = set (concat temps)" by blast
  then show "mset (ends (events st)) = mset (concat temps)"
    using set_eq_iff_mset_eq_distinct [OF distinct_ends [OF ev(1)] assms(3)] by (rule iffD1 [rotated])
  show "topo_list inE (ends (events st))" using ev(2) by (rule trace_ok_topo)
qed

section \<open>What every distribution gives\<close>

context distribution begin

lemma thread_step:
  assumes g: "graph_ok mRoot tasks inE outE" "0 < n" "create cfg n mRoot tasks inE outE = ok temps"
    and run: "(doStep (finishSchedule temps inE) k)\<^sup>*\<^sup>* (stepStart k) st"
  shows "trace_ok inE (events st)" "distinct (events st)"
    and "(\<exists>st'. doStep (finishSchedule temps inE) k st st') \<or> allDone temps st"
    and "stepReturns (finishSchedule temps inE) k st \<longleftrightarrow> allDone temps st"
    and "allDone temps st \<Longrightarrow> commuting inE {t. (t, mRoot) \<in> (edge_rel inE)\<^sup>+} exec \<Longrightarrow>
           seqCreateSchedule mRoot tasks inE outE sch = ok sch' \<Longrightarrow>
           fold exec (ends (events st)) \<sigma> = snd (seqStep exec dur sch' \<sigma>)"
proof -
  note once = scheduled_once [OF g]
  obtain s where s: "topologicalSort mRoot tasks inE outE = ok s" and D: "distributes n inE s temps"
    using create_distributes [OF g] by blast
  note srt = topologicalSort_ok [OF _ _ _ _ s]
  have r: "distinct s" "set s = {t. (t, mRoot) \<in> (edge_rel inE)\<^sup>+}" "topo_list inE s"
    using srt g(1) by (auto simp: graph_ok_def)
  have dc: "distinct (concat temps)" using once by blast
  have inv: "exec_inv temps inE k st" by (rule exec_inv_reachable [OF run dc])
  show "trace_ok inE (events st)" "distinct (events st)" using inv unfolding exec_inv_def by blast+
  show "(\<exists>st'. doStep (finishSchedule temps inE) k st st') \<or> allDone temps st"
    using progress [OF D r(1) inv] by blast
  show "stepReturns (finishSchedule temps inE) k st \<longleftrightarrow> allDone temps st"
    using stepReturns_iff [OF inv] D g(2) unfolding distributes_def by blast
  assume ad: "allDone temps st" and ind: "commuting inE {t. (t, mRoot) \<in> (edge_rel inE)\<^sup>+} exec"
    and sq: "seqCreateSchedule mRoot tasks inE outE sch = ok sch'"
  have "mSchedule sch' = s" using sq s by (auto simp: seqCreateSchedule_def Let_def)
  moreover have "mset s = mset (ends (events st))"
    using allDone_ends(1) [OF inv ad dc] D by (simp add: distributes_def)
  ultimately show "fold exec (ends (events st)) \<sigma> = snd (seqStep exec dur sch' \<sigma>)"
    using topo_orders_agree [OF r(3) allDone_ends(2) [OF inv ad dc] r(1), of exec \<sigma>] ind r(2)
    by (simp add: seqStep_state)
qed

lemma thread_step_completes:
  assumes g: "graph_ok mRoot tasks inE outE" "0 < n" "create cfg n mRoot tasks inE outE = ok temps"
    and run: "(doStep (finishSchedule temps inE) k)\<^sup>*\<^sup>* (stepStart k) st"
  shows "\<exists>st'. (doStep (finishSchedule temps inE) k)\<^sup>*\<^sup>* st st' \<and> stepReturns (finishSchedule temps inE) k st'"
  using run
proof (induction "stepWork (finishSchedule temps inE) st" arbitrary: st rule: less_induct)
  case less
  note r = thread_step(3,4) [OF g less.prems]
  show ?case
  proof (cases "allDone temps st")
    case True
    with r show ?thesis by blast
  next
    case False
    then obtain st1 where st1: "doStep (finishSchedule temps inE) k st st1" using r by blast
    have "distinct (concat temps)" using scheduled_once [OF g] by blast
    then have "stepWork (finishSchedule temps inE) st1 < stepWork (finishSchedule temps inE) st"
      using doStep_work [OF st1] exec_inv_reachable [OF less.prems] by blast
    from less.hyps [OF this rtranclp.rtrancl_into_rtrancl [OF less.prems st1]] st1
    show ?thesis by (meson converse_rtranclp_into_rtranclp)
  qed
qed

lemma thread_step_bounded:
  assumes "graph_ok mRoot tasks inE outE" "0 < n" "create cfg n mRoot tasks inE outE = ok temps"
    and "(doStep (finishSchedule temps inE) k ^^ m) (stepStart k) st"
  shows "m \<le> stepWork (finishSchedule temps inE) (stepStart k)"
  using step_bounded [OF assms(4)] scheduled_once [OF assms(1-3)] by simp

end

section \<open>Properties\<close>

text \<open>C3. Under every interleaving of its threads, a step of the level-scheduled thread
  scheduler never deadlocks, starts a task only after all its dependencies have ended,
  and returns exactly when all tasks have ended.\<close>

theorem thread_level_step_safe:
  assumes "graph_ok mRoot tasks inE outE" "0 < n"
    and "createThreadLevel cfg n mRoot tasks inE outE = ok temps"
    and "(doStep (finishSchedule temps inE) k)\<^sup>*\<^sup>* (stepStart k) st"
  shows "trace_ok inE (events st)
    \<and> ((\<exists>st'. doStep (finishSchedule temps inE) k st st') \<or> allDone temps st)
    \<and> (stepReturns (finishSchedule temps inE) k st \<longleftrightarrow> allDone temps st)"
  using level_scheduler.thread_step(1,3,4) [OF assms] by blast

definition demo_level_cfg :: level_config where
  "demo_level_cfg = \<lparr>mTypeKey = \<lambda>_. 0, mTable = demo_tbl, mInMeasurementFile = None,
                      mSortTaskTypes = False\<rparr>"

lemma demo_level_create:
  "createThreadLevel demo_level_cfg 2 9 [0, 1, 2, 3, 9] demo_in demo_out = ok [[], [1, 0, 2]]"
  by code_simp

theorem thread_level_step_safe_witness:
  "\<exists>st'. doStep (finishSchedule [[], [1, 0, 2]] demo_in) 7 (stepStart 7) st'"
  using thread_level_step_safe [OF demo_graph_ok _ demo_level_create rtranclp.rtrancl_refl, of 7]
  by (auto simp: allDone_def stepStart_def)

text \<open>C4. Every complete step of the list-scheduled thread scheduler, whatever its
  interleaving, computes the state the sequential scheduler computes, provided that
  any two tasks of the schedule that no chain of dependencies orders commute.\<close>

theorem thread_list_step_sequential:
  assumes "graph_ok mRoot tasks inE outE" "0 < n"
    and "createThreadList cfg n mRoot tasks inE outE = ok temps"
    and "(doStep (finishSchedule temps inE) k)\<^sup>*\<^sup>* (stepStart k) st"
    and "stepReturns (finishSchedule temps inE) k st"
    and "commuting inE {t. (t, mRoot) \<in> (edge_rel inE)\<^sup>+} exec"
    and "seqCreateSchedule mRoot tasks inE outE sch = ok sch'"
  shows "fold exec (ends (events st)) \<sigma> = snd (seqStep exec dur sch' \<sigma>)"
proof (rule list_scheduler.thread_step(5) [OF assms(1-4) _ assms(6,7)])
  show "allDone temps st" using list_scheduler.thread_step(4) [OF assms(1-4)] assms(5) by blast
qed

text \<open>Two threads: pre-step and post-step of a component share a state variable (number 5) and
  are ordered only through the solve task, which waits for both pre-steps.\<close>

definition par_tbl :: "task_ref \<Rightarrow> task" where
  "par_tbl t =
     (if t = 0 then \<lparr>mName = ''A.PreStep'', mAttributeDependencies = [],
                    mModifiedAttributes = [Some 1], mPrevStepDependencies = [Some 4]\<rparr>
      else if t = 1 then \<lparr>mName = ''B.PreStep'', mAttributeDependencies = [],
                    mModifiedAttributes = [Some 2], mPrevStepDependencies = []\<rparr>
      else if t = 2 then \<lparr>mName = ''Solve'', mAttributeDependencies = [Some 1, Some 2],
                    mModifiedAttributes = [Some 3], mPrevStepDependencies = []\<rparr>
      else if t = 3 then \<lparr>mName = ''A.PostStep'', mAttributeDependencies = [Some 3],
                    mModifiedAttributes = [Some 4], mPrevStepDependencies = []\<rparr>
      else Root)"

definition par_exec :: "task_ref \<Rightarrow> (nat \<Rightarrow> int) \<Rightarrow> (nat \<Rightarrow> int)" where
  "par_exec t s = (if t = 0 then s(5 := s 5 * 2, 1 := s 5 * 2) else if t = 1 then s(2 := 7)
                   else if t = 2 then s(3 := s 1 + s 2)
                   else if t = 3 then s(5 := s 5 + s 3, 4 := s 3) else s)"

abbreviation par_in :: edges where "par_in \<equiv> [(2, [0, 1]), (3, [2]), (9, [3])]"
abbreviation par_out :: edges where "par_out \<equiv> [(0, [2]), (1, [2]), (2, [3]), (3, [9])]"

lemma par_graph: "resolveDeps par_tbl (\<lambda>a. [a]) 9 [0, 1, 2, 3] [] [] = ([0, 1, 2, 3, 9], par_in, par_out)"
  by code_simp

lemma par_graph_ok: "graph_ok 9 [0, 1, 2, 3, 9] par_in par_out"
  using resolveDeps_facts [OF par_graph] by (simp add: graph_ok_def)

lemma par_sort: "topologicalSort 9 [0, 1, 2, 3, 9] par_in par_out = ok [0, 1, 2, 3]"
  by code_simp

lemma par_live: "{t. (t, 9) \<in> (edge_rel par_in)\<^sup>+} = {0, 1, 2, 3}"
  using topologicalSort_ok(2) [OF _ _ _ _ par_sort] par_graph_ok by (auto simp: graph_ok_def)

lemma par_edges: "(0, 2) \<in> (edge_rel par_in)\<^sup>+" "(1, 2) \<in> (edge_rel par_in)\<^sup>+" "(2, 3) \<in> (edge_rel par_in)\<^sup>+"
    "(0, 3) \<in> (edge_rel par_in)\<^sup>+" "(1, 3) \<in> (edge_rel par_in)\<^sup>+"
proof -
  have e: "(0, 2) \<in> edge_rel par_in" "(1, 2) \<in> edge_rel par_in" "(2, 3) \<in> edge_rel par_in"
    by (simp_all add: edge_rel_iff edges_at_def)
  show "(0, 2) \<in> (edge_rel par_in)\<^sup>+" "(1, 2) \<in> (edge_rel par_in)\<^sup>+" "(2, 3) \<in> (edge_rel par_in)\<^sup>+"
    using e by blast+
  show "(0, 3) \<in> (edge_rel par_in)\<^sup>+" by (rule trancl_into_trancl [OF r_into_trancl [OF e(1)] e(3)])
  show "(1, 3) \<in> (edge_rel par_in)\<^sup>+" by (rule trancl_into_trancl [OF r_into_trancl [OF e(2)] e(3)])
qed

lemma par_commuting: "commuting par_in {t. (t, 9) \<in> (edge_rel par_in)\<^sup>+} par_exec"
  unfolding par_live commuting_def using par_edges by (simp add: par_exec_def fun_upd_twist)

definition demo_list_cfg :: list_config where
  "demo_list_cfg = \<lparr>mListTable = par_tbl, mListMeasurementFile = None\<rparr>"

lemma demo_list_create:
  "createThreadList demo_list_cfg 2 9 [0, 1, 2, 3, 9] par_in par_out = ok [[0, 2], [1, 3]]"
  by code_simp

theorem thread_list_step_sequential_witness:
  "\<exists>st. stepReturns (finishSchedule [[0, 2], [1, 3]] par_in) 7 st
      \<and> fold par_exec (ends (events st)) (\<lambda>x. if x = 5 then 1 else 0) 5 = 11"
proof -
  have c: "seqCreateSchedule 9 [0, 1, 2, 3, 9] par_in par_out
             \<lparr>mSchedule = [], mSeqMeasure = False, mSeqMeasurements = []\<rparr>
           = ok \<lparr>mSchedule = [0, 1, 2, 3], mSeqMeasure = False, mSeqMeasurements = []\<rparr>"
    by code_simp
  obtain st where st: "(doStep (finishSchedule [[0, 2], [1, 3]] par_in) 7)\<^sup>*\<^sup>* (stepStart 7) st"
    "stepReturns (finishSchedule [[0, 2], [1, 3]] par_in) 7 st"
    using list_scheduler.thread_step_completes [OF par_graph_ok _ demo_list_create
        rtranclp.rtrancl_refl, of 7] by auto
  show ?thesis
    using thread_list_step_sequential [OF par_graph_ok _ demo_list_create st par_commuting c,
        of "\<lambda>x. if x = 5 then 1 else 0" "\<lambda>_. 0"] st(2)
    by (intro exI [of _ st]) (simp add: seqStep_def par_exec_def)
qed

text \<open>C26. A step of the thread scheduler ends: no execution is longer than the number of
  waits, starts and ends of all entries, and every execution can be continued until the
  main thread returns.\<close>

theorem thread_level_step_terminates:
  assumes "graph_ok mRoot tasks inE outE" "0 < n"
    and "createThreadLevel cfg n mRoot tasks inE outE = ok temps"
    and "(doStep (finishSchedule temps inE) k ^^ m) (stepStart k) st"
  shows "m \<le> stepWork (finishSchedule temps inE) (stepStart k)
    \<and> (\<exists>st'. (doStep (finishSchedule temps inE) k)\<^sup>*\<^sup>* st st'
             \<and> stepReturns (finishSchedule temps inE) k st')"
  using level_scheduler.thread_step_bounded [OF assms]
    level_scheduler.thread_step_completes [OF assms(1-3) relpowp_imp_rtranclp [OF assms(4)]] by blast

theorem thread_level_step_terminates_witness:
  "\<exists>st'. (doStep (finishSchedule [[], [1, 0, 2]] demo_in) 7)\<^sup>*\<^sup>* (stepStart 7) st'
       \<and> stepReturns (finishSchedule [[], [1, 0, 2]] demo_in) 7 st'"
  using thread_level_step_terminates [OF demo_graph_ok _ demo_level_create, of 0 7 "stepStart 7"]
  by simp

end
