(* ===== verification/Attributes.thy ===== *)
theory Attributes
  imports DPsim_Prelude
begin

text \<open>dpsim-models/include/dpsim-models/Attribute.h and AttributeList.h: attributes are
  objects that share data cells.  An attribute is named by its pointer; \<open>mData\<close> names the
  cell its shared_ptr points to, so that two attributes can alias one cell.  Dynamic
  attributes carry update tasks; the closures of the code are the constructors of
  \<open>actor\<close>.  \<open>get\<close>, \<open>set\<close> and \<open>asRawPointer\<close> call each other through the update tasks
  without bound when attributes depend on each other in a cycle: the functions here take
  the depth of the recursion, and \<open>None\<close> means that it was exceeded.\<close>

section \<open>Values, cells and attributes\<close>

type_synonym aref = nat
type_synonym cell = nat

datatype attr_val =
    VReal real
  | VComplex complex
  | VInt int
  | VString string
  | VMatrix "real list list"
  | VMatrixComp "complex list list"

text \<open>\<open>typeid(T)\<close>.\<close>

datatype attr_type = TReal | TComplex | TInt | TString | TMatrix | TMatrixComp

fun getType :: "attr_val \<Rightarrow> attr_type" where
  "getType (VReal _) = TReal"
| "getType (VComplex _) = TComplex"
| "getType (VInt _) = TInt"
| "getType (VString _) = TString"
| "getType (VMatrix _) = TMatrix"
| "getType (VMatrixComp _) = TMatrixComp"

datatype UpdateTaskKind = UPDATE_ONCE | UPDATE_ON_GET | UPDATE_ON_SET | UPDATE_ON_SIMULATION_STEP

datatype part = PReal | PImag | PMag | PPhase | PScaled attr_val | PCoeff nat nat

datatype actor = Getter part | Setter part | RefGetter

record update_task =
  mActor :: actor
  mDependency :: aref

record attribute =
  isStatic :: bool
  mData :: cell
  updateTasksOnce :: "update_task list"
  updateTasksOnGet :: "update_task list"
  updateTasksOnSet :: "update_task list"

record attr_heap =
  attrs :: "aref \<Rightarrow> attribute"
  cells :: "cell \<Rightarrow> attr_val"
  nextAttr :: aref
  nextCell :: cell

section \<open>The closures of the derive methods\<close>

definition scale_val :: "attr_val \<Rightarrow> attr_val \<Rightarrow> attr_val" where
  "scale_val k v = (case v of
       VReal x \<Rightarrow> (case k of VReal r \<Rightarrow> VReal (r * x) | _ \<Rightarrow> v)
     | VComplex x \<Rightarrow> (case k of VComplex r \<Rightarrow> VComplex (r * x) | _ \<Rightarrow> v)
     | _ \<Rightarrow> v)"

definition unscale_val :: "attr_val \<Rightarrow> attr_val \<Rightarrow> attr_val" where
  "unscale_val k v = (case v of
       VReal x \<Rightarrow> (case k of VReal r \<Rightarrow> VReal (x / r) | _ \<Rightarrow> v)
     | VComplex x \<Rightarrow> (case k of VComplex r \<Rightarrow> VComplex (x / r) | _ \<Rightarrow> v)
     | _ \<Rightarrow> v)"

text \<open>What a getter stores in the derived attribute, given the value of the attribute it
  was derived from.  The template types exclude the remaining combinations.\<close>

definition readPart :: "part \<Rightarrow> attr_val \<Rightarrow> attr_val" where
  "readPart p v = (case p of
       PReal \<Rightarrow> (case v of VComplex z \<Rightarrow> VReal (Re z) | _ \<Rightarrow> v)
     | PImag \<Rightarrow> (case v of VComplex z \<Rightarrow> VReal (Im z) | _ \<Rightarrow> v)
     | PMag \<Rightarrow> (case v of VComplex z \<Rightarrow> VReal (cmod z) | _ \<Rightarrow> v)
     | PPhase \<Rightarrow> (case v of VComplex z \<Rightarrow> VReal (Arg z) | _ \<Rightarrow> v)
     | PScaled k \<Rightarrow> scale_val k v
     | PCoeff r c \<Rightarrow> (case v of VMatrix m \<Rightarrow> VReal (m ! r ! c) | VMatrixComp m \<Rightarrow> VComplex (m ! r ! c)
                            | _ \<Rightarrow> v))"

text \<open>What a setter assigns to the attribute it was derived from, given its current
  value and the value of the derived attribute.\<close>

definition writeComplex :: "(complex \<Rightarrow> real \<Rightarrow> complex) \<Rightarrow> attr_val \<Rightarrow> attr_val \<Rightarrow> attr_val" where
  "writeComplex f v d = (case v of
       VComplex z \<Rightarrow> (case d of VReal x \<Rightarrow> VComplex (f z x) | _ \<Rightarrow> v) | _ \<Rightarrow> v)"

definition writePart :: "part \<Rightarrow> attr_val \<Rightarrow> attr_val \<Rightarrow> attr_val" where
  "writePart p v d = (case p of
       PReal \<Rightarrow> writeComplex (\<lambda>z x. Complex x (Im z)) v d
     | PImag \<Rightarrow> writeComplex (\<lambda>z x. Complex (Re z) x) v d
     | PMag \<Rightarrow> writeComplex (\<lambda>z x. rcis x (Arg z)) v d
     | PPhase \<Rightarrow> writeComplex (\<lambda>z x. rcis (cmod z) x) v d
     | PScaled k \<Rightarrow> unscale_val k d
     | PCoeff r c \<Rightarrow> (case v of
           VMatrix m \<Rightarrow> (case d of VReal x \<Rightarrow> VMatrix (m[r := (m ! r)[c := x]]) | _ \<Rightarrow> v)
         | VMatrixComp m \<Rightarrow> (case d of VComplex x \<Rightarrow> VMatrixComp (m[r := (m ! r)[c := x]]) | _ \<Rightarrow> v)
         | _ \<Rightarrow> v))"

section \<open>get, set, asRawPointer\<close>

definition writeCell :: "attr_heap \<Rightarrow> cell \<Rightarrow> attr_val \<Rightarrow> attr_heap" where
  "writeCell h c v = h\<lparr>cells := (cells h)(c := v)\<rparr>"

definition setData :: "attr_heap \<Rightarrow> aref \<Rightarrow> cell \<Rightarrow> attr_heap" where
  "setData h a c = h\<lparr>attrs := (attrs h)(a := attrs h a\<lparr>mData := c\<rparr>)\<rparr>"

definition dataOf :: "attr_heap \<Rightarrow> aref \<Rightarrow> attr_val" where
  "dataOf h a = cells h (mData (attrs h a))"

text \<open>The methods in terms of the \<open>executeUpdate\<close> they call.\<close>

type_synonym update_fun = "attr_heap \<Rightarrow> aref \<Rightarrow> update_task \<Rightarrow> attr_heap option"

fun runTasks :: "update_fun \<Rightarrow> aref \<Rightarrow> update_task list \<Rightarrow> attr_heap \<Rightarrow> attr_heap option" where
  "runTasks upd a [] h = Some h"
| "runTasks upd a (u # us) h =
     (case upd h a u of None \<Rightarrow> None | Some h' \<Rightarrow> runTasks upd a us h')"

definition getWith :: "update_fun \<Rightarrow> attr_heap \<Rightarrow> aref \<Rightarrow> (attr_heap \<times> attr_val) option" where
  "getWith upd h a =
     (if isStatic (attrs h a) then Some (h, dataOf h a)
      else case runTasks upd a (updateTasksOnGet (attrs h a)) h of
        None \<Rightarrow> None | Some h' \<Rightarrow> Some (h', dataOf h' a))"

definition setWith :: "update_fun \<Rightarrow> attr_heap \<Rightarrow> aref \<Rightarrow> attr_val \<Rightarrow> attr_heap option" where
  "setWith upd h a v =
     (let h' = writeCell h (mData (attrs h a)) v
      in if isStatic (attrs h a) then Some h'
         else runTasks upd a (updateTasksOnSet (attrs h a)) h')"

definition rawWith :: "update_fun \<Rightarrow> attr_heap \<Rightarrow> aref \<Rightarrow> (attr_heap \<times> cell) option" where
  "rawWith upd h a =
     (if isStatic (attrs h a) then Some (h, mData (attrs h a))
      else case runTasks upd a (updateTasksOnGet (attrs h a)) h of
        None \<Rightarrow> None | Some h' \<Rightarrow> Some (h', mData (attrs h' a)))"

text \<open>\<open>executeUpdate\<close> up to a nesting depth: the actor of the task runs on the dependent
  attribute \<open>a\<close>, whose \<open>mData\<close> it is given by reference.  The setter of a scaled attribute
  does not read its dependency.\<close>

primrec executeUpdate :: "nat \<Rightarrow> update_fun" where
  "executeUpdate 0 = (\<lambda>h a u. None)"
| "executeUpdate (Suc n) = (\<lambda>h a u.
     (case mActor u of
        Getter p \<Rightarrow> (case getWith (executeUpdate n) h (mDependency u) of
            None \<Rightarrow> None
          | Some (h', v) \<Rightarrow> Some (writeCell h' (mData (attrs h' a)) (readPart p v)))
      | Setter p \<Rightarrow>
          (case p of
             PScaled k \<Rightarrow> setWith (executeUpdate n) h (mDependency u) (unscale_val k (dataOf h a))
           | _ \<Rightarrow> (case getWith (executeUpdate n) h (mDependency u) of
                None \<Rightarrow> None
              | Some (h', v) \<Rightarrow>
                  setWith (executeUpdate n) h' (mDependency u) (writePart p v (dataOf h' a))))
      | RefGetter \<Rightarrow> (case rawWith (executeUpdate n) h (mDependency u) of
            None \<Rightarrow> None | Some (h', c) \<Rightarrow> Some (setData h' a c))))"

definition attr_get :: "nat \<Rightarrow> attr_heap \<Rightarrow> aref \<Rightarrow> (attr_heap \<times> attr_val) option" where
  "attr_get n = getWith (executeUpdate n)"

definition attr_set :: "nat \<Rightarrow> attr_heap \<Rightarrow> aref \<Rightarrow> attr_val \<Rightarrow> attr_heap option" where
  "attr_set n = setWith (executeUpdate n)"

definition asRawPointer :: "nat \<Rightarrow> attr_heap \<Rightarrow> aref \<Rightarrow> (attr_heap \<times> cell) option" where
  "asRawPointer n = rawWith (executeUpdate n)"

section \<open>Creating attributes and their update tasks\<close>

definition makeAttr :: "bool \<Rightarrow> attr_val \<Rightarrow> attr_heap \<Rightarrow> attr_heap \<times> aref" where
  "makeAttr static v h =
     (h\<lparr>attrs := (attrs h)(nextAttr h :=
            \<lparr>isStatic = static, mData = nextCell h, updateTasksOnce = [],
             updateTasksOnGet = [], updateTasksOnSet = []\<rparr>),
        cells := (cells h)(nextCell h := v),
        nextAttr := Suc (nextAttr h), nextCell := Suc (nextCell h)\<rparr>, nextAttr h)"

definition updAttr :: "attr_heap \<Rightarrow> aref \<Rightarrow> (attribute \<Rightarrow> attribute) \<Rightarrow> attr_heap" where
  "updAttr h a f = h\<lparr>attrs := (attrs h)(a := f (attrs h a))\<rparr>"

text \<open>\<open>None\<close> is unbounded recursion of the immediately executed UPDATE_ONCE task.\<close>

definition addTask ::
  "nat \<Rightarrow> UpdateTaskKind \<Rightarrow> update_task \<Rightarrow> aref \<Rightarrow> attr_heap \<Rightarrow> (error + attr_heap) option" where
  "addTask n kind u a h = (case kind of
       UPDATE_ONCE \<Rightarrow>
         map_option Inr (executeUpdate n (updAttr h a (updateTasksOnce_update (\<lambda>us. us @ [u]))) a u)
     | UPDATE_ON_GET \<Rightarrow> Some (ok (updAttr h a (updateTasksOnGet_update (\<lambda>us. us @ [u]))))
     | UPDATE_ON_SET \<Rightarrow> Some (ok (updAttr h a (updateTasksOnSet_update (\<lambda>us. us @ [u]))))
     | UPDATE_ON_SIMULATION_STEP \<Rightarrow> Some (throw InvalidArgumentException))"

definition clearTasks :: "UpdateTaskKind \<Rightarrow> aref \<Rightarrow> attr_heap \<Rightarrow> error + attr_heap" where
  "clearTasks kind a h = (case kind of
       UPDATE_ONCE \<Rightarrow> ok (updAttr h a (updateTasksOnce_update (\<lambda>_. [])))
     | UPDATE_ON_GET \<Rightarrow> ok (updAttr h a (updateTasksOnGet_update (\<lambda>_. [])))
     | UPDATE_ON_SET \<Rightarrow> ok (updAttr h a (updateTasksOnSet_update (\<lambda>_. [])))
     | UPDATE_ON_SIMULATION_STEP \<Rightarrow> throw InvalidArgumentException)"

definition clearAllTasks :: "aref \<Rightarrow> attr_heap \<Rightarrow> attr_heap" where
  "clearAllTasks a h = updAttr h a (\<lambda>x. x\<lparr>updateTasksOnce := [], updateTasksOnGet := [],
                                          updateTasksOnSet := []\<rparr>)"

definition setReference :: "nat \<Rightarrow> aref \<Rightarrow> aref \<Rightarrow> attr_heap \<Rightarrow> (error + attr_heap) option" where
  "setReference n a reference h =
     (if isStatic (attrs h a) then Some (throw TypeException)
      else let h' = clearAllTasks a h; u = \<lparr>mActor = RefGetter, mDependency = reference\<rparr>
           in if isStatic (attrs h' reference) then addTask n UPDATE_ONCE u a h'
              else addTask n UPDATE_ON_GET u a h')"

text \<open>\<open>derive\<close> with the getter and setter of one of the derive methods; \<open>v0\<close> is the
  default value \<open>U()\<close>.\<close>

definition derive :: "part \<Rightarrow> attr_val \<Rightarrow> aref \<Rightarrow> attr_heap \<Rightarrow> attr_heap \<times> aref" where
  "derive p v0 a h =
     (let (h1, d) = makeAttr False v0 h;
          h2 = updAttr h1 d (updateTasksOnSet_update (\<lambda>us. us @ [\<lparr>mActor = Setter p, mDependency = a\<rparr>]));
          h3 = updAttr h2 d (updateTasksOnGet_update (\<lambda>us. us @ [\<lparr>mActor = Getter p, mDependency = a\<rparr>]))
      in (h3, d))"

definition copyValue :: "nat \<Rightarrow> aref \<Rightarrow> aref \<Rightarrow> attr_heap \<Rightarrow> (attr_heap \<times> bool) option" where
  "copyValue n a copyFrom h =
     (if getType (dataOf h copyFrom) \<noteq> getType (dataOf h a) then Some (h, False)
      else case attr_get n h copyFrom of None \<Rightarrow> None
         | Some (h', v) \<Rightarrow> (case attr_set n h' a v of None \<Rightarrow> None | Some h'' \<Rightarrow> Some (h'', True)))"

definition cloneValueOntoNewAttribute :: "nat \<Rightarrow> aref \<Rightarrow> attr_heap \<Rightarrow> (attr_heap \<times> aref) option" where
  "cloneValueOntoNewAttribute n a h =
     (case attr_get n h a of None \<Rightarrow> None | Some (h', v) \<Rightarrow> Some (makeAttr True v h'))"

section \<open>Dependencies\<close>

definition directDeps :: "attr_heap \<Rightarrow> aref \<Rightarrow> aref list" where
  "directDeps h a =
     (if isStatic (attrs h a) then []
      else sort (remdups (map mDependency (updateTasksOnce (attrs h a))
                        @ map mDependency (updateTasksOnGet (attrs h a)))))"

fun appendDependencies :: "nat \<Rightarrow> attr_heap \<Rightarrow> aref \<Rightarrow> aref set \<Rightarrow> aref set option" where
  "appendDependencies 0 h a deps = None"
| "appendDependencies (Suc n) h a deps =
     fold (\<lambda>d acc. case acc of None \<Rightarrow> None | Some s \<Rightarrow> appendDependencies n h d s)
       (directDeps h a) (Some (insert a deps))"

definition getDependencies :: "nat \<Rightarrow> attr_heap \<Rightarrow> aref \<Rightarrow> aref set option" where
  "getDependencies n h a = appendDependencies n h a {}"

section \<open>Attribute lists\<close>

type_synonym attribute_map = "string \<rightharpoonup> aref"

definition createAttribute ::
  "string \<Rightarrow> attr_val \<Rightarrow> attribute_map \<times> attr_heap \<Rightarrow> (attribute_map \<times> attr_heap) \<times> aref" where
  "createAttribute name v s = (let (h, a) = makeAttr True v (snd s) in (((fst s)(name \<mapsto> a), h), a))"

definition createDynamic ::
  "string \<Rightarrow> attr_val \<Rightarrow> attribute_map \<times> attr_heap \<Rightarrow> (attribute_map \<times> attr_heap) \<times> aref" where
  "createDynamic name v s = (let (h, a) = makeAttr False v (snd s) in (((fst s)(name \<mapsto> a), h), a))"

definition attribute_lookup :: "string \<Rightarrow> attribute_map \<Rightarrow> error + aref" where
  "attribute_lookup name m =
     (case m name of None \<Rightarrow> throw InvalidAttributeException | Some a \<Rightarrow> ok a)"

definition attributeTyped :: "string \<Rightarrow> attr_type \<Rightarrow> attribute_map \<times> attr_heap \<Rightarrow> error + aref" where
  "attributeTyped name T s = bind_err (attribute_lookup name (fst s)) (\<lambda>a.
     if getType (dataOf (snd s) a) = T then ok a else throw InvalidAttributeException)"

section \<open>Heaps\<close>

lemma writeCell_simps [simp]:
  "attrs (writeCell h c v) = attrs h"
  "cells (writeCell h c v) = (cells h)(c := v)"
  "dataOf (writeCell h c v) a = (if mData (attrs h a) = c then v else dataOf h a)"
  by (simp_all add: writeCell_def dataOf_def)

lemma setData_simps [simp]:
  "cells (setData h a c) = cells h"
  "attrs (setData h a c) b = (if b = a then attrs h a\<lparr>mData := c\<rparr> else attrs h b)"
  "dataOf (setData h a c) a = cells h c"
  by (simp_all add: setData_def dataOf_def)

lemma updAttr_simps [simp]:
  "cells (updAttr h a f) = cells h"
  "attrs (updAttr h a f) b = (if b = a then f (attrs h a) else attrs h b)"
  by (simp_all add: updAttr_def)

text \<open>Attributes and cells below the allocation counters are in use.\<close>

definition heap_ok :: "attr_heap \<Rightarrow> bool" where
  "heap_ok h \<longleftrightarrow> (\<forall>a < nextAttr h. mData (attrs h a) < nextCell h)"

lemma makeAttr_heap_ok: "heap_ok h \<Longrightarrow> heap_ok (fst (makeAttr st v h))"
  by (auto simp: heap_ok_def makeAttr_def less_Suc_eq)

section \<open>Derived attributes\<close>

text \<open>\<open>d\<close> was derived from the static attribute \<open>a\<close>.\<close>

definition derived_from :: "attr_heap \<Rightarrow> aref \<Rightarrow> part \<Rightarrow> aref \<Rightarrow> bool" where
  "derived_from h d p a \<longleftrightarrow>
     \<not> isStatic (attrs h d) \<and> isStatic (attrs h a) \<and> mData (attrs h d) \<noteq> mData (attrs h a)
   \<and> updateTasksOnGet (attrs h d) = [\<lparr>mActor = Getter p, mDependency = a\<rparr>]
   \<and> updateTasksOnSet (attrs h d) = [\<lparr>mActor = Setter p, mDependency = a\<rparr>]"

lemma derive_derived_from:
  assumes "derive p v0 a h = (h', d)" "heap_ok h" "a < nextAttr h" "isStatic (attrs h a)"
  shows "derived_from h' d p a" "dataOf h' a = dataOf h a" "heap_ok h'" "a < nextAttr h'"
  using assms
  by (auto simp: derive_def makeAttr_def derived_from_def heap_ok_def dataOf_def updAttr_def
      less_Suc_eq)

lemma derived_get:
  assumes "derived_from h d p a"
  shows "attr_get (Suc n) h d =
     Some (writeCell h (mData (attrs h d)) (readPart p (dataOf h a)), readPart p (dataOf h a))"
  using assms by (simp add: attr_get_def getWith_def derived_from_def)

lemma derived_set:
  assumes "derived_from h d p a"
  shows "attr_set (Suc n) h d x =
     Some (writeCell (writeCell h (mData (attrs h d)) x) (mData (attrs h a)) (writePart p (dataOf h a) x))"
proof -
  have "writePart (PScaled k) v d = unscale_val k d" for k v d by (simp add: writePart_def)
  with assms show ?thesis
    by (cases p) (simp_all add: attr_set_def setWith_def getWith_def derived_from_def)
qed

lemma derived_writeCell:
  "derived_from (writeCell h c v) d p a = derived_from h d p a"
  by (simp add: derived_from_def)

text \<open>The values for which writing a part and reading it back is the identity: matching
  types, a non-negative magnitude, a principal phase of a non-zero number, a non-zero
  scale, a coefficient inside the matrix.\<close>

definition settable :: "part \<Rightarrow> attr_val \<Rightarrow> attr_val \<Rightarrow> bool" where
  "settable p v x = (case p of
       PReal \<Rightarrow> (\<exists>z r. v = VComplex z \<and> x = VReal r)
     | PImag \<Rightarrow> (\<exists>z r. v = VComplex z \<and> x = VReal r)
     | PMag \<Rightarrow> (\<exists>z r. v = VComplex z \<and> x = VReal r \<and> 0 \<le> r)
     | PPhase \<Rightarrow> (\<exists>z r. v = VComplex z \<and> x = VReal r \<and> z \<noteq> 0 \<and> - pi < r \<and> r \<le> pi)
     | PScaled k \<Rightarrow> (\<exists>r y. k = VReal r \<and> x = VReal y \<and> r \<noteq> 0)
                    \<or> (\<exists>r y. k = VComplex r \<and> x = VComplex y \<and> r \<noteq> 0)
     | PCoeff r c \<Rightarrow> (\<exists>m y. v = VMatrix m \<and> x = VReal y \<and> r < length m \<and> c < length (m ! r))
                    \<or> (\<exists>m y. v = VMatrixComp m \<and> x = VComplex y \<and> r < length m \<and> c < length (m ! r)))"

lemma Arg_rcis_principal: "0 < r \<Longrightarrow> - pi < t \<Longrightarrow> t \<le> pi \<Longrightarrow> Arg (rcis r t) = t"
  by (rule cis_Arg_unique) (simp_all add: rcis_def sgn_mult sgn_of_real)

lemma read_write_part: "settable p v x \<Longrightarrow> readPart p (writePart p v x) = x"
  by (cases p)
    (auto simp: settable_def readPart_def writePart_def writeComplex_def scale_val_def
      unscale_val_def Arg_rcis_principal)

lemma written_part:
  "writePart PReal (VComplex z) (VReal r) = VComplex (Complex r (Im z))"
  "writePart PImag (VComplex z) (VReal r) = VComplex (Complex (Re z) r)"
  "0 \<le> r \<Longrightarrow> \<exists>u. writePart PMag (VComplex z) (VReal r) = VComplex u \<and> cmod u = r \<and> (0 < r \<longrightarrow> Arg u = Arg z)"
  "z \<noteq> 0 \<Longrightarrow> - pi < r \<Longrightarrow> r \<le> pi \<Longrightarrow> \<exists>u. writePart PPhase (VComplex z) (VReal r) = VComplex u \<and> cmod u = cmod z \<and> Arg u = r"
  "k \<noteq> 0 \<Longrightarrow> \<exists>u. writePart (PScaled (VReal k)) v (VReal y) = VReal u \<and> k * u = y"
  "c \<noteq> 0 \<Longrightarrow> \<exists>u. writePart (PScaled (VComplex c)) v (VComplex y') = VComplex u \<and> c * u = y'"
  using Arg_bounded [of z]
  by (auto simp: writePart_def writeComplex_def unscale_val_def Arg_rcis_principal)

lemma written_coeff:
  "\<exists>m'. writePart (PCoeff i j) (VMatrix m) (VReal y) = VMatrix m' \<and> length m' = length m \<and> (\<forall>k < length m. length (m' ! k) = length (m ! k)
     \<and> (\<forall>l < length (m ! k). m' ! k ! l = (if k = i \<and> l = j then y else m ! k ! l)))"
  "\<exists>m'. writePart (PCoeff i j) (VMatrixComp mc) (VComplex yc) = VMatrixComp m' \<and> length m' = length mc \<and> (\<forall>k < length mc. length (m' ! k) = length (mc ! k)
     \<and> (\<forall>l < length (mc ! k). m' ! k ! l = (if k = i \<and> l = j then yc else mc ! k ! l)))"
proof -
  have up: "length (m[i := (m ! i)[j := y]]) = length m \<and> (\<forall>k < length m. length (m[i := (m ! i)[j := y]] ! k) = length (m ! k)
     \<and> (\<forall>l < length (m ! k). m[i := (m ! i)[j := y]] ! k ! l = (if k = i \<and> l = j then y else m ! k ! l)))"
    for m :: "'x list list" and y
  proof (intro conjI allI impI)
    fix k assume k: "k < length m"
    show "length (m[i := (m ! i)[j := y]] ! k) = length (m ! k)" using k by (cases "k = i") auto
    fix l assume "l < length (m ! k)"
    then show "m[i := (m ! i)[j := y]] ! k ! l = (if k = i \<and> l = j then y else m ! k ! l)"
      using k by (cases "k = i"; cases "l = j") auto
  qed simp
  show "\<exists>m'. writePart (PCoeff i j) (VMatrix m) (VReal y) = VMatrix m' \<and> length m' = length m \<and> (\<forall>k < length m. length (m' ! k) = length (m ! k)
     \<and> (\<forall>l < length (m ! k). m' ! k ! l = (if k = i \<and> l = j then y else m ! k ! l)))"
    using up [of m y] by (simp add: writePart_def)
  show "\<exists>m'. writePart (PCoeff i j) (VMatrixComp mc) (VComplex yc) = VMatrixComp m' \<and> length m' = length mc \<and> (\<forall>k < length mc. length (m' ! k) = length (mc ! k)
     \<and> (\<forall>l < length (mc ! k). m' ! k ! l = (if k = i \<and> l = j then yc else mc ! k ! l)))"
    using up [of mc yc] by (simp add: writePart_def)
qed


definition demo_heap :: attr_heap where
  "demo_heap = \<lparr>attrs = \<lambda>_. \<lparr>isStatic = True, mData = 0, updateTasksOnce = [],
                   updateTasksOnGet = [], updateTasksOnSet = []\<rparr>,
                cells = \<lambda>_. VComplex (Complex 3 4), nextAttr = 1, nextCell = 1\<rparr>"


text \<open>C31. Setting an attribute derived from a static attribute to a value that is possible for its part (an angle only of
  a number that is not zero, a magnitude that is not negative, a scale that is not zero, a coefficient inside the
  matrix): the value is read again from the derived attribute, and in the attribute it was derived from that part is
  replaced and the rest is kept.\<close>

theorem derived_attribute_roundtrip:
  assumes "heap_ok h" "a < nextAttr h" "isStatic (attrs h a)" "derive p v0 a h = (h1, d)"
    and "settable p (dataOf h a) x"
  shows "\<exists>h2 w. attr_set (Suc n) h1 d x = Some h2
    \<and> map_option snd (attr_get (Suc n) h2 d) = Some x \<and> map_option snd (attr_get n h2 a) = Some w
    \<and> (\<forall>z r. dataOf h a = VComplex z \<longrightarrow> x = VReal r \<longrightarrow>
         (p = PReal \<longrightarrow> w = VComplex (Complex r (Im z))) \<and> (p = PImag \<longrightarrow> w = VComplex (Complex (Re z) r))
       \<and> (p = PMag \<longrightarrow> (\<exists>u. w = VComplex u \<and> cmod u = r \<and> (0 < r \<longrightarrow> Arg u = Arg z)))
       \<and> (p = PPhase \<longrightarrow> (\<exists>u. w = VComplex u \<and> cmod u = cmod z \<and> Arg u = r)))
    \<and> (\<forall>k y. p = PScaled (VReal k) \<longrightarrow> x = VReal y \<longrightarrow> (\<exists>u. w = VReal u \<and> k * u = y))
    \<and> (\<forall>k y. p = PScaled (VComplex k) \<longrightarrow> x = VComplex y \<longrightarrow> (\<exists>u. w = VComplex u \<and> k * u = y))
    \<and> (\<forall>i j m y. p = PCoeff i j \<longrightarrow> dataOf h a = VMatrix m \<longrightarrow> x = VReal y \<longrightarrow>
         (\<exists>m'. w = VMatrix m' \<and> length m' = length m \<and> (\<forall>k < length m. length (m' ! k) = length (m ! k)
            \<and> (\<forall>l < length (m ! k). m' ! k ! l = (if k = i \<and> l = j then y else m ! k ! l)))))
    \<and> (\<forall>i j m y. p = PCoeff i j \<longrightarrow> dataOf h a = VMatrixComp m \<longrightarrow> x = VComplex y \<longrightarrow>
         (\<exists>m'. w = VMatrixComp m' \<and> length m' = length m \<and> (\<forall>k < length m. length (m' ! k) = length (m ! k)
            \<and> (\<forall>l < length (m ! k). m' ! k ! l = (if k = i \<and> l = j then y else m ! k ! l)))))"
proof -
  note D = derive_derived_from [OF assms(4,1-3)]
  let ?w = "writePart p (dataOf h a) x"
  let ?h2 = "writeCell (writeCell h1 (mData (attrs h1 d)) x) (mData (attrs h1 a)) ?w"
  have s: "attr_set (Suc n) h1 d x = Some ?h2" using derived_set [OF D(1)] D(2) by simp
  have "derived_from ?h2 d p a" using D(1) by (simp add: derived_writeCell)
  from derived_get [OF this, of n] have g: "map_option snd (attr_get (Suc n) ?h2 d) = Some x"
    using read_write_part [OF assms(5)] by simp
  have b: "map_option snd (attr_get n ?h2 a) = Some ?w"
    using D(1) by (simp add: attr_get_def getWith_def derived_from_def)
  show ?thesis
    by (rule exI [of _ ?h2], rule exI [of _ ?w], intro conjI s g b)
      (use assms(5) in \<open>auto simp: settable_def written_part written_coeff\<close>)
qed

theorem derived_attribute_roundtrip_witness:
  "\<exists>h2. attr_set (Suc 0) (fst (derive PMag (VReal 0) 0 demo_heap)) 1 (VReal 10) = Some h2
      \<and> map_option snd (attr_get (Suc 0) h2 1) = Some (VReal 10)"
  using derived_attribute_roundtrip [of demo_heap 0 PMag "VReal 0" _ _ "VReal 10" 0]
  by (auto simp: heap_ok_def demo_heap_def derive_def makeAttr_def settable_def dataOf_def)

section \<open>References\<close>

text \<open>\<open>setReference\<close> on a static attribute throws TypeException; on a dynamic
  attribute with a static reference it makes the two attributes one: what is set on
  either is read from the other.\<close>

theorem setReference_aliases:
  assumes "isStatic (attrs h r)" "r \<noteq> a"
  shows "if isStatic (attrs h a) then setReference (Suc n) a r h = Some (throw TypeException)
    else \<exists>h1. setReference (Suc n) a r h = Some (ok h1) \<and>
      (\<forall>v. \<exists>h2. attr_set n h1 a v = Some h2 \<and> map_option snd (attr_get n h2 r) = Some v) \<and>
      (\<forall>v. \<exists>h2. attr_set n h1 r v = Some h2 \<and> map_option snd (attr_get n h2 a) = Some v)"
proof (cases "isStatic (attrs h a)")
  case True
  then show ?thesis by (simp add: setReference_def)
next
  case False
  let ?u = "\<lparr>mActor = RefGetter, mDependency = r\<rparr>"
  let ?h0 = "updAttr (clearAllTasks a h) a (updateTasksOnce_update (\<lambda>us. us @ [?u]))"
  let ?h1 = "setData ?h0 a (mData (attrs h r))"
  have n: "runTasks upd x [] g = Some g" for upd x g by simp
  have "setReference (Suc n) a r h = Some (ok ?h1)"
    using False assms by (simp add: setReference_def addTask_def clearAllTasks_def rawWith_def Let_def)
  moreover have "\<exists>h2. attr_set n ?h1 a v = Some h2 \<and> map_option snd (attr_get n h2 r) = Some v" for v
    using False assms
    by (simp add: attr_set_def setWith_def attr_get_def getWith_def clearAllTasks_def n)
  moreover have "\<exists>h2. attr_set n ?h1 r v = Some h2 \<and> map_option snd (attr_get n h2 a) = Some v" for v
    using False assms
    by (simp add: attr_set_def setWith_def attr_get_def getWith_def clearAllTasks_def n)
  ultimately show ?thesis using False by auto
qed

definition demo_heap2 :: attr_heap where
  "demo_heap2 = fst (makeAttr False (VReal 0) demo_heap)"

theorem setReference_aliases_witness:
  "\<exists>h1 h2. setReference (Suc 0) 1 0 demo_heap2 = Some (ok h1)
     \<and> attr_set 0 h1 1 (VReal 2) = Some h2 \<and> map_option snd (attr_get 0 h2 0) = Some (VReal 2)"
  using setReference_aliases [of demo_heap2 0 1 0]
  by (auto simp: demo_heap2_def demo_heap_def makeAttr_def)

section \<open>Dependencies\<close>

definition dep_rel :: "attr_heap \<Rightarrow> (aref \<times> aref) set" where
  "dep_rel h = {(a, b). b \<in> set (directDeps h a)}"

lemma fold_append_None:
  "fold (\<lambda>d acc. case acc of None \<Rightarrow> None | Some s \<Rightarrow> f d s) ds None = None"
  by (induction ds) auto

lemma appendDependencies_sound:
  "appendDependencies n h a deps = Some S \<Longrightarrow> S = deps \<union> {b. (a, b) \<in> (dep_rel h)\<^sup>*}"
proof (induction n arbitrary: a deps S)
  case (Suc n)
  have f: "S = T \<union> (\<Union>d\<in>set ds. {b. (d, b) \<in> (dep_rel h)\<^sup>*})"
    if "fold (\<lambda>d acc. case acc of None \<Rightarrow> None | Some s \<Rightarrow> appendDependencies n h d s) ds (Some T) = Some S"
    for ds T S
    using that
  proof (induction ds arbitrary: T)
    case (Cons d ds)
    obtain U where U: "appendDependencies n h d T = Some U"
      using Cons.prems by (cases "appendDependencies n h d T") (auto simp: fold_append_None)
    show ?case using Cons.IH [of U] Cons.prems U Suc.IH [OF U] by auto
  qed simp
  have "{b. (a, b) \<in> (dep_rel h)\<^sup>*} = insert a (\<Union>d\<in>set (directDeps h a). {b. (d, b) \<in> (dep_rel h)\<^sup>*})"
    by (auto simp: dep_rel_def elim: converse_rtranclE intro: converse_rtrancl_into_rtrancl)
  with f [of "directDeps h a" "insert a deps" S] Suc.prems show ?case by auto
qed simp

lemma appendDependencies_defined:
  "(\<forall>d\<in>set (directDeps h a). \<forall>s. appendDependencies n h d s \<noteq> None) \<Longrightarrow>
     appendDependencies (Suc n) h a deps \<noteq> None"
proof -
  have "fold (\<lambda>d acc. case acc of None \<Rightarrow> None | Some s \<Rightarrow> appendDependencies n h d s) ds (Some T) \<noteq> None"
    if "\<forall>d\<in>set ds. \<forall>s. appendDependencies n h d s \<noteq> None" for ds T
    using that
  proof (induction ds arbitrary: T)
    case (Cons d ds)
    have "appendDependencies n h d T \<noteq> None" using Cons.prems by simp
    then obtain U where "appendDependencies n h d T = Some U" by blast
    with Cons show ?case by simp
  qed simp
  then show "(\<forall>d\<in>set (directDeps h a). \<forall>s. appendDependencies n h d s \<noteq> None) \<Longrightarrow>
     appendDependencies (Suc n) h a deps \<noteq> None" by simp
qed

lemma appendDependencies_needs:
  assumes "appendDependencies (Suc n) h a deps \<noteq> None" "d \<in> set (directDeps h a)"
  shows "\<exists>s. appendDependencies n h d s \<noteq> None"
proof -
  have "\<exists>s. appendDependencies n h d s \<noteq> None"
    if "fold (\<lambda>d acc. case acc of None \<Rightarrow> None | Some s \<Rightarrow> appendDependencies n h d s) ds (Some T) \<noteq> None"
      "d \<in> set ds" for ds T
    using that
  proof (induction ds arbitrary: T)
    case (Cons e ds)
    obtain U where U: "appendDependencies n h e T = Some U"
      using Cons.prems by (cases "appendDependencies n h e T") (auto simp: fold_append_None)
    with Cons show ?case by (cases "d = e") auto
  qed simp
  with assms show ?thesis by simp
qed

lemma appendDependencies_mono:
  "appendDependencies n h a s \<noteq> None \<Longrightarrow> n \<le> m \<Longrightarrow> appendDependencies m h a t \<noteq> None"
proof (induction n arbitrary: a s t m)
  case (Suc n)
  obtain m' where m: "m = Suc m'" "n \<le> m'" using Suc.prems(2) by (cases m) auto
  have "\<forall>d\<in>set (directDeps h a). \<forall>t. appendDependencies m' h d t \<noteq> None"
    using appendDependencies_needs [OF Suc.prems(1)] Suc.IH m(2) by blast
  then show ?case unfolding m(1) by (rule appendDependencies_defined)
qed simp

text \<open>A cycle that can be reached makes the recursion unbounded.\<close>

lemma appendDependencies_cycle:
  assumes "(a, c) \<in> (dep_rel h)\<^sup>*" "(c, c) \<in> (dep_rel h)\<^sup>+"
  shows "appendDependencies n h a deps = None"
  using assms
proof (induction n arbitrary: a deps)
  case (Suc n)
  have "(a, c) \<in> (dep_rel h)\<^sup>+" using Suc.prems by auto
  then obtain b where b: "(a, b) \<in> dep_rel h" "(b, c) \<in> (dep_rel h)\<^sup>*" by (meson tranclD)
  then have "\<forall>s. appendDependencies n h b s = None" using Suc by blast
  moreover have "b \<in> set (directDeps h a)" using b(1) by (simp add: dep_rel_def)
  ultimately show ?case using appendDependencies_needs [of n h a deps b] by metis
qed simp

lemma appendDependencies_acyclic:
  assumes fin: "finite {b. (a, b) \<in> (dep_rel h)\<^sup>*}"
    and ac: "\<And>c. (a, c) \<in> (dep_rel h)\<^sup>* \<Longrightarrow> (c, c) \<notin> (dep_rel h)\<^sup>+"
  shows "\<exists>n. \<forall>deps. appendDependencies n h a deps \<noteq> None"
proof -
  let ?R = "{b. (a, b) \<in> (dep_rel h)\<^sup>*}"
  let ?r = "dep_rel h \<inter> ?R \<times> ?R"
  have "acyclic ?r"
  proof (rule acyclicI, rule allI, rule notI)
    fix x assume x: "(x, x) \<in> ?r\<^sup>+"
    then have "(x, x) \<in> (dep_rel h)\<^sup>+" by (rule trancl_mono) blast
    moreover have "x \<in> ?R" using x by (meson IntD2 SigmaE2 tranclD)
    ultimately show False using ac by blast
  qed
  then have "wf (?r\<inverse>)"
    using fin by (intro finite_acyclic_wf_converse finite_Int) simp_all
  then have "b \<in> ?R \<Longrightarrow> \<exists>n. \<forall>deps. appendDependencies n h b deps \<noteq> None" for b
  proof (induction b rule: wf_induct_rule)
    case (less b)
    have "\<exists>n. \<forall>deps. appendDependencies n h d deps \<noteq> None" if "d \<in> set (directDeps h b)" for d
    proof -
      have "(b, d) \<in> dep_rel h" using that by (simp add: dep_rel_def)
      moreover from this have "d \<in> ?R" using less.prems by (auto intro: rtrancl_into_rtrancl)
      ultimately show ?thesis using less by blast
    qed
    then obtain f where f: "\<And>d deps. d \<in> set (directDeps h b) \<Longrightarrow> appendDependencies (f d) h d deps \<noteq> None"
      by metis
    let ?m = "Max (insert 0 (f ` set (directDeps h b)))"
    have "appendDependencies ?m h d deps \<noteq> None" if "d \<in> set (directDeps h b)" for d deps
      using appendDependencies_mono [OF f [OF that, of "{}"]] that by simp
    then show ?case using appendDependencies_defined [of h b ?m] by blast
  qed
  then show ?thesis by blast
qed

text \<open>C22. When no dependency cycle can be reached from an attribute, \<open>getDependencies\<close>
  returns exactly the attributes it transitively depends on, itself included; when one
  can be reached, it does not return, at any recursion depth.\<close>

theorem getDependencies_reachable:
  assumes "finite {b. (a, b) \<in> (dep_rel h)\<^sup>*}"
  shows "if \<exists>c. (a, c) \<in> (dep_rel h)\<^sup>* \<and> (c, c) \<in> (dep_rel h)\<^sup>+
         then \<forall>n. getDependencies n h a = None
         else \<exists>n. \<forall>m\<ge>n. getDependencies m h a = Some {b. (a, b) \<in> (dep_rel h)\<^sup>*}"
proof (cases "\<exists>c. (a, c) \<in> (dep_rel h)\<^sup>* \<and> (c, c) \<in> (dep_rel h)\<^sup>+")
  case True
  then show ?thesis using appendDependencies_cycle by (auto simp: getDependencies_def)
next
  case False
  then obtain n where n: "\<And>deps. appendDependencies n h a deps \<noteq> None"
    using appendDependencies_acyclic [OF assms] by blast
  have "getDependencies m h a = Some {b. (a, b) \<in> (dep_rel h)\<^sup>*}" if "n \<le> m" for m
    using appendDependencies_mono [OF n that] appendDependencies_sound [of m h a "{}"]
    by (fastforce simp: getDependencies_def)
  with False show ?thesis by auto
qed

text \<open>A dynamic attribute made a reference to itself.\<close>

definition demo_cycle :: attr_heap where
  "demo_cycle = updAttr demo_heap2 1 (\<lambda>x. x\<lparr>updateTasksOnGet :=
      [\<lparr>mActor = RefGetter, mDependency = 1\<rparr>]\<rparr>)"

lemma demo_cycle_reference: "setReference n 1 1 demo_heap2 = Some (ok demo_cycle)"
  by (simp add: setReference_def addTask_def clearAllTasks_def updAttr_def demo_cycle_def
      demo_heap2_def demo_heap_def makeAttr_def Let_def)

lemma demo_cycle_rel: "dep_rel demo_cycle = {(1, 1)}"
  by (auto simp: dep_rel_def directDeps_def demo_cycle_def demo_heap2_def demo_heap_def makeAttr_def
      split: if_splits)

theorem getDependencies_reachable_witness: "\<forall>n. getDependencies n demo_cycle 1 = None"
proof -
  have "{b. (1, b) \<in> (dep_rel demo_cycle)\<^sup>*} \<subseteq> {1}"
    unfolding demo_cycle_rel by (auto elim: converse_rtranclE rtranclE)
  then have fin: "finite {b. (1, b) \<in> (dep_rel demo_cycle)\<^sup>*}" by (rule finite_subset) simp
  have "(1, 1) \<in> (dep_rel demo_cycle)\<^sup>+" unfolding demo_cycle_rel by blast
  then have cyc: "\<exists>c. (1, c) \<in> (dep_rel demo_cycle)\<^sup>* \<and> (c, c) \<in> (dep_rel demo_cycle)\<^sup>+" by blast
  show ?thesis using getDependencies_reachable [OF fin] unfolding if_P [OF cyc] .
qed

end
