(* ===== verification/MatrixOps.thy ===== *)
theory MatrixOps
  imports DPsim_Prelude
begin

text \<open>dpsim-models/src/MathUtils.cpp: element access with the harmonic and complex
  offsets of the system matrix, small inverses, three-phase conversions, the state-space
  discretisations and the Park transformation.  Double arithmetic is real arithmetic
  here.  A matrix carries its dimensions.  An access outside of them is undefined in the
  code (an assertion of \<open>Eigen\<close> in debug builds); the functions here are total, so a
  property about the entries of a matrix takes indices in range as a hypothesis, and
  theory EmtTypes shows that the EMT methods stay in range.
  \<open>Eigen\<close>'s \<open>inverse()\<close> is a parameter.\<close>

section \<open>Matrices\<close>

record 'a matrix =
  mrows :: nat
  mcols :: nat
  ent :: "nat \<Rightarrow> nat \<Rightarrow> 'a"

definition mkmat :: "nat \<Rightarrow> nat \<Rightarrow> (nat \<Rightarrow> nat \<Rightarrow> 'a) \<Rightarrow> 'a matrix" where
  "mkmat r c f = \<lparr>mrows = r, mcols = c, ent = f\<rparr>"

lemma mkmat_simps [simp]: "mrows (mkmat r c f) = r" "mcols (mkmat r c f) = c" "ent (mkmat r c f) = f"
  by (simp_all add: mkmat_def)

text \<open>Equality of two matrices on their common domain.\<close>

definition mat_eq :: "'a matrix \<Rightarrow> 'a matrix \<Rightarrow> bool" where
  "mat_eq A B \<longleftrightarrow> mrows A = mrows B \<and> mcols A = mcols B \<and>
     (\<forall>i<mrows A. \<forall>j<mcols A. ent A i j = ent B i j)"

definition setEnt :: "'a matrix \<Rightarrow> nat \<Rightarrow> nat \<Rightarrow> 'a \<Rightarrow> 'a matrix" where
  "setEnt M i j x = M\<lparr>ent := \<lambda>a b. if a = i \<and> b = j then x else ent M a b\<rparr>"

definition addEnt :: "real matrix \<Rightarrow> nat \<Rightarrow> nat \<Rightarrow> real \<Rightarrow> real matrix" where
  "addEnt M i j x = setEnt M i j (ent M i j + x)"

lemma setEnt_simps [simp]:
  "mrows (setEnt M i j x) = mrows M" "mcols (setEnt M i j x) = mcols M"
  "ent (setEnt M i j x) a b = (if a = i \<and> b = j then x else ent M a b)"
  by (simp_all add: setEnt_def)

lemma addEnt_simps [simp]:
  "mrows (addEnt M i j x) = mrows M" "mcols (addEnt M i j x) = mcols M"
  "ent (addEnt M i j x) a b = (if a = i \<and> b = j then ent M a b + x else ent M a b)"
  by (simp_all add: addEnt_def)

definition mat_mult :: "real matrix \<Rightarrow> real matrix \<Rightarrow> real matrix" where
  "mat_mult A B = mkmat (mrows A) (mcols B) (\<lambda>i j. \<Sum>k<mcols A. ent A i k * ent B k j)"

definition mat_add :: "real matrix \<Rightarrow> real matrix \<Rightarrow> real matrix" where
  "mat_add A B = mkmat (mrows A) (mcols A) (\<lambda>i j. ent A i j + ent B i j)"

definition mat_sub :: "real matrix \<Rightarrow> real matrix \<Rightarrow> real matrix" where
  "mat_sub A B = mkmat (mrows A) (mcols A) (\<lambda>i j. ent A i j - ent B i j)"

definition mat_scale :: "real \<Rightarrow> real matrix \<Rightarrow> real matrix" where
  "mat_scale r A = mkmat (mrows A) (mcols A) (\<lambda>i j. r * ent A i j)"

definition identity :: "nat \<Rightarrow> real matrix" where
  "identity n = mkmat n n (\<lambda>i j. if i = j then 1 else 0)"

section \<open>Angles\<close>

definition radtoDeg :: "real \<Rightarrow> real" where "radtoDeg rad = rad * 180 / pi"
definition degToRad :: "real \<Rightarrow> real" where "degToRad deg = deg * pi / 180"
definition phase :: "complex \<Rightarrow> real" where "phase z = Arg z"
definition phaseDeg :: "complex \<Rightarrow> real" where "phaseDeg z = radtoDeg (phase z)"
definition absC :: "complex \<Rightarrow> real" where "absC z = cmod z"
definition polar :: "real \<Rightarrow> real \<Rightarrow> complex" where "polar r t = rcis r t"
definition polarDeg :: "real \<Rightarrow> real \<Rightarrow> complex" where "polarDeg r t = rcis r (degToRad t)"

definition absMat :: "complex matrix \<Rightarrow> real matrix" where
  "absMat M = mkmat (mrows M) (mcols M) (\<lambda>i j. cmod (ent M i j))"

definition phaseMat :: "complex matrix \<Rightarrow> real matrix" where
  "phaseMat M = mkmat (mrows M) (mcols M) (\<lambda>i j. Arg (ent M i j))"

section \<open>Elements of the system matrix and vector\<close>

text \<open>A vector of a system with \<open>maxFreq\<close> frequencies stores, per frequency, the real
  parts followed by the imaginary parts.\<close>

definition harmonicOffset :: "'a matrix \<Rightarrow> nat \<Rightarrow> nat" where
  "harmonicOffset M maxFreq = mrows M div maxFreq"

definition complexOffset :: "'a matrix \<Rightarrow> nat \<Rightarrow> nat" where
  "complexOffset M maxFreq = harmonicOffset M maxFreq div 2"

definition harmIndex :: "'a matrix \<Rightarrow> nat \<Rightarrow> nat \<Rightarrow> nat \<Rightarrow> nat" where
  "harmIndex M row maxFreq freqIdx = row + harmonicOffset M maxFreq * freqIdx"

definition setVectorElement :: "real matrix \<Rightarrow> nat \<Rightarrow> complex \<Rightarrow> nat \<Rightarrow> nat \<Rightarrow> nat \<Rightarrow> real matrix" where
  "setVectorElement M row value maxFreq freqIdx colOffset =
     (let r = harmIndex M row maxFreq freqIdx; c = complexOffset M maxFreq
      in setEnt (setEnt M r colOffset (Re value)) (r + c) colOffset (Im value))"

definition addToVectorElement :: "real matrix \<Rightarrow> nat \<Rightarrow> complex \<Rightarrow> nat \<Rightarrow> nat \<Rightarrow> real matrix" where
  "addToVectorElement M row value maxFreq freqIdx =
     (let r = harmIndex M row maxFreq freqIdx; c = complexOffset M maxFreq
      in addEnt (addEnt M r 0 (Re value)) (r + c) 0 (Im value))"

definition complexFromVectorElement :: "real matrix \<Rightarrow> nat \<Rightarrow> nat \<Rightarrow> nat \<Rightarrow> complex" where
  "complexFromVectorElement M row maxFreq freqIdx =
     (let r = harmIndex M row maxFreq freqIdx; c = complexOffset M maxFreq
      in Complex (ent M r 0) (ent M (r + c) 0))"

definition addToVectorElementR :: "real matrix \<Rightarrow> nat \<Rightarrow> real \<Rightarrow> real matrix" where
  "addToVectorElementR M row value = addEnt M row 0 value"

definition setVectorElementR :: "real matrix \<Rightarrow> nat \<Rightarrow> real \<Rightarrow> real matrix" where
  "setVectorElementR M row value = setEnt M row 0 value"

definition realFromVectorElement :: "real matrix \<Rightarrow> nat \<Rightarrow> real" where
  "realFromVectorElement M row = ent M row 0"

definition setMatrixElement :: "real matrix \<Rightarrow> nat \<Rightarrow> nat \<Rightarrow> complex \<Rightarrow> nat \<Rightarrow> nat \<Rightarrow> real matrix" where
  "setMatrixElement M row column value maxFreq freqIdx =
     (let r = harmIndex M row maxFreq freqIdx; k = harmIndex M column maxFreq freqIdx;
          c = complexOffset M maxFreq;
          M1 = setEnt M r k (Re value);
          M2 = setEnt M1 (r + c) (k + c) (Re value);
          M3 = setEnt M2 r (k + c) (- Im value)
      in setEnt M3 (r + c) k (Im value))"

definition addToMatrixElement :: "real matrix \<Rightarrow> nat \<Rightarrow> nat \<Rightarrow> complex \<Rightarrow> nat \<Rightarrow> nat \<Rightarrow> real matrix" where
  "addToMatrixElement M row column value maxFreq freqIdx =
     (let r = harmIndex M row maxFreq freqIdx; k = harmIndex M column maxFreq freqIdx;
          c = complexOffset M maxFreq;
          M1 = addEnt M r k (Re value);
          M2 = addEnt M1 (r + c) (k + c) (Re value);
          M3 = addEnt M2 r (k + c) (- Im value)
      in addEnt M3 (r + c) k (Im value))"

definition addToMatrixElementPacked ::
  "real matrix \<Rightarrow> nat \<Rightarrow> nat \<Rightarrow> real matrix \<Rightarrow> nat \<Rightarrow> nat \<Rightarrow> real matrix" where
  "addToMatrixElementPacked M row column value maxFreq freqIdx =
     (let r = harmIndex M row maxFreq freqIdx; k = harmIndex M column maxFreq freqIdx;
          c = complexOffset M maxFreq;
          M1 = addEnt M r k (ent value 0 0);
          M2 = addEnt M1 (r + c) (k + c) (ent value 1 1);
          M3 = addEnt M2 r (k + c) (ent value 0 1)
      in addEnt M3 (r + c) k (ent value 1 0))"

definition setMatrixElementR :: "real matrix \<Rightarrow> nat \<Rightarrow> nat \<Rightarrow> real \<Rightarrow> real matrix" where
  "setMatrixElementR M row column value = setEnt M row column value"

definition addToMatrixElementR :: "real matrix \<Rightarrow> nat \<Rightarrow> nat \<Rightarrow> real \<Rightarrow> real matrix" where
  "addToMatrixElementR M row column value = setEnt M row column (ent M row column + value)"

definition addToMatrixElements ::
  "real matrix \<Rightarrow> nat list \<Rightarrow> nat list \<Rightarrow> complex \<Rightarrow> real matrix" where
  "addToMatrixElements M rows columns value =
     fold (\<lambda>p M. addToMatrixElement M (rows ! p) (columns ! p) value 1 0) [0..<length rows] M"

definition addToMatrixElementsR ::
  "real matrix \<Rightarrow> nat list \<Rightarrow> nat list \<Rightarrow> real \<Rightarrow> real matrix" where
  "addToMatrixElementsR M rows columns value =
     fold (\<lambda>p M. addToMatrixElementR M (rows ! p) (columns ! p) value) [0..<length rows] M"

section \<open>Inverses of small matrices\<close>

definition invertMatrix :: "(real matrix \<Rightarrow> real matrix) \<Rightarrow> real matrix \<Rightarrow> real matrix \<Rightarrow> real matrix" where
  "invertMatrix einv M matInv =
     (let m = ent M in
      if mcols M = 2 then
        (let d = m 0 0 * m 1 1 - m 0 1 * m 1 0
         in setEnt (setEnt (setEnt (setEnt matInv 0 0 (m 1 1 / d)) 0 1 (- m 0 1 / d))
              1 0 (- m 1 0 / d)) 1 1 (m 0 0 / d))
      else if mcols M = 3 then
        (let d = (m 0 0 * m 1 1 * m 2 2 + m 0 1 * m 1 2 * m 2 0 + m 1 0 * m 2 1 * m 0 2)
                 - (m 2 0 * m 1 1 * m 0 2 + m 1 0 * m 0 1 * m 2 2 + m 2 1 * m 1 2 * m 0 0);
             I0 = setEnt matInv 0 0 ((m 1 1 * m 2 2 - m 1 2 * m 2 1) / d);
             I1 = setEnt I0 0 1 ((m 0 2 * m 2 1 - m 0 1 * m 2 2) / d);
             I2 = setEnt I1 0 2 ((m 0 1 * m 1 2 - m 0 2 * m 1 1) / d);
             I3 = setEnt I2 1 0 ((m 1 2 * m 2 0 - m 1 0 * m 2 2) / d);
             I4 = setEnt I3 1 1 ((m 0 0 * m 2 2 - m 0 2 * m 2 0) / d);
             I5 = setEnt I4 1 2 ((m 0 2 * m 1 0 - m 0 0 * m 1 2) / d);
             I6 = setEnt I5 2 0 ((m 1 0 * m 2 1 - m 1 1 * m 2 0) / d);
             I7 = setEnt I6 2 1 ((m 0 1 * m 2 0 - m 0 0 * m 2 1) / d)
         in setEnt I7 2 2 ((m 0 0 * m 1 1 - m 0 1 * m 1 0) / d))
      else einv M)"

section \<open>Three-phase conversions\<close>

definition SHIFT_TO_PHASE_B :: complex where
  "SHIFT_TO_PHASE_B = Complex (cos (- 2 * pi / 3)) (sin (- 2 * pi / 3))"

definition SHIFT_TO_PHASE_C :: complex where
  "SHIFT_TO_PHASE_C = Complex (cos (2 * pi / 3)) (sin (2 * pi / 3))"

definition singlePhaseVariableToThreePhase :: "complex \<Rightarrow> complex matrix" where
  "singlePhaseVariableToThreePhase v =
     mkmat 3 1 (\<lambda>i j. [v, v * SHIFT_TO_PHASE_B, v * SHIFT_TO_PHASE_C] ! i)"

definition singlePhaseParameterToThreePhase :: "real \<Rightarrow> real matrix" where
  "singlePhaseParameterToThreePhase p = mkmat 3 3 (\<lambda>i j. if i = j then p else 0)"

definition singlePhasePowerToThreePhase :: "real \<Rightarrow> real matrix" where
  "singlePhasePowerToThreePhase p = mkmat 3 3 (\<lambda>i j. if i = j then p / 3 else 0)"

text \<open>The filter-side to PCC-side power conversion.  \<open>std::runtime_error\<close> is \<open>SystemError\<close>.\<close>

definition RMS3PH_TO_PEAK1PH :: real where "RMS3PH_TO_PEAK1PH = sqrt (2 / 3)"

definition pccPowerFromFilterPowerReference ::
  "real \<Rightarrow> real \<Rightarrow> real \<Rightarrow> real \<Rightarrow> error + real \<times> real" where
  "pccPowerFromFilterPowerReference pFilterRef qFilterRef rc vGridRmsLL =
     (let v = RMS3PH_TO_PEAK1PH * vGridRmsLL in
      if \<bar>rc\<bar> < 1 / 10 ^ 12 \<or> v < 1 / 10 ^ 9 then ok (pFilterRef, qFilterRef)
      else
        let qPccRef = qFilterRef;
            a = rc / (1.5 * v * v);
            discriminant = 1 + 4 * a * (pFilterRef - a * qPccRef * qPccRef)
        in if discriminant < 0 then throw SystemError
           else
             let sqrtDisc = sqrt discriminant;
                 p1 = (-1 + sqrtDisc) / (2 * a);
                 p2 = (-1 - sqrtDisc) / (2 * a)
             in ok (if \<bar>p1 - pFilterRef\<bar> < \<bar>p2 - pFilterRef\<bar> then p1 else p2, qPccRef))"

section \<open>State-space discretisation\<close>

definition trapF1 :: "real matrix \<Rightarrow> real \<Rightarrow> nat \<Rightarrow> real matrix" where
  "trapF1 A dt n = mat_add (identity n) (mat_scale (dt / 2) A)"

definition trapF2 :: "real matrix \<Rightarrow> real \<Rightarrow> nat \<Rightarrow> real matrix" where
  "trapF2 A dt n = mat_sub (identity n) (mat_scale (dt / 2) A)"

text \<open>The overload with the previous and the current input.\<close>

definition StateSpaceTrapezoidal ::
  "(real matrix \<Rightarrow> real matrix) \<Rightarrow> real matrix \<Rightarrow> real matrix \<Rightarrow> real matrix \<Rightarrow> real
   \<Rightarrow> real matrix \<Rightarrow> real matrix \<Rightarrow> real matrix" where
  "StateSpaceTrapezoidal einv states A B dt u_new u_old =
     (let n = mrows states; F2inv = einv (trapF2 A dt n)
      in mat_add (mat_mult (mat_mult F2inv (trapF1 A dt n)) states)
           (mat_mult (mat_mult (mat_scale (dt / 2) F2inv) B) (mat_add u_new u_old)))"

definition StateSpaceTrapezoidalC ::
  "(real matrix \<Rightarrow> real matrix) \<Rightarrow> real matrix \<Rightarrow> real matrix \<Rightarrow> real matrix \<Rightarrow> real matrix \<Rightarrow> real
   \<Rightarrow> real matrix \<Rightarrow> real matrix \<Rightarrow> real matrix" where
  "StateSpaceTrapezoidalC einv states A B C dt u_new u_old =
     (let n = mrows states; F2inv = einv (trapF2 A dt n)
      in mat_add (mat_add (mat_mult (mat_mult F2inv (trapF1 A dt n)) states)
             (mat_mult (mat_mult (mat_scale (dt / 2) F2inv) B) (mat_add u_new u_old)))
           (mat_mult (mat_scale dt F2inv) C))"

definition StateSpaceTrapezoidalU ::
  "(real matrix \<Rightarrow> real matrix) \<Rightarrow> real matrix \<Rightarrow> real matrix \<Rightarrow> real matrix \<Rightarrow> real
   \<Rightarrow> real matrix \<Rightarrow> real matrix" where
  "StateSpaceTrapezoidalU einv states A B dt u =
     (let n = mrows states; F2inv = einv (trapF2 A dt n)
      in mat_add (mat_mult (mat_mult F2inv (trapF1 A dt n)) states)
           (mat_mult (mat_mult (mat_scale dt F2inv) B) u))"

definition StateSpaceTrapezoidalCU ::
  "(real matrix \<Rightarrow> real matrix) \<Rightarrow> real matrix \<Rightarrow> real matrix \<Rightarrow> real matrix \<Rightarrow> real matrix \<Rightarrow> real
   \<Rightarrow> real matrix \<Rightarrow> real matrix" where
  "StateSpaceTrapezoidalCU einv states A B C dt u =
     (let n = mrows states; F2inv = einv (trapF2 A dt n)
      in mat_add (mat_add (mat_mult (mat_mult F2inv (trapF1 A dt n)) states)
             (mat_mult (mat_mult (mat_scale dt F2inv) B) u))
           (mat_mult (mat_scale dt F2inv) C))"

definition StateSpaceTrapezoidalInput ::
  "(real matrix \<Rightarrow> real matrix) \<Rightarrow> real matrix \<Rightarrow> real matrix \<Rightarrow> real matrix \<Rightarrow> real \<Rightarrow> real matrix" where
  "StateSpaceTrapezoidalInput einv states A input dt =
     (let n = mrows states; F2inv = einv (trapF2 A dt n)
      in mat_add (mat_mult (mat_mult F2inv (trapF1 A dt n)) states)
           (mat_mult (mat_scale dt F2inv) input))"

definition StateSpaceTrapezoidalRC :: "real \<Rightarrow> real \<Rightarrow> real \<Rightarrow> real \<Rightarrow> real \<Rightarrow> real \<Rightarrow> real" where
  "StateSpaceTrapezoidalRC x A B C dt u =
     (let F1 = 1 + dt / 2 * A; F2 = 1 - dt / 2 * A; F2inv = 1 / F2
      in F2inv * F1 * x + F2inv * dt * B * u + F2inv * dt * C)"

definition StateSpaceTrapezoidalR :: "real \<Rightarrow> real \<Rightarrow> real \<Rightarrow> real \<Rightarrow> real \<Rightarrow> real" where
  "StateSpaceTrapezoidalR x A B dt u =
     (let F1 = 1 + dt / 2 * A; F2 = 1 - dt / 2 * A; F2inv = 1 / F2
      in F2inv * F1 * x + F2inv * dt * B * u)"

definition StateSpaceEuler ::
  "real matrix \<Rightarrow> real matrix \<Rightarrow> real matrix \<Rightarrow> real \<Rightarrow> real matrix \<Rightarrow> real matrix" where
  "StateSpaceEuler x A B dt u = mat_add x (mat_scale dt (mat_add (mat_mult A x) (mat_mult B u)))"

definition StateSpaceEulerC ::
  "real matrix \<Rightarrow> real matrix \<Rightarrow> real matrix \<Rightarrow> real matrix \<Rightarrow> real \<Rightarrow> real matrix \<Rightarrow> real matrix" where
  "StateSpaceEulerC x A B C dt u =
     mat_add x (mat_scale dt (mat_add (mat_add (mat_mult A x) (mat_mult B u)) C))"

definition StateSpaceEulerInput :: "real matrix \<Rightarrow> real matrix \<Rightarrow> real matrix \<Rightarrow> real \<Rightarrow> real matrix" where
  "StateSpaceEulerInput x A input dt = mat_add x (mat_scale dt (mat_add (mat_mult A x) input))"

definition StateSpaceEulerR :: "real \<Rightarrow> real \<Rightarrow> real \<Rightarrow> real \<Rightarrow> real \<Rightarrow> real" where
  "StateSpaceEulerR x A B dt u = x + dt * (A * x + B * u)"

definition StateSpaceEulerRC :: "real \<Rightarrow> real \<Rightarrow> real \<Rightarrow> real \<Rightarrow> real \<Rightarrow> real \<Rightarrow> real" where
  "StateSpaceEulerRC x A B C dt u = x + dt * (A * x + B * u + C)"

definition calculateStateSpaceTrapezoidalMatrices ::
  "(real matrix \<Rightarrow> real matrix) \<Rightarrow> real matrix \<Rightarrow> real matrix \<Rightarrow> real matrix \<Rightarrow> real
   \<Rightarrow> real matrix \<times> real matrix \<times> real matrix" where
  "calculateStateSpaceTrapezoidalMatrices einv A B C dt =
     (let n = mrows A; F2inv = einv (trapF2 A dt n)
      in (mat_mult F2inv (trapF1 A dt n), mat_mult (mat_scale (dt / 2) F2inv) B,
          mat_mult (mat_scale dt F2inv) C))"

definition calculateStateSpaceTrapezoidalMatricesAB ::
  "(real matrix \<Rightarrow> real matrix) \<Rightarrow> real matrix \<Rightarrow> real matrix \<Rightarrow> real \<Rightarrow> real matrix \<times> real matrix" where
  "calculateStateSpaceTrapezoidalMatricesAB einv A B dt =
     (let n = mrows A; F2inv = einv (trapF2 A dt n)
      in (mat_mult F2inv (trapF1 A dt n), mat_mult (mat_scale (dt / 2) F2inv) B))"

definition applyStateSpaceTrapezoidalMatrices ::
  "real matrix \<Rightarrow> real matrix \<Rightarrow> real matrix \<Rightarrow> real matrix \<Rightarrow> real matrix \<Rightarrow> real matrix \<Rightarrow> real matrix" where
  "applyStateSpaceTrapezoidalMatrices Ad Bd Cd statesPrev inputCurr inputPrev =
     mat_add (mat_add (mat_mult Ad statesPrev) (mat_mult Bd (mat_add inputCurr inputPrev))) Cd"

section \<open>Rotating frames\<close>

definition rotatingFrame2to1 :: "complex \<Rightarrow> real \<Rightarrow> real \<Rightarrow> complex" where
  "rotatingFrame2to1 f2 theta1 theta2 =
     (let delta = theta2 - theta1
      in Complex (Re f2 * cos delta - Im f2 * sin delta) (Re f2 * sin delta + Im f2 * cos delta))"

definition parkTransformMatrixPowerInvariant :: "real \<Rightarrow> real matrix" where
  "parkTransformMatrixPowerInvariant theta =
     (let k = sqrt (2 / 3)
      in mkmat 2 3 (\<lambda>i j.
           [[k * cos theta, k * cos (theta - 2 * pi / 3), k * cos (theta + 2 * pi / 3)],
            [- k * sin theta, - k * sin (theta - 2 * pi / 3), - k * sin (theta + 2 * pi / 3)]] ! i ! j))"

definition inverseParkTransformMatrixPowerInvariant :: "real \<Rightarrow> real matrix" where
  "inverseParkTransformMatrixPowerInvariant theta =
     (let k = sqrt (2 / 3)
      in mkmat 3 2 (\<lambda>i j.
           [[k * cos theta, - k * sin theta],
            [k * cos (theta - 2 * pi / 3), - k * sin (theta - 2 * pi / 3)],
            [k * cos (theta + 2 * pi / 3), - k * sin (theta + 2 * pi / 3)]] ! i ! j))"

definition parkTransformPowerInvariant :: "real \<Rightarrow> real matrix \<Rightarrow> real matrix" where
  "parkTransformPowerInvariant theta fabc = mat_mult (parkTransformMatrixPowerInvariant theta) fabc"

definition inverseParkTransformPowerInvariant :: "real \<Rightarrow> real matrix \<Rightarrow> real matrix" where
  "inverseParkTransformPowerInvariant theta fdq =
     mat_mult (inverseParkTransformMatrixPowerInvariant theta) fdq"

section \<open>Complex elements act like complex numbers\<close>

definition system_dims :: "real matrix \<Rightarrow> nat \<Rightarrow> nat \<Rightarrow> bool" where
  "system_dims M k maxFreq \<longleftrightarrow> mrows M = 2 * k * maxFreq \<and> mcols M = mrows M \<and> 0 < maxFreq"

lemma mult_addEnt:
  assumes "j < mcols M"
  shows "ent (mat_mult (addEnt M i j x) v) a b =
     ent (mat_mult M v) a b + (if a = i then x * ent v j b else 0)"
proof -
  have "(\<Sum>k<mcols M. ent (addEnt M i j x) a k * ent v k b)
      = (\<Sum>k<mcols M. ent M a k * ent v k b + (if k = j then (if a = i then x * ent v j b else 0) else 0))"
    by (intro sum.cong) (auto simp: algebra_simps)
  then show ?thesis using assms by (simp add: mat_mult_def sum.distrib)
qed

lemma mat_mult_simps [simp]: "mrows (mat_mult A B) = mrows A" "mcols (mat_mult A B) = mcols B"
  by (simp_all add: mat_mult_def)

lemma offsets:
  assumes "mrows M = 2 * k * maxFreq" "0 < maxFreq"
  shows "harmonicOffset M maxFreq = 2 * k" "complexOffset M maxFreq = k"
    "harmIndex M r maxFreq f = r + 2 * k * f"
  using assms by (simp_all add: harmonicOffset_def complexOffset_def harmIndex_def)

lemma index_less:
  assumes "f < maxFreq" "r < 2 * (k :: nat)"
  shows "r + 2 * k * f < 2 * k * maxFreq"
proof -
  have "r + 2 * k * f < 2 * k * (f + 1)" using assms(2) by simp
  also have "\<dots> \<le> 2 * k * maxFreq" using assms(1) by (intro mult_le_mono2) simp
  finally show ?thesis .
qed

lemma index_inj:
  assumes "a < 2 * (k :: nat)" "b < 2 * k" "a + 2 * k * g = b + 2 * k * f"
  shows "a = b \<and> g = f"
proof -
  have "a = (a + 2 * k * g) mod (2 * k)" "b = (b + 2 * k * f) mod (2 * k)"
    using assms(1,2) by simp_all
  then have "a = b" using assms(3) by metis
  then show ?thesis using assms by auto
qed

text \<open>One lemma for both representations of a complex element: the two-by-two block
  \<open>(w00, w01, w10, w11)\<close>.\<close>

definition addBlock ::
  "real matrix \<Rightarrow> nat \<Rightarrow> nat \<Rightarrow> (real \<times> real \<times> real \<times> real) \<Rightarrow> nat \<Rightarrow> nat \<Rightarrow> real matrix" where
  "addBlock M row column w maxFreq freqIdx =
     (let r = harmIndex M row maxFreq freqIdx; k = harmIndex M column maxFreq freqIdx;
          c = complexOffset M maxFreq; (w00, w01, w10, w11) = w
      in addEnt (addEnt (addEnt (addEnt M r k w00) (r + c) (k + c) w11) r (k + c) w01) (r + c) k w10)"

definition blockAct :: "(real \<times> real \<times> real \<times> real) \<Rightarrow> complex \<Rightarrow> complex" where
  "blockAct w z = (case w of (w00, w01, w10, w11) \<Rightarrow>
     Complex (w00 * Re z + w01 * Im z) (w10 * Re z + w11 * Im z))"

lemma addBlock_dims [simp]: "mrows (addBlock M r c w m f) = mrows M" "mcols (addBlock M r c w m f) = mcols M"
  by (cases w; simp add: addBlock_def Let_def)+

lemma addToMatrixElement_block:
  "addToMatrixElement M r c y m f = addBlock M r c (Re y, - Im y, Im y, Re y) m f"
  "addToMatrixElementPacked M r c V m f = addBlock M r c (ent V 0 0, ent V 0 1, ent V 1 0, ent V 1 1) m f"
  by (simp_all add: addToMatrixElement_def addToMatrixElementPacked_def addBlock_def Let_def)

lemma blockAct_complex: "blockAct (Re y, - Im y, Im y, Re y) z = y * z"
  by (simp add: blockAct_def complex_eq_iff)

lemma complexFrom_eq:
  assumes "mrows x = 2 * k * maxFreq" "0 < maxFreq"
  shows "complexFromVectorElement x a maxFreq g = Complex (ent x (a + 2 * k * g) 0) (ent x (a + k + 2 * k * g) 0)"
  using offsets [OF assms] by (simp add: complexFromVectorElement_def Let_def add_ac)

lemma addBlock_acts:
  assumes "system_dims M k maxFreq" "a < k" "r < k" "c < k" "f < maxFreq" "g < maxFreq"
    and "mrows v = mrows M"
  shows "complexFromVectorElement (mat_mult (addBlock M r c w maxFreq f) v) a maxFreq g =
     complexFromVectorElement (mat_mult M v) a maxFreq g
     + (if a = r \<and> g = f then blockAct w (complexFromVectorElement v c maxFreq f) else 0)"
proof -
  obtain w00 w01 w10 w11 where w: "w = (w00, w01, w10, w11)" by (cases w)
  have d: "mrows M = 2 * k * maxFreq" "mcols M = 2 * k * maxFreq" "0 < maxFreq"
    using assms(1) by (simp_all add: system_dims_def)
  note om = offsets [OF d(1,3)]
  have vd: "mrows v = 2 * k * maxFreq" using assms(7) d by simp
  have col: "c + 2 * k * f < mcols M" "c + k + 2 * k * f < mcols M"
    using index_less [OF assms(5), of c k] index_less [OF assms(5), of "c + k" k] assms(4) d by simp_all
  have eqs: "a + 2 * k * g = r + 2 * k * f \<longleftrightarrow> a = r \<and> g = f"
    "a + k + 2 * k * g = r + k + 2 * k * f \<longleftrightarrow> a = r \<and> g = f"
    "a + 2 * k * g \<noteq> r + k + 2 * k * f" "a + k + 2 * k * g \<noteq> r + 2 * k * f"
    using index_inj [of a k r g f] index_inj [of "a + k" k "r + k" g f]
      index_inj [of a k "r + k" g f] index_inj [of "a + k" k r g f] assms(2,3) by auto
  have shuffle: "x + 2 * k * f + k = x + k + 2 * k * f" for x f by simp
  let ?M = "\<lambda>M. ent (mat_mult M v)"
  let ?N = "addBlock M r c w maxFreq f"
  have N: "?N = addEnt (addEnt (addEnt (addEnt M (r + 2 * k * f) (c + 2 * k * f) w00)
      (r + k + 2 * k * f) (c + k + 2 * k * f) w11) (r + 2 * k * f) (c + k + 2 * k * f) w01)
      (r + k + 2 * k * f) (c + 2 * k * f) w10"
    by (simp add: addBlock_def w Let_def om shuffle)
  have "?M ?N (a + 2 * k * g) 0 = ?M M (a + 2 * k * g) 0 + (if a = r \<and> g = f
        then w00 * ent v (c + 2 * k * f) 0 + w01 * ent v (c + k + 2 * k * f) 0 else 0)"
    unfolding N using col eqs by (simp add: mult_addEnt)
  moreover have "?M ?N (a + k + 2 * k * g) 0 = ?M M (a + k + 2 * k * g) 0 + (if a = r \<and> g = f
        then w10 * ent v (c + 2 * k * f) 0 + w11 * ent v (c + k + 2 * k * f) 0 else 0)"
    unfolding N using col eqs by (simp add: mult_addEnt)
  ultimately show ?thesis
    using d vd by (simp add: complexFrom_eq [OF _ d(3)] w blockAct_def complex_eq_iff)
qed

lemma complexFrom_set:
  assumes "mrows v = 2 * k * maxFreq" "0 < maxFreq" "i < k" "j < k"
  shows "complexFromVectorElement (setVectorElement v j u maxFreq f 0) i maxFreq g
     = (if i = j \<and> g = f then u else complexFromVectorElement v i maxFreq g)"
proof -
  note om = offsets [OF assms(1,2)]
  have S: "setVectorElement v j u maxFreq f 0
      = setEnt (setEnt v (j + 2 * k * f) 0 (Re u)) (j + k + 2 * k * f) 0 (Im u)"
    by (simp add: setVectorElement_def Let_def om add_ac)
  have eqs: "i + 2 * k * g = j + 2 * k * f \<longleftrightarrow> i = j \<and> g = f"
    "i + k + 2 * k * g = j + k + 2 * k * f \<longleftrightarrow> i = j \<and> g = f"
    "i + 2 * k * g \<noteq> j + k + 2 * k * f" "i + k + 2 * k * g \<noteq> j + 2 * k * f"
    using index_inj [of i k j g f] index_inj [of "i + k" k "j + k" g f]
      index_inj [of i k "j + k" g f] index_inj [of "i + k" k j g f] assms(3,4) by auto
  have d: "mrows (setEnt (setEnt v (j + 2 * k * f) 0 (Re u)) (j + k + 2 * k * f) 0 (Im u)) = 2 * k * maxFreq"
    using assms(1) by simp
  show ?thesis
    unfolding S complexFrom_eq [OF d assms(2)] complexFrom_eq [OF assms(1,2)]
    using eqs by (simp add: complex_eq_iff)
qed

text \<open>Adding a complex number to an element of the real system matrix acts on the
  solution vector as that complex number: row \<open>r\<close> of the product gains \<open>y\<close> times
  element \<open>c\<close> of the vector, and every other row and every other frequency is left alone.\<close>

theorem addToMatrixElement_acts:
  assumes "system_dims M k maxFreq" "a < k" "r < k" "c < k" "f < maxFreq" "g < maxFreq"
    and "mrows v = mrows M"
  shows "complexFromVectorElement (mat_mult (addToMatrixElement M r c y maxFreq f) v) a maxFreq g =
     complexFromVectorElement (mat_mult M v) a maxFreq g
     + (if a = r \<and> g = f then y * complexFromVectorElement v c maxFreq f else 0)"
  using addBlock_acts [OF assms, of "(Re y, - Im y, Im y, Re y)"]
  unfolding addToMatrixElement_block blockAct_complex .

theorem addToMatrixElement_acts_witness:
  "complexFromVectorElement (mat_mult (addToMatrixElement (mkmat 4 4 (\<lambda>_ _. 0)) 0 1 (Complex 1 2) 1 0)
      (mkmat 4 1 (\<lambda>i _. real i))) 0 1 0
   = complexFromVectorElement (mat_mult (mkmat 4 4 (\<lambda>_ _. 0)) (mkmat 4 1 (\<lambda>i _. real i))) 0 1 0
     + Complex 1 2 * complexFromVectorElement (mkmat 4 1 (\<lambda>i _. real i)) 1 1 0"
  using addToMatrixElement_acts [of "mkmat 4 4 (\<lambda>_ _. 0)" 2 1 0 0 1 0 0 "mkmat 4 1 (\<lambda>i _. real i)"
      "Complex 1 2"]
  by (simp add: system_dims_def)

section \<open>Inverses\<close>

lemma sum_lessThan_2: "(\<Sum>k<2. f k) = f 0 + f (1 :: nat)" for f :: "nat \<Rightarrow> real"
  by (simp add: numeral_2_eq_2)

lemma sum_lessThan_3: "(\<Sum>k<3. f k) = f 0 + f 1 + f (2 :: nat)" for f :: "nat \<Rightarrow> real"
  by (simp add: numeral_3_eq_3 numeral_2_eq_2)

definition det2 :: "real matrix \<Rightarrow> real" where
  "det2 M = ent M 0 0 * ent M 1 1 - ent M 0 1 * ent M 1 0"

definition det3 :: "real matrix \<Rightarrow> real" where
  "det3 M = ent M 0 0 * (ent M 1 1 * ent M 2 2 - ent M 1 2 * ent M 2 1)
          - ent M 0 1 * (ent M 1 0 * ent M 2 2 - ent M 1 2 * ent M 2 0)
          + ent M 0 2 * (ent M 1 0 * ent M 2 1 - ent M 1 1 * ent M 2 0)"

lemma invert2:
  assumes "mrows M = 2" "mcols M = 2" "det2 M \<noteq> 0" "i < 2" "j < 2"
  shows "ent (mat_mult M (invertMatrix einv M I)) i j = (if i = j then 1 else 0)"
proof -
  define m where "m = ent M"
  define d where "d = m 0 0 * m 1 1 - m 0 1 * m 1 0"
  have d: "d \<noteq> 0" using assms(3) by (simp add: d_def det2_def m_def)
  have ij: "i = 0 \<or> i = 1" "j = 0 \<or> j = 1" using assms(4,5) by auto
  have inv: "ent (invertMatrix einv M I) p q =
      (if p = 0 \<and> q = 0 then m 1 1 / d else if p = 0 \<and> q = 1 then - m 0 1 / d
       else if p = 1 \<and> q = 0 then - m 1 0 / d else if p = 1 \<and> q = 1 then m 0 0 / d else ent I p q)" for p q
    using assms(2) by (simp add: invertMatrix_def Let_def m_def d_def)
  have "ent (mat_mult M (invertMatrix einv M I)) i j =
      m i 0 * ent (invertMatrix einv M I) 0 j + m i 1 * ent (invertMatrix einv M I) 1 j"
    using assms(2) by (simp add: mat_mult_def sum_lessThan_2 m_def)
  moreover have "m i 0 * ent (invertMatrix einv M I) 0 j + m i 1 * ent (invertMatrix einv M I) 1 j
      = (if i = j then d / d else 0)"
    using ij by (elim disjE) (simp_all add: inv add_divide_distrib [symmetric] diff_divide_distrib [symmetric] d_def algebra_simps)
  ultimately show ?thesis using d by simp
qed

lemma invert3:
  assumes "mrows M = 3" "mcols M = 3" "det3 M \<noteq> 0" "i < 3" "j < 3"
  shows "ent (mat_mult M (invertMatrix einv M I)) i j = (if i = j then 1 else 0)"
proof -
  define m where "m = ent M"
  define d where "d = (m 0 0 * m 1 1 * m 2 2 + m 0 1 * m 1 2 * m 2 0 + m 1 0 * m 2 1 * m 0 2)
                 - (m 2 0 * m 1 1 * m 0 2 + m 1 0 * m 0 1 * m 2 2 + m 2 1 * m 1 2 * m 0 0)"
  have d: "d \<noteq> 0" using assms(3) by (simp add: d_def det3_def m_def algebra_simps)
  have ij: "i = 0 \<or> i = 1 \<or> i = 2" "j = 0 \<or> j = 1 \<or> j = 2" using assms(4,5) by auto
  have inv: "ent (invertMatrix einv M I) p q =
      (if p = 0 \<and> q = 0 then (m 1 1 * m 2 2 - m 1 2 * m 2 1) / d
       else if p = 0 \<and> q = 1 then (m 0 2 * m 2 1 - m 0 1 * m 2 2) / d
       else if p = 0 \<and> q = 2 then (m 0 1 * m 1 2 - m 0 2 * m 1 1) / d
       else if p = 1 \<and> q = 0 then (m 1 2 * m 2 0 - m 1 0 * m 2 2) / d
       else if p = 1 \<and> q = 1 then (m 0 0 * m 2 2 - m 0 2 * m 2 0) / d
       else if p = 1 \<and> q = 2 then (m 0 2 * m 1 0 - m 0 0 * m 1 2) / d
       else if p = 2 \<and> q = 0 then (m 1 0 * m 2 1 - m 1 1 * m 2 0) / d
       else if p = 2 \<and> q = 1 then (m 0 1 * m 2 0 - m 0 0 * m 2 1) / d
       else if p = 2 \<and> q = 2 then (m 0 0 * m 1 1 - m 0 1 * m 1 0) / d else ent I p q)" for p q
    using assms(2) by (simp add: invertMatrix_def Let_def m_def d_def)
  have "ent (mat_mult M (invertMatrix einv M I)) i j = m i 0 * ent (invertMatrix einv M I) 0 j
      + m i 1 * ent (invertMatrix einv M I) 1 j + m i 2 * ent (invertMatrix einv M I) 2 j"
    using assms(2) by (simp add: mat_mult_def sum_lessThan_3 m_def)
  moreover have "m i 0 * ent (invertMatrix einv M I) 0 j + m i 1 * ent (invertMatrix einv M I) 1 j
      + m i 2 * ent (invertMatrix einv M I) 2 j = (if i = j then d / d else 0)"
    using ij by (elim disjE) (simp_all add: inv add_divide_distrib [symmetric] d_def algebra_simps)
  ultimately show ?thesis using d by simp
qed

text \<open>For a two-by-two or three-by-three matrix with non-zero determinant, the
  computed matrix is its inverse.\<close>

theorem invertMatrix_correct:
  assumes "mrows M = n" "mcols M = n" "n = 2 \<and> det2 M \<noteq> 0 \<or> n = 3 \<and> det3 M \<noteq> 0"
    and "mcols I = n"
  shows "mat_eq (mat_mult M (invertMatrix einv M I)) (identity n)"
proof -
  have "mcols (invertMatrix einv M I) = n"
    using assms by (auto simp: invertMatrix_def Let_def)
  with assms show ?thesis
    by (auto simp: mat_eq_def identity_def invert2 invert3)
qed

theorem invertMatrix_correct_witness:
  "mat_eq (mat_mult (mkmat 2 2 (\<lambda>i j. if i = j then 2 else 1))
            (invertMatrix id (mkmat 2 2 (\<lambda>i j. if i = j then 2 else 1)) (identity 2))) (identity 2)"
  by (rule invertMatrix_correct) (simp_all add: det2_def identity_def)

section \<open>The trapezoidal rule\<close>

lemma sum_mult_assoc:
  fixes F G :: "nat \<Rightarrow> nat \<Rightarrow> real"
  shows "(\<Sum>l<m. (\<Sum>k<n. F i k * G k l) * x l) = (\<Sum>k<n. F i k * (\<Sum>l<m. G k l * x l))"
  by (simp add: sum_distrib_left sum_distrib_right mult.assoc sum.swap [of _ "{..<m}"])

lemma right_inverse_apply:
  fixes F G :: "nat \<Rightarrow> nat \<Rightarrow> real"
  assumes "\<And>k. k < n \<Longrightarrow> (\<Sum>i<n. F p i * G i k) = (if p = k then 1 else 0)" "p < n"
  shows "(\<Sum>i<n. F p i * (\<Sum>k<n. G i k * y k)) = y p"
proof -
  have "(\<Sum>i<n. F p i * (\<Sum>k<n. G i k * y k)) = (\<Sum>k<n. (\<Sum>i<n. F p i * G i k) * y k)"
    by (rule sum_mult_assoc [symmetric])
  also have "\<dots> = (\<Sum>k<n. if p = k then y k else 0)"
    by (intro sum.cong refl) (simp add: assms(1))
  finally show ?thesis using assms(2) by simp
qed

text \<open>What the code relies on of \<open>inverse()\<close>: a right inverse of an invertible matrix,
  of the same dimensions.\<close>

definition is_inverse :: "real matrix \<Rightarrow> real matrix \<Rightarrow> bool" where
  "is_inverse A B \<longleftrightarrow> mrows B = mrows A \<and> mcols B = mcols A \<and> mat_eq (mat_mult A B) (identity (mrows A))"

text \<open>The discretised step solves the trapezoidal rule: with the matrices
  \<open>calculateStateSpaceTrapezoidalMatrices\<close> computes, the next state \<open>y\<close> satisfies
  \<open>y - x = dt/2 (A (x + y) + B (u + u')) + dt C\<close>.\<close>

theorem trapezoidal_step:
  assumes "mrows A = n" "mcols A = n" "mrows B = n" "mrows C = n" "mrows x = n"
    and "is_inverse (trapF2 A dt n) (einv (trapF2 A dt n))"
    and "calculateStateSpaceTrapezoidalMatrices einv A B C dt = (Ad, Bd, Cd)"
    and "y = applyStateSpaceTrapezoidalMatrices Ad Bd Cd x u u'" "p < n"
  shows "ent y p 0 - ent x p 0 =
     dt / 2 * ((\<Sum>i<n. ent A p i * (ent x i 0 + ent y i 0))
              + (\<Sum>j<mcols B. ent B p j * (ent u j 0 + ent u' j 0))) + dt * ent C p 0"
proof -
  let ?F = "trapF2 A dt n"
  let ?G = "einv ?F"
  have G: "mrows ?G = n" "mcols ?G = n"
    and inv: "\<And>k. k < n \<Longrightarrow> (\<Sum>i<n. ent ?F p i * ent ?G i k) = (if p = k then 1 else 0)"
    using assms(1,2,6,9) by (auto simp: is_inverse_def trapF2_def mat_sub_def identity_def mat_eq_def mat_mult_def)
  define z where "z k = (\<Sum>l<n. ent (trapF1 A dt n) k l * ent x l 0)
      + dt / 2 * (\<Sum>j<mcols B. ent B k j * (ent u j 0 + ent u' j 0)) + dt * ent C k 0" for k
  have mats: "Ad = mat_mult ?G (trapF1 A dt n)" "Bd = mat_mult (mat_scale (dt / 2) ?G) B"
    "Cd = mat_mult (mat_scale dt ?G) C"
    using assms(1,7) by (auto simp: calculateStateSpaceTrapezoidalMatrices_def Let_def)
  have F1: "mcols (trapF1 A dt n) = n" by (simp add: trapF1_def mat_add_def identity_def)
  have y: "ent y i 0 = (\<Sum>k<n. ent ?G i k * z k)" for i
  proof -
    have "ent y i 0 = (\<Sum>l<n. (\<Sum>k<n. ent ?G i k * ent (trapF1 A dt n) k l) * ent x l 0)
        + (\<Sum>j<mcols B. (\<Sum>k<n. (dt / 2 * ent ?G i k) * ent B k j) * (ent u j 0 + ent u' j 0))
        + (\<Sum>k<n. dt * ent ?G i k * ent C k 0)"
      using G F1 by (simp add: assms(8) applyStateSpaceTrapezoidalMatrices_def mats mat_add_def
          mat_mult_def mat_scale_def)
    also have "\<dots> = (\<Sum>k<n. ent ?G i k * (\<Sum>l<n. ent (trapF1 A dt n) k l * ent x l 0))
        + (\<Sum>k<n. (dt / 2 * ent ?G i k) * (\<Sum>j<mcols B. ent B k j * (ent u j 0 + ent u' j 0)))
        + (\<Sum>k<n. dt * ent ?G i k * ent C k 0)"
      using sum_mult_assoc [of "\<lambda>i k. dt / 2 * ent ?G i k" i "ent B" n "\<lambda>j. ent u j 0 + ent u' j 0" "mcols B"]
        sum_mult_assoc [of "ent ?G" i "ent (trapF1 A dt n)" n "\<lambda>l. ent x l 0" n]
      by presburger
    also have "\<dots> = (\<Sum>k<n. ent ?G i k * z k)"
      unfolding z_def sum.distrib [symmetric] by (intro sum.cong refl) (simp add: algebra_simps)
    finally show ?thesis .
  qed
  have "(\<Sum>i<n. ent ?F p i * ent y i 0) = z p"
    unfolding y using right_inverse_apply [of n "ent ?F" p "ent ?G" z] inv assms(9) by blast
  moreover have "(\<Sum>i<n. ent ?F p i * ent y i 0) = ent y p 0 - dt / 2 * (\<Sum>i<n. ent A p i * ent y i 0)"
    using assms(9) by (simp add: trapF2_def mat_sub_def mat_scale_def identity_def sum_distrib_left
        left_diff_distrib sum_subtractf mult.assoc if_distrib [of "\<lambda>c. c * _"] cong: if_cong)
  moreover have "(\<Sum>l<n. ent (trapF1 A dt n) p l * ent x l 0) = ent x p 0 + dt / 2 * (\<Sum>i<n. ent A p i * ent x i 0)"
    using assms(9) by (simp add: trapF1_def mat_add_def mat_scale_def identity_def sum_distrib_left
        distrib_right sum.distrib mult.assoc if_distrib [of "\<lambda>c. c * _"] cong: if_cong)
  ultimately show ?thesis
    by (simp add: z_def distrib_left sum.distrib)
qed

theorem trapezoidal_step_witness:
  "case calculateStateSpaceTrapezoidalMatrices (\<lambda>_. mkmat 1 1 (\<lambda>_ _. 2)) (mkmat 1 1 (\<lambda>_ _. 1))
      (mkmat 1 1 (\<lambda>_ _. 2)) (mkmat 1 1 (\<lambda>_ _. 0)) 1 of (Ad, Bd, Cd) \<Rightarrow>
     ent (applyStateSpaceTrapezoidalMatrices Ad Bd Cd (mkmat 1 1 (\<lambda>_ _. 1)) (mkmat 1 1 (\<lambda>_ _. 1))
       (mkmat 1 1 (\<lambda>_ _. 0))) 0 0 = 5"
proof -
  let ?c = "\<lambda>v. mkmat 1 1 (\<lambda>_ _. v) :: real matrix"
  obtain Ad Bd Cd where c: "calculateStateSpaceTrapezoidalMatrices (\<lambda>_. ?c 2) (?c 1) (?c 2) (?c 0) 1 = (Ad, Bd, Cd)"
    by (cases "calculateStateSpaceTrapezoidalMatrices (\<lambda>_. ?c 2) (?c 1) (?c 2) (?c 0) 1")
  have "is_inverse (trapF2 (?c 1) 1 1) (?c 2)"
    by (simp add: is_inverse_def trapF2_def mat_sub_def mat_scale_def identity_def mat_eq_def mat_mult_def)
  from trapezoidal_step [of "?c 1" 1 "?c 2" "?c 0" "?c 1" 1 "\<lambda>_. ?c 2", OF _ _ _ _ _ this c refl, of 0 "?c 1" "?c 0"]
  show ?thesis unfolding c by simp
qed

section \<open>Park transformation\<close>

lemma trig_shift:
  "cos (t - 2 * pi / 3) = - (1 / 2) * cos t + sqrt 3 / 2 * sin t"
  "cos (t + 2 * pi / 3) = - (1 / 2) * cos t - sqrt 3 / 2 * sin t"
  "sin (t - 2 * pi / 3) = - (1 / 2) * sin t - sqrt 3 / 2 * cos t"
  "sin (t + 2 * pi / 3) = - (1 / 2) * sin t + sqrt 3 / 2 * cos t"
  by (simp_all add: cos_diff cos_add sin_diff sin_add cos_120 sin_120)

lemma park_products:
  fixes c s r h :: real
  assumes "c * c + s * s = 1" "r * r = 3" "2 * h = 1"
  defines "cb \<equiv> r * h * s - h * c" and "cc \<equiv> - h * c - r * h * s"
    and "sb \<equiv> - h * s - r * h * c" and "sc \<equiv> r * h * c - h * s"
  shows "c * c + cb * cb + cc * cc = 3 * h" "s * s + sb * sb + sc * sc = 3 * h"
    "c * s + cb * sb + cc * sc = 0"
    "c * cb + s * sb = - h" "c * cc + s * sc = - h" "cb * cc + sb * sc = - h"
    "cb * cb + sb * sb = 1" "cc * cc + sc * sc = 1"
proof -
  note d = cb_def cc_def sb_def sc_def
  show "c * c + cb * cb + cc * cc = 3 * h" using assms(1-3) unfolding d by algebra
  show "s * s + sb * sb + sc * sc = 3 * h" using assms(1-3) unfolding d by algebra
  show "c * s + cb * sb + cc * sc = 0" using assms(1-3) unfolding d by algebra
  show "c * cb + s * sb = - h" using assms(1-3) unfolding d by algebra
  show "c * cc + s * sc = - h" using assms(1-3) unfolding d by algebra
  show "cb * cc + sb * sc = - h" using assms(1-3) unfolding d by algebra
  show "cb * cb + sb * sb = 1" using assms(1-3) unfolding d by algebra
  show "cc * cc + sc * sc = 1" using assms(1-3) unfolding d by algebra
qed

lemma park_both:
  shows "mrows g = 2 \<longrightarrow>
      mat_eq (parkTransformPowerInvariant t (inverseParkTransformPowerInvariant t g)) g"
    and "mrows f = 3 \<and> (\<forall>j. ent f 0 j + ent f 1 j + ent f 2 j = 0) \<longrightarrow>
      mat_eq (inverseParkTransformPowerInvariant t (parkTransformPowerInvariant t f)) f"
proof -
  define c s r k h where "c = cos t" "s = sin t" "r = sqrt 3" "k = sqrt (2 / 3 :: real)" "h = (1 / 2 :: real)"
  note defs = c_s_r_k_h_def
  have e: "c * c + s * s = 1" "r * r = 3" "2 * h = 1" by (simp_all add: defs flip: power2_eq_square)
  note p = park_products [OF e]
  define cb cc sb sc where "cb = r * h * s - h * c" "cc = - h * c - r * h * s"
    "sb = - h * s - r * h * c" "sc = r * h * c - h * s"
  note d = cb_cc_sb_sc_def
  note p = p [folded d]
  have kk: "k * k = 2 / 3" by (simp add: defs)
  have P: "mcols (parkTransformMatrixPowerInvariant t) = 3"
    "\<And>i. ent (parkTransformMatrixPowerInvariant t) i =
      (\<lambda>j. [[k * c, k * cb, k * cc], [- k * s, - k * sb, - k * sc]] ! i ! j)"
    and Q: "mcols (inverseParkTransformMatrixPowerInvariant t) = 2"
    "\<And>i. ent (inverseParkTransformMatrixPowerInvariant t) i =
      (\<lambda>j. [[k * c, - k * s], [k * cb, - k * sb], [k * cc, - k * sc]] ! i ! j)"
    by (simp_all add: parkTransformMatrixPowerInvariant_def inverseParkTransformMatrixPowerInvariant_def
        Let_def trig_shift d defs)
  show "mrows g = 2 \<longrightarrow> mat_eq (parkTransformPowerInvariant t (inverseParkTransformPowerInvariant t g)) g"
  proof (intro impI)
    assume g: "mrows g = 2"
    have "ent (parkTransformPowerInvariant t (inverseParkTransformPowerInvariant t g)) i j = ent g i j"
      if i: "i < 2" for i j
    proof -
      define x y where "x = ent g 0 j" "y = ent g 1 j"
      have "k * c * (k * c * x - k * s * y) + k * cb * (k * cb * x - k * sb * y) + k * cc * (k * cc * x - k * sc * y)
          = (k * k) * ((c * c + cb * cb + cc * cc) * x - (c * s + cb * sb + cc * sc) * y)"
        by (simp add: algebra_simps)
      moreover have "- k * s * (k * c * x - k * s * y) - k * sb * (k * cb * x - k * sb * y) - k * sc * (k * cc * x - k * sc * y)
          = (k * k) * ((s * s + sb * sb + sc * sc) * y - (c * s + cb * sb + cc * sc) * x)"
        by (simp add: algebra_simps)
      moreover have "i = 0 \<or> i = 1" using i by auto
      ultimately show ?thesis
        by (elim disjE) (simp_all add: parkTransformPowerInvariant_def inverseParkTransformPowerInvariant_def
          mat_mult_def P Q sum_lessThan_2 sum_lessThan_3 p kk x_y_def defs(5))
    qed
    then show "mat_eq (parkTransformPowerInvariant t (inverseParkTransformPowerInvariant t g)) g"
      using g by (simp add: mat_eq_def parkTransformPowerInvariant_def inverseParkTransformPowerInvariant_def
          parkTransformMatrixPowerInvariant_def Let_def)
  qed
  show "mrows f = 3 \<and> (\<forall>j. ent f 0 j + ent f 1 j + ent f 2 j = 0) \<longrightarrow>
      mat_eq (inverseParkTransformPowerInvariant t (parkTransformPowerInvariant t f)) f"
  proof (intro impI, elim conjE)
    assume f: "mrows f = 3" and z: "\<forall>j. ent f 0 j + ent f 1 j + ent f 2 j = 0"
    have "ent (inverseParkTransformPowerInvariant t (parkTransformPowerInvariant t f)) i j = ent f i j"
      if i: "i < 3" for i j
    proof -
      define x y w where "x = ent f 0 j" "y = ent f 1 j" "w = ent f 2 j"
      have sum0: "w = - x - y" using z [rule_format, of j] by (simp add: x_y_w_def)
      define R where "R a b = k * a * (k * c * x + k * cb * y + k * cc * w)
          + (- k * b) * ((- k * s) * x + (- k * sb) * y + (- k * sc) * w)" for a b
      have row: "R a b = (k * k) * ((c * a + s * b) * x + (cb * a + sb * b) * y + (cc * a + sc * b) * w)" for a b
        unfolding R_def by (simp add: algebra_simps)
      have comm: "cb * c + sb * s = - h" "cc * c + sc * s = - h" "cc * cb + sc * sb = - h"
        using p(4-6) by (simp_all add: mult.commute)
      have res: "R c s = x" "R cb sb = y" "R cc sc = w"
        unfolding row kk e p comm sum0 by (simp_all add: defs(5) field_simps)
      have ents: "ent (inverseParkTransformPowerInvariant t (parkTransformPowerInvariant t f)) 0 j = R c s"
        "ent (inverseParkTransformPowerInvariant t (parkTransformPowerInvariant t f)) 1 j = R cb sb"
        "ent (inverseParkTransformPowerInvariant t (parkTransformPowerInvariant t f)) 2 j = R cc sc"
        by (simp_all add: parkTransformPowerInvariant_def inverseParkTransformPowerInvariant_def
          mat_mult_def P Q sum_lessThan_2 sum_lessThan_3 R_def x_y_w_def)
      have "i = 0 \<or> i = 1 \<or> i = 2" using that by auto
      then show ?thesis using ents res by (elim disjE) (simp_all add: x_y_w_def)
    qed
    then show "mat_eq (inverseParkTransformPowerInvariant t (parkTransformPowerInvariant t f)) f"
      using f by (simp add: mat_eq_def parkTransformPowerInvariant_def inverseParkTransformPowerInvariant_def
          inverseParkTransformMatrixPowerInvariant_def Let_def)
  qed
qed

text \<open>The power-invariant Park transformation undoes its inverse, and its inverse
  undoes it on three-phase quantities without a zero sequence.\<close>

theorem park_inverse:
  assumes "mrows g = 2" "mrows f = 3" "\<And>j. ent f 0 j + ent f 1 j + ent f 2 j = 0"
  shows "mat_eq (parkTransformPowerInvariant t (inverseParkTransformPowerInvariant t g)) g
    \<and> mat_eq (inverseParkTransformPowerInvariant t (parkTransformPowerInvariant t f)) f"
  using park_both assms by blast

theorem park_inverse_witness:
  "mat_eq (inverseParkTransformPowerInvariant 1
     (parkTransformPowerInvariant 1 (mkmat 3 1 (\<lambda>i _. [1, 2, -3] ! i)))) (mkmat 3 1 (\<lambda>i _. [1, 2, -3] ! i))"
  using park_inverse [of "mkmat 2 1 (\<lambda>_ _. 0)" "mkmat 3 1 (\<lambda>i _. [1, 2, -3] ! i)" 1] by simp

section \<open>The PCC power\<close>

text \<open>Unless the filter resistance or the voltage is negligible, the returned
  PCC power together with the losses \<open>a (p\<^sup>2 + q\<^sup>2)\<close> in the filter gives the filter-side
  reference; an exception means that no PCC power does.\<close>

theorem pcc_power_solves:
  assumes "v = RMS3PH_TO_PEAK1PH * vGrid" "\<not> (\<bar>rc\<bar> < 1 / 10 ^ 12 \<or> v < 1 / 10 ^ 9)"
    and "a = rc / (1.5 * v * v)"
  shows "case pccPowerFromFilterPowerReference pRef qRef rc vGrid of
      Inr (p, q) \<Rightarrow> q = qRef \<and> p + a * (p * p + q * q) = pRef
    | Inl e \<Rightarrow> \<forall>p. p + a * (p * p + qRef * qRef) \<noteq> pRef"
proof -
  have a0: "a \<noteq> 0" using assms by auto
  define D where "D = 1 + 4 * a * (pRef - a * qRef * qRef)"
  have sq: "(2 * a * p + 1) ^ 2 = 4 * a * (p + a * (p * p)) + 1" for p
    by (simp add: power2_eq_square algebra_simps)
  have root: "p + a * (p * p + qRef * qRef) = pRef" if "2 * a * p + 1 = w" "w * w = D" for p w
  proof -
    have "4 * a * (p + a * (p * p)) = 4 * a * (pRef - a * qRef * qRef)"
    proof -
      have "w ^ 2 = 4 * a * (p + a * (p * p)) + 1" using sq [of p] unfolding that(1) .
      then have "w * w = 4 * a * (p + a * (p * p)) + 1" unfolding power2_eq_square .
      with that(2) show ?thesis unfolding D_def by linarith
    qed
    then have "p + a * (p * p) = pRef - a * qRef * qRef"
      using a0 mult_left_cancel [of "4 * a" "p + a * (p * p)"] by simp
    then show ?thesis by (simp add: algebra_simps)
  qed
  have run: "pccPowerFromFilterPowerReference pRef qRef rc vGrid =
      (if D < 0 then throw SystemError
       else ok (if \<bar>(-1 + sqrt D) / (2 * a) - pRef\<bar> < \<bar>(-1 - sqrt D) / (2 * a) - pRef\<bar>
                then (-1 + sqrt D) / (2 * a) else (-1 - sqrt D) / (2 * a), qRef))"
    using assms by (simp add: pccPowerFromFilterPowerReference_def Let_def D_def)
  show ?thesis
  proof (cases "D < 0")
    case True
    have "p + a * (p * p + qRef * qRef) \<noteq> pRef" for p
    proof
      assume "p + a * (p * p + qRef * qRef) = pRef"
      then have "p + a * (p * p) = pRef - a * qRef * qRef" by (simp add: algebra_simps)
      then have "(2 * a * p + 1) ^ 2 = D" using sq [of p] by (simp add: D_def)
      with True show False by (metis not_less zero_le_power2)
    qed
    with True show ?thesis by (simp add: run)
  next
    case False
    then have "sqrt D * sqrt D = D" "(- sqrt D) * (- sqrt D) = D" by simp_all
    moreover have "2 * a * ((-1 + sqrt D) / (2 * a)) + 1 = sqrt D" "2 * a * ((-1 - sqrt D) / (2 * a)) + 1 = - sqrt D"
      using a0 by (simp_all add: field_simps)
    ultimately show ?thesis using False root by (auto simp: run)
  qed
qed

theorem pcc_power_solves_witness:
  "case pccPowerFromFilterPowerReference 0 0 1 (1 / RMS3PH_TO_PEAK1PH) of
      Inr (p, q) \<Rightarrow> q = 0 \<and> p + 1 / (1.5 * 1 * 1) * (p * p + q * q) = 0
    | Inl e \<Rightarrow> \<forall>p :: real. p + 1 / (1.5 * 1 * 1) * (p * p + 0 * 0) \<noteq> 0"
proof (rule pcc_power_solves)
  show "(1 :: real) = RMS3PH_TO_PEAK1PH * (1 / RMS3PH_TO_PEAK1PH)" by (simp add: RMS3PH_TO_PEAK1PH_def)
qed simp_all

text \<open>The frame change is a rotation: it multiplies with \<open>exp(j (theta2 - theta1))\<close>,
  so that going to another frame and back is the identity and magnitudes are kept.\<close>

theorem rotatingFrame_rotation:
  "rotatingFrame2to1 f t1 t2 = f * cis (t2 - t1)
   \<and> rotatingFrame2to1 (rotatingFrame2to1 f t1 t2) t2 t1 = f
   \<and> cmod (rotatingFrame2to1 f t1 t2) = cmod f"
proof -
  have r: "rotatingFrame2to1 z a b = z * cis (b - a)" for z a b
    by (simp add: rotatingFrame2to1_def Let_def complex_eq_iff)
  have "cis (t2 - t1) * cis (t1 - t2) = 1" by (simp add: cis_mult)
  then show ?thesis unfolding r by (simp add: norm_mult mult.assoc)
qed

end
