(* ===== verification/Stamping.thy ===== *)
theory Stamping
  imports MatrixOps
begin

text \<open>dpsim-models/src/MNAStampUtils.cpp: adding the admittance of an element between two
  nodes to the system matrix.  The private templates over the value type are functions
  over the \<open>addToMatrixElement\<close> overload they call; the locale \<open>additive_stamp\<close> states
  what they rely on, and is interpreted on the three overloads: real, complex and packed
  real two-by-two blocks.\<close>

section \<open>The templates\<close>

type_synonym 'v add_fun = "real matrix \<Rightarrow> nat \<Rightarrow> nat \<Rightarrow> 'v \<Rightarrow> real matrix"

definition stampToMatrix ::
  "'v add_fun \<Rightarrow> ('v \<Rightarrow> 'v) \<Rightarrow> 'v \<Rightarrow> real matrix \<Rightarrow> nat \<Rightarrow> nat \<Rightarrow> nat \<Rightarrow> nat \<Rightarrow> real matrix" where
  "stampToMatrix add neg value M row1 column1 row2 column2 =
     add (add (add (add M row1 column1 value) row1 column2 (neg value)) row2 column1 (neg value))
       row2 column2 value"

definition stampValue ::
  "'v add_fun \<Rightarrow> ('v \<Rightarrow> 'v) \<Rightarrow> 'v \<Rightarrow> real matrix \<Rightarrow> nat \<Rightarrow> nat \<Rightarrow> bool \<Rightarrow> bool \<Rightarrow> real matrix" where
  "stampValue add neg value M n1 n2 t1 t2 =
     (if t1 \<and> t2 then stampToMatrix add neg value M n1 n1 n2 n2
      else if t1 then add M n1 n1 value
      else if t2 then add M n2 n2 value
      else M)"

definition stampMatrixBetween2Nodes ::
  "'v add_fun \<Rightarrow> ('v \<Rightarrow> 'v) \<Rightarrow> 'v matrix \<Rightarrow> nat \<Rightarrow> real matrix \<Rightarrow> nat \<Rightarrow> nat \<Rightarrow> real matrix" where
  "stampMatrixBetween2Nodes add neg V sz M n1 n2 =
     fold (\<lambda>i. fold (\<lambda>j M. stampToMatrix add neg (ent V i j) M (n1 + i) (n1 + j) (n2 + i) (n2 + j))
       [0..<sz]) [0..<sz] M"

definition stampMatrixNodeToGround ::
  "'v add_fun \<Rightarrow> 'v matrix \<Rightarrow> nat \<Rightarrow> real matrix \<Rightarrow> nat \<Rightarrow> real matrix" where
  "stampMatrixNodeToGround add V sz M node =
     fold (\<lambda>i. fold (\<lambda>j M. add M (node + i) (node + j) (ent V i j)) [0..<sz]) [0..<sz] M"

definition stampMatrix ::
  "'v add_fun \<Rightarrow> ('v \<Rightarrow> 'v) \<Rightarrow> 'v matrix \<Rightarrow> real matrix \<Rightarrow> nat \<Rightarrow> nat \<Rightarrow> bool \<Rightarrow> bool
   \<Rightarrow> error + real matrix" where
  "stampMatrix add neg V M n1 n2 t1 t2 =
     (if mrows V \<noteq> mcols V then throw InvalidArgumentException
      else ok (if t1 \<and> t2 then stampMatrixBetween2Nodes add neg V (mrows V) M n1 n2
               else if t1 then stampMatrixNodeToGround add V (mrows V) M n1
               else if t2 then stampMatrixNodeToGround add V (mrows V) M n2
               else M))"

definition stampValueAsScalarMatrix ::
  "'v add_fun \<Rightarrow> ('v \<Rightarrow> 'v) \<Rightarrow> 'v \<Rightarrow> nat \<Rightarrow> real matrix \<Rightarrow> nat \<Rightarrow> nat \<Rightarrow> bool \<Rightarrow> bool \<Rightarrow> real matrix" where
  "stampValueAsScalarMatrix add neg value sz M n1 n2 t1 t2 =
     (if t1 \<and> t2 then fold (\<lambda>i M. stampToMatrix add neg value M (n1 + i) (n1 + i) (n2 + i) (n2 + i)) [0..<sz] M
      else if t1 then fold (\<lambda>i M. add M (n1 + i) (n1 + i) value) [0..<sz] M
      else if t2 then fold (\<lambda>i M. add M (n2 + i) (n2 + i) value) [0..<sz] M
      else M)"

section \<open>The public operations\<close>

definition addR :: "real add_fun" where "addR M r c v = addToMatrixElementR M r c v"

definition addC :: "nat \<Rightarrow> nat \<Rightarrow> complex add_fun" where
  "addC maxFreq freqIdx M r c v = addToMatrixElement M r c v maxFreq freqIdx"

definition addP :: "nat \<Rightarrow> nat \<Rightarrow> real matrix add_fun" where
  "addP maxFreq freqIdx M r c v = addToMatrixElementPacked M r c v maxFreq freqIdx"

definition negP :: "real matrix \<Rightarrow> real matrix" where
  "negP V = mkmat (mrows V) (mcols V) (\<lambda>i j. - ent V i j)"

definition stampConductance :: "real \<Rightarrow> real matrix \<Rightarrow> nat \<Rightarrow> nat \<Rightarrow> bool \<Rightarrow> bool \<Rightarrow> real matrix" where
  "stampConductance g M n1 n2 t1 t2 = stampValue addR uminus g M n1 n2 t1 t2"

definition stampAdmittance ::
  "complex \<Rightarrow> real matrix \<Rightarrow> nat \<Rightarrow> nat \<Rightarrow> bool \<Rightarrow> bool \<Rightarrow> nat \<Rightarrow> nat \<Rightarrow> real matrix" where
  "stampAdmittance y M n1 n2 t1 t2 maxFreq freqIdx =
     stampValue (addC maxFreq freqIdx) uminus y M n1 n2 t1 t2"

definition stampAdmittancePacked ::
  "real matrix \<Rightarrow> real matrix \<Rightarrow> nat \<Rightarrow> nat \<Rightarrow> bool \<Rightarrow> bool \<Rightarrow> nat \<Rightarrow> nat \<Rightarrow> error + real matrix" where
  "stampAdmittancePacked V M n1 n2 t1 t2 maxFreq freqIdx =
     (if mrows V \<noteq> 2 \<or> mcols V \<noteq> 2 then throw InvalidArgumentException
      else ok (stampValue (addP maxFreq freqIdx) negP V M n1 n2 t1 t2))"

definition stampConductanceMatrix ::
  "real matrix \<Rightarrow> real matrix \<Rightarrow> nat \<Rightarrow> nat \<Rightarrow> bool \<Rightarrow> bool \<Rightarrow> error + real matrix" where
  "stampConductanceMatrix V M n1 n2 t1 t2 = stampMatrix addR uminus V M n1 n2 t1 t2"

definition stamp3x3ConductanceMatrixBetween2Nodes ::
  "real matrix \<Rightarrow> real matrix \<Rightarrow> nat \<Rightarrow> nat \<Rightarrow> real matrix" where
  "stamp3x3ConductanceMatrixBetween2Nodes V M n1 n2 = stampMatrixBetween2Nodes addR uminus V 3 M n1 n2"

definition stamp3x3ConductanceMatrixNodeToGround :: "real matrix \<Rightarrow> real matrix \<Rightarrow> nat \<Rightarrow> real matrix" where
  "stamp3x3ConductanceMatrixNodeToGround V M node = stampMatrixNodeToGround addR V 3 M node"

definition stampAdmittanceMatrix ::
  "complex matrix \<Rightarrow> real matrix \<Rightarrow> nat \<Rightarrow> nat \<Rightarrow> bool \<Rightarrow> bool \<Rightarrow> nat \<Rightarrow> nat \<Rightarrow> error + real matrix" where
  "stampAdmittanceMatrix V M n1 n2 t1 t2 maxFreq freqIdx =
     stampMatrix (addC maxFreq freqIdx) uminus V M n1 n2 t1 t2"

definition matBlock :: "real matrix \<Rightarrow> nat \<Rightarrow> nat \<Rightarrow> real matrix" where
  "matBlock V row col = mkmat 2 2 (\<lambda>i j. ent V (2 * row + i) (2 * col + j))"

definition stampAdmittanceMatrixPacked ::
  "real matrix \<Rightarrow> nat \<Rightarrow> real matrix \<Rightarrow> nat \<Rightarrow> nat \<Rightarrow> bool \<Rightarrow> bool \<Rightarrow> nat \<Rightarrow> nat \<Rightarrow> error + real matrix" where
  "stampAdmittanceMatrixPacked V phaseCount M n1 n2 t1 t2 maxFreq freqIdx =
     (if mrows V \<noteq> 2 * phaseCount \<or> mcols V \<noteq> 2 * phaseCount then throw InvalidArgumentException
      else ok (fold (\<lambda>row. fold (\<lambda>col M.
             (if t1 \<and> t2 then stampToMatrix (addP maxFreq freqIdx) negP (matBlock V row col) M
                               (n1 + row) (n1 + col) (n2 + row) (n2 + col)
              else if t1 then addP maxFreq freqIdx M (n1 + row) (n1 + col) (matBlock V row col)
              else if t2 then addP maxFreq freqIdx M (n2 + row) (n2 + col) (matBlock V row col)
              else M)) [0..<phaseCount]) [0..<phaseCount] M))"

definition stampConductanceAs3x3ScalarMatrix ::
  "real \<Rightarrow> real matrix \<Rightarrow> nat \<Rightarrow> nat \<Rightarrow> bool \<Rightarrow> bool \<Rightarrow> real matrix" where
  "stampConductanceAs3x3ScalarMatrix g M n1 n2 t1 t2 = stampValueAsScalarMatrix addR uminus g 3 M n1 n2 t1 t2"

definition stampAdmittanceAs3x3ScalarMatrix ::
  "complex \<Rightarrow> real matrix \<Rightarrow> nat \<Rightarrow> nat \<Rightarrow> bool \<Rightarrow> bool \<Rightarrow> nat \<Rightarrow> nat \<Rightarrow> real matrix" where
  "stampAdmittanceAs3x3ScalarMatrix y M n1 n2 t1 t2 maxFreq freqIdx =
     stampValueAsScalarMatrix (addC maxFreq freqIdx) uminus y 3 M n1 n2 t1 t2"

section \<open>What stamping relies on\<close>

text \<open>\<open>obs M a\<close> is the current into node \<open>a\<close> that the matrix assigns to a fixed vector of
  node voltages, \<open>act x j\<close> the current an element value \<open>x\<close> draws from the voltage of node
  \<open>j\<close>.  Adding an element must be additive in these terms.\<close>

locale additive_stamp =
  fixes add :: "'v add_fun" and neg :: "'v \<Rightarrow> 'v" and dims :: "real matrix \<Rightarrow> bool" and k :: nat
    and obs :: "real matrix \<Rightarrow> nat \<Rightarrow> 'w :: ab_group_add" and act :: "'v \<Rightarrow> nat \<Rightarrow> 'w"
  assumes dims_add: "dims M \<Longrightarrow> dims (add M i j x)"
    and obs_add: "\<lbrakk>dims M; a < k; i < k; j < k\<rbrakk> \<Longrightarrow>
      obs (add M i j x) a = obs M a + (if a = i then act x j else 0)"
    and act_neg: "act (neg x) j = - act x j"
begin

lemma dims_stampToMatrix: "dims M \<Longrightarrow> dims (stampToMatrix add neg x M r1 c1 r2 c2)"
  by (simp add: stampToMatrix_def dims_add)

lemma obs_stampToMatrix:
  assumes "dims M" "a < k" "r1 < k" "c1 < k" "r2 < k" "c2 < k"
  shows "obs (stampToMatrix add neg x M r1 c1 r2 c2) a = obs M a
      + (if a = r1 then act x c1 - act x c2 else 0) + (if a = r2 then act x c2 - act x c1 else 0)"
  using assms by (simp add: stampToMatrix_def obs_add dims_add act_neg)

text \<open>The element's current flows into its two terminals with opposite signs; a grounded
  terminal has voltage zero and no equation.\<close>

lemma obs_stampValue:
  assumes "dims M" "a < k" "t1 \<Longrightarrow> n1 < k" "t2 \<Longrightarrow> n2 < k"
  shows "obs (stampValue add neg x M n1 n2 t1 t2) a = obs M a
      + (if t1 \<and> a = n1 then act x n1 - (if t2 then act x n2 else 0) else 0)
      + (if t2 \<and> a = n2 then act x n2 - (if t1 then act x n1 else 0) else 0)"
  using assms by (simp add: stampValue_def obs_stampToMatrix obs_add)

lemma fold_dims:
  "(\<And>x M. dims M \<Longrightarrow> dims (f x M)) \<Longrightarrow> dims M \<Longrightarrow> dims (fold f xs M)"
  by (induction xs arbitrary: M) auto

lemma obs_fold:
  assumes "\<And>x M. dims M \<Longrightarrow> dims (f x M)"
    and "\<And>x M. x \<in> set xs \<Longrightarrow> dims M \<Longrightarrow> obs (f x M) a = obs M a + d x" "dims M"
  shows "obs (fold f xs M) a = obs M a + sum_list (map d xs)"
  using assms(2,3)
proof (induction xs arbitrary: M)
  case (Cons x xs)
  have "obs (fold f xs (f x M)) a = obs (f x M) a + sum_list (map d xs)"
    using Cons.prems assms(1) by (intro Cons.IH) auto
  with Cons.prems show ?case by (simp add: add.assoc)
qed simp

lemma obs_between:
  assumes "dims M" "a < k" "n1 + sz \<le> k" "n2 + sz \<le> k"
  shows "obs (stampMatrixBetween2Nodes add neg V sz M n1 n2) a = obs M a
    + (\<Sum>i<sz. \<Sum>j<sz. (if a = n1 + i then act (ent V i j) (n1 + j) - act (ent V i j) (n2 + j) else 0)
                       + (if a = n2 + i then act (ent V i j) (n2 + j) - act (ent V i j) (n1 + j) else 0))"
proof -
  let ?f = "\<lambda>i j M. stampToMatrix add neg (ent V i j) M (n1 + i) (n1 + j) (n2 + i) (n2 + j)"
  let ?d = "\<lambda>i j. (if a = n1 + i then act (ent V i j) (n1 + j) - act (ent V i j) (n2 + j) else 0)
                + (if a = n2 + i then act (ent V i j) (n2 + j) - act (ent V i j) (n1 + j) else 0)"
  have row: "obs (fold (?f i) [0..<sz] M) a = obs M a + sum_list (map (?d i) [0..<sz])"
    if "i < sz" "dims M" for i M
  proof (rule obs_fold)
    fix j N assume "j \<in> set [0..<sz]" "dims N"
    then show "obs (?f i j N) a = obs N a + ?d i j"
      using assms that by (subst obs_stampToMatrix) (auto simp: add.assoc)
  qed (use that dims_stampToMatrix in auto)
  have "obs (fold (\<lambda>i. fold (?f i) [0..<sz]) [0..<sz] M) a
      = obs M a + sum_list (map (\<lambda>i. sum_list (map (?d i) [0..<sz])) [0..<sz])"
    by (rule obs_fold) (use row assms(1) in \<open>auto intro!: fold_dims dims_stampToMatrix\<close>)
  then show ?thesis
    by (simp add: stampMatrixBetween2Nodes_def interv_sum_list_conv_sum_set_nat atLeast0LessThan)
qed

text \<open>Stamps commute: the current they leave does not depend on their order.\<close>

lemma obs_stamps:
  assumes "dims M" "a < k" "\<And>x n1 n2 t1 t2. (x, n1, n2, t1, t2) \<in> set es \<Longrightarrow> n1 < k \<and> n2 < k"
  shows "obs (fold (\<lambda>(x, n1, n2, t1, t2) M. stampValue add neg x M n1 n2 t1 t2) es M) a = obs M a
    + (\<Sum>(x, n1, n2, t1, t2) \<leftarrow> es.
         (if t1 \<and> a = n1 then act x n1 - (if t2 then act x n2 else 0) else 0)
       + (if t2 \<and> a = n2 then act x n2 - (if t1 then act x n1 else 0) else 0))"
proof (rule obs_fold)
  show "dims ((\<lambda>(x, n1, n2, t1, t2) M. stampValue add neg x M n1 n2 t1 t2) e M)" if "dims M" for e M
    using that by (cases e) (simp add: stampValue_def dims_stampToMatrix dims_add)
  fix e M assume e: "e \<in> set es" and M: "dims M"
  obtain x n1 n2 t1 t2 where eq: "e = (x, n1, n2, t1, t2)" by (cases e)
  have "n1 < k" "n2 < k" using assms(3) e eq by blast+
  then show "obs ((\<lambda>(x, n1, n2, t1, t2) M. stampValue add neg x M n1 n2 t1 t2) e M) a = obs M a
     + (case e of (x, n1, n2, t1, t2) \<Rightarrow>
         (if t1 \<and> a = n1 then act x n1 - (if t2 then act x n2 else 0) else 0)
       + (if t2 \<and> a = n2 then act x n2 - (if t1 then act x n1 else 0) else 0))"
    using M assms(2) by (simp add: eq obs_stampValue add.assoc)
qed (rule assms(1))

end

section \<open>The three overloads\<close>

definition systemR :: "nat \<Rightarrow> real matrix \<Rightarrow> bool" where
  "systemR k M \<longleftrightarrow> mcols M = k"

definition systemC :: "nat \<Rightarrow> nat \<Rightarrow> nat \<Rightarrow> real matrix \<Rightarrow> real matrix \<Rightarrow> bool" where
  "systemC k maxFreq f v M \<longleftrightarrow> system_dims M k maxFreq \<and> f < maxFreq \<and> mrows v = mrows M"

abbreviation currentC :: "nat \<Rightarrow> nat \<Rightarrow> real matrix \<Rightarrow> real matrix \<Rightarrow> nat \<Rightarrow> complex" where
  "currentC maxFreq f v M a \<equiv> complexFromVectorElement (mat_mult M v) a maxFreq f"

abbreviation voltageC :: "nat \<Rightarrow> nat \<Rightarrow> real matrix \<Rightarrow> nat \<Rightarrow> complex" where
  "voltageC maxFreq f v j \<equiv> complexFromVectorElement v j maxFreq f"

abbreviation packedAct :: "real matrix \<Rightarrow> complex \<Rightarrow> complex" where
  "packedAct V \<equiv> blockAct (ent V 0 0, ent V 0 1, ent V 1 0, ent V 1 1)"

lemma addR_addEnt: "addR M i j x = addEnt M i j x"
  by (simp add: addR_def addToMatrixElementR_def addEnt_def)

interpretation real_stamp: additive_stamp addR uminus "systemR k" k
    "\<lambda>M a. ent (mat_mult M v) a 0" "\<lambda>x j. x * ent v j 0" for k v
  by unfold_locales (auto simp: addR_addEnt systemR_def mult_addEnt)

interpretation complex_stamp: additive_stamp "addC maxFreq f" uminus "systemC k maxFreq f v" k
    "currentC maxFreq f v" "\<lambda>y j. y * voltageC maxFreq f v j" for maxFreq f k v
proof unfold_locales
  show "systemC k maxFreq f v (addC maxFreq f M i j x)" if "systemC k maxFreq f v M" for M i j x
    using that by (simp add: systemC_def system_dims_def addC_def addToMatrixElement_block)
  show "currentC maxFreq f v (addC maxFreq f M i j x) a = currentC maxFreq f v M a
      + (if a = i then x * voltageC maxFreq f v j else 0)"
    if "systemC k maxFreq f v M" "a < k" "i < k" "j < k" for M a i j x
    using addBlock_acts [of M k maxFreq a i j f f v "(Re x, - Im x, Im x, Re x)"] that
    by (simp add: systemC_def addC_def addToMatrixElement_block blockAct_complex)
qed simp

interpretation packed_stamp: additive_stamp "addP maxFreq f" negP "systemC k maxFreq f v" k
    "currentC maxFreq f v" "\<lambda>V j. packedAct V (voltageC maxFreq f v j)" for maxFreq f k v
proof unfold_locales
  show "systemC k maxFreq f v (addP maxFreq f M i j x)" if "systemC k maxFreq f v M" for M i j x
    using that by (simp add: systemC_def system_dims_def addP_def addToMatrixElement_block)
  show "currentC maxFreq f v (addP maxFreq f M i j x) a = currentC maxFreq f v M a
      + (if a = i then packedAct x (voltageC maxFreq f v j) else 0)"
    if "systemC k maxFreq f v M" "a < k" "i < k" "j < k" for M a i j x
    using addBlock_acts [of M k maxFreq a i j f f v] that
    by (simp add: systemC_def addP_def addToMatrixElement_block)
qed (simp add: negP_def blockAct_def complex_eq_iff)

section \<open>Properties\<close>


abbreviation demo_system :: "real matrix" where "demo_system \<equiv> mkmat 4 4 (\<lambda>_ _. 0)"
abbreviation demo_voltages :: "real matrix" where "demo_voltages \<equiv> mkmat 4 1 (\<lambda>i _. real i)"

lemma demo_systemC: "systemC 2 1 0 demo_voltages demo_system"
  by (simp add: systemC_def system_dims_def)


text \<open>The equations of a network do not depend on the order in which its elements are
  stamped.\<close>

theorem stamps_order_independent:
  assumes "systemC k maxFreq f v M" "a < k"
    and "\<And>y n1 n2 t1 t2. (y, n1, n2, t1, t2) \<in> set es \<Longrightarrow> n1 < k \<and> n2 < k" "mset es = mset es'"
  shows "currentC maxFreq f v (fold (\<lambda>(y, n1, n2, t1, t2) M. stampAdmittance y M n1 n2 t1 t2 maxFreq f) es M) a
       = currentC maxFreq f v (fold (\<lambda>(y, n1, n2, t1, t2) M. stampAdmittance y M n1 n2 t1 t2 maxFreq f) es' M) a"
proof -
  have es': "n1 < k \<and> n2 < k" if "(y, n1, n2, t1, t2) \<in> set es'" for y n1 n2 t1 t2
    using assms(3) [of y n1 n2 t1 t2] that mset_eq_setD [OF assms(4)] by blast
  have perm: "sum_list (map d es) = sum_list (map d es')" for d :: "_ \<Rightarrow> complex"
    using assms(4) by (metis mset_map sum_mset_sum_list)
  show ?thesis
    unfolding stampAdmittance_def
    using complex_stamp.obs_stamps [OF assms(1,2), of es] complex_stamp.obs_stamps [OF assms(1,2), of es']
      assms(3) es' perm by simp
qed

theorem stamps_order_independent_witness:
  "currentC 1 0 demo_voltages (fold (\<lambda>(y, n1, n2, t1, t2) M. stampAdmittance y M n1 n2 t1 t2 1 0)
      [(\<i>, 0, 1, True, True), (1, 0, 0, True, False)] demo_system) 0
   = currentC 1 0 demo_voltages (fold (\<lambda>(y, n1, n2, t1, t2) M. stampAdmittance y M n1 n2 t1 t2 1 0)
      [(1, 0, 0, True, False), (\<i>, 0, 1, True, True)] demo_system) 0"
  by (rule stamps_order_independent [OF demo_systemC]) auto

text \<open>A three-phase admittance matrix between two nodes must be square, and then
  stamps the matrix equations of the element: each phase of the first node gains the
  matrix applied to the phase voltages across the element, and the second node the
  opposite.\<close>

theorem stampAdmittanceMatrix_current:
  assumes "systemC k maxFreq f v M" "a < k" "n1 + mrows Y \<le> k" "n2 + mrows Y \<le> k"
  shows "case stampAdmittanceMatrix Y M n1 n2 True True maxFreq f of
     Inl e \<Rightarrow> e = InvalidArgumentException \<and> mrows Y \<noteq> mcols Y
   | Inr M' \<Rightarrow> mrows Y = mcols Y \<and> currentC maxFreq f v M' a = currentC maxFreq f v M a
      + (\<Sum>i<mrows Y. \<Sum>j<mrows Y.
          (if a = n1 + i then ent Y i j * (voltageC maxFreq f v (n1 + j) - voltageC maxFreq f v (n2 + j)) else 0)
        + (if a = n2 + i then ent Y i j * (voltageC maxFreq f v (n2 + j) - voltageC maxFreq f v (n1 + j)) else 0))"
proof (cases "mrows Y = mcols Y")
  case False
  then show ?thesis by (simp add: stampAdmittanceMatrix_def stampMatrix_def)
next
  case True
  have "stampAdmittanceMatrix Y M n1 n2 True True maxFreq f
      = ok (stampMatrixBetween2Nodes (addC maxFreq f) uminus Y (mrows Y) M n1 n2)"
    using True by (simp add: stampAdmittanceMatrix_def stampMatrix_def)
  then show ?thesis
    using complex_stamp.obs_between [OF assms, of Y] True
    by (simp only: sum.case right_diff_distrib simp_thms)
qed

theorem stampAdmittanceMatrix_current_witness:
  "case stampAdmittanceMatrix (mkmat 1 1 (\<lambda>_ _. \<i>)) demo_system 0 1 True True 1 0 of
     Inl e \<Rightarrow> False
   | Inr M' \<Rightarrow> currentC 1 0 demo_voltages M' 0 = currentC 1 0 demo_voltages demo_system 0
       + \<i> * (voltageC 1 0 demo_voltages 0 - voltageC 1 0 demo_voltages 1)"
  using stampAdmittanceMatrix_current [OF demo_systemC, of 0 0 "mkmat 1 1 (\<lambda>_ _. \<i>)" 1]
  by (simp split: sum.splits)

end
