(* ===== verification/Components.thy ===== *)
theory Components
  imports MatrixOps
begin

text \<open>The electrical data model every solver works on: nodes
  (dpsim-models/src/TopologicalNode.cpp, SimNode.cpp), terminals
  (TopologicalTerminal.cpp, SimTerminal.h) and the terminal, node and virtual-node
  bookkeeping of power components (SimPowerComp.cpp).  Nodes and components are shared
  objects, named by pointers into a store; a null pointer is \<open>None\<close>.  A terminal belongs
  to one component and is a value of it.  An access out of range or through a null
  pointer is the error \<open>UndefinedBehaviour\<close>.  Logging is left out.\<close>

section \<open>Types\<close>

datatype PhaseType = PhaseA | PhaseB | PhaseC | PhaseABC | PhaseSingle | PhaseDC

text \<open>The template argument \<open>VarType\<close>, and a \<open>MatrixVar\<close> of either.\<close>

datatype var_type = RealVar | ComplexVar

datatype varmat = RealM "real matrix" | ComplexM "complex matrix"

definition zeroVar :: "var_type \<Rightarrow> nat \<Rightarrow> nat \<Rightarrow> varmat" where
  "zeroVar v r c = (case v of RealVar \<Rightarrow> RealM (mkmat r c (\<lambda>_ _. 0)) | ComplexVar \<Rightarrow> ComplexM (mkmat r c (\<lambda>_ _. 0)))"

definition varEnt :: "varmat \<Rightarrow> nat \<Rightarrow> nat \<Rightarrow> complex" where
  "varEnt m i j = (case m of RealM M \<Rightarrow> of_real (ent M i j) | ComplexM M \<Rightarrow> ent M i j)"

text \<open>Assigning an element; a complex value assigned to a real matrix cannot occur, the
  real part stands for it.\<close>

definition varSet :: "varmat \<Rightarrow> nat \<Rightarrow> nat \<Rightarrow> complex \<Rightarrow> varmat" where
  "varSet m i j z = (case m of RealM M \<Rightarrow> RealM (setEnt M i j (Re z)) | ComplexM M \<Rightarrow> ComplexM (setEnt M i j z))"

text \<open>Reading an \<open>std::vector\<close> with operator[].\<close>

definition vec_at :: "'a list \<Rightarrow> nat \<Rightarrow> error + 'a" where
  "vec_at xs i = (if i < length xs then ok (xs ! i) else throw UndefinedBehaviour)"

definition vec_set :: "'a list \<Rightarrow> nat \<Rightarrow> 'a \<Rightarrow> error + 'a list" where
  "vec_set xs i x = (if i < length xs then ok (xs[i := x]) else throw UndefinedBehaviour)"

lemma vec_at_Inr [simp]: "vec_at xs i = Inr x \<longleftrightarrow> i < length xs \<and> x = xs ! i"
  by (auto simp: vec_at_def)

lemma vec_set_Inr [simp]: "vec_set xs i x = Inr ys \<longleftrightarrow> i < length xs \<and> ys = xs[i := x]"
  by (auto simp: vec_set_def)

text \<open>\<open>std::vector::resize\<close>.\<close>

definition resizeVec :: "nat \<Rightarrow> 'a \<Rightarrow> 'a list \<Rightarrow> 'a list" where
  "resizeVec n x xs = take n xs @ replicate (n - length xs) x"

lemma length_resizeVec [simp]: "length (resizeVec n x xs) = n"
  by (simp add: resizeVec_def)

text \<open>\<open>std::to_string\<close> of an unsigned number.\<close>

definition digit :: "nat \<Rightarrow> char" where
  "digit d = ''0123456789'' ! d"

fun to_string :: "nat \<Rightarrow> string" where
  "to_string n = (if n < 10 then [digit n] else to_string (n div 10) @ [digit (n mod 10)])"

declare to_string.simps [simp del]

section \<open>Nodes\<close>

record simNode =
  nodeUID :: string
  nodeName :: string
  nodeVar :: var_type
  nodePhase :: PhaseType
  isGround :: bool
  mMatrixNodeIndex :: "nat list"
  mInitialVoltage :: "complex matrix"
  nodeFrequencies :: "real matrix"
  nodeNumFreqs :: nat
  mVoltage :: varmat
  mApparentPower :: varmat

definition topologicalNodeVoltage :: "PhaseType \<Rightarrow> complex list \<Rightarrow> complex matrix" where
  "topologicalNodeVoltage ph iv =
     (if ph = PhaseABC then mkmat 3 1 (\<lambda>i j. iv ! i) else mkmat 1 1 (\<lambda>i j. iv ! 0))"

definition mkSimNode ::
  "var_type \<Rightarrow> string \<Rightarrow> string \<Rightarrow> nat list \<Rightarrow> PhaseType \<Rightarrow> complex list \<Rightarrow> simNode" where
  "mkSimNode v uid name idx ph iv =
     (let rows = (if ph = PhaseABC then 3 else 1)
      in \<lparr>nodeUID = uid, nodeName = name, nodeVar = v, nodePhase = ph, isGround = False,
          mMatrixNodeIndex = (if ph = PhaseABC then idx else [idx ! 0]),
          mInitialVoltage = topologicalNodeVoltage ph iv,
          nodeFrequencies = mkmat 0 0 (\<lambda>_ _. 0), nodeNumFreqs = 0,
          mVoltage = zeroVar v rows 1, mApparentPower = zeroVar v rows 1\<rparr>)"

definition namedNode :: "var_type \<Rightarrow> string \<Rightarrow> PhaseType \<Rightarrow> simNode" where
  "namedNode v name ph = mkSimNode v name name [0, 0, 0] ph [0, 0, 0]"

definition groundNode :: "var_type \<Rightarrow> PhaseType \<Rightarrow> simNode" where
  "groundNode v ph = (mkSimNode v ''gnd'' ''gnd'' [0, 0, 0] ph [0, 0, 0])
     \<lparr>isGround := True, mInitialVoltage := mkmat 3 1 (\<lambda>_ _. 0), mVoltage := zeroVar v 3 1\<rparr>"

definition setInitialVoltage :: "complex \<Rightarrow> simNode \<Rightarrow> simNode" where
  "setInitialVoltage u n =
     (if nodePhase n = PhaseABC
      then n\<lparr>mInitialVoltage := setEnt (setEnt (setEnt (mInitialVoltage n) 0 0 u)
                1 0 (SHIFT_TO_PHASE_B * u)) 2 0 (SHIFT_TO_PHASE_C * u)\<rparr>
      else n\<lparr>mInitialVoltage := setEnt (mInitialVoltage n) 0 0 u\<rparr>)"

definition setInitialVoltageMatrix :: "complex matrix \<Rightarrow> simNode \<Rightarrow> simNode" where
  "setInitialVoltageMatrix M n = n\<lparr>mInitialVoltage := M\<rparr>"

definition setInitialVoltageAt :: "complex \<Rightarrow> nat \<Rightarrow> simNode \<Rightarrow> simNode" where
  "setInitialVoltageAt u ph n = n\<lparr>mInitialVoltage := setEnt (mInitialVoltage n) ph 0 u\<rparr>"

definition phaseRow :: "PhaseType \<Rightarrow> nat" where
  "phaseRow ph = (if ph = PhaseB then 1 else if ph = PhaseC then 2 else 0)"

definition initialSingleVoltage :: "simNode \<Rightarrow> PhaseType \<Rightarrow> complex" where
  "initialSingleVoltage n ph = ent (mInitialVoltage n) (phaseRow ph) 0"

definition initializeNode :: "simNode \<Rightarrow> simNode" where
  "initializeNode n =
     (case nodeVar n of
        RealVar \<Rightarrow>
          (if nodePhase n = PhaseDC
           then n\<lparr>mVoltage := varSet (mVoltage n) 0 0 (of_real (Re (ent (mInitialVoltage n) 0 0)))\<rparr>
           else if nodePhase n = PhaseSingle
           then n\<lparr>mVoltage := varSet (mVoltage n) 0 0
                    (of_real (Re (of_real RMS3PH_TO_PEAK1PH * ent (mInitialVoltage n) 0 0)))\<rparr>
           else n\<lparr>mVoltage := RealM (mkmat (mrows (mInitialVoltage n)) (mcols (mInitialVoltage n))
                    (\<lambda>i j. Re (of_real RMS3PH_TO_PEAK1PH * ent (mInitialVoltage n) i j)))\<rparr>)
      | ComplexVar \<Rightarrow>
          (let v0 = varSet (mVoltage n) 0 0 (ent (mInitialVoltage n) 0 0)
           in n\<lparr>mVoltage := (if nodePhase n = PhaseABC
                 then varSet (varSet v0 1 0 (ent (mInitialVoltage n) 1 0)) 2 0 (ent (mInitialVoltage n) 2 0)
                 else v0)\<rparr>))"

definition initializeNodeFreqs :: "real matrix \<Rightarrow> simNode \<Rightarrow> simNode" where
  "initializeNodeFreqs freqs n =
     (let numFreqs = mrows freqs * mcols freqs
      in n\<lparr>nodeFrequencies := freqs, nodeNumFreqs := numFreqs,
           mVoltage := zeroVar (nodeVar n) (if nodePhase n = PhaseABC then 3 else 1) numFreqs\<rparr>)"

definition cloneNode :: "simNode \<Rightarrow> string \<Rightarrow> simNode" where
  "cloneNode n name = setInitialVoltageMatrix (mInitialVoltage n) (namedNode (nodeVar n) name (nodePhase n))"

definition singleVoltage :: "simNode \<Rightarrow> PhaseType \<Rightarrow> complex" where
  "singleVoltage n ph = varEnt (mVoltage n) (phaseRow ph) 0"

definition matrixNodeIndex :: "simNode \<Rightarrow> PhaseType \<Rightarrow> error + nat" where
  "matrixNodeIndex n ph =
     (if nodePhase n = PhaseDC
      then (if ph = PhaseDC \<or> ph = PhaseSingle \<or> ph = PhaseA then vec_at (mMatrixNodeIndex n) 0 else ok 0)
      else if (ph = PhaseA \<or> ph = PhaseSingle)
              \<and> (nodePhase n = PhaseSingle \<or> nodePhase n = PhaseA \<or> nodePhase n = PhaseABC)
      then vec_at (mMatrixNodeIndex n) 0
      else if ph = PhaseB \<and> (nodePhase n = PhaseB \<or> nodePhase n = PhaseABC)
      then vec_at (mMatrixNodeIndex n) 1
      else if ph = PhaseC \<and> (nodePhase n = PhaseC \<or> nodePhase n = PhaseABC)
      then vec_at (mMatrixNodeIndex n) 2
      else ok 0)"

definition matrixNodeIndices :: "simNode \<Rightarrow> error + nat list" where
  "matrixNodeIndices n =
     (if nodePhase n = PhaseB then bind_err (vec_at (mMatrixNodeIndex n) 1) (\<lambda>i. ok [i])
      else if nodePhase n = PhaseC then bind_err (vec_at (mMatrixNodeIndex n) 2) (\<lambda>i. ok [i])
      else if nodePhase n = PhaseABC then ok (mMatrixNodeIndex n)
      else bind_err (vec_at (mMatrixNodeIndex n) 0) (\<lambda>i. ok [i]))"

definition setMatrixNodeIndex :: "nat \<Rightarrow> nat \<Rightarrow> simNode \<Rightarrow> error + simNode" where
  "setMatrixNodeIndex ph idx n =
     bind_err (vec_set (mMatrixNodeIndex n) ph idx) (\<lambda>v. ok (n\<lparr>mMatrixNodeIndex := v\<rparr>))"

text \<open>\<open>setVoltage\<close> and \<open>setPower\<close> do nothing for real nodes; only the complex
  specialisation assigns.\<close>

definition setVoltage :: "complex \<Rightarrow> simNode \<Rightarrow> simNode" where
  "setVoltage u n = (if nodeVar n = ComplexVar then n\<lparr>mVoltage := varSet (mVoltage n) 0 0 u\<rparr> else n)"

definition setNodePower :: "complex \<Rightarrow> simNode \<Rightarrow> simNode" where
  "setNodePower s n = (if nodeVar n = ComplexVar then n\<lparr>mApparentPower := varSet (mApparentPower n) 0 0 s\<rparr> else n)"

text \<open>Reading the solution vector back: \<open>readPhases\<close> is the sequence of assignments both
  specialisations share; the test \<open>mMatrixNodeIndex[i] >= 0\<close> of the code always holds for
  an unsigned index.\<close>

definition readPhases :: "(nat \<Rightarrow> complex) \<Rightarrow> nat \<Rightarrow> simNode \<Rightarrow> error + simNode" where
  "readPhases read freq n =
     bind_err (vec_at (mMatrixNodeIndex n) 0) (\<lambda>i0.
       let v0 = varSet (mVoltage n) 0 freq (read i0)
       in if nodePhase n = PhaseABC
          then bind_err (vec_at (mMatrixNodeIndex n) 1) (\<lambda>i1.
               bind_err (vec_at (mMatrixNodeIndex n) 2) (\<lambda>i2.
                 ok (n\<lparr>mVoltage := varSet (varSet v0 1 freq (read i1)) 2 freq (read i2)\<rparr>)))
          else ok (n\<lparr>mVoltage := v0\<rparr>))"

primrec readFreqs :: "real matrix \<Rightarrow> nat list \<Rightarrow> simNode \<Rightarrow> error + simNode" where
  "readFreqs leftVector [] n = ok n"
| "readFreqs leftVector (f # fs) n =
     bind_err (readPhases (\<lambda>i. complexFromVectorElement leftVector i (nodeNumFreqs n) f) f n)
       (readFreqs leftVector fs)"

definition mnaUpdateVoltage :: "real matrix \<Rightarrow> simNode \<Rightarrow> error + simNode" where
  "mnaUpdateVoltage leftVector n =
     (case nodeVar n of
        RealVar \<Rightarrow> readPhases (\<lambda>i. of_real (realFromVectorElement leftVector i)) 0 n
      | ComplexVar \<Rightarrow> readFreqs leftVector [0..<nodeNumFreqs n] n)"

definition mnaUpdateVoltageHarm :: "real matrix \<Rightarrow> nat \<Rightarrow> simNode \<Rightarrow> error + simNode" where
  "mnaUpdateVoltageHarm leftVector freqIdx n =
     (case nodeVar n of
        RealVar \<Rightarrow> ok n
      | ComplexVar \<Rightarrow> readPhases (\<lambda>i. complexFromVectorElement leftVector i 1 0) freqIdx n)"

primrec harmSteps :: "real matrix list \<Rightarrow> nat list \<Rightarrow> simNode \<Rightarrow> error + simNode" where
  "harmSteps leftVectors [] n = ok n"
| "harmSteps leftVectors (f # fs) n =
     bind_err (vec_at leftVectors f) (\<lambda>v. bind_err (mnaUpdateVoltageHarm v f n) (harmSteps leftVectors fs))"

definition mnaPostStepHarm :: "real matrix list \<Rightarrow> simNode \<Rightarrow> error + simNode" where
  "mnaPostStepHarm leftVectors n =
     (case nodeVar n of RealVar \<Rightarrow> ok n | ComplexVar \<Rightarrow> harmSteps leftVectors [0..<nodeNumFreqs n] n)"

section \<open>Terminals\<close>

record terminal =
  termName :: string
  termPhase :: PhaseType
  mPower :: "complex matrix"
  termNode :: "nat option"

definition setPhaseType :: "PhaseType \<Rightarrow> terminal \<Rightarrow> terminal" where
  "setPhaseType ph t = t\<lparr>termPhase := ph,
     mPower := (if ph = PhaseABC then mkmat 3 1 (\<lambda>_ _. 0) else mkmat 1 1 (\<lambda>_ _. 0))\<rparr>"

definition mkTerminal :: "string \<Rightarrow> terminal" where
  "mkTerminal name = setPhaseType PhaseSingle
     \<lparr>termName = name, termPhase = PhaseSingle, mPower = mkmat 0 0 (\<lambda>_ _. 0), termNode = None\<rparr>"

definition setTermPower :: "complex \<Rightarrow> terminal \<Rightarrow> terminal" where
  "setTermPower s t = t\<lparr>mPower := setEnt (mPower t) 0 0 s\<rparr>"

definition setTermPowerMatrix :: "complex matrix \<Rightarrow> terminal \<Rightarrow> terminal" where
  "setTermPowerMatrix S t = t\<lparr>mPower := S\<rparr>"

definition singlePower :: "terminal \<Rightarrow> complex" where
  "singlePower t = ent (mPower t) (phaseRow (termPhase t)) 0"

definition singleActivePower :: "terminal \<Rightarrow> real" where "singleActivePower t = Re (singlePower t)"
definition singleReactivePower :: "terminal \<Rightarrow> real" where "singleReactivePower t = Im (singlePower t)"

section \<open>The store\<close>

datatype comp_kind = SignalComponent | PowerComponent var_type

record comp =
  compUID :: string
  compName :: string
  compType :: string
  compKind :: comp_kind
  genPower :: "complex option"
  compPhase :: PhaseType
  mNumTerminals :: nat
  mTerminals :: "terminal option list"
  mNumVirtualNodes :: nat
  mVirtualNodes :: "nat option list"
  compFrequencies :: "real matrix"
  compNumFreqs :: nat
  mMatrixNodeIndices :: "nat list"
  mMatrixNodeIndexIsGround :: "bool list"
  mIntfVoltage :: varmat
  mIntfCurrent :: varmat

record store =
  nodeAt :: "nat \<Rightarrow> simNode"
  nextNode :: nat
  compAt :: "nat \<Rightarrow> comp"
  nextComp :: nat

definition updNode :: "nat \<Rightarrow> (simNode \<Rightarrow> simNode) \<Rightarrow> store \<Rightarrow> store" where
  "updNode p f H = H\<lparr>nodeAt := (nodeAt H)(p := f (nodeAt H p))\<rparr>"

definition setComp :: "nat \<Rightarrow> comp \<Rightarrow> store \<Rightarrow> store" where
  "setComp p c H = H\<lparr>compAt := (compAt H)(p := c)\<rparr>"

definition newNode :: "simNode \<Rightarrow> store \<Rightarrow> nat \<times> store" where
  "newNode n H = (nextNode H, H\<lparr>nodeAt := (nodeAt H)(nextNode H := n), nextNode := nextNode H + 1\<rparr>)"

definition newComp :: "comp \<Rightarrow> store \<Rightarrow> nat \<times> store" where
  "newComp c H = (nextComp H, H\<lparr>compAt := (compAt H)(nextComp H := c), nextComp := nextComp H + 1\<rparr>)"

lemma store_simps [simp]:
  "nodeAt (updNode p f H) = (nodeAt H)(p := f (nodeAt H p))" "compAt (updNode p f H) = compAt H"
  "nextNode (updNode p f H) = nextNode H" "nextComp (updNode p f H) = nextComp H"
  "compAt (setComp q c H) = (compAt H)(q := c)" "nodeAt (setComp q c H) = nodeAt H"
  "nextNode (setComp q c H) = nextNode H" "nextComp (setComp q c H) = nextComp H"
  by (simp_all add: updNode_def setComp_def)

section \<open>Power components\<close>

definition mkPowerComp :: "var_type \<Rightarrow> string \<Rightarrow> string \<Rightarrow> string \<Rightarrow> PhaseType \<Rightarrow> comp" where
  "mkPowerComp v uid name ty ph =
     \<lparr>compUID = uid, compName = name, compType = ty, compKind = PowerComponent v, genPower = None,
      compPhase = ph, mNumTerminals = 0, mTerminals = [], mNumVirtualNodes = 0, mVirtualNodes = [],
      compFrequencies = mkmat 0 0 (\<lambda>_ _. 0), compNumFreqs = 0, mMatrixNodeIndices = [],
      mMatrixNodeIndexIsGround = [], mIntfVoltage = zeroVar v 0 0, mIntfCurrent = zeroVar v 0 0\<rparr>"


definition setNode :: "store \<Rightarrow> nat \<Rightarrow> terminal \<Rightarrow> terminal" where
  "setNode H p t = setPhaseType (nodePhase (nodeAt H p)) (t\<lparr>termNode := Some p\<rparr>)"

definition termInitialVoltage :: "store \<Rightarrow> terminal \<Rightarrow> error + complex matrix" where
  "termInitialVoltage H t = (case termNode t of None \<Rightarrow> throw UndefinedBehaviour | Some p \<Rightarrow>
     let M = mInitialVoltage (nodeAt H p) in
     ok (if termPhase t = PhaseSingle \<or> termPhase t = PhaseDC \<or> termPhase t = PhaseA
         then mkmat 1 1 (\<lambda>i j. ent M i j)
         else if termPhase t = PhaseB then mkmat 1 1 (\<lambda>i j. ent M (1 + i) j)
         else if termPhase t = PhaseC then mkmat 1 1 (\<lambda>i j. ent M (2 + i) j)
         else M))"

definition termInitialSingleVoltage :: "store \<Rightarrow> terminal \<Rightarrow> error + complex" where
  "termInitialSingleVoltage H t = (case termNode t of None \<Rightarrow> throw UndefinedBehaviour
     | Some p \<Rightarrow> ok (initialSingleVoltage (nodeAt H p) (termPhase t)))"

definition termMatrixNodeIndex :: "store \<Rightarrow> terminal \<Rightarrow> error + nat" where
  "termMatrixNodeIndex H t = (case termNode t of None \<Rightarrow> throw UndefinedBehaviour
     | Some p \<Rightarrow> matrixNodeIndex (nodeAt H p) (termPhase t))"

definition termMatrixNodeIndices :: "store \<Rightarrow> terminal \<Rightarrow> error + nat list" where
  "termMatrixNodeIndices H t = (case termNode t of None \<Rightarrow> throw UndefinedBehaviour
     | Some p \<Rightarrow> matrixNodeIndices (nodeAt H p))"

definition termSingleVoltage :: "store \<Rightarrow> terminal \<Rightarrow> error + complex" where
  "termSingleVoltage H t = (case termNode t of None \<Rightarrow> throw UndefinedBehaviour
     | Some p \<Rightarrow> ok (if isGround (nodeAt H p) then 0 else singleVoltage (nodeAt H p) (termPhase t)))"

text \<open>\<open>node(index)\<close>: the exception of the bounds test, then the terminal is dereferenced;
  the node pointer may be null.\<close>

definition compNode :: "comp \<Rightarrow> nat \<Rightarrow> error + nat option" where
  "compNode c index =
     (if length (mTerminals c) \<le> index then throw SystemError
      else case mTerminals c ! index of None \<Rightarrow> throw UndefinedBehaviour | Some t \<Rightarrow> ok (termNode t))"

text \<open>\<open>node(index)->\<close>: the node pointer is dereferenced too.\<close>

definition compNodeRef :: "comp \<Rightarrow> nat \<Rightarrow> error + nat" where
  "compNodeRef c index = bind_err (compNode c index)
     (\<lambda>n. case n of None \<Rightarrow> throw UndefinedBehaviour | Some p \<Rightarrow> ok p)"

definition compMatrixNodeIndex :: "comp \<Rightarrow> nat \<Rightarrow> nat \<Rightarrow> error + nat" where
  "compMatrixNodeIndex c nodeIndex phaseIndex = vec_at (mMatrixNodeIndices c) (nodeIndex * 3 + phaseIndex)"

definition compMatrixNodeIndices :: "store \<Rightarrow> comp \<Rightarrow> nat \<Rightarrow> error + nat list" where
  "compMatrixNodeIndices H c index =
     bind_err (compNodeRef c index) (\<lambda>p. matrixNodeIndices (nodeAt H p))"

definition virtualNodesNumber :: "comp \<Rightarrow> nat" where "virtualNodesNumber c = mNumVirtualNodes c"
definition hasVirtualNodes :: "comp \<Rightarrow> bool" where "hasVirtualNodes c \<longleftrightarrow> mNumVirtualNodes c > 0"

definition virtualNode :: "comp \<Rightarrow> nat \<Rightarrow> error + nat option" where
  "virtualNode c index =
     (if length (mVirtualNodes c) \<le> index then throw SystemError else ok (mVirtualNodes c ! index))"

definition virtualMatrixNodeIndices :: "store \<Rightarrow> comp \<Rightarrow> nat \<Rightarrow> error + nat list" where
  "virtualMatrixNodeIndices H c index = bind_err (virtualNode c index)
     (\<lambda>n. case n of None \<Rightarrow> throw UndefinedBehaviour | Some p \<Rightarrow> matrixNodeIndices (nodeAt H p))"

definition virtualSimNode :: "store \<Rightarrow> comp \<Rightarrow> nat \<Rightarrow> nat \<Rightarrow> error + nat" where
  "virtualSimNode H c nodeIndex phaseIndex =
     bind_err (virtualMatrixNodeIndices H c nodeIndex) (\<lambda>v. vec_at v phaseIndex)"

definition compTerminal :: "comp \<Rightarrow> nat \<Rightarrow> error + terminal option" where
  "compTerminal c index =
     (if length (mTerminals c) \<le> index then throw SystemError else ok (mTerminals c ! index))"

definition compInitialVoltage :: "store \<Rightarrow> comp \<Rightarrow> nat \<Rightarrow> error + complex matrix" where
  "compInitialVoltage H c index = bind_err (vec_at (mTerminals c) index)
     (\<lambda>t. case t of None \<Rightarrow> throw UndefinedBehaviour | Some t \<Rightarrow> termInitialVoltage H t)"

definition compInitialSingleVoltage :: "store \<Rightarrow> comp \<Rightarrow> nat \<Rightarrow> error + complex" where
  "compInitialSingleVoltage H c index = bind_err (vec_at (mTerminals c) index)
     (\<lambda>t. case t of None \<Rightarrow> throw UndefinedBehaviour | Some t \<Rightarrow> termInitialSingleVoltage H t)"

definition terminalNotGrounded :: "comp \<Rightarrow> nat \<Rightarrow> error + bool" where
  "terminalNotGrounded c index = bind_err (vec_at (mMatrixNodeIndexIsGround c) index) (\<lambda>b. ok (\<not> b))"

definition setIntfCurrent :: "varmat \<Rightarrow> comp \<Rightarrow> comp" where "setIntfCurrent m c = c\<lparr>mIntfCurrent := m\<rparr>"
definition setIntfVoltage :: "varmat \<Rightarrow> comp \<Rightarrow> comp" where "setIntfVoltage m c = c\<lparr>mIntfVoltage := m\<rparr>"

definition terminalNumberConnected :: "comp \<Rightarrow> nat" where
  "terminalNumberConnected c = mNumTerminals c - count_list (mTerminals c) None"

definition hasUnconnectedTerminals :: "comp \<Rightarrow> bool" where
  "hasUnconnectedTerminals c \<longleftrightarrow> count_list (mTerminals c) None > 0"

definition checkForUnconnectedTerminals :: "comp \<Rightarrow> error + unit" where
  "checkForUnconnectedTerminals c = (if hasUnconnectedTerminals c then throw SystemError else ok ())"

definition nodeNumber :: "comp \<Rightarrow> nat" where
  "nodeNumber c = count_list (mTerminals c) None"

definition topologicalTerminals :: "comp \<Rightarrow> terminal option list" where
  "topologicalTerminals c = mTerminals c"

definition topologicalNodes :: "comp \<Rightarrow> nat option list" where
  "topologicalNodes c = concat (map (\<lambda>t. case t of None \<Rightarrow> [] | Some t \<Rightarrow> [termNode t]) (mTerminals c))"

definition setTerminalNumber :: "nat \<Rightarrow> comp \<Rightarrow> comp" where
  "setTerminalNumber num c = c\<lparr>mNumTerminals := num,
     mTerminals := resizeVec num None (mTerminals c),
     mMatrixNodeIndices := resizeVec (3 * num) 0 (mMatrixNodeIndices c),
     mMatrixNodeIndexIsGround := resizeVec num False (mMatrixNodeIndexIsGround c)\<rparr>"

definition setTerminals :: "terminal option list \<Rightarrow> comp \<Rightarrow> comp" where
  "setTerminals ts c = (if mNumTerminals c < length ts then c else c\<lparr>mTerminals := ts\<rparr>)"

definition setTerminalAt :: "terminal option \<Rightarrow> nat \<Rightarrow> comp \<Rightarrow> error + comp" where
  "setTerminalAt t pos c =
     (if mNumTerminals c \<le> pos then ok c
      else bind_err (vec_set (mTerminals c) pos t) (\<lambda>ts. ok (c\<lparr>mTerminals := ts\<rparr>)))"

definition updateIndexAt :: "store \<Rightarrow> nat \<Rightarrow> comp \<Rightarrow> error + comp" where
  "updateIndexAt H i c =
     bind_err (compNodeRef c i) (\<lambda>p. let n = nodeAt H p in
     bind_err (matrixNodeIndex n PhaseA) (\<lambda>a.
     bind_err (vec_set (mMatrixNodeIndices c) (3 * i) a) (\<lambda>v1.
     bind_err (matrixNodeIndex n PhaseB) (\<lambda>b.
     bind_err (vec_set v1 (3 * i + 1) b) (\<lambda>v2.
     bind_err (matrixNodeIndex n PhaseC) (\<lambda>d.
     bind_err (vec_set v2 (3 * i + 2) d) (\<lambda>v3.
     bind_err (vec_set (mMatrixNodeIndexIsGround c) i (isGround n)) (\<lambda>g.
       ok (c\<lparr>mMatrixNodeIndices := v3, mMatrixNodeIndexIsGround := g\<rparr>)))))))))"

primrec updateIndices :: "store \<Rightarrow> nat list \<Rightarrow> comp \<Rightarrow> error + comp" where
  "updateIndices H [] c = ok c"
| "updateIndices H (i # is) c = bind_err (updateIndexAt H i c) (updateIndices H is)"

definition updateMatrixNodeIndices :: "store \<Rightarrow> comp \<Rightarrow> error + comp" where
  "updateMatrixNodeIndices H c = updateIndices H [0..<mNumTerminals c] c"

primrec connectFrom :: "store \<Rightarrow> nat \<Rightarrow> nat option list \<Rightarrow> comp \<Rightarrow> error + comp" where
  "connectFrom H i [] c = ok c"
| "connectFrom H i (n # ns) c = (case n of None \<Rightarrow> throw SystemError | Some p \<Rightarrow>
     bind_err (setTerminalAt (Some (setNode H p (mkTerminal (compName c @ ''_T'' @ to_string i)))) i c)
       (connectFrom H (i + 1) ns))"

definition connect :: "store \<Rightarrow> nat option list \<Rightarrow> comp \<Rightarrow> error + comp" where
  "connect H ns c = (if mNumTerminals c < length ns then ok c else connectFrom H 0 ns c)"

definition setVirtualNodeAt :: "nat option \<Rightarrow> nat \<Rightarrow> comp \<Rightarrow> error + comp" where
  "setVirtualNodeAt n num c = bind_err (vec_set (mVirtualNodes c) num n) (\<lambda>v. ok (c\<lparr>mVirtualNodes := v\<rparr>))"

primrec makeVirtualNodes :: "var_type \<Rightarrow> nat list \<Rightarrow> store \<times> comp \<Rightarrow> error + store \<times> comp" where
  "makeVirtualNodes v [] st = ok st"
| "makeVirtualNodes v (i # is) st =
     (let (H, c) = st;
          (p, H') = newNode (namedNode v (compName c @ ''_vnode_'' @ to_string i) (compPhase c)) H
      in bind_err (setVirtualNodeAt (Some p) i c) (\<lambda>c'. makeVirtualNodes v is (H', c')))"

definition setVirtualNodeNumber :: "var_type \<Rightarrow> nat \<Rightarrow> store \<Rightarrow> comp \<Rightarrow> error + store \<times> comp" where
  "setVirtualNodeNumber v num H c =
     makeVirtualNodes v [0..<num]
       (H, c\<lparr>mNumVirtualNodes := num, mVirtualNodes := resizeVec num None (mVirtualNodes c)\<rparr>)"

primrec initializeVirtual :: "real matrix \<Rightarrow> nat option list \<Rightarrow> store \<Rightarrow> error + store" where
  "initializeVirtual freqs [] H = ok H"
| "initializeVirtual freqs (n # ns) H = (case n of None \<Rightarrow> throw UndefinedBehaviour
     | Some p \<Rightarrow> initializeVirtual freqs ns (updNode p (initializeNodeFreqs freqs) H))"

definition initializeComp :: "var_type \<Rightarrow> real matrix \<Rightarrow> nat \<Rightarrow> store \<Rightarrow> error + store" where
  "initializeComp v freqs p H =
     (let c = compAt H p;
          numFreqs = mrows freqs * mcols freqs;
          rows = (if compPhase c \<noteq> PhaseABC then 1 else 3);
          c' = c\<lparr>compFrequencies := freqs, compNumFreqs := numFreqs,
                 mIntfVoltage := zeroVar v rows numFreqs, mIntfCurrent := zeroVar v rows numFreqs\<rparr>
      in initializeVirtual freqs (mVirtualNodes c') (setComp p c' H))"

section \<open>Component invariant\<close>

text \<open>The three per-terminal vectors have the sizes \<open>setTerminalNumber\<close> gives them.\<close>

definition comp_ok :: "comp \<Rightarrow> bool" where
  "comp_ok c \<longleftrightarrow> length (mTerminals c) = mNumTerminals c
     \<and> length (mMatrixNodeIndices c) = 3 * mNumTerminals c
     \<and> length (mMatrixNodeIndexIsGround c) = mNumTerminals c"

lemma comp_ok_setTerminalNumber [inv_intros]: "comp_ok (setTerminalNumber n c)"
  by (simp add: comp_ok_def setTerminalNumber_def)

lemma comp_ok_setTerminalAt [inv_intros]:
  "comp_ok c \<Longrightarrow> setTerminalAt t pos c = Inr c' \<Longrightarrow> comp_ok c'"
  by (auto simp: comp_ok_def setTerminalAt_def split: if_splits)

lemma count_None_le: "count_list xs y \<le> length xs"
  by (induction xs) auto

text \<open>\<open>nodeNumber\<close>, documented as the number of connected terminals, counts the others.\<close>

lemma nodeNumber_unconnected:
  "comp_ok c \<Longrightarrow> nodeNumber c + terminalNumberConnected c = mNumTerminals c"
  using count_None_le [of "mTerminals c" None] by (simp add: comp_ok_def nodeNumber_def terminalNumberConnected_def)

section \<open>Connecting\<close>

abbreviation connTerm :: "store \<Rightarrow> comp \<Rightarrow> nat \<Rightarrow> nat \<Rightarrow> terminal" where
  "connTerm H c i p \<equiv> setNode H p (mkTerminal (compName c @ ''_T'' @ to_string i))"

lemma termNode_setNode [simp]: "termNode (setNode H p t) = Some p"
  by (simp add: setNode_def setPhaseType_def)

lemma connectFrom_spec:
  assumes "i + length ns \<le> mNumTerminals c" "length (mTerminals c) = mNumTerminals c"
  shows "case connectFrom H i ns c of
      Inl e \<Rightarrow> e = SystemError \<and> None \<in> set ns
    | Inr c' \<Rightarrow> None \<notin> set ns \<and> (\<exists>ts. c' = c\<lparr>mTerminals := ts\<rparr> \<and> length ts = length (mTerminals c)
        \<and> (\<forall>j. ts ! j = (if i \<le> j \<and> j < i + length ns then Some (connTerm H c j (the (ns ! (j - i))))
                         else mTerminals c ! j)))"
  using assms
proof (induction ns arbitrary: i c)
  case Nil
  show ?case by (auto intro!: exI [of _ "mTerminals c"])
next
  case (Cons n ns)
  show ?case
  proof (cases n)
    case (Some p)
    define c1 where "c1 = c\<lparr>mTerminals := (mTerminals c)[i := Some (connTerm H c i p)]\<rparr>"
    have step: "connectFrom H i (n # ns) c = connectFrom H (i + 1) ns c1"
      using Cons.prems Some by (simp add: setTerminalAt_def vec_set_def c1_def)
    have IH: "case connectFrom H (i + 1) ns c1 of
      Inl e \<Rightarrow> e = SystemError \<and> None \<in> set ns
    | Inr c' \<Rightarrow> None \<notin> set ns \<and> (\<exists>ts. c' = c1\<lparr>mTerminals := ts\<rparr> \<and> length ts = length (mTerminals c1)
        \<and> (\<forall>j. ts ! j = (if i + 1 \<le> j \<and> j < i + 1 + length ns
             then Some (connTerm H c1 j (the (ns ! (j - (i + 1))))) else mTerminals c1 ! j)))"
      using Cons.prems by (intro Cons.IH) (simp_all add: c1_def)
    show ?thesis
    proof (cases "connectFrom H (i + 1) ns c1")
      case (Inl e)
      have eq: "connectFrom H i (n # ns) c = Inl e" unfolding step by (rule Inl)
      show ?thesis using IH unfolding eq Inl sum.case by simp
    next
      case (Inr c')
      then obtain ts where ts: "None \<notin> set ns" "c' = c1\<lparr>mTerminals := ts\<rparr>" "length ts = length (mTerminals c1)"
        "\<And>j. ts ! j = (if i + 1 \<le> j \<and> j < i + 1 + length ns
             then Some (connTerm H c1 j (the (ns ! (j - (i + 1))))) else mTerminals c1 ! j)"
        using IH by auto
      have c': "c' = c\<lparr>mTerminals := ts\<rparr>" "length ts = length (mTerminals c)" using ts by (simp_all add: c1_def)
      have at: "ts ! j = (if i \<le> j \<and> j < i + length (n # ns)
          then Some (connTerm H c j (the ((n # ns) ! (j - i)))) else mTerminals c ! j)" for j
      proof (cases "j = i")
        case True
        then show ?thesis using ts(4) [of j] Cons.prems Some by (simp add: c1_def)
      next
        case False
        then show ?thesis using ts(4) [of j]
          by (cases "i \<le> j") (auto simp: c1_def nth_Cons' Suc_le_eq)
      qed
      have eq: "connectFrom H i (n # ns) c = Inr c'" unfolding step by (rule Inr)
      have "None \<notin> set (n # ns)" using ts(1) Some by simp
      then show ?thesis unfolding eq sum.case using c' at by blast
    qed
  qed simp
qed

text \<open>Connecting a component: too many nodes leave it as it is, a null node is a
  \<open>SystemError\<close>, and otherwise the first terminals lead to the given nodes in order, in the
  phases of these nodes, and the remaining terminals are as before.\<close>

theorem connect_spec:
  assumes "comp_ok c"
  shows "case connect H ns c of
      Inl e \<Rightarrow> e = SystemError \<and> None \<in> set ns \<and> length ns \<le> mNumTerminals c
    | Inr c' \<Rightarrow> comp_ok c' \<and> (if mNumTerminals c < length ns then c' = c else
        None \<notin> set ns
        \<and> (\<forall>i<length ns. compNode c' i = ok (ns ! i)
             \<and> (\<exists>t. mTerminals c' ! i = Some t \<and> termPhase t = nodePhase (nodeAt H (the (ns ! i)))))
        \<and> (\<forall>i. length ns \<le> i \<longrightarrow> mTerminals c' ! i = mTerminals c ! i))"
proof (cases "mNumTerminals c < length ns")
  case True
  then show ?thesis using assms by (simp add: connect_def)
next
  case False
  then have "case connectFrom H 0 ns c of
      Inl e \<Rightarrow> e = SystemError \<and> None \<in> set ns
    | Inr c' \<Rightarrow> None \<notin> set ns \<and> (\<exists>ts. c' = c\<lparr>mTerminals := ts\<rparr> \<and> length ts = length (mTerminals c)
        \<and> (\<forall>j. ts ! j = (if 0 \<le> j \<and> j < 0 + length ns then Some (connTerm H c j (the (ns ! (j - 0))))
                         else mTerminals c ! j)))"
    using assms by (intro connectFrom_spec) (simp_all add: comp_ok_def)
  moreover have "Some (the (ns ! i)) = ns ! i" if "None \<notin> set ns" "i < length ns" for i
  proof -
    have "ns ! i \<noteq> None" using that by (metis nth_mem)
    then show ?thesis by simp
  qed
  moreover have "\<exists>t. Some (setNode H p x) = Some t \<and> termPhase t = nodePhase (nodeAt H p)" for p x
    by (simp add: setNode_def setPhaseType_def)
  ultimately show ?thesis
    using False assms by (cases "connectFrom H 0 ns c") (auto simp: connect_def comp_ok_def compNode_def)
qed

abbreviation demo_comp :: comp where
  "demo_comp \<equiv> setTerminalNumber 2 (mkPowerComp ComplexVar ''r'' ''r'' ''Resistor'' PhaseSingle)"

abbreviation demo_store :: store where
  "demo_store \<equiv> \<lparr>nodeAt = (\<lambda>p. if p = 0 then groundNode ComplexVar PhaseSingle
                      else mkSimNode ComplexVar ''n'' ''n'' [p, 0, 0] PhaseSingle [0, 0, 0]),
     nextNode = 3, compAt = (\<lambda>_. demo_comp), nextComp = 1\<rparr>"

lemma demo_comp_ok: "comp_ok demo_comp"
  by (rule comp_ok_setTerminalNumber)

theorem connect_spec_witness:
  "\<exists>c'. connect demo_store [Some 1, Some 2] demo_comp = ok c' \<and> comp_ok c' \<and> compNode c' 1 = ok (Some 2)"
proof -
  have n: "mNumTerminals demo_comp = 2" by (simp add: setTerminalNumber_def)
  have ran: "\<exists>c'. connect demo_store [Some 1, Some 2] demo_comp = ok c'"
    by (simp add: connect_def n setTerminalAt_def vec_set_def)
      (simp add: setTerminalNumber_def mkPowerComp_def resizeVec_def)
  then obtain c' where c': "connect demo_store [Some 1, Some 2] demo_comp = ok c'" ..
  show ?thesis
    using connect_spec [OF demo_comp_ok, where H = demo_store and ns = "[Some 1, Some 2]"] c' n
    by (auto simp del: One_nat_def)
qed

section \<open>The cached matrix indices\<close>

definition cached :: "store \<Rightarrow> comp \<Rightarrow> comp \<Rightarrow> nat \<Rightarrow> bool" where
  "cached H c c' i \<longleftrightarrow> (\<exists>p. compNodeRef c i = ok p
     \<and> matrixNodeIndex (nodeAt H p) PhaseA = compMatrixNodeIndex c' i 0
     \<and> matrixNodeIndex (nodeAt H p) PhaseB = compMatrixNodeIndex c' i 1
     \<and> matrixNodeIndex (nodeAt H p) PhaseC = compMatrixNodeIndex c' i 2
     \<and> terminalNotGrounded c' i = ok (\<not> isGround (nodeAt H p)))"

definition cache_same :: "comp \<Rightarrow> comp \<Rightarrow> nat \<Rightarrow> bool" where
  "cache_same c c' k \<longleftrightarrow> compMatrixNodeIndex c' k 0 = compMatrixNodeIndex c k 0
     \<and> compMatrixNodeIndex c' k 1 = compMatrixNodeIndex c k 1
     \<and> compMatrixNodeIndex c' k 2 = compMatrixNodeIndex c k 2
     \<and> terminalNotGrounded c' k = terminalNotGrounded c k"

lemma updateIndexAt_spec:
  assumes "comp_ok c" "i < mNumTerminals c" "updateIndexAt H i c = ok c'"
  shows "comp_ok c'" "mNumTerminals c' = mNumTerminals c" "mTerminals c' = mTerminals c"
    "cached H c c' i" "k \<noteq> i \<Longrightarrow> cache_same c c' k"
proof -
  from assms(3) obtain p a b d where p: "compNodeRef c i = ok p"
    and m: "matrixNodeIndex (nodeAt H p) PhaseA = ok a" "matrixNodeIndex (nodeAt H p) PhaseB = ok b"
      "matrixNodeIndex (nodeAt H p) PhaseC = ok d"
    and c': "c' = c\<lparr>mMatrixNodeIndices := (mMatrixNodeIndices c)[3 * i := a, 3 * i + 1 := b, 3 * i + 2 := d],
                 mMatrixNodeIndexIsGround := (mMatrixNodeIndexIsGround c)[i := isGround (nodeAt H p)]\<rparr>"
    unfolding updateIndexAt_def Let_def by (auto simp del: One_nat_def)
  show "comp_ok c'" "mNumTerminals c' = mNumTerminals c" "mTerminals c' = mTerminals c"
    using assms(1) by (simp_all add: c' comp_ok_def)
  show "cached H c c' i"
    unfolding cached_def using p m assms(1,2)
    by (intro exI [of _ p])
      (simp add: c' compMatrixNodeIndex_def vec_at_def comp_ok_def terminalNotGrounded_def mult.commute nth_list_update)
  have ne: "k * 3 + x \<noteq> i * 3 + y" if "k \<noteq> i" "x < 3" "y < 3" for x y using that by presburger
  show "cache_same c c' k" if "k \<noteq> i"
    using that ne [OF that, of 0 0] ne [OF that, of 0 1] ne [OF that, of 0 2]
      ne [OF that, of 1 0] ne [OF that, of 1 1] ne [OF that, of 1 2]
      ne [OF that, of 2 0] ne [OF that, of 2 1] ne [OF that, of 2 2]
    by (simp add: cache_same_def c' compMatrixNodeIndex_def vec_at_def terminalNotGrounded_def mult.commute
        nth_list_update)
qed

lemma compNodeRef_cong: "mTerminals c' = mTerminals c \<Longrightarrow> compNodeRef c' i = compNodeRef c i"
  by (simp add: compNodeRef_def compNode_def)

lemma cached_cong:
  "cached H c c1 i \<Longrightarrow> cache_same c1 c2 i \<Longrightarrow> cached H c c2 i"
  unfolding cached_def cache_same_def by metis

lemma updateIndices_spec:
  assumes "comp_ok c" "set is \<subseteq> {..<mNumTerminals c}" "distinct is" "updateIndices H is c = ok c'"
  shows "comp_ok c' \<and> (\<forall>i\<in>set is. cached H c c' i) \<and> (\<forall>k. k \<notin> set is \<longrightarrow> cache_same c c' k)"
  using assms
proof (induction "is" arbitrary: c)
  case Nil
  then show ?case by (simp add: cache_same_def)
next
  case (Cons i "is")
  then obtain c1 where c1: "updateIndexAt H i c = ok c1" "updateIndices H is c1 = ok c'" by auto
  have i: "i < mNumTerminals c" using Cons.prems(2) by simp
  note sp = updateIndexAt_spec [OF Cons.prems(1) i c1(1)]
  have sub: "set is \<subseteq> {..<mNumTerminals c1}" "distinct is" "i \<notin> set is"
    using Cons.prems(2,3) sp(2) by simp_all
  have IH: "comp_ok c'" "\<And>j. j \<in> set is \<Longrightarrow> cached H c1 c' j" "\<And>k. k \<notin> set is \<Longrightarrow> cache_same c1 c' k"
    using Cons.IH [OF sp(1) sub(1,2) c1(2)] by blast+
  have move: "cached H c c' j" if "cached H c1 c' j" for j
    using that unfolding cached_def compNodeRef_cong [OF sp(3)] .
  have "cached H c c' j" if "j \<in> set (i # is)" for j
  proof (cases "j = i")
    case True
    show ?thesis unfolding True by (rule cached_cong [OF sp(4) IH(3) [OF sub(3)]])
  next
    case False
    then show ?thesis using that move [OF IH(2)] by simp
  qed
  moreover have "cache_same c c' k" if "k \<notin> set (i # is)" for k
  proof -
    have k: "k \<noteq> i" "k \<notin> set is" using that by simp_all
    show ?thesis using sp(5) [OF k(1)] IH(3) [OF k(2)] unfolding cache_same_def by (elim conjE) (intro conjI; erule (1) trans)
  qed
  ultimately show ?case using IH(1) by blast
qed

text \<open>C36. After \<open>updateMatrixNodeIndices\<close> the cached index of every terminal and phase is
  the index its node has in the system matrix, and the cached grounding flag is that of the
  node; a terminal that is missing or leads nowhere is an error.\<close>

theorem cached_indices:
  assumes "comp_ok c" "updateMatrixNodeIndices H c = ok c'" "i < mNumTerminals c"
  shows "\<exists>p. compNodeRef c i = ok p
     \<and> compMatrixNodeIndex c' i 0 = matrixNodeIndex (nodeAt H p) PhaseA
     \<and> compMatrixNodeIndex c' i 1 = matrixNodeIndex (nodeAt H p) PhaseB
     \<and> compMatrixNodeIndex c' i 2 = matrixNodeIndex (nodeAt H p) PhaseC
     \<and> terminalNotGrounded c' i = ok (\<not> isGround (nodeAt H p))"
proof -
  have "cached H c c' i"
    using updateIndices_spec [OF assms(1) _ _ assms(2) [unfolded updateMatrixNodeIndices_def]] assms(3)
    by (simp add: atLeast0LessThan)
  then show ?thesis unfolding cached_def by metis
qed

abbreviation demo_connected :: comp where
  "demo_connected \<equiv> demo_comp\<lparr>mTerminals := [Some (connTerm demo_store demo_comp 0 0),
     Some (connTerm demo_store demo_comp 1 2)]\<rparr>"

theorem cached_indices_witness:
  "\<exists>c'. updateMatrixNodeIndices demo_store demo_connected = ok c'
     \<and> compMatrixNodeIndex c' 1 0 = ok 2 \<and> terminalNotGrounded c' 1 = ok True \<and> terminalNotGrounded c' 0 = ok False"
proof -
  let ?c = demo_connected
  have n: "mNumTerminals ?c = 2" by (simp add: setTerminalNumber_def)
  have okc: "comp_ok ?c" by (simp add: comp_ok_def setTerminalNumber_def)
  have ref: "compNodeRef ?c 0 = ok 0" "compNodeRef ?c 1 = ok 2"
    by (simp_all add: compNodeRef_def compNode_def)
  have idx: "matrixNodeIndex (nodeAt demo_store 2) PhaseA = ok 2"
    "isGround (nodeAt demo_store 0)" "\<not> isGround (nodeAt demo_store 2)"
    by (simp_all add: matrixNodeIndex_def mkSimNode_def groundNode_def vec_at_def)
  have "\<exists>c'. updateMatrixNodeIndices demo_store ?c = ok c'"
    by (simp add: updateMatrixNodeIndices_def n upt_rec updateIndexAt_def compNodeRef_def compNode_def
        matrixNodeIndex_def mkSimNode_def groundNode_def vec_at_def vec_set_def)
      (simp add: setTerminalNumber_def mkPowerComp_def resizeVec_def vec_at_def vec_set_def)
  then obtain c' where c': "updateMatrixNodeIndices demo_store ?c = ok c'" ..
  show ?thesis
    using cached_indices [OF okc c', of 0] cached_indices [OF okc c', of 1] n ref idx c' by auto
qed

section \<open>Node voltages\<close>

lemma readFreqs_spec:
  assumes "readFreqs v fs n = ok n'" "nodeVar n = ComplexVar" "mVoltage n = ComplexM M"
  shows "\<exists>M'. n' = n\<lparr>mVoltage := ComplexM M'\<rparr> \<and> (\<forall>r f. ent M' r f =
     (if f \<in> set fs \<and> r < (if nodePhase n = PhaseABC then 3 else 1)
      then complexFromVectorElement v (mMatrixNodeIndex n ! r) (nodeNumFreqs n) f else ent M r f))"
  using assms
proof (induction fs arbitrary: n M)
  case Nil
  then show ?case by (auto intro!: exI [of _ M])
next
  case (Cons f fs)
  let ?x = "\<lambda>i. complexFromVectorElement v i (nodeNumFreqs n) f"
  define M1 where "M1 = (if nodePhase n = PhaseABC
     then setEnt (setEnt (setEnt M 0 f (?x (mMatrixNodeIndex n ! 0))) 1 f (?x (mMatrixNodeIndex n ! 1)))
            2 f (?x (mMatrixNodeIndex n ! 2))
     else setEnt M 0 f (?x (mMatrixNodeIndex n ! 0)))"
  obtain n1 where n1: "readPhases ?x f n = ok n1" "readFreqs v fs n1 = ok n'"
    using Cons.prems(1) by auto
  have n1_eq: "n1 = n\<lparr>mVoltage := ComplexM M1\<rparr>"
    using n1(1) Cons.prems(3)
    by (cases "nodePhase n = PhaseABC") (auto simp: readPhases_def varSet_def M1_def Let_def simp del: One_nat_def)
  have M1_at: "ent M1 r g = (if g = f \<and> r < (if nodePhase n = PhaseABC then 3 else 1)
      then ?x (mMatrixNodeIndex n ! r) else ent M r g)" for r g
  proof (cases "nodePhase n = PhaseABC")
    case True
    then have eq: "ent M1 r g = (if r = 2 \<and> g = f then ?x (mMatrixNodeIndex n ! 2)
        else if r = 1 \<and> g = f then ?x (mMatrixNodeIndex n ! 1)
        else if r = 0 \<and> g = f then ?x (mMatrixNodeIndex n ! 0) else ent M r g)"
      by (simp add: M1_def)
    consider "r = 0" | "r = 1" | "r = 2" | "3 \<le> r" by linarith
    then show ?thesis using True unfolding eq by cases simp_all
  next
    case False
    then show ?thesis by (simp add: M1_def)
  qed
  have n1': "nodeVar n1 = ComplexVar" "mVoltage n1 = ComplexM M1" using Cons.prems(2) by (simp_all add: n1_eq)
  obtain M' where M': "n' = n1\<lparr>mVoltage := ComplexM M'\<rparr>" "\<And>r g. ent M' r g =
     (if g \<in> set fs \<and> r < (if nodePhase n1 = PhaseABC then 3 else 1)
      then complexFromVectorElement v (mMatrixNodeIndex n1 ! r) (nodeNumFreqs n1) g else ent M1 r g)"
    using Cons.IH [OF n1(2) n1'] by blast
  have "n' = n\<lparr>mVoltage := ComplexM M'\<rparr>" using M'(1) n1_eq by simp
  moreover have "ent M' r g = (if g \<in> set (f # fs) \<and> r < (if nodePhase n = PhaseABC then 3 else 1)
      then complexFromVectorElement v (mMatrixNodeIndex n ! r) (nodeNumFreqs n) g else ent M r g)" for r g
    unfolding M'(2) [of r g] M1_at [of r g] n1_eq by simp
  ultimately show ?case by blast
qed

text \<open>C37. A phasor written into the solution vector at the matrix index of a phase of a
  node is what the node's voltage holds after the update, in the phase and harmonic it was
  written for; the other phases and harmonics hold what the vector had before.\<close>

theorem node_voltage_readback:
  assumes "nodeVar n = ComplexVar" "mVoltage n = ComplexM M" "F = nodeNumFreqs n"
    and "mrows v = 2 * k * F" "j < k" "f < F"
    and "\<forall>r < (if nodePhase n = PhaseABC then 3 else 1). mMatrixNodeIndex n ! r < k"
    and "mnaUpdateVoltage (setVectorElement v j u F f 0) n = ok n'"
    and "r < (if nodePhase n = PhaseABC then 3 else 1)" "g < F"
  shows "varEnt (mVoltage n') r g =
     (if mMatrixNodeIndex n ! r = j \<and> g = f then u
      else complexFromVectorElement v (mMatrixNodeIndex n ! r) F g)"
proof -
  let ?i = "mMatrixNodeIndex n ! r" and ?v = "setVectorElement v j u F f 0"
  have "varEnt (mVoltage n') r g = complexFromVectorElement ?v ?i F g"
    using readFreqs_spec [of ?v "[0..<nodeNumFreqs n]" n n' M] assms
    by (auto simp: mnaUpdateVoltage_def varEnt_def)
  moreover have "complexFromVectorElement ?v ?i F g =
      (if ?i = j \<and> g = f then u else complexFromVectorElement v ?i F g)"
    using assms(6,7,9) by (intro complexFrom_set [OF assms(4)] assms(5)) auto
  ultimately show ?thesis by simp
qed

theorem node_voltage_readback_witness:
  "\<exists>n'. mnaUpdateVoltage (setVectorElement (mkmat 2 1 (\<lambda>_ _. 0)) 0 \<i> 1 0 0)
      (initializeNodeFreqs (mkmat 1 1 (\<lambda>_ _. 50)) (namedNode ComplexVar ''n'' PhaseSingle)) = ok n'
    \<and> varEnt (mVoltage n') 0 0 = \<i>"
proof -
  let ?n = "initializeNodeFreqs (mkmat 1 1 (\<lambda>_ _. 50)) (namedNode ComplexVar ''n'' PhaseSingle)"
  let ?v = "mkmat 2 1 (\<lambda>_ _. 0)"
  have n: "nodeVar ?n = ComplexVar" "mVoltage ?n = ComplexM (mkmat 1 1 (\<lambda>_ _. 0))" "nodeNumFreqs ?n = 1"
    "nodePhase ?n = PhaseSingle" "mMatrixNodeIndex ?n = [0]"
    by (simp_all add: initializeNodeFreqs_def namedNode_def mkSimNode_def zeroVar_def)
  have "\<exists>n'. mnaUpdateVoltage (setVectorElement ?v 0 \<i> 1 0 0) ?n = ok n'"
    unfolding mnaUpdateVoltage_def n by (simp add: readPhases_def vec_at_def initializeNodeFreqs_def namedNode_def mkSimNode_def)
  then obtain n' where n': "mnaUpdateVoltage (setVectorElement ?v 0 \<i> 1 0 0) ?n = ok n'" ..
  have "varEnt (mVoltage n') 0 0 = (if mMatrixNodeIndex ?n ! 0 = 0 \<and> (0 :: nat) = 0 then \<i>
      else complexFromVectorElement ?v (mMatrixNodeIndex ?n ! 0) 1 0)"
    by (rule node_voltage_readback [where k = 1 and n = ?n]) (use n n' in simp_all)
  then show ?thesis using n' n(5) by simp
qed

end
