(* ===== verification/Topology.thy ===== *)
theory Topology
  imports Components
begin

text \<open>dpsim-models/src/SystemTopology.cpp: the network a simulation is built from.  Its
  lists hold pointers into the store of theory Components; only the node list can hold null
  pointers (\<open>addNodeAt\<close> grows it with them).  \<open>std::dynamic_pointer_cast\<close> is a test of the
  kind of the object.\<close>

record topology =
  mFrequencies :: "real matrix"
  mNodes :: "nat option list"
  mComponents :: "nat list"
  mTearComponents :: "nat list"
  mComponentsAtNode :: "(nat option, nat) multimap"
  mSystemFrequency :: real

section \<open>Casts\<close>

definition castNode :: "var_type \<Rightarrow> store \<Rightarrow> nat option \<Rightarrow> nat option" where
  "castNode v H p = (case p of None \<Rightarrow> None | Some q \<Rightarrow> if nodeVar (nodeAt H q) = v then Some q else None)"

definition castPower :: "var_type \<Rightarrow> store \<Rightarrow> nat \<Rightarrow> nat option" where
  "castPower v H p = (if compKind (compAt H p) = PowerComponent v then Some p else None)"

definition isPower :: "store \<Rightarrow> nat \<Rightarrow> bool" where
  "isPower H p \<longleftrightarrow> compKind (compAt H p) \<noteq> SignalComponent"

section \<open>Building a topology\<close>

definition initFrequency :: "real \<Rightarrow> real matrix" where
  "initFrequency f = mkmat 1 1 (\<lambda>_ _. f)"

definition emptyTopology :: "real \<Rightarrow> topology" where
  "emptyTopology f = \<lparr>mFrequencies = initFrequency f, mNodes = [], mComponents = [],
     mTearComponents = [], mComponentsAtNode = [], mSystemFrequency = f\<rparr>"

definition initNode :: "real matrix \<Rightarrow> nat option \<Rightarrow> store \<Rightarrow> store" where
  "initNode freqs p H =
     (let H1 = (case castNode ComplexVar H p of None \<Rightarrow> H | Some q \<Rightarrow> updNode q (initializeNodeFreqs freqs) H)
      in (case castNode RealVar H1 p of None \<Rightarrow> H1 | Some q \<Rightarrow> updNode q (initializeNodeFreqs freqs) H1))"

definition addNode :: "nat option \<Rightarrow> store \<times> topology \<Rightarrow> store \<times> topology" where
  "addNode p st = (let (H, T) = st in (initNode (mFrequencies T) p H, T\<lparr>mNodes := mNodes T @ [p]\<rparr>))"

text \<open>\<open>capacity\<close> is that of the node vector: at least its size, otherwise up to the
  library.\<close>

definition addNodeAt ::
  "nat \<Rightarrow> nat option \<Rightarrow> nat \<Rightarrow> store \<times> topology \<Rightarrow> error + store \<times> topology" where
  "addNodeAt capacity p index st =
     (let (H, T) = st;
          ns = (if capacity < index then resizeVec (index + 1) None (mNodes T) else mNodes T)
      in bind_err (vec_set ns index p) (\<lambda>ns. ok (initNode (mFrequencies T) p H, T\<lparr>mNodes := ns\<rparr>)))"

definition addNodes :: "nat option list \<Rightarrow> store \<times> topology \<Rightarrow> store \<times> topology" where
  "addNodes ps st = fold addNode ps st"

definition initComponent :: "real matrix \<Rightarrow> nat \<Rightarrow> store \<Rightarrow> error + store" where
  "initComponent freqs p H =
     bind_err (case castPower ComplexVar H p of None \<Rightarrow> ok H | Some q \<Rightarrow> initializeComp ComplexVar freqs q H)
       (\<lambda>H1. case castPower RealVar H1 p of None \<Rightarrow> ok H1 | Some q \<Rightarrow> initializeComp RealVar freqs q H1)"

definition addComponent :: "nat \<Rightarrow> store \<times> topology \<Rightarrow> error + store \<times> topology" where
  "addComponent p st = (let (H, T) = st in
     bind_err (initComponent (mFrequencies T) p H) (\<lambda>H. ok (H, T\<lparr>mComponents := mComponents T @ [p]\<rparr>)))"

primrec addComponents :: "nat list \<Rightarrow> store \<times> topology \<Rightarrow> error + store \<times> topology" where
  "addComponents [] st = ok st"
| "addComponents (p # ps) st = bind_err (addComponent p st) (addComponents ps)"

definition addTearComponent :: "nat \<Rightarrow> store \<times> topology \<Rightarrow> error + store \<times> topology" where
  "addTearComponent p st = (let (H, T) = st in
     bind_err (initComponent (mFrequencies T) p H) (\<lambda>H. ok (H, T\<lparr>mTearComponents := mTearComponents T @ [p]\<rparr>)))"

primrec addTearComponents :: "nat list \<Rightarrow> store \<times> topology \<Rightarrow> error + store \<times> topology" where
  "addTearComponents [] st = ok st"
| "addTearComponents (p # ps) st = bind_err (addTearComponent p st) (addTearComponents ps)"

definition connectComponentToNodes ::
  "nat \<Rightarrow> nat option list \<Rightarrow> store \<times> topology \<Rightarrow> error + store \<times> topology" where
  "connectComponentToNodes p ns st = (let (H, T) = st in
     bind_err (connect H ns (compAt H p)) (\<lambda>c. ok (setComp p c H,
       T\<lparr>mComponentsAtNode := fold (\<lambda>n m. edges_push m n p) ns (mComponentsAtNode T)\<rparr>)))"

definition componentsAtNodeList :: "store \<Rightarrow> topology \<Rightarrow> topology" where
  "componentsAtNodeList H T = T\<lparr>mComponentsAtNode :=
     fold (\<lambda>p m. if isPower H p then fold (\<lambda>n m. edges_push m n p) (topologicalNodes (compAt H p)) m else m)
       (mComponents T) []\<rparr>"

definition systemTopology ::
  "real \<Rightarrow> real matrix \<Rightarrow> nat option list \<Rightarrow> nat list \<Rightarrow> store \<Rightarrow> error + store \<times> topology" where
  "systemTopology f freqs ns cs H =
     bind_err (addComponents cs (addNodes ns (H, (emptyTopology f)\<lparr>mFrequencies := freqs\<rparr>)))
       (\<lambda>(H, T). ok (H, componentsAtNodeList H T))"

section \<open>Lookup\<close>

definition nodeAtIndex :: "var_type option \<Rightarrow> store \<Rightarrow> topology \<Rightarrow> nat \<Rightarrow> nat option" where
  "nodeAtIndex ty H T index =
     (if index < length (mNodes T)
      then (case ty of None \<Rightarrow> mNodes T ! index | Some v \<Rightarrow> castNode v H (mNodes T ! index))
      else None)"

primrec findNode :: "var_type option \<Rightarrow> store \<Rightarrow> string \<Rightarrow> nat option list \<Rightarrow> error + nat option" where
  "findNode ty H name [] = ok None"
| "findNode ty H name (p # ps) = (case p of None \<Rightarrow> throw UndefinedBehaviour | Some q \<Rightarrow>
     if nodeName (nodeAt H q) = name
     then ok (case ty of None \<Rightarrow> p | Some v \<Rightarrow> castNode v H p)
     else findNode ty H name ps)"

definition nodeByName :: "var_type option \<Rightarrow> store \<Rightarrow> topology \<Rightarrow> string \<Rightarrow> error + nat option" where
  "nodeByName ty H T name = findNode ty H name (mNodes T)"

primrec findComp :: "var_type \<Rightarrow> store \<Rightarrow> string \<Rightarrow> nat list \<Rightarrow> nat option" where
  "findComp v H name [] = None"
| "findComp v H name (p # ps) =
     (if compName (compAt H p) = name then castPower v H p else findComp v H name ps)"

definition component :: "var_type \<Rightarrow> store \<Rightarrow> topology \<Rightarrow> string \<Rightarrow> nat option" where
  "component v H T name = findComp v H name (mComponents T)"

text \<open>\<open>nodeType\<close> stands for the demangled class name of a node.\<close>

primrec listNodes :: "(simNode \<Rightarrow> string) \<Rightarrow> store \<Rightarrow> nat option list \<Rightarrow> (string \<rightharpoonup> string) \<Rightarrow> error + (string \<rightharpoonup> string)" where
  "listNodes nodeType H [] m = ok m"
| "listNodes nodeType H (p # ps) m = (case p of None \<Rightarrow> throw UndefinedBehaviour | Some q \<Rightarrow>
     listNodes nodeType H ps (m(nodeName (nodeAt H q) \<mapsto> nodeType (nodeAt H q))))"

definition listIdObjects :: "(simNode \<Rightarrow> string) \<Rightarrow> store \<Rightarrow> topology \<Rightarrow> error + (string \<rightharpoonup> string)" where
  "listIdObjects nodeType H T = bind_err (listNodes nodeType H (mNodes T) Map.empty)
     (\<lambda>m. ok (fold (\<lambda>p m. m(compName (compAt H p) \<mapsto> compType (compAt H p))) (mComponents T) m))"

section \<open>Power flow results\<close>

datatype Domain = SP | DP | EMT

primrec initVoltages :: "topology \<Rightarrow> nat option list \<Rightarrow> store \<Rightarrow> error + store" where
  "initVoltages T [] H = ok H"
| "initVoltages T (p # ps) H = (case p of None \<Rightarrow> throw UndefinedBehaviour | Some pf \<Rightarrow>
     bind_err (nodeByName None H T (nodeName (nodeAt H pf))) (\<lambda>n. case n of
       None \<Rightarrow> initVoltages T ps H
     | Some q \<Rightarrow> (case castNode ComplexVar H p of
           None \<Rightarrow> throw UndefinedBehaviour
         | Some pf \<Rightarrow> initVoltages T ps
             (updNode q (setInitialVoltage (singleVoltage (nodeAt H pf) PhaseSingle)) H))))"

definition setFirstPower :: "complex \<Rightarrow> nat \<Rightarrow> store \<Rightarrow> error + store" where
  "setFirstPower s p H = (let c = compAt H p in
     bind_err (vec_at (mTerminals c) 0) (\<lambda>t. case t of None \<Rightarrow> throw UndefinedBehaviour | Some t \<Rightarrow>
       ok (setComp p (c\<lparr>mTerminals := (mTerminals c)[0 := Some (setTermPower s t)]\<rparr>) H)))"

primrec initPowers :: "topology \<Rightarrow> Domain \<Rightarrow> nat list \<Rightarrow> store \<Rightarrow> error + store" where
  "initPowers T domain [] H = ok H"
| "initPowers T domain (pf # ps) H = (case genPower (compAt H pf) of
       None \<Rightarrow> initPowers T domain ps H
     | Some s \<Rightarrow>
         (case component (if domain = EMT then RealVar else ComplexVar) H T (compName (compAt H pf)) of
            None \<Rightarrow> initPowers T domain ps H
          | Some q \<Rightarrow> bind_err (setFirstPower (- s) q H) (initPowers T domain ps)))"

definition initWithPowerflow :: "topology \<Rightarrow> topology \<Rightarrow> Domain \<Rightarrow> store \<Rightarrow> error + store" where
  "initWithPowerflow T systemPF domain H =
     bind_err (initVoltages T (mNodes systemPF) H) (initPowers T domain (mComponents systemPF))"

section \<open>Removing\<close>

definition removeComponent :: "store \<Rightarrow> string \<Rightarrow> topology \<Rightarrow> topology" where
  "removeComponent H name T =
     T\<lparr>mComponents := filter (\<lambda>p. compName (compAt H p) \<noteq> name) (mComponents T)\<rparr>"

definition isConnectedTo :: "store \<Rightarrow> nat \<Rightarrow> nat \<Rightarrow> bool" where
  "isConnectedTo H p n \<longleftrightarrow> isPower H p
     \<and> list_ex (\<lambda>t. case t of None \<Rightarrow> False | Some t \<Rightarrow> termNode t = Some n) (topologicalTerminals (compAt H p))"

definition removeComponentsConnectedTo :: "store \<Rightarrow> nat \<Rightarrow> topology \<Rightarrow> topology" where
  "removeComponentsConnectedTo H n T =
     (let removed = filter (\<lambda>p. isConnectedTo H p n) (mComponents T)
      in T\<lparr>mComponents := filter (\<lambda>p. \<not> isConnectedTo H p n) (mComponents T),
           mTearComponents := fold removeAll removed (mTearComponents T)\<rparr>)"

text \<open>The iterator loop: the nodes before the iterator are those kept.\<close>

primrec removeNodeLoop ::
  "store \<Rightarrow> string \<Rightarrow> nat option list \<Rightarrow> nat option list \<Rightarrow> topology \<Rightarrow> error + topology" where
  "removeNodeLoop H name kept [] T = ok (T\<lparr>mNodes := kept\<rparr>)"
| "removeNodeLoop H name kept (p # ps) T = (case p of None \<Rightarrow> throw UndefinedBehaviour | Some q \<Rightarrow>
     if nodeName (nodeAt H q) = name \<and> \<not> isGround (nodeAt H q)
     then removeNodeLoop H name kept ps (removeComponentsConnectedTo H q T)
     else removeNodeLoop H name (kept @ [p]) ps T)"

definition removeNode :: "store \<Rightarrow> string \<Rightarrow> topology \<Rightarrow> error + topology" where
  "removeNode H name T = removeNodeLoop H name [] (mNodes T) T"

section \<open>Copies of the network\<close>

text \<open>\<open>clone\<close> is the virtual method of the concrete component class, \<open>None\<close> its null
  result.\<close>

type_synonym clone_fun = "comp \<Rightarrow> string \<Rightarrow> comp option"

primrec copyNodes ::
  "var_type \<Rightarrow> string \<Rightarrow> nat option list \<Rightarrow> store \<times> (nat \<rightharpoonup> nat) \<times> nat option list
   \<Rightarrow> store \<times> (nat \<rightharpoonup> nat) \<times> nat option list" where
  "copyNodes v suffix [] st = st"
| "copyNodes v suffix (p # ps) st = (let (H, m, new) = st in
     copyNodes v suffix ps
       (case castNode v H p of
          None \<Rightarrow> (H, m, new)
        | Some q \<Rightarrow>
            if isGround (nodeAt H q) then (H, m(q \<mapsto> q), new)
            else (let (r, H') = newNode (cloneNode (nodeAt H q) (nodeName (nodeAt H q) @ suffix)) H
                  in (H', m(q \<mapsto> r), new @ [Some r]))))"

primrec mapTerminals :: "(nat \<rightharpoonup> nat) \<Rightarrow> comp \<Rightarrow> nat list \<Rightarrow> error + nat option list" where
  "mapTerminals m c [] = ok []"
| "mapTerminals m c (i # is) = bind_err (compNode c i) (\<lambda>n.
     bind_err (mapTerminals m c is) (\<lambda>ns. ok (Option.bind n m # ns)))"

primrec copyPowers :: "comp \<Rightarrow> nat list \<Rightarrow> comp \<Rightarrow> error + comp" where
  "copyPowers c [] d = ok d"
| "copyPowers c (i # is) d =
     bind_err (compTerminal c i) (\<lambda>t. bind_err (compTerminal d i) (\<lambda>u.
       case (t, u) of
         (Some t, Some u) \<Rightarrow>
            copyPowers c is (d\<lparr>mTerminals := (mTerminals d)[i := Some (setTermPowerMatrix (mPower t) u)]\<rparr>)
       | _ \<Rightarrow> throw UndefinedBehaviour))"

definition copyComp :: "clone_fun \<Rightarrow> string \<Rightarrow> (nat \<rightharpoonup> nat) \<Rightarrow> nat \<Rightarrow> store \<Rightarrow> error + nat \<times> store" where
  "copyComp clone suffix m p H =
     (let c = compAt H p in
      case clone c (compName c @ suffix) of
        None \<Rightarrow> throw SystemError
      | Some d \<Rightarrow>
          bind_err (mapTerminals m c [0..<mNumTerminals c]) (\<lambda>nodeCopies.
          bind_err (connect H nodeCopies d) (\<lambda>d.
          bind_err (copyPowers c [0..<mNumTerminals c] d) (\<lambda>d. ok (newComp d H)))))"

primrec copyComps ::
  "var_type \<Rightarrow> clone_fun \<Rightarrow> string \<Rightarrow> (nat \<rightharpoonup> nat) \<Rightarrow> nat list \<Rightarrow> store \<times> nat list \<Rightarrow> error + store \<times> nat list" where
  "copyComps v clone suffix m [] st = ok st"
| "copyComps v clone suffix m (p # ps) st = (let (H, new) = st in
     case castPower v H p of
       None \<Rightarrow> copyComps v clone suffix m ps st
     | Some q \<Rightarrow> bind_err (copyComp clone suffix m q H)
         (\<lambda>(d, H). copyComps v clone suffix m ps (H, new @ [d])))"

primrec copyNets ::
  "var_type \<Rightarrow> clone_fun \<Rightarrow> topology \<Rightarrow> nat list \<Rightarrow> store \<times> nat option list \<times> nat list
   \<Rightarrow> error + store \<times> nat option list \<times> nat list" where
  "copyNets v clone T [] st = ok st"
| "copyNets v clone T (k # ks) st = (let (H, newNodes, newComponents) = st;
     suffix = ''_'' @ to_string (k + 2);
     (H, m, newNodes) = copyNodes v suffix (mNodes T) (H, Map.empty, newNodes)
     in bind_err (copyComps v clone suffix m (mComponents T) (H, newComponents))
          (\<lambda>(H, newComponents). copyNets v clone T ks (H, newNodes, newComponents)))"

definition multiplyPowerComps ::
  "var_type \<Rightarrow> clone_fun \<Rightarrow> int \<Rightarrow> store \<times> topology \<Rightarrow> error + store \<times> topology" where
  "multiplyPowerComps v clone numberCopies st = (let (H, T) = st in
     bind_err (copyNets v clone T [0..<nat numberCopies] (H, [], []))
       (\<lambda>(H, newNodes, newComponents). addComponents newComponents (addNodes newNodes (H, T))))"

definition multiply :: "clone_fun \<Rightarrow> int \<Rightarrow> store \<times> topology \<Rightarrow> error + store \<times> topology" where
  "multiply clone numCopies st =
     bind_err (multiplyPowerComps RealVar clone numCopies st) (multiplyPowerComps ComplexVar clone numCopies)"

section \<open>Subnets\<close>

text \<open>The neighbour lists: one entry in each direction for every pair of terminals of a
  component that are both off ground.\<close>

definition neighbourPair :: "store \<Rightarrow> comp \<Rightarrow> nat \<times> nat \<Rightarrow> (nat, nat) multimap \<Rightarrow> error + (nat, nat) multimap" where
  "neighbourPair H c ij m =
     bind_err (compNode c (fst ij)) (\<lambda>n1. bind_err (compNode c (snd ij)) (\<lambda>n2.
       case (n1, n2) of
         (Some a, Some b) \<Rightarrow>
           ok (if isGround (nodeAt H a) \<or> isGround (nodeAt H b) then m
               else edges_push (edges_push m a b) b a)
       | _ \<Rightarrow> throw UndefinedBehaviour))"

primrec neighbourPairs :: "store \<Rightarrow> comp \<Rightarrow> (nat \<times> nat) list \<Rightarrow> (nat, nat) multimap \<Rightarrow> error + (nat, nat) multimap" where
  "neighbourPairs H c [] m = ok m"
| "neighbourPairs H c (ij # r) m = bind_err (neighbourPair H c ij m) (neighbourPairs H c r)"

definition pairsBelow :: "nat \<Rightarrow> (nat \<times> nat) list" where
  "pairsBelow n = concat (map (\<lambda>i. map (\<lambda>j. (i, j)) [0..<i]) [0..<n])"

primrec neighbourLists :: "var_type \<Rightarrow> store \<Rightarrow> nat list \<Rightarrow> (nat, nat) multimap \<Rightarrow> error + (nat, nat) multimap" where
  "neighbourLists v H [] m = ok m"
| "neighbourLists v H (p # ps) m = (case castPower v H p of
       None \<Rightarrow> neighbourLists v H ps m
     | Some q \<Rightarrow> let c = compAt H q in
         bind_err (neighbourPairs H c (pairsBelow (terminalNumberConnected c)) m) (neighbourLists v H ps))"

text \<open>The nodes a subnet is looked for: of the given kind and not ground.\<close>

definition netNodes :: "var_type \<Rightarrow> store \<Rightarrow> topology \<Rightarrow> nat list" where
  "netNodes v H T = concat (map (\<lambda>p. case castNode v H p of None \<Rightarrow> []
     | Some q \<Rightarrow> if isGround (nodeAt H q) then [] else [q]) (mNodes T))"

type_synonym subnets = "(nat \<times> nat) list"

text \<open>The inner loop takes the first node of \<open>nextSet\<close>, numbers it, and appends the
  neighbours without a number, as often as they occur.\<close>

definition unset :: "subnets \<Rightarrow> nat \<Rightarrow> bool" where
  "unset s n \<longleftrightarrow> map_of s n = None"

lemma unset_update [simp]: "unset (AList.update n k s) x \<longleftrightarrow> x \<noteq> n \<and> unset s x"
  by (simp add: unset_def update_conv')

lemma fill_decreases:
  fixes q :: "nat list"
  assumes q'_def: "q' = q @ filter (unset (AList.update n k s)) (edges_at m n)"
  shows "card {x \<in> set q' \<union> edges_vals m. unset (AList.update n k s) x}
           < card {x \<in> set (n # q) \<union> edges_vals m. unset s x}
     \<or> card {x \<in> set q' \<union> edges_vals m. unset (AList.update n k s) x}
           = card {x \<in> set (n # q) \<union> edges_vals m. unset s x}
       \<and> length (filter (\<lambda>x. \<not> unset (AList.update n k s) x) q') < length (filter (\<lambda>x. \<not> unset s x) (n # q))"
proof -
  let ?A = "{x \<in> set (n # q) \<union> edges_vals m. unset s x}"
  let ?B = "{x \<in> set q' \<union> edges_vals m. unset (AList.update n k s) x}"
  have sub: "?B \<subseteq> ?A - {n}" using edges_at_vals [of m n] by (auto simp: q'_def)
  have fin: "finite ?A" by simp
  show ?thesis
  proof (cases "unset s n")
    case True
    then have "n \<in> ?A" by simp
    then have "?B \<subset> ?A" using sub by blast
    then show ?thesis using psubset_card_mono [OF fin] by blast
  next
    case False
    then have eq: "unset (AList.update n k s) = unset s" by (auto simp: fun_eq_iff)
    have "card ?B \<le> card ?A" using sub by (intro card_mono fin) blast
    moreover have "length (filter (\<lambda>x. \<not> unset s x) q') = length (filter (\<lambda>x. \<not> unset s x) q)"
      by (simp add: q'_def eq)
    moreover have "length (filter (\<lambda>x. \<not> unset s x) (n # q)) = Suc (length (filter (\<lambda>x. \<not> unset s x) q))"
      using False by simp
    ultimately show ?thesis unfolding eq by linarith
  qed
qed

function fillNet :: "(nat, nat) multimap \<Rightarrow> nat \<Rightarrow> subnets \<Rightarrow> nat list \<Rightarrow> subnets" where
  "fillNet m net s [] = s"
| "fillNet m net s (n # q) =
     fillNet m net (AList.update n net s) (q @ filter (unset (AList.update n net s)) (edges_at m n))"
  by pat_completeness auto
termination
proof (relation "measures [\<lambda>(m, net, s, q). card {x \<in> set q \<union> edges_vals m. unset s x},
    \<lambda>(m, net, s, q). length (filter (\<lambda>x. \<not> unset s x) q)]", goal_cases)
  case (2 m net s n q)
  show ?case using fill_decreases [OF refl, of q n net s m] by (simp only: in_measures prod.case) blast
qed simp

text \<open>The outer loop starts a new subnet at the first node without a number.  It ends only
  when as many nodes are numbered as there are nodes; \<open>None\<close> stands for a loop that does not
  end.\<close>

partial_function (option) subnetLoop ::
  "(nat, nat) multimap \<Rightarrow> nat list \<Rightarrow> subnets \<Rightarrow> nat \<Rightarrow> (subnets \<times> nat) option" where
  "subnetLoop m ns s net =
     (if length s = length ns then Some (s, net)
      else subnetLoop m ns
             (fillNet m net s (case find (unset s) ns of None \<Rightarrow> [] | Some n \<Rightarrow> [n])) (net + 1))"

definition checkTopologySubnets ::
  "var_type \<Rightarrow> store \<Rightarrow> topology \<Rightarrow> subnets \<Rightarrow> (error + subnets \<times> nat) option" where
  "checkTopologySubnets v H T s = (case neighbourLists v H (mComponents T) [] of
       Inl e \<Rightarrow> Some (throw e)
     | Inr m \<Rightarrow> map_option ok (subnetLoop m (netNodes v H T) s 0))"

text \<open>Reading a number with operator[] creates the entry 0 for a missing node.\<close>

definition subnetOf :: "subnets \<Rightarrow> nat \<Rightarrow> nat" where
  "subnetOf s n = (case map_of s n of None \<Rightarrow> 0 | Some k \<Rightarrow> k)"

definition pushAt :: "nat \<Rightarrow> 'a \<Rightarrow> 'a list list \<Rightarrow> error + 'a list list" where
  "pushAt k x xss = bind_err (vec_at xss k) (\<lambda>xs. ok (xss[k := xs @ [x]]))"

primrec splitNodes :: "subnets \<Rightarrow> nat list \<Rightarrow> nat option list list \<Rightarrow> error + nat option list list" where
  "splitNodes s [] nodes = ok nodes"
| "splitNodes s (n # ns) nodes = bind_err (pushAt (subnetOf s n) (Some n) nodes) (splitNodes s ns)"

text \<open>The first terminal off ground decides the subnet; a component without one is left
  out.\<close>

primrec firstOffGround :: "store \<Rightarrow> comp \<Rightarrow> nat list \<Rightarrow> error + nat option" where
  "firstOffGround H c [] = ok None"
| "firstOffGround H c (i # is) = bind_err (compNodeRef c i)
     (\<lambda>n. if isGround (nodeAt H n) then firstOffGround H c is else ok (Some n))"

primrec splitComps ::
  "var_type \<Rightarrow> store \<Rightarrow> subnets \<Rightarrow> nat list \<Rightarrow> nat list list \<Rightarrow> error + nat list list" where
  "splitComps v H s [] comps = ok comps"
| "splitComps v H s (p # ps) comps = (case castPower v H p of
       None \<Rightarrow> bind_err (pushAt 0 p comps) (splitComps v H s ps)
     | Some q \<Rightarrow> bind_err (firstOffGround H (compAt H q) [0..<mNumTerminals (compAt H q)]) (\<lambda>n. case n of
           None \<Rightarrow> splitComps v H s ps comps
         | Some n \<Rightarrow> bind_err (pushAt (subnetOf s n) p comps) (splitComps v H s ps)))"

primrec splitSystems ::
  "real \<Rightarrow> (nat option list \<times> nat list) list \<Rightarrow> store \<times> topology list \<Rightarrow> error + store \<times> topology list" where
  "splitSystems f [] st = ok st"
| "splitSystems f (nc # r) st = (let (H, systems) = st in
     bind_err (systemTopology f (initFrequency f) (fst nc) (snd nc) H)
       (\<lambda>(H, T). splitSystems f r (H, systems @ [T])))"

definition splitSubnets ::
  "var_type \<Rightarrow> store \<Rightarrow> topology \<Rightarrow> topology list \<Rightarrow> (error + store \<times> topology list) option" where
  "splitSubnets v H T systems = map_option
     (\<lambda>r. bind_err r (\<lambda>(s, n).
        if n = 1 then ok (H, systems @ [T])
        else bind_err (splitNodes s (netNodes v H T) (replicate n []))
          (\<lambda>nodes. bind_err (splitComps v H s (mComponents T) (replicate n []))
          (\<lambda>comps. splitSystems (mSystemFrequency T) (zip nodes comps) (H, systems)))))
     (checkTopologySubnets v H T [])"

section \<open>Numbering the subnets\<close>

definition links :: "('a, 'a) multimap \<Rightarrow> ('a \<times> 'a) set" where
  "links m = {(a, b). b \<in> set (edges_at m a)}"

lemma fillNet_spec:
  assumes "\<forall>x\<in>set q. unset s x \<or> map_of s x = Some net"
    and "\<forall>x y. map_of s x = Some net \<longrightarrow> (x, y) \<in> links m \<longrightarrow> \<not> unset s y \<or> y \<in> set q"
    and "distinct (map fst s)"
  shows "(\<forall>x k. map_of s x = Some k \<longrightarrow> map_of (fillNet m net s q) x = Some k)
    \<and> (\<forall>x k. map_of s x = None \<and> map_of (fillNet m net s q) x = Some k \<longrightarrow>
         k = net \<and> (\<exists>y\<in>set q. (y, x) \<in> (links m)\<^sup>*))
    \<and> (\<forall>y\<in>set q. map_of (fillNet m net s q) y = Some net)
    \<and> (\<forall>x y. map_of (fillNet m net s q) x = Some net \<longrightarrow> (x, y) \<in> links m \<longrightarrow> \<not> unset (fillNet m net s q) y)
    \<and> distinct (map fst (fillNet m net s q))"
  using assms
proof (induction m net s q rule: fillNet.induct)
  case (1 m net s)
  then show ?case by (auto simp del: map_of_eq_Some_iff)
next
  case (2 m net s n q)
  let ?s = "AList.update n net s"
  let ?q = "q @ filter (unset ?s) (edges_at m n)"
  let ?r = "fillNet m net ?s ?q"
  have keep: "map_of ?s x = (if x = n then Some net else map_of s x)" for x
    by (simp add: update_conv')
  have p1: "\<forall>x\<in>set ?q. unset ?s x \<or> map_of ?s x = Some net"
    using "2.prems"(1) by (auto simp: keep unset_def)
  have p2: "\<forall>x y. map_of ?s x = Some net \<longrightarrow> (x, y) \<in> links m \<longrightarrow> \<not> unset ?s y \<or> y \<in> set ?q"
  proof (intro allI impI)
    fix x y assume x: "map_of ?s x = Some net" "(x, y) \<in> links m"
    show "\<not> unset ?s y \<or> y \<in> set ?q"
    proof (cases "x = n")
      case True
      then show ?thesis using x(2) by (auto simp: links_def)
    next
      case False
      then have "map_of s x = Some net" using x(1) by (simp add: keep)
      then have "\<not> unset s y \<or> y \<in> set (n # q)" using "2.prems"(2) x(2) by blast
      then show ?thesis by auto
    qed
  qed
  have p3: "distinct (map fst ?s)" using "2.prems"(3) by (rule distinct_update)
  note IH = "2.IH" [OF p1 p2 p3]
  have step: "fillNet m net s (n # q) = ?r" by simp
  have n_net: "map_of s n = None \<or> map_of s n = Some net"
    using "2.prems"(1) by (auto simp: unset_def)
  have a: "map_of ?r x = Some k" if "map_of s x = Some k" for x k
    using IH n_net that keep [of x] by (metis option.distinct(1) option.inject)
  have b: "k = net \<and> (\<exists>y\<in>set (n # q). (y, x) \<in> (links m)\<^sup>*)"
    if x: "map_of s x = None" "map_of ?r x = Some k" for x k
  proof (cases "x = n")
    case True
    have "map_of ?r n = Some net" using IH keep [of n] by simp
    then show ?thesis using x(2) True by auto
  next
    case False
    then have "map_of ?s x = None" using x(1) keep by simp
    then obtain y where y: "k = net" "y \<in> set ?q" "(y, x) \<in> (links m)\<^sup>*" using IH x(2) by blast
    show ?thesis
    proof (cases "y \<in> set q")
      case False
      then have "(n, y) \<in> links m" using y(2) by (simp add: links_def)
      then have "(n, x) \<in> (links m)\<^sup>*" using y(3) by (rule converse_rtrancl_into_rtrancl)
      then show ?thesis using y(1) by simp
    qed (use y in auto)
  qed
  have c: "map_of ?r y = Some net" if "y \<in> set (n # q)" for y
  proof (cases "y = n")
    case True
    then show ?thesis using IH keep [of n] by simp
  next
    case False
    then show ?thesis using IH that by simp
  qed
  show ?case unfolding step using a b c IH by blast
qed

section \<open>What the neighbour lists hold\<close>

text \<open>Two nodes off ground that one component connects.\<close>

definition compLinks :: "store \<Rightarrow> comp \<Rightarrow> (nat \<times> nat) set" where
  "compLinks H c = {(a, b). \<not> isGround (nodeAt H a) \<and> \<not> isGround (nodeAt H b)
     \<and> (\<exists>i j. i < terminalNumberConnected c \<and> j < terminalNumberConnected c \<and> i \<noteq> j
          \<and> compNode c i = ok (Some a) \<and> compNode c j = ok (Some b))}"

definition netLinks :: "var_type \<Rightarrow> store \<Rightarrow> nat list \<Rightarrow> (nat \<times> nat) set" where
  "netLinks v H ps = \<Union> (compLinks H ` compAt H ` {p \<in> set ps. castPower v H p \<noteq> None})"

definition pairLinks :: "store \<Rightarrow> comp \<Rightarrow> nat \<times> nat \<Rightarrow> (nat \<times> nat) set" where
  "pairLinks H c ij = {(a, b). \<not> isGround (nodeAt H a) \<and> \<not> isGround (nodeAt H b)
     \<and> (compNode c (fst ij) = ok (Some a) \<and> compNode c (snd ij) = ok (Some b)
      \<or> compNode c (fst ij) = ok (Some b) \<and> compNode c (snd ij) = ok (Some a))}"

lemma links_push: "links (edges_push m a b) = insert (a, b) (links m)"
  by (auto simp: links_def edge_simps split: if_splits)

lemma neighbourPair_links:
  assumes "neighbourPair H c ij m = ok m'"
  shows "links m' = links m \<union> pairLinks H c ij"
proof -
  obtain n1 n2 where n: "compNode c (fst ij) = ok n1" "compNode c (snd ij) = ok n2"
    using assms by (auto simp: neighbourPair_def)
  obtain x y where xy: "n1 = Some x" "n2 = Some y"
    using assms n by (cases n1; cases n2) (simp_all add: neighbourPair_def)
  have m': "m' = (if isGround (nodeAt H x) \<or> isGround (nodeAt H y) then m
      else edges_push (edges_push m x y) y x)"
    using assms n xy by (simp add: neighbourPair_def)
  show ?thesis unfolding m' pairLinks_def using n xy by (auto simp: links_push)
qed

lemma neighbourPairs_links:
  "neighbourPairs H c r m = ok m' \<Longrightarrow> links m' = links m \<union> \<Union> (pairLinks H c ` set r)"
proof (induction r arbitrary: m)
  case (Cons ij r)
  then obtain m1 where m1: "neighbourPair H c ij m = ok m1" "neighbourPairs H c r m1 = ok m'" by auto
  show ?case using Cons.IH [OF m1(2)] neighbourPair_links [OF m1(1)] by auto
qed simp

lemma pairsBelow_iff: "(i, j) \<in> set (pairsBelow n) \<longleftrightarrow> i < n \<and> j < i"
  unfolding pairsBelow_def set_concat set_map by force

lemma pairsBelow_links: "\<Union> (pairLinks H c ` set (pairsBelow (terminalNumberConnected c))) = compLinks H c"
proof -
  let ?n = "terminalNumberConnected c"
  have sym: "pairLinks H c (i, j) = pairLinks H c (j, i)" for i j by (auto simp: pairLinks_def)
  have "(a, b) \<in> compLinks H c" if "(i, j) \<in> set (pairsBelow ?n)" "(a, b) \<in> pairLinks H c (i, j)" for i j a b
  proof -
    have ij: "i < ?n" "j < ?n" "i \<noteq> j" "j \<noteq> i" using that(1) by (auto simp: pairsBelow_iff)
    show ?thesis using that(2) ij unfolding compLinks_def pairLinks_def mem_Collect_eq prod.case fst_conv snd_conv
      by blast
  qed
  moreover have "\<exists>ij \<in> set (pairsBelow ?n). (a, b) \<in> pairLinks H c ij" if "(a, b) \<in> compLinks H c" for a b
  proof -
    from that obtain i j where ij: "i < ?n" "j < ?n" "i \<noteq> j" "(a, b) \<in> pairLinks H c (i, j)"
      unfolding compLinks_def pairLinks_def by auto
    show ?thesis
    proof (cases "j < i")
      case True
      then show ?thesis using ij by (intro bexI [of _ "(i, j)"]) (simp_all add: pairsBelow_iff)
    next
      case False
      then show ?thesis using ij sym by (intro bexI [of _ "(j, i)"]) (simp_all add: pairsBelow_iff)
    qed
  qed
  ultimately show ?thesis by fast
qed

lemma neighbourLists_links:
  "neighbourLists v H ps m = ok m' \<Longrightarrow> links m' = links m \<union> netLinks v H ps"
proof (induction ps arbitrary: m)
  case Nil
  then show ?case by (simp add: netLinks_def)
next
  case (Cons p ps)
  show ?case
  proof (cases "castPower v H p")
    case None
    then have "netLinks v H (p # ps) = netLinks v H ps" by (auto simp: netLinks_def)
    then show ?thesis using None Cons by simp
  next
    case (Some q)
    then have q: "q = p" by (simp add: castPower_def split: if_splits)
    obtain m1 where m1: "neighbourPairs H (compAt H p) (pairsBelow (terminalNumberConnected (compAt H p))) m = ok m1"
      "neighbourLists v H ps m1 = ok m'" using Cons.prems Some q by (auto simp: Let_def)
    have "links m1 = links m \<union> compLinks H (compAt H p)"
      using neighbourPairs_links [OF m1(1)] pairsBelow_links by simp
    moreover have "netLinks v H (p # ps) = compLinks H (compAt H p) \<union> netLinks v H ps"
      using Some by (auto simp: netLinks_def)
    ultimately show ?thesis using Cons.IH [OF m1(2)] by blast
  qed
qed

text \<open>A network whose components are connected, and to nodes of the network.\<close>

definition connectedNet :: "var_type \<Rightarrow> store \<Rightarrow> topology \<Rightarrow> bool" where
  "connectedNet v H T \<longleftrightarrow> distinct (netNodes v H T)
     \<and> (\<forall>p \<in> set (mComponents T). castPower v H p \<noteq> None \<longrightarrow>
          (\<forall>i < terminalNumberConnected (compAt H p). \<exists>a. compNode (compAt H p) i = ok (Some a)
             \<and> (isGround (nodeAt H a) \<or> a \<in> set (netNodes v H T))))"

lemma neighbourPairs_ok:
  assumes "\<forall>(i, j) \<in> set r. (\<exists>a. compNode c i = ok (Some a)) \<and> (\<exists>b. compNode c j = ok (Some b))"
  shows "\<exists>m'. neighbourPairs H c r m = ok m'"
  using assms
proof (induction r arbitrary: m)
  case (Cons ij r)
  obtain i j where ij: "ij = (i, j)" by (cases ij)
  obtain a b where "compNode c i = ok (Some a)" "compNode c j = ok (Some b)" using Cons.prems ij by auto
  then obtain m1 where "neighbourPair H c ij m = ok m1" by (simp add: neighbourPair_def ij)
  moreover obtain m' where "neighbourPairs H c r m1 = ok m'" using Cons.IH [of m1] Cons.prems by auto
  ultimately show ?case by simp
qed simp

lemma neighbourLists_ok:
  assumes "\<forall>p \<in> set ps. castPower v H p \<noteq> None \<longrightarrow>
      (\<forall>i < terminalNumberConnected (compAt H p). \<exists>a. compNode (compAt H p) i = ok (Some a))"
  shows "\<exists>m'. neighbourLists v H ps m = ok m'"
  using assms
proof (induction ps arbitrary: m)
  case (Cons p ps)
  show ?case
  proof (cases "castPower v H p")
    case (Some q)
    then have q: "q = p" by (simp add: castPower_def split: if_splits)
    have "\<forall>(i, j) \<in> set (pairsBelow (terminalNumberConnected (compAt H p))).
        (\<exists>a. compNode (compAt H p) i = ok (Some a)) \<and> (\<exists>b. compNode (compAt H p) j = ok (Some b))"
    proof safe
      fix i j assume ij: "(i, j) \<in> set (pairsBelow (terminalNumberConnected (compAt H p)))"
      then have "i < terminalNumberConnected (compAt H p)" "j < terminalNumberConnected (compAt H p)"
        by (simp_all add: pairsBelow_iff)
      then show "\<exists>a. compNode (compAt H p) i = ok (Some a)" "\<exists>b. compNode (compAt H p) j = ok (Some b)"
        using Cons.prems Some by auto
    qed
    from neighbourPairs_ok [OF this, of H m] obtain m1 where
      "neighbourPairs H (compAt H p) (pairsBelow (terminalNumberConnected (compAt H p))) m = ok m1" ..
    moreover obtain m' where "neighbourLists v H ps m1 = ok m'" using Cons.IH [of m1] Cons.prems by auto
    ultimately show ?thesis using Some q by (simp add: Let_def)
  qed (use Cons in auto)
qed simp

section \<open>The numbering is that of the connected parts\<close>

text \<open>After \<open>net\<close> rounds the nodes numbered so far are \<open>net\<close> whole connected parts.\<close>

definition numbered :: "(nat \<times> nat) set \<Rightarrow> nat list \<Rightarrow> subnets \<Rightarrow> nat \<Rightarrow> bool" where
  "numbered L ns s net \<longleftrightarrow> distinct (map fst s)
     \<and> (\<forall>x k. map_of s x = Some k \<longrightarrow> x \<in> set ns \<and> k < net)
     \<and> (\<forall>k < net. \<exists>x. map_of s x = Some k)
     \<and> (\<forall>x y k. map_of s x = Some k \<and> (x, y) \<in> L \<longrightarrow> map_of s y = Some k)
     \<and> (\<forall>x y k. map_of s x = Some k \<and> map_of s y = Some k \<longrightarrow> (x, y) \<in> L\<^sup>*)"

lemma numberedI [inv_intros]:
  assumes "distinct (map fst s)"
    and "\<And>x k. map_of s x = Some k \<Longrightarrow> x \<in> set ns \<and> k < net"
    and "\<And>k. k < net \<Longrightarrow> \<exists>x. map_of s x = Some k"
    and "\<And>x y k. map_of s x = Some k \<Longrightarrow> (x, y) \<in> L \<Longrightarrow> map_of s y = Some k"
    and "\<And>x y k. map_of s x = Some k \<Longrightarrow> map_of s y = Some k \<Longrightarrow> (x, y) \<in> L\<^sup>*"
  shows "numbered L ns s net"
  unfolding numbered_def using assms by blast

lemma numberedD:
  assumes "numbered L ns s net"
  shows "distinct (map fst s)"
    and "map_of s x = Some k \<Longrightarrow> x \<in> set ns \<and> k < net"
    and "k < net \<Longrightarrow> \<exists>x. map_of s x = Some k"
    and "map_of s x = Some k \<Longrightarrow> (x, y) \<in> L \<Longrightarrow> map_of s y = Some k"
    and "map_of s x = Some k \<Longrightarrow> map_of s y = Some k \<Longrightarrow> (x, y) \<in> L\<^sup>*"
  using assms unfolding numbered_def by blast+

lemma numbered_dom:
  assumes "numbered L ns s net"
  shows "length s = card (dom (map_of s)) \<and> dom (map_of s) \<subseteq> set ns"
proof
  have "distinct (map fst s)" using assms unfolding numbered_def by (elim conjE)
  then have "card (set (map fst s)) = length (map fst s)" by (rule distinct_card)
  then show "length s = card (dom (map_of s))" by (simp add: dom_map_of_conv_image_fst)
  show "dom (map_of s) \<subseteq> set ns" using assms unfolding numbered_def by blast
qed

lemma fill_numbered:
  assumes num: "numbered (links m) ns s net" and n: "n \<in> set ns" "unset s n"
    and sym: "sym (links m)" and inside: "links m `` set ns \<subseteq> set ns"
  shows "numbered (links m) ns (fillNet m net s [n]) (net + 1)" "map_of (fillNet m net s [n]) n = Some net"
proof -
  let ?r = "fillNet m net s [n]"
  have no_net: "map_of s x \<noteq> Some net" for x using num unfolding numbered_def by blast
  have dist: "distinct (map fst s)" using num by (simp add: numbered_def)
  have F: "(\<forall>x k. map_of s x = Some k \<longrightarrow> map_of ?r x = Some k)
    \<and> (\<forall>x k. map_of s x = None \<and> map_of ?r x = Some k \<longrightarrow> k = net \<and> (\<exists>y\<in>set [n]. (y, x) \<in> (links m)\<^sup>*))
    \<and> (\<forall>y\<in>set [n]. map_of ?r y = Some net)
    \<and> (\<forall>x y. map_of ?r x = Some net \<longrightarrow> (x, y) \<in> links m \<longrightarrow> \<not> unset ?r y)
    \<and> distinct (map fst ?r)"
    by (rule fillNet_spec) (use n(2) no_net dist in auto)
  have keep: "map_of ?r x = Some k" if "map_of s x = Some k" for x k using F that by blast
  have new: "k = net" "(n, x) \<in> (links m)\<^sup>*" if "map_of s x = None" "map_of ?r x = Some k" for x k
    using F that by auto
  have n_net: "map_of ?r n = Some net" using F by simp
  show "map_of ?r n = Some net" by (rule n_net)
  have reach_in: "x \<in> set ns" if "(n, x) \<in> (links m)\<^sup>*" for x
    using that n(1) inside by induction auto
  have net_iff: "map_of ?r x = Some net \<Longrightarrow> map_of s x = None" for x
    using keep no_net by (cases "map_of s x") auto
  have link: "map_of ?r y = Some k" if x: "map_of ?r x = Some k" and xy: "(x, y) \<in> links m" for x y k
  proof (cases "map_of s x")
    case (Some j)
    then have "j = k" using keep [OF Some] x by simp
    then show ?thesis using Some xy num keep unfolding numbered_def by blast
  next
    case None
    then have k: "k = net" using new x by blast
    obtain j where j: "map_of ?r y = Some j" using F x k xy unfolding unset_def by blast
    show ?thesis
    proof (cases "map_of s y")
      case None
      then show ?thesis using new j k by blast
    next
      case (Some i)
      then have "map_of s x = Some i" using num symD [OF sym xy] unfolding numbered_def by blast
      then show ?thesis using \<open>map_of s x = None\<close> by simp
    qed
  qed
  show "numbered (links m) ns ?r (net + 1)"
  proof (rule numberedI)
    show "distinct (map fst ?r)" using F by blast
    show "x \<in> set ns \<and> k < net + 1" if "map_of ?r x = Some k" for x k
    proof (cases "map_of s x")
      case None
      then have "k = net" "x \<in> set ns" using new [OF None that] reach_in by blast+
      then show ?thesis by simp
    next
      case (Some j)
      have "j = k" using keep [OF Some] that by simp
      moreover have "x \<in> set ns \<and> j < net" using Some num unfolding numbered_def by blast
      ultimately show ?thesis by simp
    qed
    show "\<exists>x. map_of ?r x = Some k" if "k < net + 1" for k
    proof (cases "k = net")
      case True
      then show ?thesis using n_net by blast
    next
      case False
      then have "k < net" using that by simp
      then obtain x where "map_of s x = Some k" using num unfolding numbered_def by blast
      then show ?thesis using keep by blast
    qed
    show "map_of ?r y = Some k" if "map_of ?r x = Some k" "(x, y) \<in> links m" for x y k
      by (rule link [OF that])
    show "(x, y) \<in> (links m)\<^sup>*" if xy: "map_of ?r x = Some k" "map_of ?r y = Some k" for x y k
    proof (cases "k = net")
      case True
      then have "(n, x) \<in> (links m)\<^sup>*" "(n, y) \<in> (links m)\<^sup>*" using xy new net_iff by blast+
      then show ?thesis using sym_rtrancl [OF sym] by (meson rtrancl_trans symD)
    next
      case False
      then have "map_of s x \<noteq> None" "map_of s y \<noteq> None" using new xy by blast+
      then obtain i j where "map_of s x = Some i" "map_of s y = Some j" by blast
      then have "map_of s x = Some k" "map_of s y = Some k"
        using keep [of x i] keep [of y j] xy by simp_all
      then show ?thesis using num unfolding numbered_def by blast
    qed
  qed
qed

lemma subnetLoop_returns:
  assumes "numbered (links m) ns s net" "distinct ns" "sym (links m)" "links m `` set ns \<subseteq> set ns"
  shows "\<exists>s' n. subnetLoop m ns s net = Some (s', n) \<and> numbered (links m) ns s' n
     \<and> dom (map_of s') = set ns"
  using assms(1)
proof (induction "length ns - length s" arbitrary: s net rule: less_induct)
  case less
  have dom: "length s = card (dom (map_of s))" "dom (map_of s) \<subseteq> set ns" using numbered_dom [OF less.prems] by blast+
  have card_ns: "length ns = card (set ns)" using assms(2) by (simp add: distinct_card)
  show ?case
  proof (cases "length s = length ns")
    case True
    then have "dom (map_of s) = set ns" using dom card_ns by (simp add: card_subset_eq)
    then show ?thesis using True less.prems by (simp add: subnetLoop.simps)
  next
    case False
    then have "dom (map_of s) \<noteq> set ns" using dom card_ns by auto
    then obtain x where "x \<in> set ns" "x \<notin> dom (map_of s)" using dom(2) by blast
    then have "\<exists>x\<in>set ns. unset s x" unfolding unset_def by (auto simp: dom_def)
    then obtain n where n: "find (unset s) ns = Some n" by (cases "find (unset s) ns") (auto simp: find_None_iff)
    have nn: "n \<in> set ns" "unset s n" using n by (auto simp: find_Some_iff)
    let ?r = "fillNet m net s [n]"
    note fn = fill_numbered [OF less.prems nn assms(3,4)]
    have no_net: "map_of s x \<noteq> Some net" for x using less.prems unfolding numbered_def by blast
    have dist: "distinct (map fst s)" using less.prems by (simp add: numbered_def)
    have "dom (map_of s) \<subseteq> dom (map_of ?r)"
    proof -
      have "\<forall>x k. map_of s x = Some k \<longrightarrow> map_of ?r x = Some k"
        by (rule conjunct1 [OF fillNet_spec]) (use nn no_net dist in auto)
      then show ?thesis by blast
    qed
    moreover have "n \<in> dom (map_of ?r)" "n \<notin> dom (map_of s)" using fn(2) nn by (auto simp: unset_def)
    ultimately have "card (dom (map_of s)) < card (dom (map_of ?r))"
      by (intro psubset_card_mono finite_dom_map_of) blast
    moreover have "length ?r \<le> length ns"
      using numbered_dom [OF fn(1)] card_ns by (metis List.finite_set card_mono)
    ultimately have "length ns - length ?r < length ns - length s"
      using dom(1) numbered_dom [OF fn(1)] by linarith
    from less.hyps [OF this fn(1)] show ?thesis
      using False n by (subst subnetLoop.simps) simp
  qed
qed

lemma sym_netLinks: "sym (netLinks v H ps)"
  by (auto simp: netLinks_def compLinks_def intro!: symI)

lemma links_Nil [simp]: "links [] = {}"
  by (simp add: links_def)

lemma netLinks_inside:
  assumes "connectedNet v H T"
  shows "netLinks v H (mComponents T) `` set (netNodes v H T) \<subseteq> set (netNodes v H T)"
proof
  fix b assume "b \<in> netLinks v H (mComponents T) `` set (netNodes v H T)"
  then obtain a p i where p: "p \<in> set (mComponents T)" "castPower v H p \<noteq> None"
    and i: "i < terminalNumberConnected (compAt H p)" "compNode (compAt H p) i = ok (Some b)" "\<not> isGround (nodeAt H b)"
    unfolding netLinks_def compLinks_def by auto
  then show "b \<in> set (netNodes v H T)" using assms unfolding connectedNet_def by fastforce
qed

lemma numbering_connected:
  assumes "connectedNet v H T"
  shows "\<exists>s n. checkTopologySubnets v H T [] = Some (ok (s, n))
     \<and> dom (map_of s) = set (netNodes v H T)
     \<and> ran (map_of s) = {..<n}
     \<and> (\<forall>x \<in> set (netNodes v H T). \<forall>y \<in> set (netNodes v H T).
          map_of s x = map_of s y \<longleftrightarrow> (x, y) \<in> (netLinks v H (mComponents T))\<^sup>*)"
proof -
  let ?ns = "netNodes v H T" and ?L = "netLinks v H (mComponents T)"
  have "\<exists>m. neighbourLists v H (mComponents T) [] = ok m"
    using assms by (intro neighbourLists_ok) (meson connectedNet_def)
  then obtain m where m: "neighbourLists v H (mComponents T) [] = ok m" ..
  have L: "links m = ?L" using neighbourLists_links [OF m] by simp
  have "numbered (links m) ?ns [] 0" by (simp add: numbered_def)
  moreover have "distinct ?ns" using assms by (simp add: connectedNet_def)
  moreover have "sym (links m)" unfolding L by (rule sym_netLinks)
  moreover have "links m `` set ?ns \<subseteq> set ?ns" unfolding L by (rule netLinks_inside [OF assms])
  ultimately obtain s n where s: "subnetLoop m ?ns [] 0 = Some (s, n)" "numbered ?L ?ns s n"
    "dom (map_of s) = set ?ns" using subnetLoop_returns [of m ?ns "[]" 0] unfolding L by blast
  note nD = numberedD [OF s(2)]
  have same: "map_of s x = map_of s y \<longleftrightarrow> (x, y) \<in> ?L\<^sup>*" if x: "x \<in> set ?ns" for x y
  proof
    obtain k where k: "map_of s x = Some k" using x s(3) by blast
    show "(x, y) \<in> ?L\<^sup>*" if "map_of s x = map_of s y" using nD(5) [OF k] k that by simp
    show "map_of s x = map_of s y" if "(x, y) \<in> ?L\<^sup>*"
    proof -
      from that have "map_of s y = Some k" by induction (rule k, rule nD(4))
      then show ?thesis using k by simp
    qed
  qed
  have "ran (map_of s) = {..<n}" using nD(2,3) unfolding ran_def by blast
  then show ?thesis using m s same unfolding checkTopologySubnets_def by auto
qed

text \<open>C13. On a network whose components are connected to its own nodes, the numbering of
  the subnets returns, numbers every node off ground, uses the numbers up to the count it
  returns, and gives two nodes the same number exactly when a chain of components that does
  not pass through ground connects them.\<close>

theorem subnets_are_connected_parts:
  assumes "connectedNet v H T"
  shows "\<exists>s n. checkTopologySubnets v H T [] = Some (ok (s, n))
     \<and> dom (map_of s) = set (netNodes v H T)
     \<and> ran (map_of s) = {..<n}
     \<and> (\<forall>x \<in> set (netNodes v H T). \<forall>y \<in> set (netNodes v H T).
          map_of s x = map_of s y \<longleftrightarrow> (x, y) \<in> (netLinks v H (mComponents T))\<^sup>*)"
  using assms by (rule numbering_connected)

abbreviation demo_link :: comp where "demo_link \<equiv> demo_connected\<lparr>mTerminals :=
  [Some (connTerm demo_store demo_comp 0 1), Some (connTerm demo_store demo_comp 1 2)]\<rparr>"

abbreviation demo_net :: store where "demo_net \<equiv> demo_store\<lparr>compAt := \<lambda>_. demo_link\<rparr>"

abbreviation demo_topology :: "nat option list \<Rightarrow> nat list \<Rightarrow> topology" where
  "demo_topology ns cs \<equiv> (emptyTopology 50)\<lparr>mNodes := ns, mComponents := cs\<rparr>"

lemma demo_net_facts:
  "castNode ComplexVar demo_net (Some p) = Some p" "isGround (nodeAt demo_net p) \<longleftrightarrow> p = 0"
  "castPower ComplexVar demo_net q = Some q"
  "compNode demo_link 0 = ok (Some 1)" "compNode demo_link 1 = ok (Some 2)"
  "terminalNumberConnected demo_link = 2"
  by (simp_all add: castNode_def castPower_def mkSimNode_def groundNode_def compNode_def
      terminalNumberConnected_def setTerminalNumber_def mkPowerComp_def)

theorem subnets_are_connected_parts_witness:
  "\<exists>s n. checkTopologySubnets ComplexVar demo_net (demo_topology [Some 0, Some 1, Some 2] [0]) [] = Some (ok (s, n))
     \<and> ran (map_of s) = {..<n} \<and> dom (map_of s) = {1, 2}"
proof -
  let ?T = "demo_topology [Some 0, Some 1, Some 2] [0]"
  have ns: "netNodes ComplexVar demo_net ?T = [1, 2]"
    using demo_net_facts(1) [of 0] demo_net_facts(1) [of 1] demo_net_facts(1) [of 2]
      demo_net_facts(2) [of 0] demo_net_facts(2) [of 1] demo_net_facts(2) [of 2]
    unfolding netNodes_def by simp
  have i2: "i < 2 \<longleftrightarrow> i = 0 \<or> i = 1" for i :: nat by auto
  have "connectedNet ComplexVar demo_net ?T"
    unfolding connectedNet_def ns using demo_net_facts(4,5,6) by (simp add: i2)
  from subnets_are_connected_parts [OF this] show ?thesis unfolding ns by auto
qed

lemma subnetLoop_stuck:
  assumes "find (unset s) ns = None" "length s \<noteq> length ns"
  shows "subnetLoop m ns s net = None"
proof (rule ccontr)
  assume "subnetLoop m ns s net \<noteq> None"
  then obtain r where "subnetLoop m ns s net = Some r" by auto
  then have "\<not> (find (unset s) ns = None \<and> length s \<noteq> length ns)"
  proof (rule subnetLoop.raw_induct [where P = "\<lambda>m ns s net r. \<not> (find (unset s) ns = None \<and> length s \<noteq> length ns)",
        rotated])
    fix f :: "(nat, nat) multimap \<Rightarrow> nat list \<Rightarrow> subnets \<Rightarrow> nat \<Rightarrow> (subnets \<times> nat) option"
    fix m ns s net r
    assume IH: "\<And>m ns s net r. f m ns s net = Some r \<Longrightarrow> \<not> (find (unset s) ns = None \<and> length s \<noteq> length ns)"
      and body: "(if length s = length ns then Some (s, net)
        else f m ns (fillNet m net s (case find (unset s) ns of None \<Rightarrow> [] | Some n \<Rightarrow> [n])) (net + 1)) = Some r"
    show "\<not> (find (unset s) ns = None \<and> length s \<noteq> length ns)"
    proof
      assume stuck: "find (unset s) ns = None \<and> length s \<noteq> length ns"
      then have "f m ns s (net + 1) = Some r" using body by simp
      from IH [OF this] stuck show False by blast
    qed
  qed
  then show False using assms by blast
qed

text \<open>C39. The numbering does not return when the components connect all nodes of the network
  with each other and one of them also with a node that is not in the node list: it numbers
  more nodes than it counts, and waits for the two numbers to agree.\<close>

theorem subnets_unlisted_node_diverges:
  assumes "neighbourLists v H (mComponents T) [] = ok m" "distinct (netNodes v H T)"
    and "\<forall>x \<in> set (netNodes v H T). \<forall>y \<in> set (netNodes v H T). (x, y) \<in> (netLinks v H (mComponents T))\<^sup>*"
    and "a \<in> set (netNodes v H T)" "(a, b) \<in> netLinks v H (mComponents T)" "b \<notin> set (netNodes v H T)"
  shows "checkTopologySubnets v H T [] = None"
proof -
  let ?ns = "netNodes v H T"
  have L: "links m = netLinks v H (mComponents T)" using neighbourLists_links [OF assms(1)] by simp
  obtain n rest where ns: "?ns = n # rest" using assms(4) by (cases ?ns) auto
  let ?r = "fillNet m 0 [] [n]"
  have F: "(\<forall>x k. map_of ([] :: subnets) x = Some k \<longrightarrow> map_of ?r x = Some k)
    \<and> (\<forall>x k. map_of ([] :: subnets) x = None \<and> map_of ?r x = Some k \<longrightarrow> k = 0 \<and> (\<exists>y\<in>set [n]. (y, x) \<in> (links m)\<^sup>*))
    \<and> (\<forall>y\<in>set [n]. map_of ?r y = Some 0)
    \<and> (\<forall>x y. map_of ?r x = Some 0 \<longrightarrow> (x, y) \<in> links m \<longrightarrow> \<not> unset ?r y)
    \<and> distinct (map fst ?r)"
    by (rule fillNet_spec) (simp_all add: unset_def)
  have zero: "k = 0" if "map_of ?r x = Some k" for x k using F that by simp
  have reach: "map_of ?r x = Some 0" if "(n, x) \<in> (links m)\<^sup>*" for x
    using that
  proof induction
    case (step y z)
    then have "\<not> unset ?r z" using F by blast
    then obtain k where "map_of ?r z = Some k" unfolding unset_def by blast
    then show ?case using zero by blast
  qed (use F in simp)
  have all: "map_of ?r x = Some 0" if "x \<in> insert b (set ?ns)" for x
  proof -
    have n_in: "n \<in> set ?ns" unfolding ns by simp
    have "(n, a) \<in> (links m)\<^sup>*" using assms(3,4) n_in unfolding L by blast
    then have "(n, b) \<in> (links m)\<^sup>*" using assms(5) unfolding L by (rule rtrancl_into_rtrancl)
    moreover have "(n, x) \<in> (links m)\<^sup>*" if "x \<in> set ?ns" using assms(3) n_in that unfolding L by blast
    ultimately show ?thesis using reach that by blast
  qed
  have "length ?ns = card (set ?ns)" using assms(2) by (simp add: distinct_card)
  also have "\<dots> < card (insert b (set ?ns))" using assms(6) by simp
  also have "\<dots> \<le> card (dom (map_of ?r))" using all by (intro card_mono finite_dom_map_of) blast
  also have "\<dots> = length ?r"
  proof -
    have "distinct (map fst ?r)" using F by blast
    then have "card (set (map fst ?r)) = length (map fst ?r)" by (rule distinct_card)
    then show ?thesis by (simp add: dom_map_of_conv_image_fst)
  qed
  finally have "length ?r \<noteq> length ?ns" by simp
  moreover have "find (unset ?r) ?ns = None"
  proof -
    have "\<not> unset ?r x" if "x \<in> set ?ns" for x using all [of x] that by (simp add: unset_def)
    then show ?thesis unfolding find_None_iff by blast
  qed
  ultimately have "subnetLoop m ?ns ?r 1 = None" by (intro subnetLoop_stuck)
  moreover have "subnetLoop m ?ns [] 0 = subnetLoop m ?ns ?r 1"
    by (subst subnetLoop.simps) (simp add: ns unset_def)
  ultimately show ?thesis using assms(1) by (simp add: checkTopologySubnets_def)
qed

theorem subnets_unlisted_node_diverges_witness:
  "checkTopologySubnets ComplexVar demo_net (demo_topology [Some 1] [0]) [] = None"
proof -
  let ?T = "demo_topology [Some 1] [0]"
  have ns: "netNodes ComplexVar demo_net ?T = [1]"
    using demo_net_facts(1) [of 1] demo_net_facts(2) [of 1] unfolding netNodes_def by simp
  have i2: "i < 2 \<longleftrightarrow> i = 0 \<or> i = 1" for i :: nat by auto
  have "\<exists>m. neighbourLists ComplexVar demo_net (mComponents ?T) [] = ok m"
    by (rule neighbourLists_ok) (use demo_net_facts(4,5,6) in \<open>simp add: i2\<close>)
  then obtain m where m: "neighbourLists ComplexVar demo_net (mComponents ?T) [] = ok m" ..
  have g: "\<not> isGround (nodeAt demo_net 1)" "\<not> isGround (nodeAt demo_net 2)"
    using demo_net_facts(2) [of 1] demo_net_facts(2) [of 2] by (metis one_neq_zero, metis zero_neq_numeral)
  have "\<exists>i j. i < terminalNumberConnected demo_link \<and> j < terminalNumberConnected demo_link \<and> i \<noteq> j
      \<and> compNode demo_link i = ok (Some 1) \<and> compNode demo_link j = ok (Some 2)"
    by (rule exI [of _ 0], rule exI [of _ 1], use demo_net_facts(4,5,6) in simp)
  then have "(1, 2) \<in> compLinks demo_net demo_link" using g unfolding compLinks_def by blast
  then have link: "(1, 2) \<in> netLinks ComplexVar demo_net (mComponents ?T)"
    unfolding netLinks_def using demo_net_facts(3) [of 0] by auto
  show ?thesis
    by (rule subnets_unlisted_node_diverges [OF m, of 1 2]) (use ns link in simp_all)
qed

end
