(* ===== verification/Subnets.thy ===== *)
theory Subnets
  imports Topology
begin

text \<open>What \<open>SystemTopology::splitSubnets\<close> returns: the connected parts of the network as
  topologies of their own.\<close>

section \<open>Building the parts\<close>

definition virtualsMade :: "store \<Rightarrow> nat \<Rightarrow> bool" where
  "virtualsMade H p \<longleftrightarrow> None \<notin> set (mVirtualNodes (compAt H p))"

text \<open>What initialisation leaves alone.\<close>

definition sameComps :: "store \<Rightarrow> store \<Rightarrow> bool" where
  "sameComps H H' \<longleftrightarrow> (\<forall>q. mVirtualNodes (compAt H' q) = mVirtualNodes (compAt H q)
     \<and> compKind (compAt H' q) = compKind (compAt H q))"

lemma sameComps_refl [intro]: "sameComps H H"
  by (simp add: sameComps_def)

lemma sameComps_trans [trans]: "sameComps H1 H2 \<Longrightarrow> sameComps H2 H3 \<Longrightarrow> sameComps H1 H3"
  by (simp add: sameComps_def)

lemma sameComps_virtuals: "sameComps H H' \<Longrightarrow> virtualsMade H' p \<longleftrightarrow> virtualsMade H p"
  by (simp add: sameComps_def virtualsMade_def)

lemma sameComps_compAt: "compAt H' = compAt H \<Longrightarrow> sameComps H H'"
  by (simp add: sameComps_def)

lemma initializeVirtual_ok:
  "None \<notin> set ns \<Longrightarrow> \<exists>H'. initializeVirtual freqs ns H = ok H' \<and> compAt H' = compAt H"
proof (induction ns arbitrary: H)
  case (Cons n ns)
  then obtain p where "n = Some p" by (cases n) auto
  then show ?case using Cons.IH [of "updNode p (initializeNodeFreqs freqs) H"] Cons.prems by auto
qed simp

lemma initializeComp_ok:
  assumes "virtualsMade H p"
  shows "\<exists>H'. initializeComp v freqs p H = ok H' \<and> sameComps H H'"
proof -
  define c' where "c' = (compAt H p)\<lparr>compFrequencies := freqs, compNumFreqs := mrows freqs * mcols freqs,
      mIntfVoltage := zeroVar v (if compPhase (compAt H p) \<noteq> PhaseABC then 1 else 3) (mrows freqs * mcols freqs),
      mIntfCurrent := zeroVar v (if compPhase (compAt H p) \<noteq> PhaseABC then 1 else 3) (mrows freqs * mcols freqs)\<rparr>"
  have "None \<notin> set (mVirtualNodes c')" using assms by (simp add: c'_def virtualsMade_def)
  from initializeVirtual_ok [OF this] obtain H' where
    H': "initializeVirtual freqs (mVirtualNodes c') (setComp p c' H) = ok H'" "compAt H' = compAt (setComp p c' H)"
    by blast
  have "initializeComp v freqs p H = ok H'"
    using H'(1) unfolding initializeComp_def Let_def c'_def .
  moreover have "sameComps H H'" using H'(2) by (simp add: sameComps_def c'_def)
  ultimately show ?thesis by blast
qed

lemma initComponent_ok:
  assumes "virtualsMade H p"
  shows "\<exists>H'. initComponent freqs p H = ok H' \<and> sameComps H H'"
proof -
  have one: "\<exists>H'. (case castPower v H p of None \<Rightarrow> ok H | Some q \<Rightarrow> initializeComp v freqs q H) = ok H'
      \<and> sameComps H H'" if "virtualsMade H p" for v H
    using initializeComp_ok [OF that] by (auto simp: castPower_def)
  obtain H1 where H1: "(case castPower ComplexVar H p of None \<Rightarrow> ok H | Some q \<Rightarrow> initializeComp ComplexVar freqs q H) = ok H1"
    "sameComps H H1" using one [OF assms] by blast
  obtain H2 where "(case castPower RealVar H1 p of None \<Rightarrow> ok H1 | Some q \<Rightarrow> initializeComp RealVar freqs q H1) = ok H2"
    "sameComps H1 H2" using one [of H1] assms sameComps_virtuals [OF H1(2)] by blast
  then show ?thesis using H1 sameComps_trans by (auto simp: initComponent_def)
qed

lemma addComponents_ok:
  assumes "\<forall>p \<in> set ps. virtualsMade H p"
  shows "\<exists>H'. addComponents ps (H, T) = ok (H', T\<lparr>mComponents := mComponents T @ ps\<rparr>) \<and> sameComps H H'"
  using assms
proof (induction ps arbitrary: H T)
  case (Cons p ps)
  obtain H1 where H1: "initComponent (mFrequencies T) p H = ok H1" "sameComps H H1"
    using initComponent_ok [of H p] Cons.prems by auto
  define T1 where "T1 = T\<lparr>mComponents := mComponents T @ [p]\<rparr>"
  have "\<forall>q \<in> set ps. virtualsMade H1 q" using Cons.prems sameComps_virtuals [OF H1(2)] by simp
  from Cons.IH [OF this, of T1] obtain H' where
    H': "addComponents ps (H1, T1) = ok (H', T1\<lparr>mComponents := mComponents T1 @ ps\<rparr>)" "sameComps H1 H'" by blast
  have "addComponents (p # ps) (H, T) = ok (H', T\<lparr>mComponents := mComponents T @ p # ps\<rparr>)"
    using H1(1) H'(1) by (simp add: addComponent_def T1_def)
  then show ?case using sameComps_trans [OF H1(2) H'(2)] by blast
qed auto

lemma addNodes_spec:
  "\<exists>H'. addNodes ps (H, T) = (H', T\<lparr>mNodes := mNodes T @ ps\<rparr>) \<and> compAt H' = compAt H"
proof (induction ps arbitrary: H T)
  case (Cons p ps)
  define H1 where "H1 = initNode (mFrequencies T) p H"
  have H1: "compAt H1 = compAt H" by (simp add: H1_def initNode_def Let_def split: option.splits)
  define T1 where "T1 = T\<lparr>mNodes := mNodes T @ [p]\<rparr>"
  obtain H' where H': "addNodes ps (H1, T1) = (H', T1\<lparr>mNodes := mNodes T1 @ ps\<rparr>)" "compAt H' = compAt H1"
    using Cons.IH by blast
  have "addNodes (p # ps) (H, T) = addNodes ps (H1, T1)" by (simp add: addNodes_def addNode_def H1_def T1_def)
  then show ?case using H' H1 by (simp add: T1_def)
qed (simp add: addNodes_def)

lemma systemTopology_ok:
  assumes "\<forall>p \<in> set cs. virtualsMade H p"
  shows "\<exists>H' T. systemTopology f freqs ns cs H = ok (H', T) \<and> mNodes T = ns \<and> mComponents T = cs
     \<and> mFrequencies T = freqs \<and> mTearComponents T = [] \<and> sameComps H H'"
proof -
  let ?T0 = "(emptyTopology f)\<lparr>mFrequencies := freqs\<rparr>"
  obtain H1 where H1: "addNodes ns (H, ?T0) = (H1, ?T0\<lparr>mNodes := mNodes ?T0 @ ns\<rparr>)" "compAt H1 = compAt H"
    using addNodes_spec by blast
  have s1: "sameComps H H1" using H1(2) by (rule sameComps_compAt)
  have "\<forall>p \<in> set cs. virtualsMade H1 p" using assms sameComps_virtuals [OF s1] by simp
  from addComponents_ok [OF this] obtain H2 where
    H2: "addComponents cs (H1, ?T0\<lparr>mNodes := mNodes ?T0 @ ns\<rparr>)
       = ok (H2, (?T0\<lparr>mNodes := mNodes ?T0 @ ns\<rparr>)\<lparr>mComponents := mComponents (?T0\<lparr>mNodes := mNodes ?T0 @ ns\<rparr>) @ cs\<rparr>)"
      "sameComps H1 H2" by blast
  show ?thesis
    using H1(1) H2 sameComps_trans [OF s1 H2(2)]
    by (simp add: systemTopology_def componentsAtNodeList_def emptyTopology_def)
qed

lemma splitSystems_ok:
  assumes "\<forall>(ns, cs) \<in> set parts. \<forall>p \<in> set cs. virtualsMade H p"
  shows "\<exists>H' Ts. splitSystems f parts (H, systems) = ok (H', systems @ Ts)
     \<and> map mNodes Ts = map fst parts \<and> map mComponents Ts = map snd parts
     \<and> (\<forall>T \<in> set Ts. mFrequencies T = initFrequency f)"
  using assms
proof (induction parts arbitrary: H systems)
  case (Cons nc parts)
  obtain ns cs where nc: "nc = (ns, cs)" by (cases nc)
  obtain H1 T where T: "systemTopology f (initFrequency f) ns cs H = ok (H1, T)" "mNodes T = ns"
    "mComponents T = cs" "mFrequencies T = initFrequency f" "sameComps H H1"
    using systemTopology_ok [of cs H f "initFrequency f" ns] Cons.prems nc by auto
  have "\<forall>(ns, cs) \<in> set parts. \<forall>p \<in> set cs. virtualsMade H1 p"
    using Cons.prems sameComps_virtuals [OF T(5)] by auto
  from Cons.IH [OF this, of "systems @ [T]"] obtain H' Ts where
    Ts: "splitSystems f parts (H1, systems @ [T]) = ok (H', (systems @ [T]) @ Ts)"
      "map mNodes Ts = map fst parts" "map mComponents Ts = map snd parts"
      "\<forall>T \<in> set Ts. mFrequencies T = initFrequency f" by blast
  show ?case
    by (rule exI [of _ H'], rule exI [of _ "T # Ts"]) (use T Ts nc in simp)
qed simp

section \<open>Distributing nodes and components\<close>

lemma pushAt_ok: "k < length xss \<Longrightarrow> pushAt k x xss = ok (xss[k := xss ! k @ [x]])"
  by (simp add: pushAt_def vec_at_def)

lemma splitNodes_ok:
  assumes "\<forall>n \<in> set ns. subnetOf s n < length xss"
  shows "splitNodes s ns xss = ok (map (\<lambda>k. xss ! k @ map Some (filter (\<lambda>n. subnetOf s n = k) ns)) [0..<length xss])"
  using assms
proof (induction ns arbitrary: xss)
  case Nil
  then show ?case by (simp add: map_nth)
next
  case (Cons n ns)
  let ?k = "subnetOf s n"
  let ?x = "xss[?k := xss ! ?k @ [Some n]]"
  have "splitNodes s (n # ns) xss = splitNodes s ns ?x" using Cons.prems by (simp add: pushAt_ok)
  also have "\<dots> = ok (map (\<lambda>k. ?x ! k @ map Some (filter (\<lambda>n. subnetOf s n = k) ns)) [0..<length ?x])"
    using Cons.prems by (intro Cons.IH) simp
  also have "\<dots> = ok (map (\<lambda>k. xss ! k @ map Some (filter (\<lambda>n. subnetOf s n = k) (n # ns))) [0..<length xss])"
    by (auto simp: nth_list_update)
  finally show ?case .
qed

text \<open>The part a component goes to.\<close>

definition partOf :: "var_type \<Rightarrow> store \<Rightarrow> subnets \<Rightarrow> nat \<Rightarrow> nat option" where
  "partOf v H s p = (case castPower v H p of
       None \<Rightarrow> Some 0
     | Some q \<Rightarrow> (case firstOffGround H (compAt H q) [0..<mNumTerminals (compAt H q)] of
           Inr (Some n) \<Rightarrow> Some (subnetOf s n) | _ \<Rightarrow> None))"

lemma splitComps_ok:
  assumes "\<forall>p \<in> set ps. \<forall>k. partOf v H s p = Some k \<longrightarrow> k < length xss"
    and "\<forall>p \<in> set ps. castPower v H p \<noteq> None \<longrightarrow>
      (\<exists>r. firstOffGround H (compAt H p) [0..<mNumTerminals (compAt H p)] = ok r)"
  shows "splitComps v H s ps xss = ok (map (\<lambda>k. xss ! k @ filter (\<lambda>p. partOf v H s p = Some k) ps) [0..<length xss])"
  using assms
proof (induction ps arbitrary: xss)
  case Nil
  then show ?case by (simp add: map_nth)
next
  case (Cons p ps)
  let ?next = "\<lambda>x. map (\<lambda>k. x ! k @ filter (\<lambda>p. partOf v H s p = Some k) ps) [0..<length x]"
  have IH: "splitComps v H s ps x = ok (?next x)" if "length x = length xss" for x
    using Cons.prems that by (intro Cons.IH) simp_all
  show ?case
  proof (cases "partOf v H s p")
    case None
    then have "splitComps v H s (p # ps) xss = splitComps v H s ps xss"
      using Cons.prems(2) by (auto simp: partOf_def castPower_def split: if_splits option.splits)
    then show ?thesis using IH [of xss] None by simp
  next
    case (Some k)
    then have k: "k < length xss" using Cons.prems(1) by simp
    let ?x = "xss[k := xss ! k @ [p]]"
    have "splitComps v H s (p # ps) xss = bind_err (pushAt k p xss) (splitComps v H s ps)"
      using Some by (auto simp: partOf_def split: option.splits sum.splits)
    also have "\<dots> = ok (?next ?x)" using IH [of ?x] k by (simp add: pushAt_ok)
    also have "\<dots> = ok (map (\<lambda>k. xss ! k @ filter (\<lambda>p. partOf v H s p = Some k) (p # ps)) [0..<length xss])"
      using Some by (auto simp: nth_list_update)
    finally show ?thesis .
  qed
qed

lemma firstOffGround_ok:
  assumes "\<forall>i \<in> set is. \<exists>a. compNode c i = ok (Some a)"
  shows "\<exists>r. firstOffGround H c is = ok r
     \<and> (\<forall>a. r = Some a \<longrightarrow> \<not> isGround (nodeAt H a) \<and> (\<exists>i \<in> set is. compNode c i = ok (Some a)))
     \<and> (r = None \<longrightarrow> (\<forall>i \<in> set is. \<forall>a. compNode c i = ok (Some a) \<longrightarrow> isGround (nodeAt H a)))"
  using assms
proof (induction "is")
  case (Cons i "is")
  obtain a where a: "compNode c i = ok (Some a)" using Cons.prems by auto
  then have ref: "compNodeRef c i = ok a" by (simp add: compNodeRef_def)
  show ?case
  proof (cases "isGround (nodeAt H a)")
    case True
    then show ?thesis using Cons ref a by auto
  next
    case False
    then show ?thesis using ref a by auto
  qed
qed simp

section \<open>The parts\<close>

definition splittable :: "var_type \<Rightarrow> store \<Rightarrow> topology \<Rightarrow> bool" where
  "splittable v H T \<longleftrightarrow> connectedNet v H T \<and> netNodes v H T \<noteq> []
     \<and> (\<forall>p \<in> set (mComponents T). virtualsMade H p
          \<and> (castPower v H p \<noteq> None \<longrightarrow> terminalNumberConnected (compAt H p) = mNumTerminals (compAt H p)))"

text \<open>The nodes off ground a component is connected to.\<close>

definition offGround :: "store \<Rightarrow> nat \<Rightarrow> nat set" where
  "offGround H p = {a. \<not> isGround (nodeAt H a) \<and> (\<exists>i < mNumTerminals (compAt H p). compNode (compAt H p) i = ok (Some a))}"

lemma offGround_linked:
  assumes "castPower v H p \<noteq> None" "p \<in> set ps" "a \<in> offGround H p" "b \<in> offGround H p"
    and "terminalNumberConnected (compAt H p) = mNumTerminals (compAt H p)"
  shows "(a, b) \<in> (netLinks v H ps)\<^sup>*"
proof (cases "a = b")
  case False
  from assms(3,4) obtain i j where ij: "i < mNumTerminals (compAt H p)" "compNode (compAt H p) i = ok (Some a)"
    "j < mNumTerminals (compAt H p)" "compNode (compAt H p) j = ok (Some b)"
    "\<not> isGround (nodeAt H a)" "\<not> isGround (nodeAt H b)"
    by (auto simp: offGround_def)
  have "i \<noteq> j" using False ij(2,4) by auto
  then have "(a, b) \<in> compLinks H (compAt H p)" using ij assms(5) unfolding compLinks_def by auto
  then have "(a, b) \<in> netLinks v H ps" using assms(1,2) unfolding netLinks_def by blast
  then show ?thesis by blast
qed simp

lemma splittable_offGround:
  assumes "splittable v H T" "p \<in> set (mComponents T)" "castPower v H p \<noteq> None"
  shows "\<forall>i < mNumTerminals (compAt H p). \<exists>a. compNode (compAt H p) i = ok (Some a)"
    and "offGround H p \<subseteq> set (netNodes v H T)"
proof -
  have tn: "terminalNumberConnected (compAt H p) = mNumTerminals (compAt H p)"
    using assms unfolding splittable_def by blast
  have c: "\<forall>i < terminalNumberConnected (compAt H p). \<exists>a. compNode (compAt H p) i = ok (Some a)
      \<and> (isGround (nodeAt H a) \<or> a \<in> set (netNodes v H T))"
    using assms unfolding splittable_def connectedNet_def by blast
  then show "\<forall>i < mNumTerminals (compAt H p). \<exists>a. compNode (compAt H p) i = ok (Some a)"
    unfolding tn by blast
  show "offGround H p \<subseteq> set (netNodes v H T)"
    using c unfolding tn offGround_def by auto
qed

lemma partOf_spec:
  assumes "splittable v H T" "p \<in> set (mComponents T)" "castPower v H p \<noteq> None"
  shows "\<exists>r. firstOffGround H (compAt H p) [0..<mNumTerminals (compAt H p)] = ok r"
    and "partOf v H s p = Some k \<Longrightarrow> \<exists>a \<in> offGround H p. subnetOf s a = k"
    and "partOf v H s p = None \<longleftrightarrow> offGround H p = {}"
proof -
  have cp: "castPower v H p = Some p" using assms(3) by (auto simp: castPower_def split: if_splits)
  have "\<forall>i \<in> set [0..<mNumTerminals (compAt H p)]. \<exists>a. compNode (compAt H p) i = ok (Some a)"
    using splittable_offGround(1) [OF assms] by simp
  from firstOffGround_ok [OF this, of H] obtain r where
    r0: "firstOffGround H (compAt H p) [0..<mNumTerminals (compAt H p)] = ok r"
      "\<forall>a. r = Some a \<longrightarrow> \<not> isGround (nodeAt H a)
         \<and> (\<exists>i \<in> set [0..<mNumTerminals (compAt H p)]. compNode (compAt H p) i = ok (Some a))"
      "r = None \<longrightarrow> (\<forall>i \<in> set [0..<mNumTerminals (compAt H p)]. \<forall>a.
         compNode (compAt H p) i = ok (Some a) \<longrightarrow> isGround (nodeAt H a))" by blast
  have r: "firstOffGround H (compAt H p) [0..<mNumTerminals (compAt H p)] = ok r"
      "\<forall>a. r = Some a \<longrightarrow> a \<in> offGround H p" "r = None \<longrightarrow> offGround H p = {}"
  proof -
    show "\<forall>a. r = Some a \<longrightarrow> a \<in> offGround H p"
    proof (intro allI impI)
      fix a assume "r = Some a"
      with r0(2) obtain i where "\<not> isGround (nodeAt H a)" "i \<in> set [0..<mNumTerminals (compAt H p)]"
        "compNode (compAt H p) i = ok (Some a)" by blast
      then show "a \<in> offGround H p" unfolding offGround_def by auto
    qed
    show "r = None \<longrightarrow> offGround H p = {}" using r0(3) unfolding offGround_def by auto
  qed (rule r0(1))
  show "\<exists>r. firstOffGround H (compAt H p) [0..<mNumTerminals (compAt H p)] = ok r" using r(1) by blast
  show "\<exists>a \<in> offGround H p. subnetOf s a = k" if "partOf v H s p = Some k"
    using that r(1,2) cp by (auto simp: partOf_def split: option.splits)
  show "partOf v H s p = None \<longleftrightarrow> offGround H p = {}"
    using r cp by (cases r) (auto simp: partOf_def)
qed

lemma splitSubnets_parts:
  assumes "splittable v H T" "checkTopologySubnets v H T [] = Some (ok (s, n))" "n \<noteq> 1" "0 < n"
    and "dom (map_of s) = set (netNodes v H T)" "ran (map_of s) = {..<n}"
  shows "\<exists>H' Ts. splitSubnets v H T [] = Some (ok (H', Ts)) \<and> length Ts = n
     \<and> (\<forall>k < n. mNodes (Ts ! k) = map Some (filter (\<lambda>x. subnetOf s x = k) (netNodes v H T))
          \<and> mComponents (Ts ! k) = filter (\<lambda>p. partOf v H s p = Some k) (mComponents T))"
proof -
  have below: "subnetOf s x < n" if "x \<in> set (netNodes v H T)" for x
  proof -
    from that assms(5) obtain k where "map_of s x = Some k" by blast
    moreover from this have "k < n" using assms(6) by (auto dest: ranI)
    ultimately show ?thesis by (simp add: subnetOf_def)
  qed
  have nodes: "splitNodes s (netNodes v H T) (replicate n [])
      = ok (map (\<lambda>k. map Some (filter (\<lambda>x. subnetOf s x = k) (netNodes v H T))) [0..<n])"
    using splitNodes_ok [of "netNodes v H T" s "replicate n []"] below by (auto cong: map_cong)
  have "k < n" if p: "p \<in> set (mComponents T)" and k: "partOf v H s p = Some k" for p k
  proof (cases "castPower v H p = None")
    case True
    then show ?thesis using k assms(4) by (simp add: partOf_def)
  next
    case False
    from partOf_spec(2) [OF assms(1) p False k] obtain a where "a \<in> offGround H p" "subnetOf s a = k" by blast
    then show ?thesis using below splittable_offGround(2) [OF assms(1) p False] by blast
  qed
  then have comps: "splitComps v H s (mComponents T) (replicate n [])
      = ok (map (\<lambda>k. filter (\<lambda>p. partOf v H s p = Some k) (mComponents T)) [0..<n])"
    using splitComps_ok [of "mComponents T" v H s "replicate n []"] partOf_spec(1) [OF assms(1)]
    by (auto cong: map_cong)
  let ?parts = "zip (map (\<lambda>k. map Some (filter (\<lambda>x. subnetOf s x = k) (netNodes v H T))) [0..<n])
     (map (\<lambda>k. filter (\<lambda>p. partOf v H s p = Some k) (mComponents T)) [0..<n])"
  have "\<forall>(ns, cs) \<in> set ?parts. \<forall>p \<in> set cs. virtualsMade H p"
    using assms(1) by (auto simp: splittable_def set_zip)
  from splitSystems_ok [OF this, where f = "mSystemFrequency T" and systems = "[]"] obtain H' Ts where
    Ts: "splitSystems (mSystemFrequency T) ?parts (H, []) = ok (H', Ts)"
      "map mNodes Ts = map fst ?parts" "map mComponents Ts = map snd ?parts" by auto
  have len: "length Ts = n" using map_eq_imp_length_eq [OF Ts(2)] by simp
  have "mNodes (Ts ! k) = fst (?parts ! k) \<and> mComponents (Ts ! k) = snd (?parts ! k)" if "k < n" for k
    using arg_cong [OF Ts(2), of "\<lambda>xs. xs ! k"] arg_cong [OF Ts(3), of "\<lambda>xs. xs ! k"] len that by simp
  then have "\<forall>k < n. mNodes (Ts ! k) = map Some (filter (\<lambda>x. subnetOf s x = k) (netNodes v H T))
          \<and> mComponents (Ts ! k) = filter (\<lambda>p. partOf v H s p = Some k) (mComponents T)" by simp
  moreover have "splitSubnets v H T [] = Some (ok (H', Ts))"
    using assms(2,3) nodes comps Ts(1) by (simp add: splitSubnets_def)
  ultimately show ?thesis using len by blast
qed

text \<open>C25. A network with connected components splits exactly when its nodes off ground are not all
  connected.  If they are, it is returned as it is.  Otherwise every node off ground is in exactly
  one part, no part is without one, two nodes are in the same part exactly when components connect them
  without passing through ground, a power component with a node off ground is in exactly one part, the
  one that holds all its nodes off ground, a power component at ground only is in no part, and a
  signal component is in the first part only.\<close>

theorem split_subnets_partition:
  assumes "splittable v H T"
  shows "\<exists>H' Ts. splitSubnets v H T [] = Some (ok (H', Ts))
    \<and> (if \<forall>x \<in> set (netNodes v H T). \<forall>y \<in> set (netNodes v H T). (x, y) \<in> (netLinks v H (mComponents T))\<^sup>*
       then H' = H \<and> Ts = [T]
       else 1 < length Ts
    \<and> (\<forall>x \<in> set (netNodes v H T). \<exists>!k. k < length Ts \<and> Some x \<in> set (mNodes (Ts ! k)))
    \<and> (\<forall>k < length Ts. set (mNodes (Ts ! k)) \<noteq> {} \<and> set (mNodes (Ts ! k)) \<subseteq> Some ` set (netNodes v H T))
    \<and> (\<forall>x \<in> set (netNodes v H T). \<forall>y \<in> set (netNodes v H T).
         (\<exists>k < length Ts. Some x \<in> set (mNodes (Ts ! k)) \<and> Some y \<in> set (mNodes (Ts ! k)))
           \<longleftrightarrow> (x, y) \<in> (netLinks v H (mComponents T))\<^sup>*)
    \<and> (\<forall>p \<in> set (mComponents T). castPower v H p \<noteq> None \<longrightarrow>
         (if offGround H p = {} then \<forall>k < length Ts. p \<notin> set (mComponents (Ts ! k))
          else \<exists>!k. k < length Ts \<and> p \<in> set (mComponents (Ts ! k))
                 \<and> Some ` offGround H p \<subseteq> set (mNodes (Ts ! k))))
    \<and> (\<forall>p \<in> set (mComponents T). castPower v H p = None \<longrightarrow>
         (\<forall>k < length Ts. p \<in> set (mComponents (Ts ! k)) \<longleftrightarrow> k = 0)))"
proof -
  let ?ns = "netNodes v H T" and ?L = "netLinks v H (mComponents T)"
  have conn: "connectedNet v H T" using assms by (simp add: splittable_def)
  obtain s n where s: "checkTopologySubnets v H T [] = Some (ok (s, n))" "dom (map_of s) = set ?ns"
    "ran (map_of s) = {..<n}"
    "\<And>x y. x \<in> set ?ns \<Longrightarrow> y \<in> set ?ns \<Longrightarrow> map_of s x = map_of s y \<longleftrightarrow> (x, y) \<in> ?L\<^sup>*"
    using numbering_connected [OF conn] by blast
  obtain x0 where "x0 \<in> set ?ns" using assms unfolding splittable_def by (meson ex_in_conv set_empty)
  then have n0: "0 < n" using s(2,3) by (force simp: ran_def)
  have num: "map_of s x = Some (subnetOf s x)" "subnetOf s x < n" if "x \<in> set ?ns" for x
  proof -
    from that s(2) obtain k where k: "map_of s x = Some k" by blast
    then show "map_of s x = Some (subnetOf s x)" by (simp add: subnetOf_def)
    show "subnetOf s x < n" using k s(3) ranI [of "map_of s" x k] by (simp add: subnetOf_def)
  qed
  have same: "subnetOf s x = subnetOf s y \<longleftrightarrow> (x, y) \<in> ?L\<^sup>*" if "x \<in> set ?ns" "y \<in> set ?ns" for x y
    using s(4) [OF that] num(1) [OF that(1)] num(1) [OF that(2)] by simp
  have one: "(\<forall>x \<in> set ?ns. \<forall>y \<in> set ?ns. (x, y) \<in> ?L\<^sup>*) \<longleftrightarrow> n = 1"
  proof
    assume all: "\<forall>x \<in> set ?ns. \<forall>y \<in> set ?ns. (x, y) \<in> ?L\<^sup>*"
    have "k = subnetOf s x0" if "k < n" for k
    proof -
      have "k \<in> ran (map_of s)" using s(3) that by simp
      then obtain x where "map_of s x = Some k" by (auto simp: ran_def)
      then have x: "x \<in> set ?ns" "subnetOf s x = k" using s(2) by (blast, simp add: subnetOf_def)
      have "subnetOf s x = subnetOf s x0" using same [OF x(1) \<open>x0 \<in> set ?ns\<close>] all x(1) \<open>x0 \<in> set ?ns\<close> by blast
      with x(2) show ?thesis by (rule trans [OF sym])
    qed
    from this [of 0] this [of "n - 1"] n0 show "n = 1" by simp
  next
    assume "n = 1"
    then have "subnetOf s x = subnetOf s y" if "x \<in> set ?ns" "y \<in> set ?ns" for x y
      using num(2) [OF that(1)] num(2) [OF that(2)] by simp
    then show "\<forall>x \<in> set ?ns. \<forall>y \<in> set ?ns. (x, y) \<in> ?L\<^sup>*" using same by blast
  qed
  show ?thesis
  proof (cases "n = 1")
    case True
    then have "splitSubnets v H T [] = Some (ok (H, [T]))" using s(1) by (simp add: splitSubnets_def)
    then show ?thesis using one True by simp
  next
    case False
    then have cond: "\<not> (\<forall>x \<in> set ?ns. \<forall>y \<in> set ?ns. (x, y) \<in> ?L\<^sup>*)" using one by simp
    obtain H' Ts where Ts: "splitSubnets v H T [] = Some (ok (H', Ts))" "length Ts = n"
      "\<And>k. k < n \<Longrightarrow> mNodes (Ts ! k) = map Some (filter (\<lambda>x. subnetOf s x = k) ?ns)"
      "\<And>k. k < n \<Longrightarrow> mComponents (Ts ! k) = filter (\<lambda>p. partOf v H s p = Some k) (mComponents T)"
      using splitSubnets_parts [OF assms s(1) False n0 s(2,3)] by blast
    have node: "Some x \<in> set (mNodes (Ts ! k)) \<longleftrightarrow> subnetOf s x = k" if "x \<in> set ?ns" "k < n" for x k
      using that by (auto simp: Ts(3))
    have comp: "p \<in> set (mComponents (Ts ! k)) \<longleftrightarrow> partOf v H s p = Some k"
      if "p \<in> set (mComponents T)" "k < n" for p k using that by (auto simp: Ts(4))
    have c1: "\<exists>!k. k < length Ts \<and> Some x \<in> set (mNodes (Ts ! k))" if "x \<in> set ?ns" for x
      using node [OF that] num(2) [OF that] Ts(2) by auto
    have c2: "(\<exists>k < length Ts. Some x \<in> set (mNodes (Ts ! k)) \<and> Some y \<in> set (mNodes (Ts ! k)))
        \<longleftrightarrow> (x, y) \<in> ?L\<^sup>*" if "x \<in> set ?ns" "y \<in> set ?ns" for x y
      using node [OF that(1)] node [OF that(2)] num(2) [OF that(1)] same [OF that] Ts(2) by auto
    have c3: "if offGround H p = {} then \<forall>k < length Ts. p \<notin> set (mComponents (Ts ! k))
          else \<exists>!k. k < length Ts \<and> p \<in> set (mComponents (Ts ! k))
                 \<and> Some ` offGround H p \<subseteq> set (mNodes (Ts ! k))"
      if p: "p \<in> set (mComponents T)" "castPower v H p \<noteq> None" for p
    proof (cases "offGround H p = {}")
      case True
      then have "partOf v H s p = None" using partOf_spec(3) [OF assms p] by simp
      then show ?thesis using True comp [OF p(1)] Ts(2) by simp
    next
      case False
      then obtain k where k: "partOf v H s p = Some k" using partOf_spec(3) [OF assms p, of s] by auto
      obtain a where a: "a \<in> offGround H p" "subnetOf s a = k" using partOf_spec(2) [OF assms p k] by blast
      have in_ns: "offGround H p \<subseteq> set ?ns" by (rule splittable_offGround(2) [OF assms p])
      have kn: "k < n" using a in_ns num(2) by blast
      have "subnetOf s b = k" if "b \<in> offGround H p" for b
      proof -
        have tn: "terminalNumberConnected (compAt H p) = mNumTerminals (compAt H p)"
          using assms p unfolding splittable_def by blast
        have "a \<in> set ?ns" "b \<in> set ?ns" using a(1) that in_ns by blast+
        from same [OF this] offGround_linked [OF p(2,1) a(1) that tn] a(2) show ?thesis by simp
      qed
      then have "Some ` offGround H p \<subseteq> set (mNodes (Ts ! k))" using node kn in_ns by blast
      then show ?thesis using False comp [OF p(1)] k kn Ts(2) by auto
    qed
    have c4: "p \<in> set (mComponents (Ts ! k)) \<longleftrightarrow> k = 0"
      if p: "p \<in> set (mComponents T)" "castPower v H p = None" "k < length Ts" for p k
      using comp [OF p(1), of k] p(2,3) Ts(2) by (auto simp: partOf_def)
    have c5: "set (mNodes (Ts ! k)) \<noteq> {}" if k: "k < length Ts" for k
    proof -
      have "k \<in> ran (map_of s)" using s(3) k Ts(2) by simp
      then obtain x where x: "map_of s x = Some k" by (auto simp: ran_def)
      have "x \<in> set ?ns" using s(2) x by blast
      moreover have "subnetOf s x = k" using x by (simp add: subnetOf_def)
      ultimately have "Some x \<in> set (mNodes (Ts ! k))" using node k Ts(2) by simp
      then show ?thesis by (metis empty_iff)
    qed
    have c6: "set (mNodes (Ts ! k)) \<subseteq> Some ` set ?ns" if k: "k < length Ts" for k
    proof -
      have "mNodes (Ts ! k) = map Some (filter (\<lambda>x. subnetOf s x = k) ?ns)" using Ts(3) k Ts(2) by simp
      then show ?thesis by (simp only: set_map set_filter) blast
    qed
    have c0: "1 < length Ts" using False n0 Ts(2) by simp
    have r1: "\<forall>x \<in> set ?ns. \<exists>!k. k < length Ts \<and> Some x \<in> set (mNodes (Ts ! k))"
      by (rule ballI) (rule c1)
    have r2: "\<forall>k < length Ts. set (mNodes (Ts ! k)) \<noteq> {} \<and> set (mNodes (Ts ! k)) \<subseteq> Some ` set ?ns"
      by (intro allI impI conjI c5 c6)
    have r3: "\<forall>x \<in> set ?ns. \<forall>y \<in> set ?ns.
         (\<exists>k < length Ts. Some x \<in> set (mNodes (Ts ! k)) \<and> Some y \<in> set (mNodes (Ts ! k)))
           \<longleftrightarrow> (x, y) \<in> ?L\<^sup>*"
      by (intro ballI) (rule c2)
    have r4: "\<forall>p \<in> set (mComponents T). castPower v H p \<noteq> None \<longrightarrow>
         (if offGround H p = {} then \<forall>k < length Ts. p \<notin> set (mComponents (Ts ! k))
          else \<exists>!k. k < length Ts \<and> p \<in> set (mComponents (Ts ! k))
                 \<and> Some ` offGround H p \<subseteq> set (mNodes (Ts ! k)))"
      by (intro ballI impI) (rule c3)
    have r5: "\<forall>p \<in> set (mComponents T). castPower v H p = None \<longrightarrow>
         (\<forall>k < length Ts. p \<in> set (mComponents (Ts ! k)) \<longleftrightarrow> k = 0)"
      by (intro ballI impI allI) (rule c4)
    show ?thesis unfolding if_not_P [OF cond]
      by (rule exI [of _ H'], rule exI [of _ Ts]) (rule conjI [OF Ts(1) conjI [OF c0 conjI [OF r1
        conjI [OF r2 conjI [OF r3 conjI [OF r4 r5]]]]]])
  qed
qed

theorem split_subnets_partition_witness:
  "\<exists>H' Ts. splitSubnets ComplexVar demo_net (demo_topology [Some 0, Some 1, Some 2, Some 3] [0]) [] = Some (ok (H', Ts))
     \<and> 1 < length Ts \<and> (\<exists>!k. k < length Ts \<and> Some 3 \<in> set (mNodes (Ts ! k)))
     \<and> \<not> (\<exists>k < length Ts. Some 1 \<in> set (mNodes (Ts ! k)) \<and> Some 3 \<in> set (mNodes (Ts ! k)))"
proof -
  let ?T = "demo_topology [Some 0, Some 1, Some 2, Some 3] [0]"
  have ns: "netNodes ComplexVar demo_net ?T = [1, 2, 3]"
    using demo_net_facts(1) [of 0] demo_net_facts(1) [of 1] demo_net_facts(1) [of 2] demo_net_facts(1) [of 3]
      demo_net_facts(2) [of 0] demo_net_facts(2) [of 1] demo_net_facts(2) [of 2] demo_net_facts(2) [of 3]
    unfolding netNodes_def by simp
  have i2: "i < 2 \<longleftrightarrow> i = 0 \<or> i = 1" for i :: nat by auto
  have "connectedNet ComplexVar demo_net ?T"
    unfolding connectedNet_def ns using demo_net_facts(4,5,6) by (simp add: i2)
  moreover have "virtualsMade demo_net 0" "terminalNumberConnected demo_link = mNumTerminals demo_link"
    by (simp_all add: virtualsMade_def setTerminalNumber_def mkPowerComp_def terminalNumberConnected_def)
  ultimately have sp: "splittable ComplexVar demo_net ?T" unfolding splittable_def ns by simp
  have cl: "compLinks demo_net demo_link \<subseteq> {(1, 2), (2, 1)}"
  proof
    fix ab assume "ab \<in> compLinks demo_net demo_link"
    then obtain a b i j where ab: "ab = (a, b)" "i < 2" "j < 2" "i \<noteq> j"
      "compNode demo_link i = ok (Some a)" "compNode demo_link j = ok (Some b)"
      unfolding compLinks_def demo_net_facts(6) by blast
    from ab(2,3,4) have "i = 0 \<and> j = 1 \<or> i = 1 \<and> j = 0" by auto
    then show "ab \<in> {(1, 2), (2, 1)}" using ab(1,5,6) demo_net_facts(4,5) by auto
  qed
  have mc: "mComponents ?T = [0]" by simp
  have links: "netLinks ComplexVar demo_net (mComponents ?T) \<subseteq> {(1, 2), (2, 1)}"
    using cl unfolding netLinks_def mc by (simp add: Collect_conv_if)
  have "y \<in> {1, 2}" if "(1, y) \<in> (netLinks ComplexVar demo_net (mComponents ?T))\<^sup>*" for y
    using that by induction (use links in auto)
  then have n: "(1, 3) \<notin> (netLinks ComplexVar demo_net (mComponents ?T))\<^sup>*" by force
  have in13: "1 \<in> set (netNodes ComplexVar demo_net ?T)" "3 \<in> set (netNodes ComplexVar demo_net ?T)" unfolding ns by simp_all
  have c: "\<not> (\<forall>x \<in> set (netNodes ComplexVar demo_net ?T). \<forall>y \<in> set (netNodes ComplexVar demo_net ?T).
      (x, y) \<in> (netLinks ComplexVar demo_net (mComponents ?T))\<^sup>*)" using in13 n by blast
  obtain H' Ts where Ts: "splitSubnets ComplexVar demo_net ?T [] = Some (ok (H', Ts))" "1 < length Ts"
    "\<forall>x \<in> set (netNodes ComplexVar demo_net ?T). \<exists>!k. k < length Ts \<and> Some x \<in> set (mNodes (Ts ! k))"
    "\<forall>x \<in> set (netNodes ComplexVar demo_net ?T). \<forall>y \<in> set (netNodes ComplexVar demo_net ?T).
       (\<exists>k < length Ts. Some x \<in> set (mNodes (Ts ! k)) \<and> Some y \<in> set (mNodes (Ts ! k)))
         \<longleftrightarrow> (x, y) \<in> (netLinks ComplexVar demo_net (mComponents ?T))\<^sup>*"
    using split_subnets_partition [OF sp] unfolding if_not_P [OF c] by blast
  have "\<not> (\<exists>k < length Ts. Some 1 \<in> set (mNodes (Ts ! k)) \<and> Some 3 \<in> set (mNodes (Ts ! k)))"
    using Ts(4) in13 n by blast
  moreover have "\<exists>!k. k < length Ts \<and> Some 3 \<in> set (mNodes (Ts ! k))" using Ts(3) in13(2) by blast
  ultimately show ?thesis using Ts(1,2) by blast
qed

section \<open>Removing a node\<close>

definition removable :: "store \<Rightarrow> string \<Rightarrow> nat option \<Rightarrow> bool" where
  "removable H name p \<longleftrightarrow> (\<exists>q. p = Some q \<and> nodeName (nodeAt H q) = name \<and> \<not> isGround (nodeAt H q))"

definition touches :: "store \<Rightarrow> string \<Rightarrow> nat option list \<Rightarrow> nat \<Rightarrow> bool" where
  "touches H name ns p \<longleftrightarrow> (\<exists>q. Some q \<in> set ns \<and> removable H name (Some q) \<and> isConnectedTo H p q)"

lemma fold_removeAll: "fold removeAll rs xs = filter (\<lambda>x. x \<notin> set rs) xs"
  by (induction rs arbitrary: xs) (auto simp: removeAll_filter_not_eq intro!: filter_cong)

lemma removeNodeLoop_spec:
  assumes "None \<notin> set ps"
  shows "removeNodeLoop H name kept ps T = ok (T\<lparr>
      mNodes := kept @ filter (\<lambda>p. \<not> removable H name p) ps,
      mComponents := filter (\<lambda>p. \<not> touches H name ps p) (mComponents T),
      mTearComponents := filter (\<lambda>p. \<not> (p \<in> set (mComponents T) \<and> touches H name ps p)) (mTearComponents T)\<rparr>)"
  using assms
proof (induction ps arbitrary: kept T)
  case Nil
  have "touches H name [] p = False" for p by (simp add: touches_def)
  then show ?case by simp
next
  case (Cons p ps)
  obtain q where q: "p = Some q" using Cons.prems by (cases p) auto
  have np: "None \<notin> set ps" using Cons.prems by simp
  show ?case
  proof (cases "removable H name p")
    case False
    then have "touches H name (p # ps) = touches H name ps" by (auto simp: touches_def fun_eq_iff)
    moreover have "removeNodeLoop H name kept (p # ps) T = removeNodeLoop H name (kept @ [p]) ps T"
      using False q by (auto simp: removable_def)
    ultimately show ?thesis using Cons.IH [OF np, of "kept @ [p]" T] False by simp
  next
    case True
    let ?T = "removeComponentsConnectedTo H q T"
    have t: "touches H name (p # ps) x \<longleftrightarrow> isConnectedTo H x q \<or> touches H name ps x" for x
      using True q by (auto simp: touches_def)
    have "removeNodeLoop H name kept (p # ps) T = removeNodeLoop H name kept ps ?T"
      using True q by (simp add: removable_def)
    also have "\<dots> = ok (?T\<lparr>mNodes := kept @ filter (\<lambda>p. \<not> removable H name p) ps,
        mComponents := filter (\<lambda>p. \<not> touches H name ps p) (mComponents ?T),
        mTearComponents := filter (\<lambda>p. \<not> (p \<in> set (mComponents ?T) \<and> touches H name ps p)) (mTearComponents ?T)\<rparr>)"
      by (rule Cons.IH [OF np])
    also have "filter (\<lambda>p. \<not> touches H name ps p) (mComponents ?T)
        = filter (\<lambda>x. \<not> touches H name (p # ps) x) (mComponents T)"
      by (simp add: removeComponentsConnectedTo_def Let_def t conj_commute)
    also have "filter (\<lambda>p. \<not> (p \<in> set (mComponents ?T) \<and> touches H name ps p)) (mTearComponents ?T)
        = filter (\<lambda>x. \<not> (x \<in> set (mComponents T) \<and> touches H name (p # ps) x)) (mTearComponents T)"
      by (auto simp: removeComponentsConnectedTo_def Let_def t fold_removeAll intro!: filter_cong)
    finally show ?thesis using True by (simp add: removeComponentsConnectedTo_def Let_def)
  qed
qed

text \<open>Removing a node by name takes out every node of that name that is not ground, and
  every component with a terminal on one of them, and keeps all others in their order.  A
  tearing component goes with them only if it is also in the component list.\<close>

theorem remove_node_result:
  assumes "None \<notin> set (mNodes T)"
  shows "removeNode H name T = ok (T\<lparr>
      mNodes := filter (\<lambda>p. \<not> removable H name p) (mNodes T),
      mComponents := filter (\<lambda>p. \<not> touches H name (mNodes T) p) (mComponents T),
      mTearComponents := filter (\<lambda>p. \<not> (p \<in> set (mComponents T) \<and> touches H name (mNodes T) p)) (mTearComponents T)\<rparr>)"
  using removeNodeLoop_spec [OF assms, of H name "[]" T] by (simp add: removeNode_def)

theorem remove_node_result_witness:
  "\<exists>T. removeNode demo_net ''n'' (demo_topology [Some 0, Some 1] [0]) = ok T \<and> mNodes T = [Some 0]
     \<and> mComponents T = []"
proof -
  let ?T = "demo_topology [Some 0, Some 1] [0]"
  have r: "removable demo_net ''n'' (Some p) \<longleftrightarrow> p \<noteq> 0" for p
    by (simp add: removable_def mkSimNode_def groundNode_def)
  have "isConnectedTo demo_net 0 1"
    by (simp add: isConnectedTo_def isPower_def mkPowerComp_def setTerminalNumber_def topologicalTerminals_def)
  then have t: "touches demo_net ''n'' (mNodes ?T) 0" using r [of 1] unfolding touches_def by (intro exI [of _ 1]) simp
  have "None \<notin> set (mNodes ?T)" by simp
  from remove_node_result [OF this, of demo_net "''n''"] show ?thesis
    using r t by simp
qed

end
