(* ===== verification/PFComponents.thy ===== *)
theory PFComponents
  imports MatrixOps
begin

text \<open>The power flow sections of the single-phase components in dpsim-models/src/SP:
  parameters, per-unit conversion and the stamps of the branch elements into the bus
  admittance matrix.  A double that may be infinite or NaN is a \<open>bound\<close>; where the code
  tests a computed admittance with \<open>isFinite\<close>, the model tests the divisor it comes from,
  the base values being positive.  Logging is left out.\<close>

section \<open>Values that may not be finite\<close>

datatype bound = Finite real | NotFinite

definition isFiniteB :: "bound \<Rightarrow> bool" where
  "isFiniteB b = (case b of Finite _ \<Rightarrow> True | NotFinite \<Rightarrow> False)"

definition addB :: "bound \<Rightarrow> bound \<Rightarrow> bound" where
  "addB a b = (case (a, b) of (Finite x, Finite y) \<Rightarrow> Finite (x + y) | _ \<Rightarrow> NotFinite)"

definition divB :: "bound \<Rightarrow> real \<Rightarrow> bound" where
  "divB a r = (case a of Finite x \<Rightarrow> Finite (x / r) | NotFinite \<Rightarrow> NotFinite)"

datatype PowerflowBusType = PV | PQ | VD | NoBusType

section \<open>Generators\<close>

record generator =
  gen_P_set :: real
  gen_Q_set :: real
  gen_V_set :: real
  gen_P_pu :: real
  gen_Q_pu :: real
  gen_V_pu :: real
  gen_Q_max :: bound
  gen_Q_min :: bound
  gen_Q_max_pu :: bound
  gen_Q_min_pu :: bound
  gen_busType :: PowerflowBusType
  gen_baseVoltage :: real
  gen_baseS :: real

definition genSetParameters ::
  "real \<Rightarrow> real \<Rightarrow> PowerflowBusType \<Rightarrow> real \<Rightarrow> bound \<Rightarrow> bound \<Rightarrow> generator \<Rightarrow> generator" where
  "genSetParameters p v ty q qMax qMin g = g\<lparr>gen_P_set := p, gen_Q_set := q, gen_V_set := v,
     gen_Q_max := qMax, gen_Q_min := qMin, gen_busType := ty\<rparr>"

definition genPerUnit :: "real \<Rightarrow> generator \<Rightarrow> generator" where
  "genPerUnit baseS g = g\<lparr>gen_baseS := baseS,
     gen_P_pu := gen_P_set g / baseS, gen_Q_pu := gen_Q_set g / baseS,
     gen_V_pu := gen_V_set g / gen_baseVoltage g,
     gen_Q_max_pu := divB (gen_Q_max g) baseS, gen_Q_min_pu := divB (gen_Q_min g) baseS\<rparr>"

definition genModifyBusType :: "PowerflowBusType \<Rightarrow> generator \<Rightarrow> generator" where
  "genModifyBusType ty g = (if ty = NoBusType then g else g\<lparr>gen_busType := ty\<rparr>)"

definition genUpdateReactive :: "complex \<Rightarrow> generator \<Rightarrow> generator" where
  "genUpdateReactive s g = g\<lparr>gen_Q_set := Im s, gen_Q_pu := Im s / gen_baseS g\<rparr>"

definition genUpdatePower :: "complex \<Rightarrow> generator \<Rightarrow> generator" where
  "genUpdatePower s g = g\<lparr>gen_P_set := Re s, gen_P_pu := Re s / gen_baseS g,
     gen_Q_set := Im s, gen_Q_pu := Im s / gen_baseS g\<rparr>"

definition genApparentPower :: "generator \<Rightarrow> complex" where
  "genApparentPower g = Complex (gen_P_set g) (gen_Q_set g)"

section \<open>Loads\<close>

record load =
  ld_P :: real
  ld_Q :: real
  ld_P_pu :: real
  ld_Q_pu :: real
  ld_nomVoltage :: real
  ld_parametersSet :: bool
  ld_busType :: PowerflowBusType
  ld_useProfile :: bool
  ld_pqData :: "(real \<times> real \<times> real) list"
  ld_weights :: "(real \<times> real) list"
  ld_baseS :: real

definition loadSetParameters :: "real \<Rightarrow> real \<Rightarrow> real \<Rightarrow> load \<Rightarrow> load" where
  "loadSetParameters p q v l = l\<lparr>ld_P := p, ld_Q := q, ld_nomVoltage := v, ld_parametersSet := True\<rparr>"

definition loadPerUnit :: "real \<Rightarrow> load \<Rightarrow> load" where
  "loadPerUnit baseS l = l\<lparr>ld_baseS := baseS, ld_P_pu := ld_P l / baseS, ld_Q_pu := ld_Q l / baseS\<rparr>"

definition loadModifyBusType :: "PowerflowBusType \<Rightarrow> load \<Rightarrow> error + load" where
  "loadModifyBusType ty l = (case ty of
       PV \<Rightarrow> throw InvalidArgumentException
     | PQ \<Rightarrow> ok (l\<lparr>ld_busType := ty\<rparr>)
     | VD \<Rightarrow> throw InvalidArgumentException
     | NoBusType \<Rightarrow> ok l)"

text \<open>A time missing in the profile dereferences the end of the map; with weighting factors
  the code asks for the attributes P_nom and Q_nom, which a load does not have.\<close>

definition loadUpdatePQ :: "real \<Rightarrow> load \<Rightarrow> error + load" where
  "loadUpdatePQ time l =
     (if ld_weights l = []
      then (case map_of (ld_pqData l) time of
              None \<Rightarrow> throw UndefinedBehaviour
            | Some pq \<Rightarrow> ok (l\<lparr>ld_P := fst pq, ld_Q := snd pq\<rparr>))
      else (case map_of (ld_weights l) time of
              None \<Rightarrow> throw UndefinedBehaviour
            | Some _ \<Rightarrow> throw InvalidAttributeException))"

section \<open>External grid, shunt, inverter, solid state transformer\<close>

record extgrid =
  ext_V_set :: real
  ext_V_pu :: real
  ext_p_inj :: real
  ext_q_inj :: real
  ext_busType :: PowerflowBusType
  ext_baseVoltage :: real

definition extPerUnit :: "extgrid \<Rightarrow> extgrid" where
  "extPerUnit e = e\<lparr>ext_V_pu := ext_V_set e / ext_baseVoltage e\<rparr>"

definition extModifyBusType :: "PowerflowBusType \<Rightarrow> extgrid \<Rightarrow> extgrid" where
  "extModifyBusType ty e = e\<lparr>ext_busType := ty\<rparr>"

definition extUpdatePower :: "complex \<Rightarrow> extgrid \<Rightarrow> extgrid" where
  "extUpdatePower s e = e\<lparr>ext_p_inj := Re s, ext_q_inj := Im s\<rparr>"

record shunt =
  sh_G :: real
  sh_B :: real
  sh_G_pu :: real
  sh_B_pu :: real
  sh_baseVoltage :: real

definition shuntPerUnit :: "real \<Rightarrow> shunt \<Rightarrow> shunt" where
  "shuntPerUnit baseS s =
     (let baseImpedance = sh_baseVoltage s * sh_baseVoltage s / baseS;
          baseAdmittance = 1 / baseImpedance
      in s\<lparr>sh_G_pu := sh_G s / baseAdmittance, sh_B_pu := sh_B s / baseAdmittance\<rparr>)"

record vsi =
  vsi_P_ref :: real
  vsi_Q_ref :: real
  vsi_withTransformer :: bool
  vsi_primaryVoltage :: real
  vsi_Vnom :: real

definition vsiBaseVoltage :: "vsi \<Rightarrow> real" where
  "vsiBaseVoltage v = (if vsi_withTransformer v then vsi_primaryVoltage v else vsi_Vnom v)"

record sst =
  sst_Pref :: real
  sst_Q1ref :: real
  sst_Q2ref :: real
  sst_P2 :: bound
  sst_Pref_pu :: real
  sst_P2_pu :: bound
  sst_Q1ref_pu :: real
  sst_Q2ref_pu :: real

definition sstSetParameters :: "real \<Rightarrow> real \<Rightarrow> real \<Rightarrow> sst \<Rightarrow> sst" where
  "sstSetParameters p q1 q2 s =
     (let x = p * p + q1 * q1 - q2 * q2
      in s\<lparr>sst_Pref := p, sst_Q1ref := q1, sst_Q2ref := q2,
           sst_P2 := (if x < 0 then NotFinite else Finite (-1 * sqrt x))\<rparr>)"

definition sstCheck :: "sst \<Rightarrow> error + unit" where
  "sstCheck s = (case sst_P2 s of
       NotFinite \<Rightarrow> throw InvalidArgumentException
     | Finite p2 \<Rightarrow> if sst_Pref s * p2 > 0 then throw InvalidArgumentException else ok ())"

definition sstPerUnit :: "real \<Rightarrow> sst \<Rightarrow> sst" where
  "sstPerUnit baseS s = s\<lparr>sst_Pref_pu := sst_Pref s / baseS, sst_P2_pu := divB (sst_P2 s) baseS,
     sst_Q1ref_pu := sst_Q1ref s / baseS, sst_Q2ref_pu := sst_Q2ref s / baseS\<rparr>"

text \<open>\<open>name0\<close> and \<open>name1\<close> are the names of the nodes at the two terminals.\<close>

definition sstNodalInjection :: "string \<Rightarrow> string \<Rightarrow> string \<Rightarrow> sst \<Rightarrow> error + real \<times> real" where
  "sstNodalInjection name0 name1 name s =
     (if name = name0 then ok (sst_Pref_pu s, sst_Q1ref_pu s)
      else if name = name1
      then (case sst_P2_pu s of Finite p \<Rightarrow> ok (p, sst_Q2ref_pu s) | NotFinite \<Rightarrow> throw UndefinedBehaviour)
      else throw InvalidArgumentException)"

section \<open>Lines\<close>

datatype behaviour = Initialization | MNASimulation | PFSimulation

record line =
  ln_R :: real
  ln_L :: real
  ln_C :: real
  ln_G :: real
  ln_CFallback :: bool
  ln_GFallback :: bool
  ln_behaviour :: behaviour
  ln_baseVoltage :: real
  ln_baseS :: real
  ln_baseCurrent :: real
  ln_R_pu :: real
  ln_L_pu :: real
  ln_C_pu :: real
  ln_G_pu :: real
  ln_Y :: "complex matrix"
  ln_current :: "complex \<times> complex"
  ln_flow :: "complex \<times> complex"
  ln_injection :: complex

definition lineSetParameters :: "real \<Rightarrow> real \<Rightarrow> real \<Rightarrow> real \<Rightarrow> line \<Rightarrow> line" where
  "lineSetParameters r l c g n =
     (let n1 = n\<lparr>ln_R := r, ln_L := l\<rparr>;
          n2 = (if c > 0 then n1\<lparr>ln_C := c, ln_CFallback := False\<rparr>
                else n1\<lparr>ln_C := 1 / 10 ^ 12, ln_CFallback := True\<rparr>)
      in if g > 0 then n2\<lparr>ln_G := g, ln_GFallback := False\<rparr>
         else n2\<lparr>ln_G := (if ln_behaviour n2 = Initialization
                            then (if g \<ge> 0 then g else 1 / 10 ^ 6)
                            else (if g > 0 then g else 1 / 10 ^ 6)),
                 ln_GFallback := True\<rparr>)"

definition linePerUnit :: "real \<Rightarrow> real \<Rightarrow> line \<Rightarrow> line" where
  "linePerUnit baseS baseOmega n =
     (let baseImpedance = ln_baseVoltage n * ln_baseVoltage n / baseS;
          baseAdmittance = 1 / baseImpedance;
          baseInductance = baseImpedance / baseOmega;
          baseCapacitance = 1 / baseOmega / baseImpedance
      in n\<lparr>ln_baseS := baseS, ln_baseCurrent := baseS / (ln_baseVoltage n * sqrt 3),
           ln_R_pu := ln_R n / baseImpedance, ln_L_pu := ln_L n / baseInductance,
           ln_C_pu := ln_C n / baseCapacitance, ln_G_pu := ln_G n / baseAdmittance\<rparr>)"

text \<open>A two-by-two matrix, and adding it at two buses.\<close>

definition mat22 :: "complex \<Rightarrow> complex \<Rightarrow> complex \<Rightarrow> complex \<Rightarrow> complex matrix" where
  "mat22 a b c d = mkmat 2 2 (\<lambda>i j. if i = 0 then (if j = 0 then a else b) else (if j = 0 then c else d))"

definition addY :: "complex matrix \<Rightarrow> nat \<Rightarrow> nat \<Rightarrow> complex \<Rightarrow> complex matrix" where
  "addY Y i j x = setEnt Y i j (ent Y i j + x)"

definition stamp2 :: "nat \<Rightarrow> nat \<Rightarrow> complex matrix \<Rightarrow> complex matrix \<Rightarrow> complex matrix" where
  "stamp2 bus1 bus2 E Y = addY (addY (addY (addY Y bus1 bus1 (ent E 0 0)) bus1 bus2 (ent E 0 1))
     bus2 bus2 (ent E 1 1)) bus2 bus1 (ent E 1 0)"

definition lineElement :: "line \<Rightarrow> error + complex matrix" where
  "lineElement n =
     (let g = (if ln_behaviour n = PFSimulation \<and> ln_GFallback n then 0 else ln_G_pu n);
          c = (if ln_behaviour n = PFSimulation \<and> ln_CFallback n then 0 else ln_C_pu n);
          z = Complex (ln_R_pu n) (1 * ln_L_pu n);
          y = Complex 1 0 / z;
          ys = Complex g (1 * c) / Complex 2 0
      in if z = 0 then throw InvalidArgumentException else ok (mat22 (y + ys) (- y) (- y) (y + ys)))"

definition lineStamp :: "nat \<Rightarrow> nat \<Rightarrow> line \<Rightarrow> complex matrix \<Rightarrow> error + line \<times> complex matrix" where
  "lineStamp bus1 bus2 n Y = bind_err (lineElement n)
     (\<lambda>E. ok (n\<lparr>ln_Y := E\<rparr>, stamp2 bus1 bus2 E Y))"

definition lineUpdateBranchFlow :: "complex \<times> complex \<Rightarrow> complex \<times> complex \<Rightarrow> line \<Rightarrow> line" where
  "lineUpdateBranchFlow i s n = n\<lparr>ln_current := (fst i * of_real (ln_baseCurrent n), snd i * of_real (ln_baseCurrent n)),
     ln_flow := (fst s * of_real (ln_baseS n), snd s * of_real (ln_baseS n))\<rparr>"

definition lineStoreInjection :: "complex \<Rightarrow> line \<Rightarrow> line" where
  "lineStoreInjection s n = n\<lparr>ln_injection := Complex (Re s * ln_baseS n) (Im s * ln_baseS n)\<rparr>"

record rxline =
  rx_R :: real
  rx_L :: real
  rx_baseVoltage :: real
  rx_baseS :: real
  rx_baseCurrent :: real
  rx_R_pu :: real
  rx_L_pu :: real
  rx_Y :: "complex matrix"
  rx_current :: "complex \<times> complex"
  rx_flow :: "complex \<times> complex"
  rx_injection :: complex

definition rxPerUnit :: "real \<Rightarrow> real \<Rightarrow> rxline \<Rightarrow> rxline" where
  "rxPerUnit baseS baseOmega n =
     (let baseImpedance = rx_baseVoltage n * rx_baseVoltage n / baseS;
          baseInductance = baseImpedance / baseOmega
      in n\<lparr>rx_baseS := baseS, rx_baseCurrent := baseS / (rx_baseVoltage n * sqrt 3),
           rx_R_pu := rx_R n / baseImpedance, rx_L_pu := rx_L n / baseInductance\<rparr>)"

definition rxStamp :: "nat \<Rightarrow> nat \<Rightarrow> rxline \<Rightarrow> complex matrix \<Rightarrow> error + rxline \<times> complex matrix" where
  "rxStamp bus1 bus2 n Y =
     (let z = Complex (rx_R_pu n) (1 * rx_L_pu n); y = Complex 1 0 / z; E = mat22 y (- y) (- y) y
      in if z = 0 then throw InvalidArgumentException
         else ok (n\<lparr>rx_Y := E\<rparr>,
           addY (addY (addY (addY Y bus1 bus1 (ent E 0 0)) bus1 bus2 (ent E 0 1))
             bus2 bus1 (ent E 1 0)) bus2 bus2 (ent E 1 1)))"

definition rxUpdateBranchFlow :: "complex \<times> complex \<Rightarrow> complex \<times> complex \<Rightarrow> rxline \<Rightarrow> rxline" where
  "rxUpdateBranchFlow i s n = n\<lparr>rx_current := (fst i * of_real (rx_baseCurrent n), snd i * of_real (rx_baseCurrent n)),
     rx_flow := (fst s * of_real (rx_baseS n), snd s * of_real (rx_baseS n))\<rparr>"

definition rxStoreInjection :: "complex \<Rightarrow> rxline \<Rightarrow> rxline" where
  "rxStoreInjection s n = n\<lparr>rx_injection := Complex (Re s * rx_baseS n) (Im s * rx_baseS n)\<rparr>"

definition shuntStamp :: "nat \<Rightarrow> shunt \<Rightarrow> complex matrix \<Rightarrow> complex matrix" where
  "shuntStamp bus1 s Y = addY Y bus1 bus1 (Complex (sh_G_pu s) (sh_B_pu s))"

section \<open>Transformers\<close>

datatype WindingReference = Auto | Primary | Secondary | Tertiary

record trafo =
  tr_Vprim :: real
  tr_Vsec :: real
  tr_ratedPower :: real
  tr_ratio :: complex
  tr_R :: real
  tr_L :: real
  tr_ratioAbs :: real
  tr_ratioPhase :: real
  tr_reference :: WindingReference
  tr_behaviour :: behaviour
  tr_noLoadCurrent :: real
  tr_noLoadLoss :: real
  tr_referenceTerminal :: nat
  tr_ratioFromReference :: complex
  tr_orientation :: real
  tr_baseVoltage :: real
  tr_baseS :: real
  tr_baseCurrent :: real
  tr_leakage_pu :: complex
  tr_ratioAbs_pu :: real
  tr_ratio_pu :: complex
  tr_magnetizing_pu :: complex
  tr_Y :: "complex matrix"
  tr_current :: "complex \<times> complex"
  tr_flow :: "complex \<times> complex"
  tr_injection :: complex

definition nominalVoltageAt :: "trafo \<Rightarrow> nat \<Rightarrow> real" where
  "nominalVoltageAt t terminal = (if terminal = 0 then tr_Vprim t else tr_Vsec t)"

definition nonReferenceTerminal :: "trafo \<Rightarrow> nat" where
  "nonReferenceTerminal t = 1 - tr_referenceTerminal t"

definition trafoSetParameters :: "real \<Rightarrow> real \<Rightarrow> real \<Rightarrow> real \<Rightarrow> real \<Rightarrow> real \<Rightarrow> trafo \<Rightarrow> trafo" where
  "trafoSetParameters vPrim vSec ratioAbs ratioPhase r l t =
     (let ratio = polar ratioAbs ratioPhase
      in t\<lparr>tr_Vprim := vPrim, tr_Vsec := vSec, tr_ratio := ratio, tr_R := r, tr_L := l,
           tr_ratioAbs := cmod ratio, tr_ratioPhase := Arg ratio\<rparr>)"

definition trafoSetParametersRated ::
  "real \<Rightarrow> real \<Rightarrow> real \<Rightarrow> real \<Rightarrow> real \<Rightarrow> real \<Rightarrow> real \<Rightarrow> trafo \<Rightarrow> error + trafo" where
  "trafoSetParametersRated vPrim vSec ratedPower ratioAbs ratioPhase r l t =
     (if ratedPower < 0 then throw InvalidArgumentException
      else ok (trafoSetParameters vPrim vSec ratioAbs ratioPhase r l (t\<lparr>tr_ratedPower := ratedPower\<rparr>)))"

definition resolveWindingRoles :: "trafo \<Rightarrow> error + trafo" where
  "resolveWindingRoles t =
     bind_err (case tr_reference t of
         Primary \<Rightarrow> ok 0
       | Secondary \<Rightarrow> ok 1
       | Tertiary \<Rightarrow> throw InvalidArgumentException
       | Auto \<Rightarrow> ok (if tr_Vprim t \<ge> tr_Vsec t then 0 else 1))
     (\<lambda>k. ok (t\<lparr>tr_referenceTerminal := k,
        tr_ratioFromReference := (if k = 0 then tr_ratio t else 1 / tr_ratio t),
        tr_orientation := (if k = 0 then 1 else -1)\<rparr>))"

definition trafoPerUnit :: "real \<Rightarrow> real \<Rightarrow> trafo \<Rightarrow> error + trafo" where
  "trafoPerUnit baseS baseOmega t0 = bind_err (resolveWindingRoles t0) (\<lambda>t.
     let referenceVoltage = nominalVoltageAt t (tr_referenceTerminal t);
         otherVoltage = nominalVoltageAt t (nonReferenceTerminal t);
         baseVoltage = (if tr_baseVoltage t \<le> 0 then referenceVoltage
                        else if \<bar>tr_baseVoltage t - referenceVoltage\<bar> > 1 / 10 ^ 12 * referenceVoltage
                        then referenceVoltage else tr_baseVoltage t);
         baseImpedance = baseVoltage * baseVoltage / baseS;
         baseInductance = baseImpedance / baseOmega;
         magnetizingEnabled = (tr_behaviour t = Initialization \<or> tr_behaviour t = MNASimulation)
     in ok (t\<lparr>tr_baseS := baseS, tr_baseVoltage := baseVoltage,
          tr_baseCurrent := baseS / (baseVoltage * sqrt 3),
          tr_leakage_pu := Complex (tr_R t / baseImpedance) (1 * (tr_L t / baseInductance)),
          tr_ratioAbs_pu := tr_ratioAbs t / tr_Vprim t * tr_Vsec t,
          tr_ratio_pu := tr_ratioFromReference t / Complex (referenceVoltage / otherVoltage) 0,
          tr_magnetizing_pu :=
            (if magnetizingEnabled \<and> tr_ratedPower t > 0 \<and> tr_noLoadCurrent t > tr_noLoadLoss t
             then Complex (tr_noLoadLoss t) (- sqrt ((tr_noLoadCurrent t)\<^sup>2 - (tr_noLoadLoss t)\<^sup>2))
                    * of_real (tr_ratedPower t) / of_real (referenceVoltage\<^sup>2) * of_real baseImpedance
             else Complex 0 0)\<rparr>))"

definition trafoElement :: "trafo \<Rightarrow> error + complex matrix" where
  "trafoElement t =
     (let halfLeakage = tr_leakage_pu t / 2;
          det = tr_leakage_pu t + halfLeakage * halfLeakage * tr_magnetizing_pu t;
          yShunted = (1 + halfLeakage * tr_magnetizing_pu t) / det;
          ySeries = 1 / det
      in if det = 0 then throw InvalidArgumentException
         else ok (mat22 yShunted (- ySeries * tr_ratio_pu t) (- ySeries * cnj (tr_ratio_pu t))
                (yShunted * of_real ((cmod (tr_ratio_pu t))\<^sup>2))))"

text \<open>\<open>bus\<close> gives the matrix index of a terminal.\<close>

definition trafoStamp :: "(nat \<Rightarrow> nat) \<Rightarrow> trafo \<Rightarrow> complex matrix \<Rightarrow> error + trafo \<times> complex matrix" where
  "trafoStamp bus t Y = bind_err (trafoElement t)
     (\<lambda>E. ok (t\<lparr>tr_Y := E\<rparr>, stamp2 (bus (tr_referenceTerminal t)) (bus (nonReferenceTerminal t)) E Y))"

definition trafoUpdateBranchFlow :: "complex \<times> complex \<Rightarrow> complex \<times> complex \<Rightarrow> trafo \<Rightarrow> trafo" where
  "trafoUpdateBranchFlow i s t = t\<lparr>tr_current := (fst i * of_real (tr_baseCurrent t), snd i * of_real (tr_baseCurrent t)),
     tr_flow := (fst s * of_real (tr_baseS t), snd s * of_real (tr_baseS t))\<rparr>"

definition trafoStoreInjection :: "complex \<Rightarrow> trafo \<Rightarrow> trafo" where
  "trafoStoreInjection s t = t\<lparr>tr_injection := Complex (Re s * tr_baseS t) (Im s * tr_baseS t)\<rparr>"

section \<open>The equivalent circuits\<close>

lemma mat22_ent [simp]:
  "ent (mat22 a b c d) 0 0 = a" "ent (mat22 a b c d) 0 (Suc 0) = b"
  "ent (mat22 a b c d) (Suc 0) 0 = c" "ent (mat22 a b c d) (Suc 0) (Suc 0) = d"
  by (simp_all add: mat22_def)

text \<open>The element matrix of a transformer is that of its equivalent circuit: whatever
  the voltages at the two windings, the currents are those of the T circuit of half the
  leakage on either side of the magnetising admittance \<open>ym\<close> behind an ideal transformer,
  where \<open>um\<close> is the voltage in the middle.  A leakage that cancels is rejected.\<close>

theorem transformer_element_circuit:
  assumes "zl = tr_leakage_pu t / 2" "ym = tr_magnetizing_pu t" "zl \<noteq> 0"
  shows "case trafoElement t of
      Inl e \<Rightarrow> e = InvalidArgumentException \<and> 2 + zl * ym = 0
    | Inr E \<Rightarrow> \<exists>um. \<forall>i1 i2'.
        i1 = (u1 - um) / zl \<longrightarrow> i2' = (tr_ratio_pu t * u2 - um) / zl \<longrightarrow>
          i1 + i2' = ym * um
        \<and> ent E 0 0 * u1 + ent E 0 1 * u2 = i1
        \<and> ent E 1 0 * u1 + ent E 1 1 * u2 = cnj (tr_ratio_pu t) * i2'"
proof -
  let ?k = "tr_ratio_pu t"
  define d where "d = 2 + zl * ym"
  have l: "tr_leakage_pu t = 2 * zl" using assms(1) by (simp add: mult.commute)
  have det': "tr_leakage_pu t + zl * zl * ym = zl * d"
    unfolding l d_def by (simp add: algebra_simps)
  have el: "trafoElement t = (if zl * d = 0 then throw InvalidArgumentException
      else ok (mat22 ((1 + zl * ym) / (zl * d)) (- (1 / (zl * d)) * ?k) (- (1 / (zl * d)) * cnj ?k)
        ((1 + zl * ym) / (zl * d) * of_real ((cmod ?k)\<^sup>2))))"
    unfolding trafoElement_def Let_def assms(1)[symmetric] assms(2)[symmetric] det' by simp
  show ?thesis
  proof (cases "d = 0")
    case True
    then show ?thesis using el by (simp add: d_def)
  next
    case False
    define um where "um = (u1 + ?k * u2) / d"
    have sum: "(u1 - um) / zl + (?k * u2 - um) / zl = ym * um"
    proof -
      have "d * um = u1 + ?k * u2" using False by (simp add: um_def)
      then have "u1 + ?k * u2 - 2 * um = zl * ym * um" by (simp add: d_def algebra_simps)
      then have "(u1 - um) + (?k * u2 - um) = zl * (ym * um)" by (simp add: algebra_simps)
      then show ?thesis using assms(3) by (simp add: add_divide_distrib [symmetric] field_simps)
    qed
    have d1: "1 + zl * ym = d - 1" by (simp add: d_def)
    have one: "(1 + zl * ym) / (zl * d) * x - 1 / (zl * d) * y = (x - (x + y) / d) / zl" for x y :: complex
      unfolding d1 using False assms(3) by (simp add: divide_simps) (simp add: algebra_simps)
    have E1: "(1 + zl * ym) / (zl * d) * u1 + - (1 / (zl * d)) * ?k * u2 = (u1 - um) / zl"
      using one [of u1 "?k * u2"] by (simp add: um_def algebra_simps)
    have nk: "complex_of_real ((cmod ?k)\<^sup>2) = cnj ?k * ?k"
      by (subst complex_norm_square) (rule mult.commute)
    have E2: "- (1 / (zl * d)) * cnj ?k * u1 + (1 + zl * ym) / (zl * d) * of_real ((cmod ?k)\<^sup>2) * u2
        = cnj ?k * ((?k * u2 - um) / zl)"
    proof -
      have "- (1 / (zl * d)) * cnj ?k * u1 + (1 + zl * ym) / (zl * d) * of_real ((cmod ?k)\<^sup>2) * u2
          = cnj ?k * ((1 + zl * ym) / (zl * d) * (?k * u2) - 1 / (zl * d) * u1)"
        unfolding nk by (simp add: algebra_simps)
      then show ?thesis using one [of "?k * u2" u1] by (simp add: um_def add.commute)
    qed
    have "zl * d \<noteq> 0" using False assms(3) by simp
    then have E: "trafoElement t = ok (mat22 ((1 + zl * ym) / (zl * d)) (- (1 / (zl * d)) * ?k) (- (1 / (zl * d)) * cnj ?k)
        ((1 + zl * ym) / (zl * d) * of_real ((cmod ?k)\<^sup>2)))" by (simp only: el if_False)
    show ?thesis
      unfolding E sum.case
      by (intro exI [of _ um] allI impI conjI) (use sum E1 E2 in simp_all)
  qed
qed

definition demo_trafo :: trafo where
  "demo_trafo = \<lparr>tr_Vprim = 110, tr_Vsec = 20, tr_ratedPower = 10, tr_ratio = 5.5, tr_R = 0, tr_L = 1,
     tr_ratioAbs = 5.5, tr_ratioPhase = 0, tr_reference = Auto, tr_behaviour = PFSimulation,
     tr_noLoadCurrent = 0, tr_noLoadLoss = 0, tr_referenceTerminal = 0, tr_ratioFromReference = 5.5,
     tr_orientation = 1, tr_baseVoltage = 110, tr_baseS = 10, tr_baseCurrent = 1,
     tr_leakage_pu = 2 * \<i>, tr_ratioAbs_pu = 1, tr_ratio_pu = 1, tr_magnetizing_pu = - \<i>,
     tr_Y = mat22 0 0 0 0, tr_current = (0, 0), tr_flow = (0, 0), tr_injection = 0\<rparr>"

theorem transformer_element_circuit_witness:
  "\<exists>E um. trafoElement demo_trafo = ok E \<and> (\<i> :: complex) \<noteq> 0 \<and>
     (1 - um) / \<i> + (0 - um) / \<i> = - \<i> * um \<and> ent E 0 0 * 1 + ent E 0 1 * 0 = (1 - um) / \<i>"
proof -
  have z: "\<i> = tr_leakage_pu demo_trafo / 2" "- \<i> = tr_magnetizing_pu demo_trafo" "\<i> \<noteq> (0 :: complex)"
    by (simp_all add: demo_trafo_def)
  have two: "2 + \<i> * (- \<i>) \<noteq> (0 :: complex)" by simp
  show ?thesis
    using transformer_element_circuit [OF z, where ?u1.0 = 1 and ?u2.0 = 0] two
    by (cases "trafoElement demo_trafo") auto
qed

end
