(* ===== verification/PowerFlow.thy ===== *)
theory PowerFlow
  imports PFComponents Topology
begin

text \<open>dpsim/src/PFSolver.cpp: the part of the power flow solver that does not depend on the
  formulation.  The components of the network live in the store of theory Components; what
  the single-phase component classes add to it for the power flow is \<open>pfData\<close>, whose
  constructor is the class a \<open>std::dynamic_pointer_cast\<close> tests.  The members of the solver
  are the record \<open>pfsolver\<close>; the subclass with polar coordinates (theory PowerPolar) extends
  it.  Null node pointers and terminals are dereferenced in the first loops of \<open>initialize\<close>;
  the loops after them run over the nodes themselves.\<close>

section \<open>The state of the solver\<close>

datatype pfcomp =
    GenComp generator | LoadComp load | TrafoComp trafo | LineComp line | ExtComp extgrid
  | ShuntComp shunt | SstComp sst | VsiComp vsi | RxComp rxline | OtherComp

record pfsolver =
  heap :: store
  mSystem :: topology
  pfData :: "nat \<Rightarrow> pfcomp"
  mSubCompCreated :: "nat set"
  mSynchronGenerators :: "nat list"
  mLoads :: "nat list"
  mTransformers :: "nat list"
  mLines :: "nat list"
  mExternalGrids :: "nat list"
  mShunts :: "nat list"
  mSolidStateTransformers :: "nat list"
  mAverageVoltageSourceInverters :: "nat list"
  mPQBuses :: "nat list"
  mPVBuses :: "nat list"
  mVDBuses :: "nat list"
  mPQBusesOrig :: "nat list"
  mPVBusesOrig :: "nat list"
  mPQBusIndices :: "nat list"
  mPVBusIndices :: "nat list"
  mVDBusIndices :: "nat list"
  mPQPVBusIndices :: "nat list"
  mNumPQBuses :: nat
  mNumPVBuses :: nat
  mNumVDBuses :: nat
  mNumUnknowns :: nat
  mY :: "complex matrix"
  mJ :: "real matrix"
  mX :: "nat \<Rightarrow> bound"
  mF :: "nat \<Rightarrow> bound"
  mBaseVoltageAtNode :: "nat \<rightharpoonup> real"
  mTolerance :: real
  mMaxIterations :: nat
  mIterations :: nat
  mEnforceReactiveLimits :: bool
  mMaxOuterIterations :: nat
  mMaxQLimitSwitchesPerBus :: nat
  mBaseVoltageLooseTolerance :: real
  mBaseVoltageStrictTolerance :: real
  mBaseApparentPower :: real
  mBaseApparentPowerFallback :: real
  isConverged :: bool
  mKeepLastSolution :: bool
  mInitFromNodesAndTerminals :: bool

definition setPf :: "nat \<Rightarrow> pfcomp \<Rightarrow> 'a pfsolver_scheme \<Rightarrow> 'a pfsolver_scheme" where
  "setPf p d S = S\<lparr>pfData := (pfData S)(p := d)\<rparr>"

text \<open>The bus nodes in order, the components at a node, and the index of a node.\<close>

definition pfNodes :: "'a pfsolver_scheme \<Rightarrow> nat list" where
  "pfNodes S = concat (map (\<lambda>p. case p of None \<Rightarrow> [] | Some q \<Rightarrow> [q]) (mNodes (mSystem S)))"

definition numNodes :: "'a pfsolver_scheme \<Rightarrow> nat" where
  "numNodes S = length (mNodes (mSystem S))"

definition compsAt :: "'a pfsolver_scheme \<Rightarrow> nat \<Rightarrow> nat list" where
  "compsAt S p = edges_at (mComponentsAtNode (mSystem S)) (Some p)"

definition busIndex :: "'a pfsolver_scheme \<Rightarrow> nat \<Rightarrow> nat" where
  "busIndex S p = (case matrixNodeIndex (nodeAt (heap S) p) PhaseSingle of Inl _ \<Rightarrow> 0 | Inr k \<Rightarrow> k)"

section \<open>Sorting the components by class\<close>

definition registerComp :: "nat \<Rightarrow> 'a pfsolver_scheme \<Rightarrow> 'a pfsolver_scheme" where
  "registerComp p S = (case pfData S p of
       GenComp _ \<Rightarrow> S\<lparr>mSynchronGenerators := mSynchronGenerators S @ [p]\<rparr>
     | LoadComp _ \<Rightarrow> S\<lparr>mLoads := mLoads S @ [p]\<rparr>
     | TrafoComp _ \<Rightarrow> S\<lparr>mTransformers := mTransformers S @ [p]\<rparr>
     | LineComp _ \<Rightarrow> S\<lparr>mLines := mLines S @ [p]\<rparr>
     | ExtComp _ \<Rightarrow> S\<lparr>mExternalGrids := mExternalGrids S @ [p]\<rparr>
     | ShuntComp _ \<Rightarrow> S\<lparr>mShunts := mShunts S @ [p]\<rparr>
     | SstComp _ \<Rightarrow> S\<lparr>mSolidStateTransformers := mSolidStateTransformers S @ [p]\<rparr>
     | VsiComp _ \<Rightarrow> S\<lparr>mAverageVoltageSourceInverters := mAverageVoltageSourceInverters S @ [p]\<rparr>
     | RxComp _ \<Rightarrow> S
     | OtherComp \<Rightarrow> S)"

section \<open>Base power and matrix indices\<close>

text \<open>The running maximum of the code, over the set points or over the rated powers.\<close>

definition maxOver :: "real list \<Rightarrow> real" where
  "maxOver xs = fold (\<lambda>x m. if x > m then x else m) xs 0"

definition genPowerOf :: "'a pfsolver_scheme \<Rightarrow> nat \<Rightarrow> real" where
  "genPowerOf S p = (case pfData S p of GenComp g \<Rightarrow> \<bar>gen_P_set g\<bar> | _ \<Rightarrow> 0)"

definition trafoPowerOf :: "'a pfsolver_scheme \<Rightarrow> nat \<Rightarrow> real" where
  "trafoPowerOf S p = (case pfData S p of TrafoComp t \<Rightarrow> tr_ratedPower t | _ \<Rightarrow> 0)"

definition setBaseApparentPower :: "'a pfsolver_scheme \<Rightarrow> 'a pfsolver_scheme" where
  "setBaseApparentPower S =
     (let maxPower = (if mSynchronGenerators S \<noteq> [] then maxOver (map (genPowerOf S) (mSynchronGenerators S))
                      else if mTransformers S \<noteq> [] then maxOver (map (trafoPowerOf S) (mTransformers S))
                      else 0)
      in S\<lparr>mBaseApparentPower := (if maxPower \<noteq> 0 then 10 powr (1 + of_int \<lfloor>log 10 maxPower\<rfloor>)
                                  else mBaseApparentPowerFallback S)\<rparr>)"

primrec assignIndices :: "nat \<Rightarrow> nat option list \<Rightarrow> store \<Rightarrow> error + store" where
  "assignIndices k [] H = ok H"
| "assignIndices k (p # ps) H = (case p of None \<Rightarrow> throw UndefinedBehaviour
     | Some q \<Rightarrow> bind_err (setMatrixNodeIndex 0 k (nodeAt H q))
         (\<lambda>n. assignIndices (k + 1) ps (updNode q (\<lambda>_. n) H)))"

definition assignMatrixNodeIndices :: "'a pfsolver_scheme \<Rightarrow> error + 'a pfsolver_scheme" where
  "assignMatrixNodeIndices S =
     bind_err (assignIndices 0 (mNodes (mSystem S)) (heap S)) (\<lambda>H. ok (S\<lparr>heap := H\<rparr>))"

section \<open>Initialising the components\<close>

text \<open>The cast of a component that is not a complex power component gives a null pointer,
  which the code dereferences.\<close>

definition updateCompIndices :: "nat \<Rightarrow> 'a pfsolver_scheme \<Rightarrow> error + 'a pfsolver_scheme" where
  "updateCompIndices p S = (case castPower ComplexVar (heap S) p of
       None \<Rightarrow> throw UndefinedBehaviour
     | Some q \<Rightarrow> bind_err (updateMatrixNodeIndices (heap S) (compAt (heap S) q))
         (\<lambda>c. ok (S\<lparr>heap := setComp q c (heap S)\<rparr>)))"

text \<open>\<open>initializeFromNodesAndTerminals\<close> of the component classes, in so far as it changes
  what the power flow reads or throws.\<close>

definition loadInitialize :: "store \<Rightarrow> comp \<Rightarrow> load \<Rightarrow> error + load" where
  "loadInitialize H c l =
     (if ld_parametersSet l then ok l
      else bind_err (vec_at (mTerminals c) 0) (\<lambda>t. case t of
          None \<Rightarrow> throw UndefinedBehaviour
        | Some t \<Rightarrow> bind_err (termInitialSingleVoltage H t)
            (\<lambda>u. ok (loadSetParameters (singleActivePower t) (singleReactivePower t) (cmod u) l))))"

definition trafoCreateSub :: "trafo \<Rightarrow> error + trafo" where
  "trafoCreateSub t0 = bind_err (resolveWindingRoles t0) (\<lambda>t.
     if (tr_behaviour t = Initialization \<or> tr_behaviour t = MNASimulation)
        \<and> \<not> tr_ratedPower t \<le> 0 \<and> tr_noLoadCurrent t \<le> tr_noLoadLoss t
     then throw InvalidArgumentException else ok t)"

definition lineCreateSub :: "line \<Rightarrow> line" where
  "lineCreateSub n = n\<lparr>ln_G := (if ln_G n \<ge> 0 then ln_G n else 1 / 10 ^ 6)\<rparr>"

definition initFromNodes :: "nat \<Rightarrow> 'a pfsolver_scheme \<Rightarrow> error + 'a pfsolver_scheme" where
  "initFromNodes p S =
     (let S1 = S\<lparr>mSubCompCreated := insert p (mSubCompCreated S)\<rparr>;
          fresh = (p \<notin> mSubCompCreated S)
      in case pfData S p of
           LoadComp l \<Rightarrow> bind_err (loadInitialize (heap S) (compAt (heap S) p) l)
             (\<lambda>l. ok (setPf p (LoadComp l) S1))
         | TrafoComp t \<Rightarrow> (if fresh then bind_err (trafoCreateSub t) (\<lambda>t. ok (setPf p (TrafoComp t) S1)) else ok S1)
         | LineComp n \<Rightarrow> ok (if fresh then setPf p (LineComp (lineCreateSub n)) S1 else S1)
         | SstComp s \<Rightarrow> bind_err (sstCheck s) (\<lambda>_. ok S1)
         | _ \<Rightarrow> ok S1)"

definition perUnitOne :: "nat \<Rightarrow> 'a pfsolver_scheme \<Rightarrow> error + 'a pfsolver_scheme" where
  "perUnitOne p S =
     (let base = mBaseApparentPower S; omega = 2 * pi * mSystemFrequency (mSystem S)
      in case pfData S p of
           ExtComp e \<Rightarrow> ok (setPf p (ExtComp (extPerUnit e)) S)
         | LineComp n \<Rightarrow> ok (setPf p (LineComp (linePerUnit base omega n)) S)
         | TrafoComp t \<Rightarrow> bind_err (trafoPerUnit base omega t) (\<lambda>t. ok (setPf p (TrafoComp t) S))
         | ShuntComp s \<Rightarrow> ok (setPf p (ShuntComp (shuntPerUnit base s)) S)
         | LoadComp l \<Rightarrow> ok (setPf p (LoadComp (loadPerUnit base l)) S)
         | GenComp g \<Rightarrow> ok (setPf p (GenComp (genPerUnit base g)) S)
         | SstComp s \<Rightarrow> ok (setPf p (SstComp (sstPerUnit base s)) S)
         | _ \<Rightarrow> ok S)"

definition initializeComponents :: "'a pfsolver_scheme \<Rightarrow> error + 'a pfsolver_scheme" where
  "initializeComponents S0 =
     bind_err (foldE updateCompIndices (mComponents (mSystem S0)) S0) (\<lambda>S1.
     bind_err (if mInitFromNodesAndTerminals S1 then foldE initFromNodes (mComponents (mSystem S1)) S1 else ok S1) (\<lambda>S2.
     foldE perUnitOne (mExternalGrids S2 @ mLines S2 @ mTransformers S2 @ mShunts S2 @ mLoads S2
       @ mSynchronGenerators S2 @ mSolidStateTransformers S2) S2))"

section \<open>Bus types\<close>

text \<open>The three flags connectedPV, connectedPQ, connectedVD, as one component sets them.\<close>

definition markBusType :: "pfcomp \<Rightarrow> bool \<times> bool \<times> bool \<Rightarrow> bool \<times> bool \<times> bool" where
  "markBusType d flags = (case flags of (pv, pq, vd) \<Rightarrow> (case d of
       LoadComp l \<Rightarrow> if ld_busType l = PQ then (pv, True, vd) else flags
     | GenComp g \<Rightarrow>
         if gen_busType g = PV then (True, pq, vd)
         else if gen_busType g = VD then (pv, pq, True)
         else if gen_busType g = PQ then (pv, True, vd) else flags
     | ExtComp e \<Rightarrow>
         if ext_busType e = VD then (pv, pq, True)
         else if ext_busType e = PV then (True, pq, vd) else flags
     | _ \<Rightarrow> flags))"

definition busFlags :: "'a pfsolver_scheme \<Rightarrow> nat \<Rightarrow> bool \<times> bool \<times> bool" where
  "busFlags S p = fold (\<lambda>c. markBusType (pfData S c)) (compsAt S p) (False, False, False)"

definition classifyBus :: "nat \<Rightarrow> 'a pfsolver_scheme \<Rightarrow> error + 'a pfsolver_scheme" where
  "classifyBus p S = (case busFlags S p of (pv, pq, vd) \<Rightarrow>
     if \<not> pv \<and> pq \<and> \<not> vd then ok (S\<lparr>mPQBuses := mPQBuses S @ [p]\<rparr>)
     else if \<not> pv \<and> \<not> pq \<and> \<not> vd then ok (S\<lparr>mPQBuses := mPQBuses S @ [p]\<rparr>)
     else if pv \<and> \<not> pq \<and> \<not> vd then ok (S\<lparr>mPVBuses := mPVBuses S @ [p]\<rparr>)
     else if pv \<and> pq \<and> \<not> vd then ok (S\<lparr>mPVBuses := mPVBuses S @ [p]\<rparr>)
     else if \<not> pv \<and> \<not> pq \<and> vd then ok (S\<lparr>mVDBuses := mVDBuses S @ [p]\<rparr>)
     else if pv \<and> \<not> pq \<and> vd then ok (S\<lparr>mVDBuses := mVDBuses S @ [p]\<rparr>)
     else if \<not> pv \<and> pq \<and> vd then ok (S\<lparr>mVDBuses := mVDBuses S @ [p]\<rparr>)
     else if pv \<and> pq \<and> vd then ok (S\<lparr>mVDBuses := mVDBuses S @ [p]\<rparr>)
     else throw InvalidArgumentException)"

definition rebuildBusIndexAggregates :: "'a pfsolver_scheme \<Rightarrow> 'a pfsolver_scheme" where
  "rebuildBusIndexAggregates S =
     (let pq = map (busIndex S) (mPQBuses S); pv = map (busIndex S) (mPVBuses S);
          vd = map (busIndex S) (mVDBuses S)
      in S\<lparr>mPQBusIndices := pq, mPVBusIndices := pv, mVDBusIndices := vd,
           mNumPQBuses := length pq, mNumPVBuses := length pv, mNumVDBuses := length vd,
           mNumUnknowns := 2 * length pq + length pv, mPQPVBusIndices := pq @ pv\<rparr>)"

definition determinePFBusType :: "'a pfsolver_scheme \<Rightarrow> error + 'a pfsolver_scheme" where
  "determinePFBusType S =
     bind_err (foldE classifyBus (pfNodes S) (S\<lparr>mPQBuses := [], mPVBuses := [], mVDBuses := []\<rparr>))
       (\<lambda>S1. let S2 = rebuildBusIndexAggregates S1
             in ok (S2\<lparr>mPQBusesOrig := mPQBuses S2, mPVBusesOrig := mPVBuses S2\<rparr>))"

definition zeroUnknowns :: "'a pfsolver_scheme \<Rightarrow> 'a pfsolver_scheme" where
  "zeroUnknowns S = S\<lparr>mX := \<lambda>_. Finite 0, mF := \<lambda>_. Finite 0\<rparr>"

definition setUpJacobianStorage :: "'a pfsolver_scheme \<Rightarrow> 'a pfsolver_scheme" where
  "setUpJacobianStorage S = S\<lparr>mJ := mkmat (mNumUnknowns S) (mNumUnknowns S) (\<lambda>_ _. 0)\<rparr>"

definition reclassifyBuses :: "'a pfsolver_scheme \<Rightarrow> 'a pfsolver_scheme" where
  "reclassifyBuses S = zeroUnknowns (setUpJacobianStorage (rebuildBusIndexAggregates S))"

text \<open>\<open>clear\<close> is the virtual function \<open>clearReactiveLimitState\<close>.\<close>

definition resetToOriginalClassification ::
  "('a pfsolver_scheme \<Rightarrow> 'a pfsolver_scheme) \<Rightarrow> 'a pfsolver_scheme \<Rightarrow> 'a pfsolver_scheme" where
  "resetToOriginalClassification clear S =
     reclassifyBuses (clear (S\<lparr>mPQBuses := mPQBusesOrig S, mPVBuses := mPVBusesOrig S\<rparr>))"

section \<open>Changing bus types and behaviour\<close>

primrec setVDGen :: "string \<Rightarrow> nat list \<Rightarrow> 'a pfsolver_scheme \<Rightarrow> error + 'a pfsolver_scheme" where
  "setVDGen name [] S = throw InvalidArgumentException"
| "setVDGen name (q # qs) S = bind_err (compNodeRef (compAt (heap S) q) 0) (\<lambda>p.
     if nodeName (nodeAt (heap S) p) = name
     then ok (case pfData S q of GenComp g \<Rightarrow> setPf q (GenComp (genModifyBusType VD g)) S | _ \<Rightarrow> S)
     else setVDGen name qs S)"

definition setVDNode :: "string \<Rightarrow> 'a pfsolver_scheme \<Rightarrow> error + 'a pfsolver_scheme" where
  "setVDNode name S = (case mExternalGrids S of
       e # _ \<Rightarrow> bind_err (compNodeRef (compAt (heap S) e) 0) (\<lambda>p.
         ok (case pfData S e of
               ExtComp x \<Rightarrow> if nodeName (nodeAt (heap S) p) = name
                              then setPf e (ExtComp (extModifyBusType VD x)) S else S
             | _ \<Rightarrow> S))
     | [] \<Rightarrow> setVDGen name (mSynchronGenerators S) S)"

definition modifyOne :: "string \<Rightarrow> PowerflowBusType \<Rightarrow> nat \<Rightarrow> 'a pfsolver_scheme \<Rightarrow> 'a pfsolver_scheme" where
  "modifyOne name ty p S =
     (if compName (compAt (heap S) p) = name
      then (case pfData S p of
              ExtComp x \<Rightarrow> setPf p (ExtComp (extModifyBusType ty x)) S
            | GenComp g \<Rightarrow> setPf p (GenComp (genModifyBusType ty g)) S
            | _ \<Rightarrow> S)
      else S)"

definition modifyPowerFlowBusComponent ::
  "string \<Rightarrow> PowerflowBusType \<Rightarrow> 'a pfsolver_scheme \<Rightarrow> 'a pfsolver_scheme" where
  "modifyPowerFlowBusComponent name ty S = fold (modifyOne name ty) (mComponents (mSystem S)) S"

text \<open>The behaviour of a component is kept where the power flow reads it: in lines and
  transformers.\<close>

definition setBehaviour :: "behaviour \<Rightarrow> pfcomp \<Rightarrow> pfcomp" where
  "setBehaviour b d = (case d of
       LineComp n \<Rightarrow> LineComp (n\<lparr>ln_behaviour := b\<rparr>)
     | TrafoComp t \<Rightarrow> TrafoComp (t\<lparr>tr_behaviour := b\<rparr>)
     | _ \<Rightarrow> d)"

definition setSolverAndComponentBehaviour :: "bool \<Rightarrow> 'a pfsolver_scheme \<Rightarrow> 'a pfsolver_scheme" where
  "setSolverAndComponentBehaviour initialization S =
     fold (\<lambda>p S. if isPower (heap S) p
                 then setPf p (setBehaviour (if initialization then Initialization else PFSimulation) (pfData S p)) S
                 else S) (mComponents (mSystem S)) S"

section \<open>The admittance matrix\<close>

definition stampLine :: "nat \<Rightarrow> 'a pfsolver_scheme \<Rightarrow> error + 'a pfsolver_scheme" where
  "stampLine p S = (case pfData S p of
       LineComp n \<Rightarrow>
         bind_err (compMatrixNodeIndex (compAt (heap S) p) 0 0) (\<lambda>bus1.
         bind_err (compMatrixNodeIndex (compAt (heap S) p) 1 0) (\<lambda>bus2.
         bind_err (lineStamp bus1 bus2 n (mY S)) (\<lambda>(n, Y). ok (setPf p (LineComp n) (S\<lparr>mY := Y\<rparr>)))))
     | _ \<Rightarrow> ok S)"

definition stampTrafo :: "nat \<Rightarrow> 'a pfsolver_scheme \<Rightarrow> error + 'a pfsolver_scheme" where
  "stampTrafo p S = (case pfData S p of
       TrafoComp t \<Rightarrow>
         if tr_R t = 0 \<and> tr_L t = 0 then ok S
         else bind_err (compMatrixNodeIndex (compAt (heap S) p) 0 0) (\<lambda>bus1.
              bind_err (compMatrixNodeIndex (compAt (heap S) p) 1 0) (\<lambda>bus2.
              bind_err (trafoStamp (\<lambda>k. if k = 0 then bus1 else bus2) t (mY S))
                (\<lambda>(t, Y). ok (setPf p (TrafoComp t) (S\<lparr>mY := Y\<rparr>)))))
     | _ \<Rightarrow> ok S)"

definition stampShunt :: "nat \<Rightarrow> 'a pfsolver_scheme \<Rightarrow> error + 'a pfsolver_scheme" where
  "stampShunt p S = (case pfData S p of
       ShuntComp s \<Rightarrow> bind_err (compMatrixNodeIndex (compAt (heap S) p) 0 0)
         (\<lambda>bus1. ok (S\<lparr>mY := shuntStamp bus1 s (mY S)\<rparr>))
     | _ \<Rightarrow> ok S)"

definition composeAdmittanceMatrix :: "'a pfsolver_scheme \<Rightarrow> error + 'a pfsolver_scheme" where
  "composeAdmittanceMatrix S0 =
     bind_err (if numNodes S0 > 0
        then bind_err (foldE stampLine (mLines S0) (S0\<lparr>mY := mkmat (numNodes S0) (numNodes S0) (\<lambda>_ _. 0)\<rparr>)) (\<lambda>S.
             bind_err (foldE stampTrafo (mTransformers S) S) (\<lambda>S. foldE stampShunt (mShunts S) S))
        else ok S0)
     (\<lambda>S. if mLines S = [] \<and> mTransformers S = [] then throw InvalidArgumentException else ok S)"

definition G :: "'a pfsolver_scheme \<Rightarrow> nat \<Rightarrow> nat \<Rightarrow> real" where "G S i j = Re (ent (mY S) i j)"
definition B :: "'a pfsolver_scheme \<Rightarrow> nat \<Rightarrow> nat \<Rightarrow> real" where "B S i j = Im (ent (mY S) i j)"

section \<open>Newton's method\<close>

text \<open>\<open>lu\<close> is the solution Eigen's sparse LU gives for a matrix and a right side; its
  entries need not be finite.\<close>

definition solveJacobianSystem ::
  "(real matrix \<Rightarrow> (nat \<Rightarrow> bound) \<Rightarrow> nat \<Rightarrow> bound) \<Rightarrow> 'a pfsolver_scheme \<Rightarrow> 'a pfsolver_scheme" where
  "solveJacobianSystem lu S = S\<lparr>mX := lu (mJ S) (mF S)\<rparr>"

definition mismatchOk :: "real \<Rightarrow> bound \<Rightarrow> bool" where
  "mismatchOk tol b = (case b of Finite x \<Rightarrow> \<not> \<bar>x\<bar> > tol | NotFinite \<Rightarrow> False)"

definition checkConvergence :: "'a pfsolver_scheme \<Rightarrow> bool" where
  "checkConvergence S \<longleftrightarrow> list_all (\<lambda>i. mismatchOk (mTolerance S) (mF S i)) [0..<mNumUnknowns S]"

text \<open>The virtual functions are arguments: \<open>mismatch\<close> is \<open>calculateMismatch\<close>, \<open>jacobian\<close> is
  \<open>calculateJacobian\<close>, \<open>linsolve\<close> is \<open>solveJacobianSystem\<close>, \<open>update\<close> is \<open>updateSolution\<close>
  and \<open>enforce\<close> is \<open>enforceReactiveLimits\<close>.\<close>

type_synonym 'a step = "'a pfsolver_scheme \<Rightarrow> 'a pfsolver_scheme"

primrec newtonLoop :: "'a step \<Rightarrow> 'a step \<Rightarrow> 'a step \<Rightarrow> 'a step \<Rightarrow> nat list \<Rightarrow> 'a step" where
  "newtonLoop mismatch jacobian linsolve update [] S = S"
| "newtonLoop mismatch jacobian linsolve update (i # is) S =
     (if isConverged S then S
      else let S1 = mismatch (update (linsolve (jacobian S)))
           in newtonLoop mismatch jacobian linsolve update is
                (S1\<lparr>isConverged := checkConvergence S1, mIterations := i\<rparr>))"

definition runNewtonRaphson :: "'a step \<Rightarrow> 'a step \<Rightarrow> 'a step \<Rightarrow> 'a step \<Rightarrow> 'a step" where
  "runNewtonRaphson mismatch jacobian linsolve update S =
     (let S1 = mismatch (zeroUnknowns (S\<lparr>isConverged := False, mIterations := 0\<rparr>));
          S2 = S1\<lparr>isConverged := checkConvergence S1\<rparr>
      in newtonLoop mismatch jacobian linsolve update [1..<mMaxIterations S2] S2)"

primrec limitLoop :: "'a step \<Rightarrow> ('a pfsolver_scheme \<Rightarrow> 'a pfsolver_scheme \<times> bool) \<Rightarrow> nat \<Rightarrow>
    'a pfsolver_scheme \<Rightarrow> 'a pfsolver_scheme \<times> bool" where
  "limitLoop run enforce 0 S = (S, False)"
| "limitLoop run enforce (Suc n) S =
     (if \<not> isConverged S then (S, False)
      else case enforce S of (S1, switched) \<Rightarrow>
        if \<not> switched then (S1, True) else limitLoop run enforce n (run (reclassifyBuses S1)))"

definition solvePowerflow :: "'a step \<Rightarrow> ('a pfsolver_scheme \<Rightarrow> 'a pfsolver_scheme \<times> bool) \<Rightarrow> 'a step" where
  "solvePowerflow run enforce S =
     (let S1 = run S
      in if \<not> mEnforceReactiveLimits S1 then S1
         else case limitLoop run enforce (mMaxOuterIterations S1) S1 of (S2, settled) \<Rightarrow>
           if isConverged S2 \<and> \<not> settled then S2\<lparr>isConverged := False\<rparr> else S2)"

section \<open>The classification of the buses\<close>

text \<open>A component drives a bus to a type when it is of that type, a load only to PQ and an
  external grid only to VD or PV.\<close>

definition drives :: "PowerflowBusType \<Rightarrow> pfcomp \<Rightarrow> bool" where
  "drives ty d \<longleftrightarrow> (\<exists>l. d = LoadComp l \<and> ld_busType l = ty \<and> ty = PQ)
     \<or> (\<exists>g. d = GenComp g \<and> gen_busType g = ty)
     \<or> (\<exists>e. d = ExtComp e \<and> ext_busType e = ty \<and> ty \<noteq> PQ)"

definition driven :: "'a pfsolver_scheme \<Rightarrow> PowerflowBusType \<Rightarrow> nat \<Rightarrow> bool" where
  "driven S ty p \<longleftrightarrow> (\<exists>c \<in> set (compsAt S p). drives ty (pfData S c))"

lemma markBusType_drives:
  "markBusType d (pv, pq, vd) = (pv \<or> drives PV d, pq \<or> drives PQ d, vd \<or> drives VD d)"
  by (cases d) (auto simp: markBusType_def drives_def)

lemma busFlags_driven: "busFlags S p = (driven S PV p, driven S PQ p, driven S VD p)"
proof -
  have "fold (\<lambda>c. markBusType (pfData S c)) cs (pv, pq, vd) =
      (pv \<or> (\<exists>c \<in> set cs. drives PV (pfData S c)), pq \<or> (\<exists>c \<in> set cs. drives PQ (pfData S c)),
       vd \<or> (\<exists>c \<in> set cs. drives VD (pfData S c)))" for cs pv pq vd
    by (induction cs arbitrary: pv pq vd) (auto simp: markBusType_drives)
  then show ?thesis by (simp add: busFlags_def driven_def)
qed

lemma driven_update [simp]:
  "driven (S\<lparr>mPQBuses := a\<rparr>) ty p = driven S ty p" "driven (S\<lparr>mPVBuses := a\<rparr>) ty p = driven S ty p"
  "driven (S\<lparr>mVDBuses := a\<rparr>) ty p = driven S ty p"
  by (simp_all add: driven_def compsAt_def)

definition busTypeOf :: "'a pfsolver_scheme \<Rightarrow> nat \<Rightarrow> PowerflowBusType" where
  "busTypeOf S p = (if driven S VD p then VD else if driven S PV p then PV else PQ)"

lemma classifyBus_busType:
  "classifyBus p S = ok (case busTypeOf S p of
       VD \<Rightarrow> S\<lparr>mVDBuses := mVDBuses S @ [p]\<rparr>
     | PV \<Rightarrow> S\<lparr>mPVBuses := mPVBuses S @ [p]\<rparr>
     | _ \<Rightarrow> S\<lparr>mPQBuses := mPQBuses S @ [p]\<rparr>)"
  by (simp add: classifyBus_def busFlags_driven busTypeOf_def)

lemma classifyBuses_filter:
  "foldE classifyBus ps S = ok (S\<lparr>mPQBuses := mPQBuses S @ filter (\<lambda>p. busTypeOf S p = PQ) ps,
     mPVBuses := mPVBuses S @ filter (\<lambda>p. busTypeOf S p = PV) ps,
     mVDBuses := mVDBuses S @ filter (\<lambda>p. busTypeOf S p = VD) ps\<rparr>)"
proof (induction ps arbitrary: S)
  case (Cons p ps)
  have no: "busTypeOf S p \<noteq> NoBusType" by (simp add: busTypeOf_def)
  have same: "busTypeOf (S\<lparr>mPQBuses := a\<rparr>) = busTypeOf S" "busTypeOf (S\<lparr>mPVBuses := a\<rparr>) = busTypeOf S"
    "busTypeOf (S\<lparr>mVDBuses := a\<rparr>) = busTypeOf S" for a
    by (simp_all add: busTypeOf_def fun_eq_iff)
  show ?case
    using no classifyBus_busType [of p S] by (cases "busTypeOf S p") (simp_all add: Cons.IH same)
qed simp

lemma busIndex_update [simp]:
  "busIndex (S\<lparr>mPQBuses := a\<rparr>) = busIndex S" "busIndex (S\<lparr>mPVBuses := a\<rparr>) = busIndex S"
  "busIndex (S\<lparr>mVDBuses := a\<rparr>) = busIndex S"
  by (simp_all add: busIndex_def fun_eq_iff)


section \<open>What a formulation provides\<close>

text \<open>The contract of the virtual functions with the Newton loop: the mismatch is a
  function of the solution, which the flags of the loop are not part of, and the iteration
  limit stays; the limit pass changes nothing when it switches no bus.\<close>

definition flags :: "bool \<Rightarrow> nat \<Rightarrow> 'a pfsolver_scheme \<Rightarrow> 'a pfsolver_scheme" where
  "flags c i S = S\<lparr>isConverged := c, mIterations := i\<rparr>"

lemma checkConvergence_flags [simp]: "checkConvergence (flags c i S) = checkConvergence S"
  by (simp add: checkConvergence_def flags_def)

lemma flags_simps [simp]: "isConverged (flags c i S) = c" "mIterations (flags c i S) = i"
  by (simp_all add: flags_def)

lemma flags_again:
  "mIterations S = i \<Longrightarrow> S\<lparr>isConverged := c\<rparr> = flags c i S" "S\<lparr>isConverged := c, mIterations := i\<rparr> = flags c i S"
  by (simp_all add: flags_def)

lemma newtonLoop_invariant:
  assumes "I S" "\<And>S. I S \<Longrightarrow> I (mismatch S)" "\<And>S. I S \<Longrightarrow> I (jacobian S)" "\<And>S. I S \<Longrightarrow> I (linsolve S)"
    "\<And>S. I S \<Longrightarrow> I (update S)" "\<And>S c i. I S \<Longrightarrow> I (flags c i S)"
  shows "I (newtonLoop mismatch jacobian linsolve update is S)"
  using assms(1)
proof (induction "is" arbitrary: S)
  case (Cons i "is")
  show ?case
  proof (cases "isConverged S")
    case False
    have "I (flags (checkConvergence (mismatch (update (linsolve (jacobian S))))) i
        (mismatch (update (linsolve (jacobian S)))))"
      by (rule assms(6) [OF assms(2) [OF assms(5) [OF assms(4) [OF assms(3) [OF Cons.prems]]]]])
    then show ?thesis using False Cons.IH by (simp add: Let_def flags_again(2))
  qed (use Cons in simp)
qed simp

text \<open>What the steps keep, a solve keeps.\<close>

lemma run_invariant:
  assumes "I S" "\<And>S. I S \<Longrightarrow> I (mismatch S)" "\<And>S. I S \<Longrightarrow> I (jacobian S)" "\<And>S. I S \<Longrightarrow> I (linsolve S)"
    "\<And>S. I S \<Longrightarrow> I (update S)" "\<And>S c i. I S \<Longrightarrow> I (flags c i S)" "\<And>S. I S \<Longrightarrow> I (zeroUnknowns S)"
    "\<And>S c. I S \<Longrightarrow> I (S\<lparr>isConverged := c\<rparr>)"
  shows "I (runNewtonRaphson mismatch jacobian linsolve update S)"
proof -
  have m: "I (mismatch (zeroUnknowns (S\<lparr>isConverged := False, mIterations := 0\<rparr>)))"
    unfolding flags_again(2) by (rule assms(2) [OF assms(7) [OF assms(6) [OF assms(1)]]])
  show ?thesis
    unfolding runNewtonRaphson_def Let_def
    by (rule newtonLoop_invariant [OF assms(8) [OF m] assms(2-6)])
qed

lemma solve_invariant:
  assumes "I S" "\<And>S. I S \<Longrightarrow> I (run S)" "\<And>S. I S \<Longrightarrow> I (fst (enforce S))"
    "\<And>S. I S \<Longrightarrow> I (reclassifyBuses S)" "\<And>S c. I S \<Longrightarrow> I (S\<lparr>isConverged := c\<rparr>)"
  shows "I (solvePowerflow run enforce S)"
proof -
  have loop: "I (fst (limitLoop run enforce n S))" if "I S" for n S
    using that
  proof (induction n arbitrary: S)
    case (Suc n)
    then show ?case using assms(2-4) by (auto split: prod.splits) (metis fst_conv)+
  qed simp
  show ?thesis
    using loop [OF assms(2) [OF assms(1)]] assms(2) [OF assms(1)] assms(5)
    by (auto simp: solvePowerflow_def Let_def split: prod.splits) (metis fst_conv)+
qed

locale pf_formulation =
  fixes mismatch jacobian linsolve update :: "'a step"
    and enforce :: "'a pfsolver_scheme \<Rightarrow> 'a pfsolver_scheme \<times> bool"
  assumes mismatch_idem: "mismatch (mismatch S) = mismatch S"
    and mismatch_flags: "mismatch (flags c i S) = flags c i (mismatch S)"
    and enforce_quiet: "enforce S = (S', False) \<Longrightarrow> S' = S"
begin

definition fresh :: "'a pfsolver_scheme \<Rightarrow> bool" where
  "fresh S \<longleftrightarrow> mismatch S = S \<and> (isConverged S \<longrightarrow> checkConvergence S)"

lemma fresh_step: "fresh (flags (checkConvergence (mismatch S)) i (mismatch S))"
  by (simp add: fresh_def mismatch_flags mismatch_idem)

lemma newtonLoop_fresh: "fresh S \<Longrightarrow> fresh (newtonLoop mismatch jacobian linsolve update is S)"
proof (induction "is" arbitrary: S)
  case (Cons i "is")
  show ?case
  proof (cases "isConverged S")
    case False
    then show ?thesis
      using Cons.IH [OF fresh_step [of "update (linsolve (jacobian S))" i]] by (simp add: Let_def flags_again(2))
  qed (use Cons in simp)
qed simp

lemma run_fresh: "fresh (runNewtonRaphson mismatch jacobian linsolve update S)"
proof -
  define T where "T = zeroUnknowns (S\<lparr>isConverged := False, mIterations := 0\<rparr>)"
  define M where "M = mismatch T"
  have "T = flags False 0 T" by (simp add: T_def zeroUnknowns_def flags_def)
  then have M: "M = flags False 0 M" unfolding M_def using mismatch_flags [of False 0 T] by (rule arg_cong [THEN trans])
  have it: "mIterations M = 0" by (subst M) (rule flags_simps)
  have "M\<lparr>isConverged := c\<rparr> = flags c 0 M" for c using it by (rule flags_again)
  then have "fresh (M\<lparr>isConverged := checkConvergence M\<rparr>)" using fresh_step [of T 0] by (simp add: M_def)
  then show ?thesis
    unfolding runNewtonRaphson_def Let_def T_def [symmetric] M_def [symmetric] by (rule newtonLoop_fresh)
qed

lemma limitLoop_settled:
  assumes "limitLoop (runNewtonRaphson mismatch jacobian linsolve update) enforce n S = (S', settled)" "fresh S"
  shows "fresh S' \<and> (settled \<longrightarrow> isConverged S' \<and> enforce S' = (S', False))"
  using assms
proof (induction n arbitrary: S)
  case (Suc n)
  show ?case
  proof (cases "isConverged S")
    case True
    obtain S1 sw where e: "enforce S = (S1, sw)" by (cases "enforce S")
    show ?thesis
    proof (cases sw)
      case True
      then show ?thesis using Suc.IH [OF _ run_fresh, of "reclassifyBuses S1"] Suc.prems(1) \<open>isConverged S\<close> e by simp
    next
      case False
      then have "S1 = S" using e enforce_quiet [of S S1] by simp
      then show ?thesis using Suc.prems \<open>isConverged S\<close> e False by auto
    qed
  qed (use Suc.prems in auto)
qed simp

text \<open>A solve that reports success ends in a state whose mismatches are up to date and
  within the tolerance, and, when limits are enforced, in which no bus has to switch.\<close>

lemma solve_sound:
  defines "run \<equiv> runNewtonRaphson mismatch jacobian linsolve update"
  assumes "isConverged (solvePowerflow run enforce S)"
  shows "mismatch (solvePowerflow run enforce S) = solvePowerflow run enforce S
    \<and> checkConvergence (solvePowerflow run enforce S)
    \<and> (mEnforceReactiveLimits (run S) \<longrightarrow>
         enforce (solvePowerflow run enforce S) = (solvePowerflow run enforce S, False))"
proof (cases "mEnforceReactiveLimits (run S)")
  case False
  then have "solvePowerflow run enforce S = run S" by (simp add: solvePowerflow_def Let_def)
  then show ?thesis using run_fresh [of S] assms(2) False by (simp add: fresh_def run_def)
next
  case True
  obtain S2 settled where l: "limitLoop run enforce (mMaxOuterIterations (run S)) (run S) = (S2, settled)"
    by (cases "limitLoop run enforce (mMaxOuterIterations (run S)) (run S)")
  have solve: "solvePowerflow run enforce S
      = (if isConverged S2 \<and> \<not> settled then S2\<lparr>isConverged := False\<rparr> else S2)"
    using True l by (simp add: solvePowerflow_def Let_def)
  then have settled: "settled" "solvePowerflow run enforce S = S2" using assms(2) by (auto split: if_splits)
  have "fresh S2 \<and> (settled \<longrightarrow> isConverged S2 \<and> enforce S2 = (S2, False))"
    by (rule limitLoop_settled [OF l [unfolded run_def] run_fresh])
  then show ?thesis using settled by (simp add: fresh_def)
qed

end

section \<open>A small network\<close>

text \<open>A generator at node 1 and a line from node 1 to node 2.\<close>

definition demo_gen :: generator where
  "demo_gen = \<lparr>gen_P_set = 10, gen_Q_set = 0, gen_V_set = 20, gen_P_pu = 1, gen_Q_pu = 0, gen_V_pu = 1,
     gen_Q_max = Finite 5, gen_Q_min = NotFinite, gen_Q_max_pu = Finite (1 / 2), gen_Q_min_pu = NotFinite,
     gen_busType = PV, gen_baseVoltage = 20, gen_baseS = 10\<rparr>"

definition demo_line :: line where
  "demo_line = \<lparr>ln_R = 0, ln_L = 1, ln_C = 0, ln_G = 0, ln_CFallback = True, ln_GFallback = True,
     ln_behaviour = PFSimulation, ln_baseVoltage = 20, ln_baseS = 10, ln_baseCurrent = 1,
     ln_R_pu = 0, ln_L_pu = 1, ln_C_pu = 0, ln_G_pu = 0, ln_Y = mat22 0 0 0 0, ln_current = (0, 0),
     ln_flow = (0, 0), ln_injection = 0\<rparr>"

definition demo_pf :: pfsolver where
  "demo_pf = \<lparr>heap = demo_net,
     mSystem = (demo_topology [Some 0, Some 1, Some 2] [0, 1])
       \<lparr>mComponentsAtNode := [(Some 1, [0, 1]), (Some 2, [0])]\<rparr>,
     pfData = (\<lambda>c. if c = 0 then LineComp demo_line else GenComp demo_gen), mSubCompCreated = {},
     mSynchronGenerators = [1], mLoads = [], mTransformers = [], mLines = [0], mExternalGrids = [],
     mShunts = [], mSolidStateTransformers = [], mAverageVoltageSourceInverters = [],
     mPQBuses = [], mPVBuses = [], mVDBuses = [], mPQBusesOrig = [], mPVBusesOrig = [],
     mPQBusIndices = [], mPVBusIndices = [], mVDBusIndices = [], mPQPVBusIndices = [],
     mNumPQBuses = 0, mNumPVBuses = 0, mNumVDBuses = 0, mNumUnknowns = 0,
     mY = mkmat 0 0 (\<lambda>_ _. 0), mJ = mkmat 0 0 (\<lambda>_ _. 0), mX = (\<lambda>_. Finite 0), mF = (\<lambda>_. Finite 0),
     mBaseVoltageAtNode = Map.empty, mTolerance = 1 / 10 ^ 8, mMaxIterations = 20, mIterations = 0,
     mEnforceReactiveLimits = False, mMaxOuterIterations = 10, mMaxQLimitSwitchesPerBus = 2,
     mBaseVoltageLooseTolerance = 1 / 10, mBaseVoltageStrictTolerance = 1 / 100,
     mBaseApparentPower = 10, mBaseApparentPowerFallback = 10 ^ 8, isConverged = False,
     mKeepLastSolution = False, mInitFromNodesAndTerminals = True\<rparr>"

lemma demo_pf_facts [simp]:
  "pfNodes demo_pf = [0, 1, 2]" "numNodes demo_pf = 3"
  "compsAt demo_pf p = (if p = 1 then [0, 1] else if p = 2 then [0] else [])"
  "busIndex demo_pf p = p" "mComponents (mSystem demo_pf) = [0, 1]"
  "pfData demo_pf 0 = LineComp demo_line" "pfData demo_pf (Suc 0) = GenComp demo_gen"
  "compNodeRef (compAt (heap demo_pf) c) 0 = ok 1" "compNodeRef (compAt (heap demo_pf) c) (Suc 0) = ok 2"
  using demo_net_facts(4,5)
  by (simp_all add: pfNodes_def numNodes_def compsAt_def busIndex_def demo_pf_def edges_at_def
      matrixNodeIndex_def mkSimNode_def groundNode_def vec_at_def compNodeRef_def)

end
