(* ===== verification/PowerPolar.thy ===== *)
theory PowerPolar
  imports PowerFlow
begin

text \<open>dpsim/src/PFSolverPowerPolar.cpp: the Newton step of the power flow in polar
  coordinates.  The solution vectors are functions on bus indices, of length \<open>solSize\<close>.
  When the linear solver returns values that are not finite, the code goes on with NaN in
  every mismatch, since each sums over all buses; the model keeps this in the flag
  \<open>solFinite\<close>, and what the solution vectors hold from then on has no meaning.\<close>

section \<open>The state\<close>

record pfpolar = pfsolver +
  solP :: "nat \<Rightarrow> real"
  solQ :: "nat \<Rightarrow> real"
  solV :: "nat \<Rightarrow> real"
  solD :: "nat \<Rightarrow> real"
  solFinite :: bool
  solSize :: nat
  solVcomplex :: "nat \<Rightarrow> complex"
  solScomplex :: "nat \<Rightarrow> complex"
  Pesp :: "nat \<Rightarrow> real"
  Qesp :: "nat \<Rightarrow> real"
  mLastConvergedV :: "nat \<Rightarrow> real"
  mLastConvergedD :: "nat \<Rightarrow> real"
  mLastConvergedSize :: nat
  mHasLastConvergedSolution :: bool
  mQLimitConvertedAtMax :: "nat \<rightharpoonup> bool"
  mQLimitSwitchCount :: "nat \<rightharpoonup> nat"

section \<open>Power at a bus\<close>

definition P :: "pfpolar \<Rightarrow> nat \<Rightarrow> real" where
  "P S k = solV S k * (\<Sum>j<numNodes S. solV S j *
     (G S k j * cos (solD S k - solD S j) + B S k j * sin (solD S k - solD S j)))"

definition Q :: "pfpolar \<Rightarrow> nat \<Rightarrow> real" where
  "Q S k = solV S k * (\<Sum>j<numNodes S. solV S j *
     (G S k j * sin (solD S k - solD S j) - B S k j * cos (solD S k - solD S j)))"

definition solVr :: "pfpolar \<Rightarrow> nat \<Rightarrow> real" where "solVr S k = solV S k * cos (solD S k)"
definition solVi :: "pfpolar \<Rightarrow> nat \<Rightarrow> real" where "solVi S k = solV S k * sin (solD S k)"
definition solVcx :: "pfpolar \<Rightarrow> nat \<Rightarrow> complex" where "solVcx S k = Complex (solVr S k) (solVi S k)"

section \<open>Mismatch\<close>

text \<open>The buses whose angle is unknown come first, then, for the PQ buses, the voltages.\<close>

definition numAngles :: "pfpolar \<Rightarrow> nat" where "numAngles S = mNumPQBuses S + mNumPVBuses S"
definition busAt :: "pfpolar \<Rightarrow> nat \<Rightarrow> nat" where "busAt S a = mPQPVBusIndices S ! a"

definition calculateMismatch :: "pfpolar \<Rightarrow> pfpolar" where
  "calculateMismatch S = S\<lparr>mF := \<lambda>i.
     if \<not> solFinite S then NotFinite
     else if i < numAngles S then Finite (Pesp S (busAt S i) - P S (busAt S i))
     else if i - numAngles S < mNumPQBuses S
     then Finite (Qesp S (busAt S (i - numAngles S)) - Q S (busAt S (i - numAngles S)))
     else Finite 0\<rparr>"

section \<open>Jacobian\<close>

definition sinTerm :: "pfpolar \<Rightarrow> nat \<Rightarrow> nat \<Rightarrow> real" where
  "sinTerm S k j = solV S k * solV S j *
     (G S k j * sin (solD S k - solD S j) - B S k j * cos (solD S k - solD S j))"

definition cosTerm :: "pfpolar \<Rightarrow> nat \<Rightarrow> nat \<Rightarrow> real" where
  "cosTerm S k j = solV S k * solV S j *
     (G S k j * cos (solD S k - solD S j) + B S k j * sin (solD S k - solD S j))"

definition J1 :: "pfpolar \<Rightarrow> nat \<Rightarrow> nat \<Rightarrow> real" where
  "J1 S a b = (let k = busAt S a in
     if a = b then - Q S k - B S k k * solV S k * solV S k else sinTerm S k (busAt S b))"

definition J2 :: "pfpolar \<Rightarrow> nat \<Rightarrow> nat \<Rightarrow> real" where
  "J2 S a b = (let k = busAt S a in
     if a = b then P S k + G S k k * solV S k * solV S k else cosTerm S k (busAt S b))"

definition J3 :: "pfpolar \<Rightarrow> nat \<Rightarrow> nat \<Rightarrow> real" where
  "J3 S a b = (let k = busAt S a in
     if a = b then P S k - G S k k * solV S k * solV S k else - cosTerm S k (busAt S b))"

definition J4 :: "pfpolar \<Rightarrow> nat \<Rightarrow> nat \<Rightarrow> real" where
  "J4 S a b = (let k = busAt S a in
     if a = b then Q S k - B S k k * solV S k * solV S k
     else let val = sinTerm S k (busAt S b) in if val \<noteq> 0 then val else 0)"

definition calculateJacobian :: "pfpolar \<Rightarrow> pfpolar" where
  "calculateJacobian S = (let n = numAngles S; m = mNumPQBuses S in
     S\<lparr>mJ := mkmat (mNumUnknowns S) (mNumUnknowns S) (\<lambda>i j.
       if i < n \<and> j < n then J1 S i j
       else if i < n \<and> j < n + m then J2 S i (j - n)
       else if i < n + m \<and> j < n then J3 S (i - n) j
       else if i < n + m \<and> j < n + m then J4 S (i - n) (j - n)
       else 0)\<rparr>)"

section \<open>The step\<close>

text \<open>The value of an increment.  An increment that is not finite counts as 0 here, where the code would compute with
  it: \<open>updateSolution\<close> then clears \<open>solFinite\<close>, which says that the solution vectors are numbers, and
  without it every mismatch is not finite, so that no solve converges from there.\<close>

definition valB :: "bound \<Rightarrow> real" where
  "valB b = (case b of Finite x \<Rightarrow> x | NotFinite \<Rightarrow> 0)"

definition limitScale :: "real \<Rightarrow> real list \<Rightarrow> real \<Rightarrow> real" where
  "limitScale limit xs scale = fold (\<lambda>x s. if \<bar>x\<bar> > limit then min s (limit / \<bar>x\<bar>) else s) xs scale"

definition stepScale :: "pfpolar \<Rightarrow> real" where
  "stepScale S = limitScale (1 / 10) (map (\<lambda>b. valB (mX S (numAngles S + b))) [0..<mNumPQBuses S])
     (limitScale (2 / 10) (map (\<lambda>a. valB (mX S a)) [0..<numAngles S]) 1)"

definition moveBus :: "real \<Rightarrow> nat \<Rightarrow> pfpolar \<Rightarrow> pfpolar" where
  "moveBus scale a S =
     (let k = busAt S a;
          S1 = S\<lparr>solD := (solD S)(k := solD S k + scale * valB (mX S a))\<rparr>
      in if a < mNumPQBuses S
         then S1\<lparr>solV := (solV S1)(k := solV S1 k * (1 + scale * valB (mX S (a + numAngles S))))\<rparr>
         else S1)"

definition setVcomplex :: "nat \<Rightarrow> pfpolar \<Rightarrow> pfpolar" where
  "setVcomplex k S = S\<lparr>solVcomplex := (solVcomplex S)(k := polar (solV S k) (solD S k))\<rparr>"

definition updateSolution :: "pfpolar \<Rightarrow> pfpolar" where
  "updateSolution S0 =
     (let S = S0\<lparr>solFinite := solFinite S0 \<and> list_all (\<lambda>i. isFiniteB (mX S0 i)) [0..<mNumUnknowns S0]\<rparr>;
          S1 = fold (moveBus (stepScale S)) [0..<numAngles S] S
      in fold (\<lambda>p S. setVcomplex (busIndex S p) S) (pfNodes S1) S1)"

section \<open>The Jacobian is the derivative of the powers\<close>

text \<open>Both powers have the form V_k times the sum of V_i c_i with c_i depending on the angle
  difference.\<close>

definition form :: "nat \<Rightarrow> (nat \<Rightarrow> real) \<Rightarrow> (nat \<Rightarrow> real) \<Rightarrow> (nat \<Rightarrow> real) \<Rightarrow> (nat \<Rightarrow> real) \<Rightarrow> nat \<Rightarrow> real" where
  "form n g b V D k = V k * (\<Sum>i<n. V i * (g i * cos (D k - D i) + b i * sin (D k - D i)))"

lemma form_angle:
  assumes "j < n"
  shows "((\<lambda>d. form n g b V (D(j := d)) k) has_real_derivative
     (if k = j then V k * (\<Sum>i<n. V i * (b i * cos (D k - D i) - g i * sin (D k - D i))) else 0)
       - V k * (V j * (b j * cos (D k - D j) - g j * sin (D k - D j)))) (at (D j))"
proof -
  define e :: "nat \<Rightarrow> real" where "e x = (if x = j then 1 else 0)" for x
  define dc where "dc i = b i * cos (D k - D i) - g i * sin (D k - D i)" for i
  have at0: "(D(j := D j)) x = D x" for x by simp
  have dD: "((\<lambda>d. (D(j := d)) x) has_real_derivative e x) (at (D j))" for x
    by (cases "x = j") (simp_all add: e_def)
  have term_d: "((\<lambda>d. V i * (g i * cos ((D(j := d)) k - (D(j := d)) i) + b i * sin ((D(j := d)) k - (D(j := d)) i)))
      has_real_derivative (V i * ((e k - e i) * dc i))) (at (D j))" for i
    by (rule derivative_eq_intros dD refl)+ (simp add: at0 dc_def algebra_simps)
  have "((\<lambda>d. form n g b V (D(j := d)) k) has_real_derivative
      V k * (\<Sum>i<n. V i * ((e k - e i) * dc i))) (at (D j))"
    unfolding form_def by (intro DERIV_cmult DERIV_sum term_d)
  moreover have "V k * (\<Sum>i<n. V i * ((e k - e i) * dc i)) =
      (if k = j then V k * (\<Sum>i<n. V i * dc i) else 0) - V k * (V j * dc j)"
  proof -
    have "(\<Sum>i<n. V i * ((e k - e i) * dc i)) = e k * (\<Sum>i<n. V i * dc i) - (\<Sum>i<n. e i * (V i * dc i))"
      by (simp add: sum_distrib_left sum_subtractf algebra_simps)
    also have "(\<Sum>i<n. e i * (V i * dc i)) = V j * dc j"
    proof -
      have "(\<Sum>i<n. e i * (V i * dc i)) = (\<Sum>i<n. if i = j then V i * dc i else 0)"
        by (rule sum.cong) (simp_all add: e_def)
      then show ?thesis using assms by (simp add: sum.delta)
    qed
    finally show ?thesis by (simp add: e_def right_diff_distrib)
  qed
  ultimately show ?thesis unfolding dc_def by (simp only:)
qed

lemma form_voltage:
  assumes "j < n"
  shows "((\<lambda>r. form n g b (V(j := V j * (1 + r))) D k) has_real_derivative
     (if k = j then form n g b V D k else 0)
       + V k * (V j * (g j * cos (D k - D j) + b j * sin (D k - D j)))) (at 0)"
proof -
  define e :: "nat \<Rightarrow> real" where "e x = (if x = j then 1 else 0)" for x
  define c where "c i = g i * cos (D k - D i) + b i * sin (D k - D i)" for i
  have V: "(V(j := V j * (1 + r))) x = V x * (1 + e x * r)" for r x by (simp add: e_def)
  have sum_d: "((\<lambda>r. \<Sum>i<n. V i * (1 + e i * r) * c i) has_real_derivative (\<Sum>i<n. e i * (V i * c i))) (at 0)"
  proof (rule DERIV_sum)
    fix i
    show "((\<lambda>r. V i * (1 + e i * r) * c i) has_real_derivative e i * (V i * c i)) (at 0)"
      by (rule derivative_eq_intros refl)+ simp
  qed
  have d: "((\<lambda>r. V k * (1 + e k * r) * (\<Sum>i<n. V i * (1 + e i * r) * c i)) has_real_derivative
      V k * e k * (\<Sum>i<n. V i * c i) + V k * (\<Sum>i<n. e i * (V i * c i))) (at 0)"
    by (rule derivative_eq_intros sum_d refl)+ simp
  have last:  "(\<Sum>i<n. e i * (V i * c i)) = V j * c j"
  proof -
    have "(\<Sum>i<n. e i * (V i * c i)) = (\<Sum>i<n. if i = j then V i * c i else 0)"
      by (rule sum.cong) (simp_all add: e_def)
    then show ?thesis using assms by (simp add: sum.delta)
  qed
  have eq: "V k * e k * (\<Sum>i<n. V i * c i) + V k * (\<Sum>i<n. e i * (V i * c i))
      = (if k = j then form n g b V D k else 0) + V k * (V j * c j)"
    unfolding last by (simp add: e_def form_def c_def)
  have fn: "(\<lambda>r. form n g b (V(j := V j * (1 + r))) D k)
      = (\<lambda>r. V k * (1 + e k * r) * (\<Sum>i<n. V i * (1 + e i * r) * c i))"
    unfolding form_def V c_def ..
  show ?thesis unfolding fn using d [unfolded eq] unfolding c_def .
qed

lemma P_form: "P S k = form (numNodes S) (G S k) (B S k) (solV S) (solD S) k"
  by (simp add: P_def form_def)

lemma Q_form: "Q S k = form (numNodes S) (\<lambda>i. - B S k i) (G S k) (solV S) (solD S) k"
  by (simp add: Q_def form_def)

lemma pf_update_simps [simp]:
  "numNodes (S\<lparr>solD := d\<rparr>) = numNodes S" "numNodes (S\<lparr>solV := v\<rparr>) = numNodes S"
  "G (S\<lparr>solD := d\<rparr>) = G S" "G (S\<lparr>solV := v\<rparr>) = G S"
  "B (S\<lparr>solD := d\<rparr>) = B S" "B (S\<lparr>solV := v\<rparr>) = B S"
  "numAngles (S\<lparr>solD := d\<rparr>) = numAngles S" "numAngles (S\<lparr>solV := v\<rparr>) = numAngles S"
  "busAt (S\<lparr>solD := d\<rparr>) = busAt S" "busAt (S\<lparr>solV := v\<rparr>) = busAt S"
  for S :: pfpolar
  by (simp_all add: numNodes_def G_def B_def fun_eq_iff numAngles_def busAt_def)

lemma P_angle_derivative:
  assumes "j < numNodes S"
  shows "((\<lambda>d. P (S\<lparr>solD := (solD S)(j := d)\<rparr>) k) has_real_derivative
     (if k = j then - Q S k - B S k k * solV S k * solV S k else sinTerm S k j)) (at (solD S j))"
proof -
  have "(\<Sum>i<numNodes S. solV S i * (B S k i * cos (solD S k - solD S i) - G S k i * sin (solD S k - solD S i)))
      = - (\<Sum>i<numNodes S. solV S i * (G S k i * sin (solD S k - solD S i) - B S k i * cos (solD S k - solD S i)))"
    by (subst sum_negf [symmetric]) (rule sum.cong, simp_all add: algebra_simps)
  then show ?thesis
    using form_angle [OF assms, of "G S k" "B S k" "solV S" "solD S" k]
    by (cases "k = j") (simp_all add: P_form Q_def sinTerm_def algebra_simps)
qed

lemma Q_angle_derivative:
  assumes "j < numNodes S"
  shows "((\<lambda>d. Q (S\<lparr>solD := (solD S)(j := d)\<rparr>) k) has_real_derivative
     (if k = j then P S k - G S k k * solV S k * solV S k else - cosTerm S k j)) (at (solD S j))"
  using form_angle [OF assms, of "\<lambda>i. - B S k i" "G S k" "solV S" "solD S" k]
  by (cases "k = j") (simp_all add: Q_form P_def cosTerm_def algebra_simps)

lemma P_voltage_derivative:
  assumes "j < numNodes S"
  shows "((\<lambda>r. P (S\<lparr>solV := (solV S)(j := solV S j * (1 + r))\<rparr>) k) has_real_derivative
     (if k = j then P S k + G S k k * solV S k * solV S k else cosTerm S k j)) (at 0)"
  using form_voltage [OF assms, of "G S k" "B S k" "solV S" "solD S" k]
  by (cases "k = j") (simp_all add: P_form cosTerm_def algebra_simps)

lemma Q_voltage_derivative:
  assumes "j < numNodes S"
  shows "((\<lambda>r. Q (S\<lparr>solV := (solV S)(j := solV S j * (1 + r))\<rparr>) k) has_real_derivative
     (if k = j then Q S k - B S k k * solV S k * solV S k else sinTerm S k j)) (at 0)"
  using form_voltage [OF assms, of "\<lambda>i. - B S k i" "G S k" "solV S" "solD S" k]
  by (cases "k = j") (simp_all add: Q_form sinTerm_def algebra_simps)

text \<open>The index vectors as \<open>rebuildBusIndexAggregates\<close> leaves them, the buses having
  different indices.\<close>

definition buses_ok :: "pfpolar \<Rightarrow> bool" where
  "buses_ok S \<longleftrightarrow> distinct (mPQPVBusIndices S) \<and> length (mPQPVBusIndices S) = numAngles S
     \<and> (\<forall>k \<in> set (mPQPVBusIndices S). k < numNodes S) \<and> mNumUnknowns S = 2 * mNumPQBuses S + mNumPVBuses S"

lemma buses_okD:
  assumes "buses_ok S" "a < numAngles S"
  shows "busAt S a < numNodes S" "b < numAngles S \<Longrightarrow> busAt S a = busAt S b \<longleftrightarrow> a = b"
  using assms by (auto simp: buses_ok_def busAt_def nth_eq_iff_index_eq)

lemma jacobian_entries:
  assumes "buses_ok S" "a < numAngles S" "b < numAngles S"
  defines "J \<equiv> ent (mJ (calculateJacobian S))" and "n \<equiv> numAngles S"
    and "angle \<equiv> \<lambda>d. S\<lparr>solD := (solD S)(busAt S b := d)\<rparr>"
    and "voltage \<equiv> \<lambda>r. S\<lparr>solV := (solV S)(busAt S b := solV S (busAt S b) * (1 + r))\<rparr>"
  shows "((\<lambda>d. P (angle d) (busAt S a)) has_real_derivative J a b) (at (solD S (busAt S b)))"
    and "b < mNumPQBuses S \<Longrightarrow> ((\<lambda>r. P (voltage r) (busAt S a)) has_real_derivative J a (n + b)) (at 0)"
    and "a < mNumPQBuses S \<Longrightarrow> ((\<lambda>d. Q (angle d) (busAt S a)) has_real_derivative J (n + a) b)
      (at (solD S (busAt S b)))"
    and "a < mNumPQBuses S \<Longrightarrow> b < mNumPQBuses S \<Longrightarrow>
      ((\<lambda>r. Q (voltage r) (busAt S a)) has_real_derivative J (n + a) (n + b)) (at 0)"
proof -
  have j: "busAt S b < numNodes S" and eq: "busAt S a = busAt S b \<longleftrightarrow> a = b"
    using buses_okD assms(1-3) by blast+
  show "((\<lambda>d. P (angle d) (busAt S a)) has_real_derivative J a b) (at (solD S (busAt S b)))"
    using P_angle_derivative [OF j, of "busAt S a"] assms(2,3)
    by (simp add: J_def angle_def calculateJacobian_def Let_def J1_def eq)
  show "((\<lambda>r. P (voltage r) (busAt S a)) has_real_derivative J a (n + b)) (at 0)" if "b < mNumPQBuses S"
    using P_voltage_derivative [OF j, of "busAt S a"] assms(2,3) that
    by (simp add: J_def n_def voltage_def calculateJacobian_def Let_def J2_def eq)
  show "((\<lambda>d. Q (angle d) (busAt S a)) has_real_derivative J (n + a) b) (at (solD S (busAt S b)))"
    if "a < mNumPQBuses S"
    using Q_angle_derivative [OF j, of "busAt S a"] assms(2,3) that
    by (simp add: J_def n_def angle_def calculateJacobian_def Let_def J3_def eq)
  show "((\<lambda>r. Q (voltage r) (busAt S a)) has_real_derivative J (n + a) (n + b)) (at 0)"
    if "a < mNumPQBuses S" "b < mNumPQBuses S"
  proof -
    have "(if val \<noteq> 0 then val else 0) = val" for val :: real by simp
    then show ?thesis
      using Q_voltage_derivative [OF j, of "busAt S a"] assms(2,3) that
      by (cases "a = b") (simp_all add: J_def n_def voltage_def calculateJacobian_def Let_def J4_def eq)
  qed
qed

text \<open>C11. The Jacobian the code assembles block by block is the matrix of derivatives of
  the active powers of all unknown buses and the reactive powers of the PQ buses, with
  respect to the angles and to the relative voltages, which are the increments
  \<open>updateSolution\<close> applies.\<close>

theorem jacobian_is_derivative:
  assumes "buses_ok S" "a < numAngles S" "b < numAngles S"
  shows "let J = ent (mJ (calculateJacobian S)); n = numAngles S; k = busAt S a; j = busAt S b;
      angle = (\<lambda>d. S\<lparr>solD := (solD S)(j := d)\<rparr>);
      voltage = (\<lambda>r. S\<lparr>solV := (solV S)(j := solV S j * (1 + r))\<rparr>)
    in ((\<lambda>d. P (angle d) k) has_real_derivative J a b) (at (solD S j))
     \<and> (b < mNumPQBuses S \<longrightarrow> ((\<lambda>r. P (voltage r) k) has_real_derivative J a (n + b)) (at 0))
     \<and> (a < mNumPQBuses S \<longrightarrow> ((\<lambda>d. Q (angle d) k) has_real_derivative J (n + a) b) (at (solD S j)))
     \<and> (a < mNumPQBuses S \<and> b < mNumPQBuses S
          \<longrightarrow> ((\<lambda>r. Q (voltage r) k) has_real_derivative J (n + a) (n + b)) (at 0))"
  using jacobian_entries [OF assms] unfolding Let_def by blast

section \<open>The bounded step\<close>

lemma limitScale_le: "limitScale limit xs s \<le> s"
proof (induction xs arbitrary: s)
  case (Cons x xs)
  show ?case
  proof (cases "\<bar>x\<bar> > limit")
    case True
    then have "limitScale limit (x # xs) s = limitScale limit xs (min s (limit / \<bar>x\<bar>))"
      by (simp add: limitScale_def)
    then show ?thesis using Cons [of "min s (limit / \<bar>x\<bar>)"] by simp
  qed (use Cons in \<open>simp add: limitScale_def\<close>)
qed (simp add: limitScale_def)

lemma limitScale_pos:
  assumes "0 < s" "0 < limit"
  shows "0 < limitScale limit xs s"
  using assms(1)
proof (induction xs arbitrary: s)
  case (Cons x xs)
  have "0 < (if \<bar>x\<bar> > limit then min s (limit / \<bar>x\<bar>) else s)" using Cons.prems assms(2) by auto
  then show ?case using Cons.IH by (simp add: limitScale_def)
qed (simp add: limitScale_def)

lemma limitScale_bound:
  assumes "0 < s" "s \<le> 1" "0 < limit" "x \<in> set xs"
  shows "limitScale limit xs s * \<bar>x\<bar> \<le> limit"
  using assms(1,2,4)
proof (induction xs arbitrary: s)
  case (Cons y xs)
  define s' where "s' = (if \<bar>y\<bar> > limit then min s (limit / \<bar>y\<bar>) else s)"
  have unf: "limitScale limit (y # xs) s = limitScale limit xs s'" by (simp add: limitScale_def s'_def)
  have s': "0 < s'" "s' \<le> 1" using Cons.prems assms(3) by (auto simp: s'_def)
  show ?case
  proof (cases "x \<in> set xs")
    case True
    then show ?thesis using Cons.IH [OF s'] unf by simp
  next
    case False
    then have "x = y" using Cons.prems(3) by simp
    have "s' * \<bar>y\<bar> \<le> limit"
    proof (cases "\<bar>y\<bar> > limit")
      case True
      then have "s' * \<bar>y\<bar> \<le> limit / \<bar>y\<bar> * \<bar>y\<bar>"
        by (intro mult_right_mono) (simp_all add: s'_def)
      then show ?thesis using True assms(3) by auto
    next
      case False
      then have "s' * \<bar>y\<bar> \<le> 1 * \<bar>y\<bar>" using s'(2) by (intro mult_right_mono) simp_all
      then show ?thesis using False by simp
    qed
    moreover have "limitScale limit xs s' * \<bar>y\<bar> \<le> s' * \<bar>y\<bar>"
      by (rule mult_right_mono [OF limitScale_le]) simp
    ultimately show ?thesis using unf \<open>x = y\<close> by simp
  qed
qed simp

lemma limitScale_id: "\<forall>x \<in> set xs. \<bar>x\<bar> \<le> limit \<Longrightarrow> limitScale limit xs s = s"
  by (induction xs) (simp_all add: limitScale_def)

lemma stepScale_bounds:
  shows "0 < stepScale S" "stepScale S \<le> 1"
    "a < numAngles S \<Longrightarrow> stepScale S * \<bar>valB (mX S a)\<bar> \<le> 2 / 10"
    "a < mNumPQBuses S \<Longrightarrow> stepScale S * \<bar>valB (mX S (numAngles S + a))\<bar> \<le> 1 / 10"
proof -
  let ?as = "map (\<lambda>a. valB (mX S a)) [0..<numAngles S]"
  let ?vs = "map (\<lambda>b. valB (mX S (numAngles S + b))) [0..<mNumPQBuses S]"
  let ?s = "limitScale (2 / 10) ?as 1"
  have s: "0 < ?s" "?s \<le> 1" using limitScale_pos [of 1 "2 / 10" ?as] limitScale_le [of "2 / 10" ?as 1] by simp_all
  have st: "stepScale S = limitScale (1 / 10) ?vs ?s" by (simp add: stepScale_def)
  show "0 < stepScale S" using limitScale_pos [OF s(1), of "1 / 10" ?vs] by (simp add: st)
  show "stepScale S \<le> 1" using limitScale_le [of "1 / 10" ?vs ?s] s(2) by (simp add: st)
  show "stepScale S * \<bar>valB (mX S a)\<bar> \<le> 2 / 10" if "a < numAngles S"
  proof -
    have "?s * \<bar>valB (mX S a)\<bar> \<le> 2 / 10" by (rule limitScale_bound) (use that in auto)
    moreover have "stepScale S * \<bar>valB (mX S a)\<bar> \<le> ?s * \<bar>valB (mX S a)\<bar>"
      unfolding st by (rule mult_right_mono [OF limitScale_le]) simp
    ultimately show ?thesis by simp
  qed
  show "stepScale S * \<bar>valB (mX S (numAngles S + a))\<bar> \<le> 1 / 10" if "a < mNumPQBuses S"
    unfolding st by (rule limitScale_bound [OF s]) (use that in auto)
qed

lemma moveBuses:
  assumes "buses_ok S" "m \<le> numAngles S"
  shows "let S' = fold (moveBus sc) [0..<m] S in
      solD S' = (\<lambda>k. solD S k + (\<Sum>a<m. if busAt S a = k then sc * valB (mX S a) else 0))
    \<and> (\<forall>a < m. a < mNumPQBuses S \<longrightarrow>
         solV S' (busAt S a) = solV S (busAt S a) * (1 + sc * valB (mX S (a + numAngles S))))
    \<and> (\<forall>k. (\<forall>a < m. a < mNumPQBuses S \<longrightarrow> busAt S a \<noteq> k) \<longrightarrow> solV S' k = solV S k)
    \<and> busAt S' = busAt S \<and> numAngles S' = numAngles S \<and> mX S' = mX S \<and> mNumPQBuses S' = mNumPQBuses S"
  using assms(2)
proof (induction m)
  case (Suc m)
  define T where "T = fold (moveBus sc) [0..<m] S"
  have T: "solD T = (\<lambda>k. solD S k + (\<Sum>a<m. if busAt S a = k then sc * valB (mX S a) else 0))"
    and TV: "\<And>a. a < m \<Longrightarrow> a < mNumPQBuses S \<Longrightarrow>
         solV T (busAt S a) = solV S (busAt S a) * (1 + sc * valB (mX S (a + numAngles S)))"
    and TU: "\<And>k. (\<forall>a < m. a < mNumPQBuses S \<longrightarrow> busAt S a \<noteq> k) \<Longrightarrow> solV T k = solV S k"
    and same: "busAt T = busAt S" "numAngles T = numAngles S" "mX T = mX S" "mNumPQBuses T = mNumPQBuses S"
    using Suc by (simp_all add: Let_def T_def)
  have step: "fold (moveBus sc) [0..<Suc m] S = moveBus sc m T" by (simp add: T_def)
  have diff: "busAt S a \<noteq> busAt S m" if "a < m" for a
    using buses_okD(2) [OF assms(1), of a m] that Suc.prems by simp
  have D: "solD (moveBus sc m T) = (solD T)(busAt S m := solD T (busAt S m) + sc * valB (mX S m))"
    by (simp add: moveBus_def Let_def same)
  have V: "solV (moveBus sc m T) = (if m < mNumPQBuses S
      then (solV T)(busAt S m := solV T (busAt S m) * (1 + sc * valB (mX S (m + numAngles S)))) else solV T)"
    by (simp add: moveBus_def Let_def same)
  have keep: "busAt (moveBus sc m T) = busAt S" "numAngles (moveBus sc m T) = numAngles S"
    "mX (moveBus sc m T) = mX S" "mNumPQBuses (moveBus sc m T) = mNumPQBuses S"
    using same by (simp_all add: moveBus_def Let_def)
  have VT: "solV T (busAt S m) = solV S (busAt S m)" using TU diff by blast
  show ?case
    unfolding Let_def step
  proof (intro conjI allI impI)
    show "solD (moveBus sc m T)
        = (\<lambda>k. solD S k + (\<Sum>a<Suc m. if busAt S a = k then sc * valB (mX S a) else 0))"
      unfolding D T by (rule ext) auto
    show "solV (moveBus sc m T) (busAt S a) = solV S (busAt S a) * (1 + sc * valB (mX S (a + numAngles S)))"
      if "a < Suc m" "a < mNumPQBuses S" for a
    proof (cases "a = m")
      case False
      then have "a < m" using that by simp
      then show ?thesis using TV that diff by (simp add: V)
    qed (use that VT in \<open>simp add: V\<close>)
    show "solV (moveBus sc m T) k = solV S k" if "\<forall>a < Suc m. a < mNumPQBuses S \<longrightarrow> busAt S a \<noteq> k" for k
      using that TU [of k] by (auto simp: V)
  qed (simp_all add: keep)
qed (simp add: Let_def)

lemma setVcomplex_fold:
  "solD (fold (\<lambda>p S. setVcomplex (f S p) S) ps S) = solD S \<and> solV (fold (\<lambda>p S. setVcomplex (f S p) S) ps S) = solV S"
  by (induction ps arbitrary: S) (simp_all add: setVcomplex_def)

text \<open>C28. A Newton step moves every unknown along the computed increment, all by the same
  factor between 0 and 1; no angle moves by more than 0.2 rad and no voltage by more than a
  tenth of itself, the other voltages stay, and the factor is 1 when the increments are
  within these limits.\<close>

theorem step_is_bounded:
  assumes "buses_ok S"
  shows "\<exists>s. 0 < s \<and> s \<le> 1
     \<and> (\<forall>a < numAngles S. solD (updateSolution S) (busAt S a) = solD S (busAt S a) + s * valB (mX S a)
          \<and> \<bar>s * valB (mX S a)\<bar> \<le> 2 / 10)
     \<and> (\<forall>b < mNumPQBuses S. solV (updateSolution S) (busAt S b)
            = solV S (busAt S b) * (1 + s * valB (mX S (numAngles S + b)))
          \<and> \<bar>s * valB (mX S (numAngles S + b))\<bar> \<le> 1 / 10)
     \<and> (\<forall>k. k \<notin> busAt S ` {..<mNumPQBuses S} \<longrightarrow> solV (updateSolution S) k = solV S k)
     \<and> ((\<forall>a < numAngles S. \<bar>valB (mX S a)\<bar> \<le> 2 / 10)
          \<and> (\<forall>b < mNumPQBuses S. \<bar>valB (mX S (numAngles S + b))\<bar> \<le> 1 / 10) \<longrightarrow> s = 1)"
proof -
  define T where "T = S\<lparr>solFinite := solFinite S \<and> list_all (\<lambda>i. isFiniteB (mX S i)) [0..<mNumUnknowns S]\<rparr>"
  define s where "s = stepScale T"
  have T: "busAt T = busAt S" "numAngles T = numAngles S" "mX T = mX S" "mNumPQBuses T = mNumPQBuses S"
    "solD T = solD S" "solV T = solV S"
    by (simp_all add: T_def busAt_def numAngles_def fun_eq_iff)
  have okT: "buses_ok T" using assms by (simp add: buses_ok_def T_def numAngles_def numNodes_def)
  have le: "mNumPQBuses S \<le> numAngles S" by (simp add: numAngles_def)
  define U where "U = fold (moveBus s) [0..<numAngles S] T"
  have UD: "solD U = (\<lambda>k. solD S k + (\<Sum>a<numAngles S. if busAt S a = k then s * valB (mX S a) else 0))"
    and UV: "\<And>a. a < numAngles S \<Longrightarrow> a < mNumPQBuses S \<Longrightarrow>
       solV U (busAt S a) = solV S (busAt S a) * (1 + s * valB (mX S (a + numAngles S)))"
    and UU: "\<And>k. (\<forall>a < numAngles S. a < mNumPQBuses S \<longrightarrow> busAt S a \<noteq> k) \<Longrightarrow> solV U k = solV S k"
    using moveBuses [OF okT order_refl, of s] unfolding T by (simp_all add: Let_def U_def)
  have upd: "solD (updateSolution S) = solD U" "solV (updateSolution S) = solV U"
    using setVcomplex_fold [where f = busIndex and S = U and ps = "pfNodes U"]
    by (simp_all add: updateSolution_def Let_def T_def [symmetric] s_def [symmetric] U_def T(2))
  have angle: "solD U (busAt S a) = solD S (busAt S a) + s * valB (mX S a)" if a: "a < numAngles S" for a
  proof -
    have "(\<Sum>x<numAngles S. if busAt S x = busAt S a then s * valB (mX S x) else 0)
        = (\<Sum>x<numAngles S. if x = a then s * valB (mX S x) else 0)"
      by (rule sum.cong) (use buses_okD(2) [OF assms _ a] in auto)
    then show ?thesis using a by (simp add: UD sum.delta)
  qed
  have s: "0 < s" "s \<le> 1" "\<And>a. a < numAngles S \<Longrightarrow> s * \<bar>valB (mX S a)\<bar> \<le> 2 / 10"
    "\<And>b. b < mNumPQBuses S \<Longrightarrow> s * \<bar>valB (mX S (numAngles S + b))\<bar> \<le> 1 / 10"
    using stepScale_bounds [where S = T] by (simp_all add: s_def T)
  show ?thesis
  proof (intro exI [of _ s] conjI allI impI)
    show "0 < s" "s \<le> 1" by (rule s)+
    show "solD (updateSolution S) (busAt S a) = solD S (busAt S a) + s * valB (mX S a)" if "a < numAngles S" for a
      using angle [OF that] by (simp add: upd)
    show "\<bar>s * valB (mX S a)\<bar> \<le> 2 / 10" if "a < numAngles S" for a
      using s(3) [OF that] s(1) by (simp add: abs_mult)
    show "solV (updateSolution S) (busAt S b) = solV S (busAt S b) * (1 + s * valB (mX S (numAngles S + b)))"
      if "b < mNumPQBuses S" for b
      using UV [of b] that le by (simp add: upd add.commute)
    show "\<bar>s * valB (mX S (numAngles S + b))\<bar> \<le> 1 / 10" if "b < mNumPQBuses S" for b
      using s(4) [OF that] s(1) by (simp add: abs_mult)
    show "solV (updateSolution S) k = solV S k" if "k \<notin> busAt S ` {..<mNumPQBuses S}" for k
      using UU [of k] that by (auto simp: upd)
    assume small: "(\<forall>a < numAngles S. \<bar>valB (mX S a)\<bar> \<le> 2 / 10)
          \<and> (\<forall>b < mNumPQBuses S. \<bar>valB (mX S (numAngles S + b))\<bar> \<le> 1 / 10)"
    have "limitScale (2 / 10) (map (\<lambda>a. valB (mX S a)) [0..<numAngles S]) 1 = 1"
      by (rule limitScale_id) (use small in auto)
    moreover have "limitScale (1 / 10) (map (\<lambda>b. valB (mX S (numAngles S + b))) [0..<mNumPQBuses S]) 1 = 1"
      by (rule limitScale_id) (use small in auto)
    ultimately show "s = 1" by (simp add: s_def stepScale_def T)
  qed
qed

section \<open>A small network\<close>

text \<open>The network \<open>demo_pf\<close> with node 1 a PV bus, node 2 a PQ bus and node 0 the reference.\<close>

definition demo_polar :: pfpolar where
  "demo_polar = pfsolver.extend
     (demo_pf\<lparr>mPQBuses := [2], mPVBuses := [1], mVDBuses := [0], mPQBusIndices := [2], mPVBusIndices := [1],
       mVDBusIndices := [0], mPQPVBusIndices := [2, 1], mNumPQBuses := 1, mNumPVBuses := 1, mNumVDBuses := 1,
       mNumUnknowns := 3, mX := (\<lambda>_. Finite 1)\<rparr>)
     \<lparr>solP = (\<lambda>_. 0), solQ = (\<lambda>_. 0), solV = (\<lambda>_. 1), solD = (\<lambda>_. 0), solFinite = True, solSize = 3,
      solVcomplex = (\<lambda>_. 1), solScomplex = (\<lambda>_. 0), Pesp = (\<lambda>_. 0), Qesp = (\<lambda>_. 0),
      mLastConvergedV = (\<lambda>_. 0), mLastConvergedD = (\<lambda>_. 0), mLastConvergedSize = 0,
      mHasLastConvergedSolution = False, mQLimitConvertedAtMax = Map.empty, mQLimitSwitchCount = Map.empty\<rparr>"

lemma demo_polar_facts [simp]:
  "mPQPVBusIndices demo_polar = [2, 1]" "mNumPQBuses demo_polar = 1" "mNumPVBuses demo_polar = 1"
  "mNumUnknowns demo_polar = 3" "numNodes demo_polar = 3" "numAngles demo_polar = 2"
  "mX demo_polar a = Finite 1" "solV demo_polar k = 1" "solD demo_polar k = 0"
  "busAt demo_polar 0 = 2" "busAt demo_polar (Suc 0) = 1"
  by (simp_all add: demo_polar_def pfsolver.defs numNodes_def demo_pf_def numAngles_def busAt_def)

lemma demo_polar_ok: "buses_ok demo_polar"
  by (simp add: buses_ok_def)

theorem jacobian_is_derivative_witness:
  "((\<lambda>d. P (demo_polar\<lparr>solD := (solD demo_polar)(1 := d)\<rparr>) 2)
      has_real_derivative ent (mJ (calculateJacobian demo_polar)) 0 1) (at 0)"
  using jacobian_is_derivative [OF demo_polar_ok, of 0 1] by (simp add: Let_def)

theorem step_is_bounded_witness:
  "\<exists>s. 0 < s \<and> s \<le> 1 / 10 \<and> solD (updateSolution demo_polar) 1 = s"
proof -
  have v: "valB (Finite 1) = 1" by (simp add: valB_def)
  obtain s where s: "0 < s" "\<forall>a < 2. solD (updateSolution demo_polar) (busAt demo_polar a) = s * 1"
    "\<forall>b < (1 :: nat). \<bar>s * 1\<bar> \<le> 1 / 10"
    using step_is_bounded [OF demo_polar_ok] unfolding demo_polar_facts v by fastforce
  then show ?thesis using demo_polar_facts(11) by (metis abs_of_pos less_2_cases_iff less_one mult_1_right One_nat_def)
qed

end
