(* ===== verification/PFLimits.thy ===== *)
theory PFLimits
  imports PowerPolar
begin

text \<open>Reactive limits of the generators (\<open>PFSolverPowerPolar::enforceReactiveLimits\<close>): a PV
  bus whose generators leave their limits becomes a PQ bus pinned at the limit, a pinned
  bus whose limit no longer binds goes back, and a bus that has switched often enough is
  frozen.  The std::map of the code is ordered by the pointers.  The theory then puts the
  whole solver together.\<close>

section \<open>The limits of a bus\<close>

definition addLimits :: "pfcomp \<Rightarrow> bound \<times> bound \<times> real \<times> bool \<times> bool \<Rightarrow> bound \<times> bound \<times> real \<times> bool \<times> bool" where
  "addLimits d acc = (case d of
       GenComp g \<Rightarrow> (case acc of (qMax, qMin, vSet, hasGen, anyFinite) \<Rightarrow>
         (addB qMax (gen_Q_max_pu g), addB qMin (gen_Q_min_pu g), gen_V_pu g, True,
          anyFinite \<or> isFiniteB (gen_Q_max_pu g) \<or> isFiniteB (gen_Q_min_pu g)))
     | _ \<Rightarrow> acc)"

definition busLimits :: "pfpolar \<Rightarrow> nat \<Rightarrow> bound \<times> bound \<times> real \<times> bool" where
  "busLimits S p = (case fold (\<lambda>c. addLimits (pfData S c)) (compsAt S p) (Finite 0, Finite 0, 0, False, False) of
     (qMax, qMin, vSet, hasGen, anyFinite) \<Rightarrow> (qMax, qMin, vSet, hasGen \<and> anyFinite))"

definition frozen :: "pfpolar \<Rightarrow> nat \<Rightarrow> bool" where
  "frozen S p = (case mQLimitSwitchCount S p of None \<Rightarrow> False | Some n \<Rightarrow> n \<ge> mMaxQLimitSwitchesPerBus S)"

definition loadReactivePowerPerUnit :: "pfpolar \<Rightarrow> nat \<Rightarrow> real" where
  "loadReactivePowerPerUnit S p =
     fold (\<lambda>c q. case pfData S c of LoadComp l \<Rightarrow> q + ld_Q_pu l | _ \<Rightarrow> q) (compsAt S p) 0"

definition nodalPower :: "pfpolar \<Rightarrow> nat \<Rightarrow> complex" where
  "nodalPower S k = solVcx S k * cnj (\<Sum>j<numNodes S. ent (mY S) k j * solVcx S j)"

definition generatorReactivePowerPerUnit :: "pfpolar \<Rightarrow> nat \<Rightarrow> real" where
  "generatorReactivePowerPerUnit S p = Im (nodalPower S (busIndex S p)) + loadReactivePowerPerUnit S p"

section \<open>Which buses switch\<close>

text \<open>The limit a PV bus violates: at the maximum or not, and the limit.\<close>

definition violated :: "pfpolar \<Rightarrow> nat \<Rightarrow> (bool \<times> real) option" where
  "violated S p =
     (if frozen S p then None
      else case busLimits S p of (qMax, qMin, vSet, limited) \<Rightarrow>
        if \<not> limited then None
        else let qGen = generatorReactivePowerPerUnit S p;
                 below = (case qMin of Finite m \<Rightarrow> if qGen < m then Some (False, m) else None | NotFinite \<Rightarrow> None)
             in case qMax of Finite m \<Rightarrow> if qGen > m then Some (True, m) else below | NotFinite \<Rightarrow> below)"

definition toPQ :: "pfpolar \<Rightarrow> (nat \<times> bool \<times> real) list" where
  "toPQ S = concat (map (\<lambda>p. case violated S p of None \<Rightarrow> [] | Some (atMax, q) \<Rightarrow> [(p, atMax, q)]) (mPVBuses S))"

definition released :: "pfpolar \<Rightarrow> nat \<Rightarrow> bool" where
  "released S p \<longleftrightarrow> \<not> frozen S p \<and> (case busLimits S p of (qMax, qMin, vSet, limited) \<Rightarrow>
     limited \<and> (let v = solV S (busIndex S p) in
       case mQLimitConvertedAtMax S p of Some True \<Rightarrow> v > vSet | Some False \<Rightarrow> v < vSet | None \<Rightarrow> False))"

definition toPV :: "pfpolar \<Rightarrow> nat list" where
  "toPV S = filter (released S) (sorted_list_of_set (dom (mQLimitConvertedAtMax S)))"

section \<open>Switching\<close>

definition countSwitch :: "nat \<Rightarrow> pfpolar \<Rightarrow> pfpolar" where
  "countSwitch p S = S\<lparr>mQLimitSwitchCount := (mQLimitSwitchCount S)
     (p \<mapsto> (case mQLimitSwitchCount S p of None \<Rightarrow> 0 | Some n \<Rightarrow> n) + 1)\<rparr>"

definition pinBus :: "nat \<times> bool \<times> real \<Rightarrow> pfpolar \<Rightarrow> pfpolar" where
  "pinBus c S = (case c of (p, atMax, qLim) \<Rightarrow>
     let idx = busIndex S p; q = qLim - loadReactivePowerPerUnit S p
     in countSwitch p (S\<lparr>mPVBuses := removeAll p (mPVBuses S), mPQBuses := mPQBuses S @ [p],
          Qesp := (Qesp S)(idx := q), solQ := (solQ S)(idx := q),
          mQLimitConvertedAtMax := (mQLimitConvertedAtMax S)(p \<mapsto> atMax)\<rparr>))"

definition releaseBus :: "nat \<Rightarrow> pfpolar \<Rightarrow> pfpolar" where
  "releaseBus p S = (case busLimits S p of (qMax, qMin, vSet, limited) \<Rightarrow>
     countSwitch p (S\<lparr>mPQBuses := removeAll p (mPQBuses S), mPVBuses := mPVBuses S @ [p],
       solV := (solV S)(busIndex S p := vSet),
       mQLimitConvertedAtMax := (mQLimitConvertedAtMax S)(p := None)\<rparr>))"

definition enforceReactiveLimits :: "pfpolar \<Rightarrow> pfpolar \<times> bool" where
  "enforceReactiveLimits S =
     (let pq = toPQ S; pv = toPV S
      in (fold releaseBus pv (fold pinBus pq S), pq \<noteq> [] \<or> pv \<noteq> []))"

definition clearReactiveLimitState :: "pfpolar \<Rightarrow> pfpolar" where
  "clearReactiveLimitState S = S\<lparr>mQLimitConvertedAtMax := Map.empty, mQLimitSwitchCount := Map.empty\<rparr>"

section \<open>Invariants of the switching\<close>

definition switches :: "pfpolar \<Rightarrow> nat \<Rightarrow> nat" where
  "switches S p = (case mQLimitSwitchCount S p of None \<Rightarrow> 0 | Some n \<Rightarrow> n)"

text \<open>The unknown buses are listed once, as PQ or as PV; pinned buses are PQ buses; no bus
  has switched more often than allowed.  The limit itself is at least one: a bus that never
  switched is not frozen, so with a limit of zero the first switch still happens.\<close>

definition limits_ok :: "pfpolar \<Rightarrow> bool" where
  "limits_ok S \<longleftrightarrow> distinct (mPQBuses S @ mPVBuses S)
     \<and> finite (dom (mQLimitConvertedAtMax S)) \<and> dom (mQLimitConvertedAtMax S) \<subseteq> set (mPQBuses S)
     \<and> (\<forall>p. switches S p \<le> max 1 (mMaxQLimitSwitchesPerBus S))"

lemma countSwitch_simps [simp]:
  "switches (countSwitch p S) q = (if q = p then Suc (switches S p) else switches S q)"
  "mPQBuses (countSwitch p S) = mPQBuses S" "mPVBuses (countSwitch p S) = mPVBuses S"
  "mQLimitConvertedAtMax (countSwitch p S) = mQLimitConvertedAtMax S"
  "mMaxQLimitSwitchesPerBus (countSwitch p S) = mMaxQLimitSwitchesPerBus S"
  by (simp_all add: countSwitch_def switches_def split: option.splits)

lemma pinBus_simps [simp]:
  "switches (pinBus (p, m, q) S) r = (if r = p then Suc (switches S p) else switches S r)"
  "mPQBuses (pinBus (p, m, q) S) = mPQBuses S @ [p]" "mPVBuses (pinBus (p, m, q) S) = removeAll p (mPVBuses S)"
  "mQLimitConvertedAtMax (pinBus (p, m, q) S) = (mQLimitConvertedAtMax S)(p \<mapsto> m)"
  "mMaxQLimitSwitchesPerBus (pinBus (p, m, q) S) = mMaxQLimitSwitchesPerBus S"
  by (simp_all add: pinBus_def Let_def, simp_all add: switches_def)

lemma releaseBus_simps [simp]:
  "switches (releaseBus p S) r = (if r = p then Suc (switches S p) else switches S r)"
  "mPQBuses (releaseBus p S) = removeAll p (mPQBuses S)" "mPVBuses (releaseBus p S) = mPVBuses S @ [p]"
  "mQLimitConvertedAtMax (releaseBus p S) = (mQLimitConvertedAtMax S)(p := None)"
  "mMaxQLimitSwitchesPerBus (releaseBus p S) = mMaxQLimitSwitchesPerBus S"
  by (simp_all add: releaseBus_def split: prod.splits, simp_all add: switches_def)

lemma frozen_switches: "\<not> frozen S p \<Longrightarrow> switches S p < max 1 (mMaxQLimitSwitchesPerBus S)"
  by (auto simp: frozen_def switches_def split: option.splits)

text \<open>The effect of a sequence of switches of different buses.\<close>

lemma pinBuses:
  assumes "distinct (map fst cs)" "distinct (mPQBuses S @ mPVBuses S)" "set (map fst cs) \<subseteq> set (mPVBuses S)"
  defines "S' \<equiv> fold pinBus cs S"
  shows "mPQBuses S' = mPQBuses S @ map fst cs"
    "mPVBuses S' = filter (\<lambda>p. p \<notin> set (map fst cs)) (mPVBuses S)"
    "dom (mQLimitConvertedAtMax S') = dom (mQLimitConvertedAtMax S) \<union> set (map fst cs)"
    "switches S' = (\<lambda>p. switches S p + (if p \<in> set (map fst cs) then 1 else 0))"
    "mMaxQLimitSwitchesPerBus S' = mMaxQLimitSwitchesPerBus S"
proof -
  have "mPQBuses (fold pinBus cs S) = mPQBuses S @ map fst cs
    \<and> mPVBuses (fold pinBus cs S) = filter (\<lambda>p. p \<notin> set (map fst cs)) (mPVBuses S)
    \<and> dom (mQLimitConvertedAtMax (fold pinBus cs S)) = dom (mQLimitConvertedAtMax S) \<union> set (map fst cs)
    \<and> (\<forall>p. switches (fold pinBus cs S) p = switches S p + (if p \<in> set (map fst cs) then 1 else 0))
    \<and> mMaxQLimitSwitchesPerBus (fold pinBus cs S) = mMaxQLimitSwitchesPerBus S"
    using assms(1)
  proof (induction cs arbitrary: S)
    case (Cons c cs)
    obtain p m q where c: "c = (p, m, q)" by (cases c) auto
    have "p \<notin> set (map fst cs)" using Cons.prems c by simp
    then show ?case
      using Cons.IH [of "pinBus c S"] Cons.prems
      by (auto simp: c removeAll_filter_not_eq intro!: filter_cong)
  qed simp
  then show "mPQBuses S' = mPQBuses S @ map fst cs"
    "mPVBuses S' = filter (\<lambda>p. p \<notin> set (map fst cs)) (mPVBuses S)"
    "dom (mQLimitConvertedAtMax S') = dom (mQLimitConvertedAtMax S) \<union> set (map fst cs)"
    "switches S' = (\<lambda>p. switches S p + (if p \<in> set (map fst cs) then 1 else 0))"
    "mMaxQLimitSwitchesPerBus S' = mMaxQLimitSwitchesPerBus S"
    unfolding S'_def by (simp_all add: fun_eq_iff)
qed

lemma releaseBuses:
  fixes S :: pfpolar
  assumes "distinct ps"
  defines "S' \<equiv> fold releaseBus ps S"
  shows "mPVBuses S' = mPVBuses S @ ps"
    "mPQBuses S' = filter (\<lambda>p. p \<notin> set ps) (mPQBuses S)"
    "dom (mQLimitConvertedAtMax S') = dom (mQLimitConvertedAtMax S) - set ps"
    "switches S' = (\<lambda>p. switches S p + (if p \<in> set ps then 1 else 0))"
    "mMaxQLimitSwitchesPerBus S' = mMaxQLimitSwitchesPerBus S"
proof -
  have "mPVBuses (fold releaseBus ps S) = mPVBuses S @ ps
    \<and> mPQBuses (fold releaseBus ps S) = filter (\<lambda>p. p \<notin> set ps) (mPQBuses S)
    \<and> dom (mQLimitConvertedAtMax (fold releaseBus ps S)) = dom (mQLimitConvertedAtMax S) - set ps
    \<and> (\<forall>p. switches (fold releaseBus ps S) p = switches S p + (if p \<in> set ps then 1 else 0))
    \<and> mMaxQLimitSwitchesPerBus (fold releaseBus ps S) = mMaxQLimitSwitchesPerBus S"
    using assms(1)
  proof (induction ps arbitrary: S)
    case (Cons p ps)
    then show ?case
      using Cons.IH [of "releaseBus p S"] by (auto simp: removeAll_filter_not_eq intro!: filter_cong)
  qed simp
  then show "mPVBuses S' = mPVBuses S @ ps"
    "mPQBuses S' = filter (\<lambda>p. p \<notin> set ps) (mPQBuses S)"
    "dom (mQLimitConvertedAtMax S') = dom (mQLimitConvertedAtMax S) - set ps"
    "switches S' = (\<lambda>p. switches S p + (if p \<in> set ps then 1 else 0))"
    "mMaxQLimitSwitchesPerBus S' = mMaxQLimitSwitchesPerBus S"
    unfolding S'_def by (simp_all add: fun_eq_iff)
qed

lemma toPQ_mem: "(p, m, q) \<in> set (toPQ S) \<longleftrightarrow> p \<in> set (mPVBuses S) \<and> violated S p = Some (m, q)"
  by (auto simp: toPQ_def split: option.splits prod.splits)

lemma toPQ_buses: "map fst (toPQ S) = filter (\<lambda>p. violated S p \<noteq> None) (mPVBuses S)"
proof -
  have "map fst (concat (map (\<lambda>p. case violated S p of None \<Rightarrow> [] | Some (m, q) \<Rightarrow> [(p, m, q)]) ps))
      = filter (\<lambda>p. violated S p \<noteq> None) ps" for ps
    by (induction ps) (auto split: option.splits)
  then show ?thesis by (simp add: toPQ_def)
qed

lemma violated_not_frozen: "violated S p \<noteq> None \<Longrightarrow> \<not> frozen S p"
  by (auto simp: violated_def split: if_splits)

lemma enforce_quiet: "enforceReactiveLimits S = (S', False) \<Longrightarrow> S' = S"
  by (auto simp: enforceReactiveLimits_def Let_def)

lemma enforce_effect:
  assumes "limits_ok S"
  defines "S' \<equiv> fst (enforceReactiveLimits S)"
    and "A \<equiv> map fst (toPQ S)" and "C \<equiv> toPV S"
  shows "mPQBuses S' = filter (\<lambda>p. p \<notin> set C) (mPQBuses S) @ A"
    "mPVBuses S' = filter (\<lambda>p. p \<notin> set A) (mPVBuses S) @ C"
    "dom (mQLimitConvertedAtMax S') = (dom (mQLimitConvertedAtMax S) \<union> set A) - set C"
    "switches S' = (\<lambda>p. switches S p + (if p \<in> set A \<union> set C then 1 else 0))"
    "mMaxQLimitSwitchesPerBus S' = mMaxQLimitSwitchesPerBus S"
    "distinct A" "distinct C" "set A \<subseteq> set (mPVBuses S)" "set C \<subseteq> set (mPQBuses S)"
    "\<And>p. p \<in> set A \<union> set C \<Longrightarrow> \<not> frozen S p"
proof -
  have d: "distinct (mPQBuses S @ mPVBuses S)" and fin: "finite (dom (mQLimitConvertedAtMax S))"
    and sub: "dom (mQLimitConvertedAtMax S) \<subseteq> set (mPQBuses S)"
    using assms(1) by (simp_all add: limits_ok_def)
  show dA: "distinct A" and sA: "set A \<subseteq> set (mPVBuses S)" using d by (auto simp: A_def toPQ_buses)
  show dC: "distinct C" and sC: "set C \<subseteq> set (mPQBuses S)" using sub fin by (auto simp: C_def toPV_def)
  show nf: "\<not> frozen S p" if "p \<in> set A \<union> set C" for p
    using that violated_not_frozen by (auto simp: A_def C_def toPQ_buses toPV_def released_def)
  have AC: "set A \<inter> set C = {}" using sA sC d by auto
  note pin = pinBuses [OF dA [unfolded A_def] d sA [unfolded A_def], folded A_def]
  have S': "S' = fold releaseBus C (fold pinBus (toPQ S) S)"
    by (simp add: S'_def enforceReactiveLimits_def Let_def C_def)
  note rel = releaseBuses [OF dC, of "fold pinBus (toPQ S) S", folded S']
  show "mPQBuses S' = filter (\<lambda>p. p \<notin> set C) (mPQBuses S) @ A"
    unfolding rel pin using AC by (auto simp: filter_id_conv)
  show "mPVBuses S' = filter (\<lambda>p. p \<notin> set A) (mPVBuses S) @ C" unfolding rel pin ..
  show "dom (mQLimitConvertedAtMax S') = (dom (mQLimitConvertedAtMax S) \<union> set A) - set C" unfolding rel pin ..
  show "switches S' = (\<lambda>p. switches S p + (if p \<in> set A \<union> set C then 1 else 0))"
    unfolding rel pin using AC by (auto simp: fun_eq_iff)
  show "mMaxQLimitSwitchesPerBus S' = mMaxQLimitSwitchesPerBus S" unfolding rel pin ..
qed

text \<open>C21. A pass of the limit enforcement keeps the set of unknown buses and lists each
  once, keeps the pinned buses among the PQ buses, and lets no bus switch more often than
  allowed.  It reports a switch exactly when some bus switched, and otherwise changes
  nothing; so the number of passes that switch is bounded.\<close>

theorem limit_switching:
  assumes "limits_ok S" "enforceReactiveLimits S = (S', switched)"
  shows "limits_ok S'
    \<and> mset (mPQBuses S' @ mPVBuses S') = mset (mPQBuses S @ mPVBuses S)
    \<and> (\<forall>p. switches S p \<le> switches S' p \<and> switches S' p \<le> Suc (switches S p)
          \<and> (frozen S p \<longrightarrow> switches S' p = switches S p))
    \<and> (if switched then sum_list (map (switches S) (mPQBuses S @ mPVBuses S))
           < sum_list (map (switches S') (mPQBuses S' @ mPVBuses S'))
       else S' = S)"
proof -
  define A C where "A = map fst (toPQ S)" and "C = toPV S"
  have S': "S' = fst (enforceReactiveLimits S)" using assms(2) by simp
  note e = enforce_effect [OF assms(1), folded A_def C_def S']
  have lim: "distinct (mPQBuses S @ mPVBuses S)" "finite (dom (mQLimitConvertedAtMax S))"
    "dom (mQLimitConvertedAtMax S) \<subseteq> set (mPQBuses S)" "\<And>p. switches S p \<le> max 1 (mMaxQLimitSwitchesPerBus S)"
    using assms(1) by (simp_all add: limits_ok_def)
  have ms: "mset (filter (\<lambda>p. p \<notin> set ys) xs) + mset ys = mset xs"
    if "distinct xs" "distinct ys" "set ys \<subseteq> set xs" for xs ys :: "nat list"
  proof -
    have "distinct (filter (\<lambda>p. p \<notin> set ys) xs @ ys)" using that by auto
    moreover have "set (filter (\<lambda>p. p \<notin> set ys) xs @ ys) = set xs" using that by auto
    ultimately have "mset (filter (\<lambda>p. p \<notin> set ys) xs @ ys) = mset xs"
      using that(1) by (simp only: set_eq_iff_mset_eq_distinct)
    then show ?thesis by simp
  qed
  have mPV: "mset (filter (\<lambda>p. p \<notin> set A) (mPVBuses S)) + mset A = mset (mPVBuses S)"
    and mPQ: "mset (filter (\<lambda>p. p \<notin> set C) (mPQBuses S)) + mset C = mset (mPQBuses S)"
    using ms lim(1) e(6-9) by simp_all
  have perm: "mset (mPQBuses S' @ mPVBuses S') = mset (mPQBuses S @ mPVBuses S)"
    unfolding e(1,2) mset_append mPV [symmetric] mPQ [symmetric] by (simp add: ac_simps)
  have ok': "limits_ok S'"
    unfolding limits_ok_def
  proof (intro conjI allI)
    show "distinct (mPQBuses S' @ mPVBuses S')" using lim(1) perm by (metis mset_eq_imp_distinct_iff)
    show "finite (dom (mQLimitConvertedAtMax S'))" unfolding e(3) using lim(2) by simp
    show "dom (mQLimitConvertedAtMax S') \<subseteq> set (mPQBuses S')" unfolding e(1,3) using lim(3) by auto
    show "switches S' p \<le> max 1 (mMaxQLimitSwitchesPerBus S')" for p
      unfolding e(4,5) using lim(4) [of p] e(10) [of p] frozen_switches [of S p] by auto
  qed
  have sw: "\<forall>p. switches S p \<le> switches S' p \<and> switches S' p \<le> Suc (switches S p)
      \<and> (frozen S p \<longrightarrow> switches S' p = switches S p)"
    unfolding e(4) using e(10) by auto
  have last: "if switched then sum_list (map (switches S) (mPQBuses S @ mPVBuses S))
      < sum_list (map (switches S') (mPQBuses S' @ mPVBuses S')) else S' = S"
  proof (cases switched)
    case False
    then show ?thesis using assms(2) enforce_quiet by simp
  next
    case True
    then have "A \<noteq> [] \<or> C \<noteq> []" using assms(2) by (auto simp: enforceReactiveLimits_def Let_def A_def C_def)
    then obtain p where p: "p \<in> set A \<union> set C" by (metis Un_iff list.set_intros(1) neq_Nil_conv)
    let ?B = "mPQBuses S @ mPVBuses S"
    have pB: "p \<in> set ?B" using p e(8,9) by auto
    have "sum_list (map (switches S') (mPQBuses S' @ mPVBuses S')) = sum_list (map (switches S') ?B)"
      using perm by (metis mset_map sum_mset_sum_list)
    moreover have "sum_list (map (switches S) ?B) < sum_list (map (switches S') ?B)"
      using sum_strict_mono2 lim(1) pB sw p unfolding sum_list_distinct_conv_sum_set [OF lim(1)]
      by (intro sum_strict_mono_ex1) (auto simp: e(4))
    ultimately show ?thesis using True by simp
  qed
  show ?thesis using ok' perm sw last by blast
qed

section \<open>The whole solve\<close>

definition polarRun :: "(real matrix \<Rightarrow> (nat \<Rightarrow> bound) \<Rightarrow> nat \<Rightarrow> bound) \<Rightarrow> pfpolar \<Rightarrow> pfpolar" where
  "polarRun lu = runNewtonRaphson calculateMismatch calculateJacobian (solveJacobianSystem lu) updateSolution"

definition polarSolve :: "(real matrix \<Rightarrow> (nat \<Rightarrow> bound) \<Rightarrow> nat \<Rightarrow> bound) \<Rightarrow> pfpolar \<Rightarrow> pfpolar" where
  "polarSolve lu = solvePowerflow (polarRun lu) enforceReactiveLimits"

lemma P_Q_update [simp]:
  "P (S\<lparr>mF := f\<rparr>) = P S" "Q (S\<lparr>mF := f\<rparr>) = Q S" "P (flags c i S) = P S" "Q (flags c i S) = Q S"
  "numAngles (S\<lparr>mF := f\<rparr>) = numAngles S" "busAt (S\<lparr>mF := f\<rparr>) = busAt S"
  "numAngles (flags c i S) = numAngles S" "busAt (flags c i S) = busAt S"
  by (simp_all add: fun_eq_iff P_def Q_def numNodes_def G_def B_def numAngles_def busAt_def flags_def)

interpretation polar: pf_formulation calculateMismatch calculateJacobian "solveJacobianSystem lu"
  updateSolution enforceReactiveLimits for lu
proof
  fix S S' :: pfpolar and c i
  show "calculateMismatch (calculateMismatch S) = calculateMismatch S"
    by (simp add: calculateMismatch_def cong: if_cong)
  show "calculateMismatch (flags c i S) = flags c i (calculateMismatch S)"
    unfolding calculateMismatch_def P_Q_update by (simp add: flags_def cong: if_cong)
  show "enforceReactiveLimits S = (S', False) \<Longrightarrow> S' = S" by (rule enforce_quiet)
qed

definition sized :: "pfpolar \<Rightarrow> bool" where
  "sized S \<longleftrightarrow> mNumUnknowns S = 2 * mNumPQBuses S + mNumPVBuses S"

lemma fold_keeps: "(\<And>x S. f (g x S) = f S) \<Longrightarrow> f (fold g xs S) = f S"
  by (induction xs arbitrary: S) simp_all

lemma sized_steps:
  "sized (calculateMismatch S) = sized S" "sized (calculateJacobian S) = sized S"
  "sized (solveJacobianSystem lu S) = sized S" "sized (updateSolution S) = sized S"
  "sized (flags c i S) = sized S" "sized (zeroUnknowns S) = sized S" "sized (S\<lparr>isConverged := c\<rparr>) = sized S"
  "sized (fst (enforceReactiveLimits S)) = sized S" "sized (reclassifyBuses S)"
proof -
  have mv: "sized (moveBus s a S) = sized S" for s a S by (simp add: moveBus_def sized_def Let_def)
  have sv: "sized (setVcomplex k S) = sized S" for k S by (simp add: setVcomplex_def sized_def)
  show "sized (updateSolution S) = sized S"
    by (simp add: updateSolution_def Let_def fold_keeps [where f = sized] mv sv) (simp add: sized_def)
  have pb: "sized (pinBus c S) = sized S" for c S by (simp add: pinBus_def sized_def Let_def countSwitch_def split: prod.splits)
  have rb: "sized (releaseBus p S) = sized S" for p S by (simp add: releaseBus_def sized_def countSwitch_def split: prod.splits)
  show "sized (fst (enforceReactiveLimits S)) = sized S"
    by (simp add: enforceReactiveLimits_def Let_def fold_keeps [where f = sized] pb rb)
qed (simp_all add: sized_def calculateMismatch_def calculateJacobian_def solveJacobianSystem_def flags_def
    zeroUnknowns_def reclassifyBuses_def setUpJacobianStorage_def rebuildBusIndexAggregates_def Let_def)

lemma polarSolve_sized: "sized S \<Longrightarrow> sized (polarSolve lu S)"
  unfolding polarSolve_def polarRun_def
  by (rule solve_invariant) (auto simp: sized_steps intro!: run_invariant [where I = sized])

lemma not_violated:
  assumes "violated S p = None" "\<not> frozen S p" "busLimits S p = (qMax, qMin, v, True)"
  shows "(\<forall>m. qMax = Finite m \<longrightarrow> generatorReactivePowerPerUnit S p \<le> m)
    \<and> (\<forall>m. qMin = Finite m \<longrightarrow> m \<le> generatorReactivePowerPerUnit S p)"
  using assms by (auto simp: violated_def Let_def split: bound.splits if_splits)

lemma converged_facts:
  assumes "sized S" "isConverged (polarSolve lu S)"
  defines "T \<equiv> polarSolve lu S"
  shows "solFinite T \<or> mNumUnknowns T = 0"
    and "\<forall>a < numAngles T. \<bar>Pesp T (busAt T a) - P T (busAt T a)\<bar> \<le> mTolerance T"
    and "\<forall>b < mNumPQBuses T. \<bar>Qesp T (busAt T b) - Q T (busAt T b)\<bar> \<le> mTolerance T"
    and "mEnforceReactiveLimits (polarRun lu S) \<longrightarrow> (\<forall>p \<in> set (mPVBuses T). \<forall>qMax qMin v.
        \<not> frozen T p \<and> busLimits T p = (qMax, qMin, v, True)
        \<longrightarrow> (\<forall>m. qMax = Finite m \<longrightarrow> generatorReactivePowerPerUnit T p \<le> m)
          \<and> (\<forall>m. qMin = Finite m \<longrightarrow> m \<le> generatorReactivePowerPerUnit T p))"
proof -
  have snd: "calculateMismatch T = T" "checkConvergence T"
    "mEnforceReactiveLimits (polarRun lu S) \<longrightarrow> enforceReactiveLimits T = (T, False)"
    using polar.solve_sound [of lu S] assms(2) by (simp_all add: T_def polarSolve_def polarRun_def)
  have sz: "mNumUnknowns T = numAngles T + mNumPQBuses T"
    using polarSolve_sized [OF assms(1), of lu] by (simp add: T_def [symmetric] sized_def numAngles_def)
  have F: "mF T i = mF (calculateMismatch T) i" for i by (simp add: snd(1))
  have okF: "mismatchOk (mTolerance T) (mF T i)" if "i < mNumUnknowns T" for i
    using snd(2) that by (simp add: checkConvergence_def list_all_iff)
  show fin: "solFinite T \<or> mNumUnknowns T = 0"
  proof (rule ccontr)
    assume "\<not> (solFinite T \<or> mNumUnknowns T = 0)"
    then show False using okF [of 0] F [of 0] by (simp add: calculateMismatch_def mismatchOk_def)
  qed
  show "\<forall>a < numAngles T. \<bar>Pesp T (busAt T a) - P T (busAt T a)\<bar> \<le> mTolerance T"
  proof (intro allI impI)
    fix a assume a: "a < numAngles T"
    then have "mF T a = Finite (Pesp T (busAt T a) - P T (busAt T a))"
      using F [of a] fin sz by (simp add: calculateMismatch_def)
    then show "\<bar>Pesp T (busAt T a) - P T (busAt T a)\<bar> \<le> mTolerance T"
      using okF [of a] a sz by (simp add: mismatchOk_def)
  qed
  show "\<forall>b < mNumPQBuses T. \<bar>Qesp T (busAt T b) - Q T (busAt T b)\<bar> \<le> mTolerance T"
  proof (intro allI impI)
    fix b assume b: "b < mNumPQBuses T"
    then have "mF T (numAngles T + b) = Finite (Qesp T (busAt T b) - Q T (busAt T b))"
      using F [of "numAngles T + b"] fin sz by (simp add: calculateMismatch_def)
    then show "\<bar>Qesp T (busAt T b) - Q T (busAt T b)\<bar> \<le> mTolerance T"
      using okF [of "numAngles T + b"] b sz by (simp add: mismatchOk_def)
  qed
  show "mEnforceReactiveLimits (polarRun lu S) \<longrightarrow> (\<forall>p \<in> set (mPVBuses T). \<forall>qMax qMin v.
        \<not> frozen T p \<and> busLimits T p = (qMax, qMin, v, True)
        \<longrightarrow> (\<forall>m. qMax = Finite m \<longrightarrow> generatorReactivePowerPerUnit T p \<le> m)
          \<and> (\<forall>m. qMin = Finite m \<longrightarrow> m \<le> generatorReactivePowerPerUnit T p))"
  proof (intro impI ballI allI)
    fix p qMax qMin v
    assume enf: "mEnforceReactiveLimits (polarRun lu S)" and p: "p \<in> set (mPVBuses T)"
      and l: "\<not> frozen T p \<and> busLimits T p = (qMax, qMin, v, True)"
    have "toPQ T = []" using snd(3) enf by (auto simp: enforceReactiveLimits_def Let_def)
    then have "filter (\<lambda>p. violated T p \<noteq> None) (mPVBuses T) = []" using toPQ_buses [of T] by simp
    then have "violated T p = None" using p unfolding filter_empty_conv by blast
    then show "(\<forall>m. qMax = Finite m \<longrightarrow> generatorReactivePowerPerUnit T p \<le> m)
        \<and> (\<forall>m. qMin = Finite m \<longrightarrow> m \<le> generatorReactivePowerPerUnit T p)"
      using not_violated l by blast
  qed
qed

text \<open>C10. When a solve reports convergence, whatever the linear solver returned, the powers
  of the solution are finite and meet the specified ones within the tolerance at every
  unknown bus; with enforced limits every PV bus that is not frozen is within the reactive
  limits of its generators.\<close>

theorem converged_solution:
  assumes "sized S" "isConverged (polarSolve lu S)"
  shows "let T = polarSolve lu S in
      (solFinite T \<or> mNumUnknowns T = 0)
    \<and> (\<forall>a < numAngles T. \<bar>Pesp T (busAt T a) - P T (busAt T a)\<bar> \<le> mTolerance T)
    \<and> (\<forall>b < mNumPQBuses T. \<bar>Qesp T (busAt T b) - Q T (busAt T b)\<bar> \<le> mTolerance T)
    \<and> (mEnforceReactiveLimits (polarRun lu S) \<longrightarrow> (\<forall>p \<in> set (mPVBuses T). \<forall>qMax qMin v.
        \<not> frozen T p \<and> busLimits T p = (qMax, qMin, v, True)
        \<longrightarrow> (\<forall>m. qMax = Finite m \<longrightarrow> generatorReactivePowerPerUnit T p \<le> m)
          \<and> (\<forall>m. qMin = Finite m \<longrightarrow> m \<le> generatorReactivePowerPerUnit T p)))"
  unfolding Let_def by (intro conjI converged_facts [OF assms])

section \<open>Witnesses\<close>

text \<open>The generator of node 1 gets a negative upper limit, which it violates.\<close>

abbreviation demo_limited :: pfpolar where
  "demo_limited \<equiv> demo_polar\<lparr>pfData := \<lambda>c. if c = 0 then LineComp demo_line
     else GenComp (demo_gen\<lparr>gen_Q_max_pu := Finite (-1)\<rparr>)\<rparr>"

theorem limit_switching_witness:
  "\<exists>S'. enforceReactiveLimits demo_limited = (S', True) \<and> limits_ok S'
     \<and> mset (mPQBuses S' @ mPVBuses S') = {#1, 2#} \<and> switches S' 1 \<le> 1"
proof -
  have f: "mPQBuses demo_limited = [2]" "mPVBuses demo_limited = [1]" "switches demo_limited = (\<lambda>_. 0)"
    "mQLimitConvertedAtMax demo_limited = Map.empty" "\<not> frozen demo_limited p" for p
    by (simp_all add: demo_polar_def pfsolver.defs switches_def frozen_def fun_eq_iff)
  have okl: "limits_ok demo_limited" unfolding limits_ok_def f by simp
  have c: "compsAt demo_limited 1 = [0, 1]" "mY demo_limited = mkmat 0 0 (\<lambda>_ _. 0)"
    by (simp_all add: demo_polar_def pfsolver.defs compsAt_def demo_pf_def edges_at_def)
  have l: "busLimits demo_limited 1 = (Finite (-1), NotFinite, 1, True)"
    unfolding busLimits_def c by (simp add: addLimits_def demo_gen_def addB_def isFiniteB_def)
  have q: "generatorReactivePowerPerUnit demo_limited 1 = 0"
    unfolding generatorReactivePowerPerUnit_def nodalPower_def loadReactivePowerPerUnit_def c by simp
  have "violated demo_limited 1 = Some (True, -1)"
    unfolding violated_def l q using f(5) by simp
  then have "toPQ demo_limited \<noteq> []" unfolding toPQ_def f by simp
  then obtain S' where S': "enforceReactiveLimits demo_limited = (S', True)"
    by (cases "enforceReactiveLimits demo_limited") (auto simp: enforceReactiveLimits_def Let_def)
  have "switches S' 1 \<le> Suc (switches demo_limited 1)"
    using limit_switching [OF okl S'] by blast
  moreover have "limits_ok S' \<and> mset (mPQBuses S' @ mPVBuses S') = mset (mPQBuses demo_limited @ mPVBuses demo_limited)"
    using limit_switching [OF okl S'] by blast
  ultimately show ?thesis using S' unfolding f by (intro exI [of _ S']) (simp add: add_mset_commute)
qed

text \<open>With no admittance and no specified power the initial solution is already one.\<close>

theorem converged_solution_witness:
  "\<bar>Pesp (polarSolve (\<lambda>_ _ _. NotFinite) demo_polar) (busAt (polarSolve (\<lambda>_ _ _. NotFinite) demo_polar) 0)
     - P (polarSolve (\<lambda>_ _ _. NotFinite) demo_polar) (busAt (polarSolve (\<lambda>_ _ _. NotFinite) demo_polar) 0)\<bar> \<le> 1 / 10 ^ 8"
proof -
  let ?lu = "\<lambda>_ _ _. NotFinite"
  let ?M = "calculateMismatch (zeroUnknowns (demo_polar\<lparr>isConverged := False, mIterations := 0\<rparr>))"
  have z: "P demo_polar k = 0" "Q demo_polar k = 0" "Pesp demo_polar k = 0" "Qesp demo_polar k = 0" "solFinite demo_polar"
    "mTolerance demo_polar = 1 / 10 ^ 8" "mMaxIterations demo_polar = 20" "\<not> mEnforceReactiveLimits demo_polar" for k
    by (simp_all add: P_def Q_def G_def B_def demo_polar_def pfsolver.defs demo_pf_def)
  have M: "?M = demo_polar\<lparr>isConverged := False, mIterations := 0, mX := \<lambda>_. Finite 0, mF := \<lambda>_. Finite 0\<rparr>"
    using z by (simp add: calculateMismatch_def zeroUnknowns_def fun_eq_iff P_def Q_def G_def B_def numNodes_def)
  have conv: "checkConvergence ?M" unfolding M checkConvergence_def by (simp add: mismatchOk_def z list_all_iff)
  have loop: "newtonLoop m j l u is S = S" if "isConverged S" for m j l u "is" and S :: pfpolar
    using that by (cases "is") simp_all
  have run: "polarRun ?lu demo_polar = ?M\<lparr>isConverged := True\<rparr>"
    unfolding polarRun_def runNewtonRaphson_def Let_def using conv by (simp add: loop)
  have solve: "polarSolve ?lu demo_polar = ?M\<lparr>isConverged := True\<rparr>"
    unfolding polarSolve_def solvePowerflow_def Let_def run M using z(8) by simp
  have "isConverged (polarSolve ?lu demo_polar)" unfolding solve by simp
  moreover have "sized demo_polar" by (simp add: sized_def)
  ultimately have "\<forall>a < numAngles (polarSolve ?lu demo_polar).
      \<bar>Pesp (polarSolve ?lu demo_polar) (busAt (polarSolve ?lu demo_polar) a)
        - P (polarSolve ?lu demo_polar) (busAt (polarSolve ?lu demo_polar) a)\<bar> \<le> mTolerance (polarSolve ?lu demo_polar)"
    using converged_solution [of demo_polar ?lu] unfolding Let_def by blast
  moreover have "numAngles (polarSolve ?lu demo_polar) = 2" "mTolerance (polarSolve ?lu demo_polar) = 1 / 10 ^ 8"
    unfolding solve M using z(6) by (simp_all add: numAngles_def)
  ultimately show ?thesis by simp
qed

end
