(* ===== verification/PFZones.thy ===== *)
theory PFZones
  imports PowerFlow
begin

text \<open>The base voltages of the nodes (\<open>PFSolver::propagateAndVerifyBaseVoltage\<close>): a
  union-find with path halving joins the nodes that a line connects, the ratings of the
  components at the nodes of a zone must agree, and every node gets the voltage of its
  zone.  A search that does not end has the value \<open>None\<close>; on the forests the code builds
  it always ends.\<close>

section \<open>Union-find\<close>

partial_function (option) findZone :: "nat list \<Rightarrow> nat \<Rightarrow> (error + nat list \<times> nat) option" where
  "findZone zp node =
     (if length zp \<le> node then Some (throw UndefinedBehaviour)
      else if zp ! node = node then Some (ok (zp, node))
      else if length zp \<le> zp ! node then Some (throw UndefinedBehaviour)
      else let zp' = zp[node := zp ! (zp ! node)] in findZone zp' (zp' ! node))"

definition bindOE :: "(error + 'a) option \<Rightarrow> ('a \<Rightarrow> (error + 'b) option) \<Rightarrow> (error + 'b) option" where
  "bindOE m f = (case m of None \<Rightarrow> None | Some (Inl e) \<Rightarrow> Some (throw e) | Some (Inr x) \<Rightarrow> f x)"

lemma bindOE_simps [simp]:
  "bindOE None f = None" "bindOE (Some (Inl e)) f = Some (Inl e)" "bindOE (Some (Inr x)) f = f x"
  by (simp_all add: bindOE_def)

primrec foldOE :: "('a \<Rightarrow> 's \<Rightarrow> (error + 's) option) \<Rightarrow> 'a list \<Rightarrow> 's \<Rightarrow> (error + 's) option" where
  "foldOE f [] s = Some (ok s)"
| "foldOE f (x # xs) s = bindOE (f x s) (foldOE f xs)"

text \<open>The right side of the assignment is evaluated first.\<close>

definition uniteZones :: "nat \<Rightarrow> nat \<Rightarrow> nat list \<Rightarrow> (error + nat list) option" where
  "uniteZones a b zp = bindOE (findZone zp b) (\<lambda>(zp1, rb).
     bindOE (findZone zp1 a) (\<lambda>(zp2, ra). Some (ok (zp2[ra := rb]))))"

section \<open>What union-find computes\<close>

text \<open>\<open>rooted zp i r k\<close>: following the parents from \<open>i\<close> reaches the root \<open>r\<close> in \<open>k\<close> steps.\<close>

inductive rooted :: "nat list \<Rightarrow> nat \<Rightarrow> nat \<Rightarrow> nat \<Rightarrow> bool" for zp where
  at_root: "i < length zp \<Longrightarrow> zp ! i = i \<Longrightarrow> rooted zp i i 0"
| at_child: "i < length zp \<Longrightarrow> zp ! i \<noteq> i \<Longrightarrow> rooted zp (zp ! i) r k \<Longrightarrow> rooted zp i r (Suc k)"

inductive_cases rootedE: "rooted zp i r k"

lemma rooted_unique:
  assumes "rooted zp i r k" "rooted zp i r' k'"
  shows "r' = r \<and> k' = k"
  using assms
proof (induction arbitrary: k')
  case (at_child i r k)
  from at_child.prems obtain k'' where "k' = Suc k''" "rooted zp (zp ! i) r' k''"
    using at_child.hyps(2) by (auto elim: rootedE)
  then show ?case using at_child.IH by simp
qed (auto elim: rootedE)

lemma rooted_root: "rooted zp i r k \<Longrightarrow> i < length zp \<and> r < length zp \<and> zp ! r = r"
  by (induction rule: rooted.induct) auto

definition forest :: "nat list \<Rightarrow> bool" where
  "forest zp \<longleftrightarrow> (\<forall>i < length zp. \<exists>r k. rooted zp i r k)"

definition rootOf :: "nat list \<Rightarrow> nat \<Rightarrow> nat" where
  "rootOf zp i = (THE r. \<exists>k. rooted zp i r k)"

lemma root_eq: "rooted zp i r k \<Longrightarrow> rootOf zp i = r"
  unfolding rootOf_def by (rule the_equality) (auto dest: rooted_unique)

lemma forest_root:
  assumes "forest zp" "i < length zp"
  obtains k where "rooted zp i (rootOf zp i) k"
proof -
  from assms obtain r k where rk: "rooted zp i r k" unfolding forest_def by blast
  show ?thesis by (rule that [of k]) (simp only: root_eq [OF rk] rk)
qed

lemma root_root: "forest zp \<Longrightarrow> i < length zp \<Longrightarrow> rootOf zp i < length zp \<and> zp ! (rootOf zp i) = rootOf zp i"
  by (metis forest_root rooted_root)

text \<open>Replacing the parent of a node by its grandparent keeps all roots and lengthens no
  path.\<close>

lemma halve_rooted:
  assumes "rooted zp i r k" "node < length zp" "zp ! node < length zp"
  shows "\<exists>k' \<le> k. rooted (zp[node := zp ! (zp ! node)]) i r k'"
  using assms
proof (induction k arbitrary: i rule: less_induct)
  case (less k)
  let ?z = "zp[node := zp ! (zp ! node)]"
  from less.prems(1) show ?case
  proof (cases rule: rooted.cases)
    case at_root
    have "?z ! i = i" using at_root(4) less.prems(2) by (cases "i = node") simp_all
    then show ?thesis using at_root by (auto intro: rooted.at_root)
  next
    case (at_child k1)
    have par: "rooted zp (zp ! i) r k1" by (rule at_child(4))
    show ?thesis
    proof (cases "i = node")
      case False
      have "?z ! i = zp ! i" using False by simp
      moreover obtain k' where "k' \<le> k1" "rooted ?z (zp ! i) r k'"
        using less.IH [OF _ par less.prems(2,3)] at_child(1) by auto
      ultimately have "rooted ?z i r (Suc k')"
        using at_child(2,3) by (intro rooted.at_child) simp_all
      then show ?thesis using \<open>k' \<le> k1\<close> at_child(1) by (intro exI [of _ "Suc k'"]) simp
    next
      case True
      have zi: "?z ! i = zp ! (zp ! i)" using True less.prems(2) by simp
      from par show ?thesis
      proof (cases rule: rooted.cases)
        case at_root
        have ne: "zp ! i \<noteq> node" using at_child(3) True by simp
        have "rooted ?z (zp ! i) (zp ! i) 0"
          using at_root ne less.prems(3) by (intro rooted.at_root) simp_all
        then have "rooted ?z (?z ! i) r 0" using zi at_root by simp
        then have "rooted ?z i r (Suc 0)"
          using at_child(2,3) zi at_root by (intro rooted.at_child) simp_all
        then show ?thesis using at_child(1) at_root by (intro exI [of _ "Suc 0"]) simp
      next
        case (at_child k2)
        have gp: "rooted zp (zp ! (zp ! i)) r k2" by (rule at_child(4))
        have "k2 < k" using at_child(1) \<open>k = Suc k1\<close> by simp
        from less.IH [OF this gp less.prems(2,3)] obtain k' where
          k': "k' \<le> k2" "rooted ?z (zp ! (zp ! i)) r k'" by blast
        have "zp ! (zp ! i) \<noteq> i"
        proof
          assume "zp ! (zp ! i) = i"
          then have "rooted zp i r k2" using gp by simp
          then have "k2 = k" using rooted_unique [OF less.prems(1)] by blast
          then show False using \<open>k2 < k\<close> by simp
        qed
        then have "rooted ?z i r (Suc k')"
          using \<open>i < length zp\<close> zi k'(2) by (intro rooted.at_child) simp_all
        then show ?thesis using k'(1) at_child(1) \<open>k = Suc k1\<close> by (intro exI [of _ "Suc k'"]) simp
      qed
    qed
  qed
qed

lemma halve_roots:
  assumes "forest zp" "node < length zp" "zp ! node < length zp"
  defines "z \<equiv> zp[node := zp ! (zp ! node)]"
  shows "forest z" "i < length zp \<Longrightarrow> rootOf z i = rootOf zp i"
proof -
  have all: "\<exists>k'. rooted z i (rootOf zp i) k'" if "i < length zp" for i
  proof -
    from assms(1) that obtain k where k: "rooted zp i (rootOf zp i) k" by (rule forest_root)
    show ?thesis using halve_rooted [OF k assms(2,3)] unfolding z_def by blast
  qed
  have len: "length z = length zp" by (simp add: z_def)
  show "forest z" unfolding forest_def len using all by blast
  show "rootOf z i = rootOf zp i" if "i < length zp" using all [OF that] root_eq by blast
qed

lemma findZone_root:
  assumes "forest zp" "rooted zp i r k"
  shows "\<exists>zp'. findZone zp i = Some (ok (zp', r)) \<and> forest zp' \<and> length zp' = length zp
    \<and> (\<forall>j < length zp. rootOf zp' j = rootOf zp j)"
  using assms
proof (induction k arbitrary: zp i rule: less_induct)
  case (less k)
  from less.prems(2) show ?case
  proof (cases rule: rooted.cases)
    case at_root
    then show ?thesis using less.prems(1) findZone.simps [of zp i] by simp
  next
    case (at_child k1)
    have pin: "zp ! i < length zp" using rooted_root [OF at_child(4)] by simp
    define z where "z = zp[i := zp ! (zp ! i)]"
    have unf: "findZone zp i = findZone z (z ! i)"
      using findZone.simps [of zp i] at_child(2,3) pin by (simp add: z_def Let_def)
    have fz: "forest z" and rz: "\<And>j. j < length zp \<Longrightarrow> rootOf z j = rootOf zp j"
      unfolding z_def by (rule halve_roots [OF less.prems(1) at_child(2) pin], assumption?)+
    have zi: "z ! i = zp ! (zp ! i)" using at_child(2) by (simp add: z_def)
    have "\<exists>m < k. rooted zp (zp ! (zp ! i)) r m"
      using at_child(4)
    proof (cases rule: rooted.cases)
      case at_root
      then show ?thesis using at_child(1,4) by auto
    next
      case (at_child k2)
      then show ?thesis using \<open>k = Suc k1\<close> by (intro exI [of _ k2]) simp
    qed
    then obtain m where "m < k" "rooted zp (zp ! (zp ! i)) r m" by blast
    then obtain k' where "k' < k" "rooted z (z ! i) r k'"
      using halve_rooted [OF \<open>rooted zp (zp ! (zp ! i)) r m\<close> at_child(2) pin]
      unfolding zi z_def [symmetric] by (meson le_less_trans)
    then obtain zp' where "findZone z (z ! i) = Some (ok (zp', r))" "forest zp'" "length zp' = length z"
      "\<forall>j < length z. rootOf zp' j = rootOf z j"
      using less.IH [OF _ fz] by blast
    then show ?thesis using unf rz by (simp add: z_def)
  qed
qed

lemma findZone_ok:
  assumes "forest zp" "i < length zp"
  obtains zp' where "findZone zp i = Some (ok (zp', rootOf zp i))" "forest zp'" "length zp' = length zp"
    "\<And>j. j < length zp \<Longrightarrow> rootOf zp' j = rootOf zp j"
proof -
  from assms obtain k where "rooted zp i (rootOf zp i) k" by (rule forest_root)
  from findZone_root [OF assms(1) this] show ?thesis using that by blast
qed

lemma link_rooted:
  assumes "rooted z i r k" "ra < length z" "rb < length z" "z ! ra = ra" "z ! rb = rb" "ra \<noteq> rb"
  shows "\<exists>k'. rooted (z[ra := rb]) i (if r = ra then rb else r) k'"
  using assms(1)
proof (induction rule: rooted.induct)
  case (at_root i)
  let ?z = "z[ra := rb]"
  have b: "rooted ?z rb rb 0" using assms by (intro rooted.at_root) simp_all
  show ?case
  proof (cases "i = ra")
    case True
    have "?z ! ra = rb" using assms(2) by simp
    then have "rooted ?z ra rb (Suc 0)" using b assms(2,6) by (intro rooted.at_child) simp_all
    then show ?thesis using True by auto
  next
    case False
    then have "rooted ?z i i 0" using at_root by (intro rooted.at_root) simp_all
    then show ?thesis using False by auto
  qed
next
  case (at_child i r k)
  have "i \<noteq> ra" using at_child.hyps(2) assms(4) by blast
  then have zi: "z[ra := rb] ! i = z ! i" by simp
  obtain k' where "rooted (z[ra := rb]) (z ! i) (if r = ra then rb else r) k'" using at_child.IH by blast
  then have "rooted (z[ra := rb]) i (if r = ra then rb else r) (Suc k')"
    using at_child.hyps(1,2) zi by (intro rooted.at_child) simp_all
  then show ?case by blast
qed

lemma link_roots:
  assumes "forest z" "a < length z" "b < length z"
  defines "z' \<equiv> z[rootOf z a := rootOf z b]"
  shows "forest z'"
    "j < length z \<Longrightarrow> rootOf z' j = (if rootOf z j = rootOf z a then rootOf z b else rootOf z j)"
proof -
  have ra: "rootOf z a < length z" "z ! rootOf z a = rootOf z a"
    and rb: "rootOf z b < length z" "z ! rootOf z b = rootOf z b"
    using root_root assms(1-3) by blast+
  have all: "\<exists>k. rooted z' j (if rootOf z j = rootOf z a then rootOf z b else rootOf z j) k"
    if j: "j < length z" for j
  proof -
    from assms(1) j obtain k where k: "rooted z j (rootOf z j) k" by (rule forest_root)
    show ?thesis
    proof (cases "rootOf z a = rootOf z b")
      case True
      then have "z' = z" unfolding z'_def using rb by (metis list_update_id)
      then show ?thesis using True k by auto
    next
      case False
      then show ?thesis unfolding z'_def by (rule link_rooted [OF k ra(1) rb(1) ra(2) rb(2)])
    qed
  qed
  have len: "length z' = length z" by (simp add: z'_def)
  show "forest z'" unfolding forest_def len using all by blast
  show "rootOf z' j = (if rootOf z j = rootOf z a then rootOf z b else rootOf z j)" if "j < length z"
    using all [OF that] root_eq by blast
qed

lemma uniteZones_ok:
  assumes "forest zp" "a < length zp" "b < length zp"
  obtains zp' where "uniteZones a b zp = Some (ok zp')" "forest zp'" "length zp' = length zp"
    "\<And>j. j < length zp \<Longrightarrow> rootOf zp' j = (if rootOf zp j = rootOf zp a then rootOf zp b else rootOf zp j)"
proof -
  obtain zp1 where z1: "findZone zp b = Some (ok (zp1, rootOf zp b))" "forest zp1" "length zp1 = length zp"
    "\<And>j. j < length zp \<Longrightarrow> rootOf zp1 j = rootOf zp j" using findZone_ok [OF assms(1,3)] by blast
  obtain zp2 where z2: "findZone zp1 a = Some (ok (zp2, rootOf zp1 a))" "forest zp2" "length zp2 = length zp1"
    "\<And>j. j < length zp1 \<Longrightarrow> rootOf zp2 j = rootOf zp1 j"
    using findZone_ok [OF z1(2), of a] assms(2) z1(3) by auto
  have same: "rootOf zp2 j = rootOf zp j" if "j < length zp" for j using z1(3,4) z2(4) that by simp
  have l2: "a < length zp2" "b < length zp2" using assms z1(3) z2(3) by simp_all
  note link = link_roots [OF z2(2) l2]
  have r: "rootOf zp1 a = rootOf zp2 a" "rootOf zp b = rootOf zp2 b"
    using same z1(4) assms(2,3) by simp_all
  show ?thesis
  proof (rule that)
    show "uniteZones a b zp = Some (ok (zp2[rootOf zp2 a := rootOf zp2 b]))"
      using z1(1) z2(1) r by (simp add: uniteZones_def)
    show "forest (zp2[rootOf zp2 a := rootOf zp2 b])" by (rule link(1))
    show "length (zp2[rootOf zp2 a := rootOf zp2 b]) = length zp" using z1(3) z2(3) by simp
    fix j assume j: "j < length zp"
    then show "rootOf (zp2[rootOf zp2 a := rootOf zp2 b]) j
        = (if rootOf zp j = rootOf zp a then rootOf zp b else rootOf zp j)"
      using link(2) [of j] same assms(2,3) z1(3) z2(3) by simp
  qed
qed

section \<open>Zones are the parts connected by lines\<close>

definition conn :: "('a \<times> 'a) set \<Rightarrow> ('a \<times> 'a) set" where
  "conn E = (E \<union> E\<inverse>)\<^sup>*"

lemma conn_refl [simp]: "(x, x) \<in> conn E" by (simp add: conn_def)

lemma conn_trans: "(x, y) \<in> conn E \<Longrightarrow> (y, z) \<in> conn E \<Longrightarrow> (x, z) \<in> conn E"
  by (simp add: conn_def)

lemma conn_sym: "(x, y) \<in> conn E \<Longrightarrow> (y, x) \<in> conn E"
  unfolding conn_def by (metis converse_Un converse_converse rtrancl_converseI sup_commute)

lemma conn_mono: "E \<subseteq> F \<Longrightarrow> (x, y) \<in> conn E \<Longrightarrow> (x, y) \<in> conn F"
  unfolding conn_def using rtrancl_mono [of "E \<union> E\<inverse>" "F \<union> F\<inverse>"] by blast

lemma conn_edge: "(x, y) \<in> E \<Longrightarrow> (x, y) \<in> conn E" by (auto simp: conn_def)

text \<open>\<open>zoned E zp\<close>: the zones are the parts the edges of \<open>E\<close> connect.\<close>

definition zoned :: "(nat \<times> nat) set \<Rightarrow> nat list \<Rightarrow> bool" where
  "zoned E zp \<longleftrightarrow> forest zp \<and> (\<forall>(a, b) \<in> E. a < length zp \<and> b < length zp \<and> rootOf zp a = rootOf zp b)
     \<and> (\<forall>j < length zp. (j, rootOf zp j) \<in> conn E)"

lemma zonedD:
  assumes "zoned E zp" "i < length zp" "j < length zp"
  shows "rootOf zp i = rootOf zp j \<longleftrightarrow> (i, j) \<in> conn E"
proof
  assume "rootOf zp i = rootOf zp j"
  moreover have "(i, rootOf zp i) \<in> conn E" "(j, rootOf zp j) \<in> conn E"
    using assms by (auto simp: zoned_def)
  ultimately show "(i, j) \<in> conn E" by (metis conn_sym conn_trans)
next
  assume "(i, j) \<in> conn E"
  then have "(i, j) \<in> (E \<union> E\<inverse>)\<^sup>*" by (simp add: conn_def)
  then show "rootOf zp i = rootOf zp j"
    by (induction rule: rtrancl_induct) (use assms(1) in \<open>auto simp: zoned_def\<close>)
qed

lemma zoned_init: "zoned {} [0..<n]"
proof -
  have "rooted [0..<n] i i 0" if "i < n" for i using that by (intro rooted.at_root) simp_all
  then have r: "rootOf [0..<n] i = i" and "\<exists>r k. rooted [0..<n] i r k" if "i < n" for i
    using that root_eq by blast+
  then show ?thesis by (auto simp: zoned_def forest_def)
qed

lemma uniteZones_zoned:
  assumes "zoned E zp" "a < length zp" "b < length zp"
  obtains zp' where "uniteZones a b zp = Some (ok zp')" "length zp' = length zp" "zoned (insert (a, b) E) zp'"
proof -
  have f: "forest zp" using assms(1) by (simp add: zoned_def)
  obtain zp' where z: "uniteZones a b zp = Some (ok zp')" "forest zp'" "length zp' = length zp"
    "\<And>j. j < length zp \<Longrightarrow> rootOf zp' j = (if rootOf zp j = rootOf zp a then rootOf zp b else rootOf zp j)"
    using uniteZones_ok [OF f assms(2,3)] by blast
  have up: "(x, y) \<in> conn (insert (a, b) E)" if "(x, y) \<in> conn E" for x y
    using that by (rule conn_mono [rotated]) blast
  have toroot: "(j, rootOf zp j) \<in> conn (insert (a, b) E)" if "j < length zp" for j
    using assms(1) that up by (simp add: zoned_def)
  have ab: "(a, b) \<in> conn (insert (a, b) E)" by (rule conn_edge) simp
  have "(j, rootOf zp' j) \<in> conn (insert (a, b) E)" if j: "j < length zp" for j
  proof (cases "rootOf zp j = rootOf zp a")
    case True
    have "(j, rootOf zp a) \<in> conn (insert (a, b) E)" using toroot [OF j] True by simp
    then have "(j, a) \<in> conn (insert (a, b) E)" using toroot [OF assms(2)] by (metis conn_sym conn_trans)
    then have "(j, rootOf zp b) \<in> conn (insert (a, b) E)" using ab toroot [OF assms(3)] by (metis conn_trans)
    then show ?thesis using z(4) [OF j] True by simp
  qed (use z(4) [OF j] toroot [OF j] in simp)
  moreover have "\<forall>(x, y) \<in> insert (a, b) E. x < length zp \<and> y < length zp \<and> rootOf zp' x = rootOf zp' y"
    using assms z(4) by (auto simp: zoned_def)
  ultimately show ?thesis using z that by (simp add: zoned_def)
qed

lemma zoned_findZone:
  assumes "zoned E zp" "i < length zp"
  obtains zp' where "findZone zp i = Some (ok (zp', rootOf zp i))" "length zp' = length zp" "zoned E zp'"
    "\<And>j. j < length zp \<Longrightarrow> rootOf zp' j = rootOf zp j"
proof -
  have f: "forest zp" using assms(1) by (simp add: zoned_def)
  obtain zp' where z: "findZone zp i = Some (ok (zp', rootOf zp i))" "forest zp'" "length zp' = length zp"
    "\<And>j. j < length zp \<Longrightarrow> rootOf zp' j = rootOf zp j" using findZone_ok [OF f assms(2)] by blast
  have "zoned E zp'" using assms(1) z(2,3,4) by (auto simp: zoned_def)
  then show ?thesis using that z by blast
qed

section \<open>The base voltage pass\<close>

definition componentBaseVoltage :: "'a pfsolver_scheme \<Rightarrow> nat \<Rightarrow> nat \<Rightarrow> error + real" where
  "componentBaseVoltage S c node = (case pfData S c of
       VsiComp v \<Rightarrow> ok (vsiBaseVoltage v)
     | RxComp r \<Rightarrow> ok (rx_baseVoltage r)
     | LineComp n \<Rightarrow> ok (ln_baseVoltage n)
     | TrafoComp t \<Rightarrow>
         bind_err (compNodeRef (compAt (heap S) c) 0) (\<lambda>p.
           if nodeName (nodeAt (heap S) p) = nodeName (nodeAt (heap S) node) then ok (tr_Vprim t)
           else bind_err (compNodeRef (compAt (heap S) c) 1) (\<lambda>q.
             if nodeName (nodeAt (heap S) q) = nodeName (nodeAt (heap S) node) then ok (tr_Vsec t) else ok 0))
     | GenComp g \<Rightarrow> ok (gen_baseVoltage g)
     | LoadComp l \<Rightarrow> ok (ld_nomVoltage l)
     | ExtComp e \<Rightarrow> ok (ext_baseVoltage e)
     | ShuntComp s \<Rightarrow> ok (sh_baseVoltage s)
     | SstComp _ \<Rightarrow> ok 0
     | OtherComp \<Rightarrow> ok 0)"

definition isAuthoritative :: "pfcomp \<Rightarrow> bool" where
  "isAuthoritative d = (case d of GenComp _ \<Rightarrow> True | TrafoComp _ \<Rightarrow> True | ExtComp _ \<Rightarrow> True
     | VsiComp _ \<Rightarrow> True | _ \<Rightarrow> False)"

text \<open>The indices of the two ends of a line.\<close>

definition lineEnds :: "'a pfsolver_scheme \<Rightarrow> nat \<Rightarrow> error + (nat \<times> nat) option" where
  "lineEnds S c =
     (let ends = bind_err (compNodeRef (compAt (heap S) c) 0) (\<lambda>p.
          bind_err (compNodeRef (compAt (heap S) c) 1) (\<lambda>q. ok (Some (busIndex S p, busIndex S q))))
      in case pfData S c of LineComp _ \<Rightarrow> ends | RxComp _ \<Rightarrow> ends | _ \<Rightarrow> ok None)"

definition uniteLine :: "'a pfsolver_scheme \<Rightarrow> nat \<Rightarrow> nat list \<Rightarrow> (error + nat list) option" where
  "uniteLine S c zp = bindOE (Some (lineEnds S c))
     (\<lambda>e. case e of None \<Rightarrow> Some (ok zp) | Some (a, b) \<Rightarrow> uniteZones a b zp)"

text \<open>The candidates of the zones: authoritative, fallback, and the loads.\<close>

record buckets =
  zoneParent :: "nat list"
  authoritative :: "nat \<Rightarrow> (real \<times> nat) list"
  fallback :: "nat \<Rightarrow> (real \<times> nat) list"
  zoneLoads :: "nat \<Rightarrow> nat list"

definition addAt :: "nat \<Rightarrow> 'b \<Rightarrow> (nat \<Rightarrow> 'b list) \<Rightarrow> nat \<Rightarrow> 'b list" where
  "addAt z x f = f(z := f z @ [x])"

definition collectComp :: "'a pfsolver_scheme \<Rightarrow> nat \<Rightarrow> nat \<Rightarrow> nat \<Rightarrow> buckets \<Rightarrow> error + buckets" where
  "collectComp S zone node c K =
     (let K1 = (case pfData S c of LoadComp _ \<Rightarrow> K\<lparr>zoneLoads := addAt zone c (zoneLoads K)\<rparr> | _ \<Rightarrow> K)
      in bind_err (componentBaseVoltage S c node) (\<lambda>v.
        if \<bar>v\<bar> \<le> 1 / 10 ^ 6 then ok K1
        else if isAuthoritative (pfData S c)
        then ok (K1\<lparr>authoritative := addAt zone (v, c) (authoritative K1)\<rparr>)
        else ok (K1\<lparr>fallback := addAt zone (v, c) (fallback K1)\<rparr>)))"

definition collectNode :: "'a pfsolver_scheme \<Rightarrow> nat \<Rightarrow> buckets \<Rightarrow> (error + buckets) option" where
  "collectNode S node K = bindOE (findZone (zoneParent K) (busIndex S node)) (\<lambda>(zp, zone).
     Some (foldE (collectComp S zone node) (compsAt S node) (K\<lparr>zoneParent := zp\<rparr>)))"

definition relDiff :: "real \<Rightarrow> real \<Rightarrow> real" where
  "relDiff candidate reference = \<bar>candidate - reference\<bar> / max \<bar>candidate\<bar> \<bar>reference\<bar>"

definition verify :: "(real \<times> nat) list \<Rightarrow> real \<Rightarrow> real \<Rightarrow> error + unit" where
  "verify candidates reference tolerance =
     (if list_ex (\<lambda>c. relDiff (fst c) reference > tolerance) candidates
      then throw InvalidArgumentException else ok ())"

definition authoritativeVoltage ::
  "real \<Rightarrow> buckets \<Rightarrow> nat \<Rightarrow> (nat \<rightharpoonup> real) \<Rightarrow> error + (nat \<rightharpoonup> real)" where
  "authoritativeVoltage tol K zone zv = (case authoritative K zone of
       [] \<Rightarrow> ok zv
     | (v, c) # r \<Rightarrow> bind_err (verify ((v, c) # r) v tol) (\<lambda>_. ok (zv(zone \<mapsto> v))))"

definition fallbackVoltage ::
  "real \<Rightarrow> buckets \<Rightarrow> nat \<Rightarrow> (nat \<rightharpoonup> real) \<Rightarrow> error + (nat \<rightharpoonup> real)" where
  "fallbackVoltage tol K zone zv = (case fallback K zone of
       [] \<Rightarrow> ok zv
     | (v, c) # r \<Rightarrow>
         let reference = (case zv zone of Some w \<Rightarrow> w | None \<Rightarrow> v)
         in bind_err (verify ((v, c) # r) reference tol)
              (\<lambda>_. ok (if zv zone = None then zv(zone \<mapsto> reference) else zv)))"

definition zoneVoltages :: "'a pfsolver_scheme \<Rightarrow> buckets \<Rightarrow> error + (nat \<rightharpoonup> real)" where
  "zoneVoltages S K =
     bind_err (foldE (authoritativeVoltage (mBaseVoltageStrictTolerance S) K) [0..<numNodes S] Map.empty)
       (foldE (fallbackVoltage (mBaseVoltageLooseTolerance S) K) [0..<numNodes S])"

definition assignVoltage ::
  "(nat \<rightharpoonup> real) \<Rightarrow> nat \<Rightarrow> nat list \<times> 'a pfsolver_scheme \<Rightarrow> (error + nat list \<times> 'a pfsolver_scheme) option" where
  "assignVoltage zv node st = (case st of (zp, S) \<Rightarrow> bindOE (findZone zp (busIndex S node)) (\<lambda>(zp, zone).
     Some (ok (zp, S\<lparr>mBaseVoltageAtNode := (mBaseVoltageAtNode S)
       (node \<mapsto> (case zv zone of Some v \<Rightarrow> v | None \<Rightarrow> 0))\<rparr>))))"

definition syncLoad :: "real \<Rightarrow> nat \<Rightarrow> 'a pfsolver_scheme \<Rightarrow> 'a pfsolver_scheme" where
  "syncLoad v c S = (case pfData S c of
       LoadComp l \<Rightarrow> if \<bar>ld_nomVoltage l - v\<bar> > 1 / 10 ^ 6
         then setPf c (LoadComp (loadSetParameters (ld_P l) (ld_Q l) v l)) S else S
     | _ \<Rightarrow> S)"

definition syncLoads :: "(nat \<rightharpoonup> real) \<Rightarrow> buckets \<Rightarrow> 'a pfsolver_scheme \<Rightarrow> 'a pfsolver_scheme" where
  "syncLoads zv K S = fold (\<lambda>zone S. case zv zone of None \<Rightarrow> S
     | Some v \<Rightarrow> fold (syncLoad v) (zoneLoads K zone) S) [0..<numNodes S] S"

definition collectZones :: "'a pfsolver_scheme \<Rightarrow> (error + buckets) option" where
  "collectZones S = bindOE (foldOE (uniteLine S) (mComponents (mSystem S)) [0..<numNodes S]) (\<lambda>zp.
     foldOE (collectNode S) (pfNodes S)
       \<lparr>zoneParent = zp, authoritative = \<lambda>_. [], fallback = \<lambda>_. [], zoneLoads = \<lambda>_. []\<rparr>)"

definition propagateAndVerifyBaseVoltage :: "'a pfsolver_scheme \<Rightarrow> (error + 'a pfsolver_scheme) option" where
  "propagateAndVerifyBaseVoltage S =
     bindOE (collectZones S) (\<lambda>K.
     bindOE (Some (zoneVoltages S K)) (\<lambda>zv.
     bindOE (foldOE (assignVoltage zv) (pfNodes S) (zoneParent K, S)) (\<lambda>(zp, S).
       Some (ok (syncLoads zv K S)))))"

section \<open>What the pass guarantees\<close>

lemma foldOE_ok:
  assumes "I [] s"
    and "\<And>ys x zs s. xs = ys @ x # zs \<Longrightarrow> I ys s \<Longrightarrow> \<exists>s'. f x s = Some (ok s') \<and> I (ys @ [x]) s'"
  shows "\<exists>s'. foldOE f xs s = Some (ok s') \<and> I xs s'"
proof -
  have "\<exists>s'. foldOE f zs s = Some (ok s') \<and> I (ys @ zs) s'" if "xs = ys @ zs" "I ys s" for ys zs s
    using that
  proof (induction zs arbitrary: ys s)
    case (Cons x zs)
    from assms(2) [OF Cons.prems] obtain s1 where s1: "f x s = Some (ok s1)" "I (ys @ [x]) s1" by blast
    from Cons.IH [OF _ s1(2)] Cons.prems(1) show ?case using s1(1) by simp
  qed simp
  from this [of "[]"] assms(1) show ?thesis by simp
qed

lemma foldE_Inl: "foldE f xs s = Inl e \<Longrightarrow> \<exists>x s'. f x s' = Inl e"
proof (induction xs arbitrary: s)
  case (Cons x xs)
  then show ?case by (cases "f x s") auto
qed simp

definition lineEdges :: "'a pfsolver_scheme \<Rightarrow> nat list \<Rightarrow> (nat \<times> nat) set" where
  "lineEdges S cs = {e. \<exists>c \<in> set cs. lineEnds S c = ok (Some e)}"

text \<open>What \<open>assignMatrixNodeIndices\<close> and the connections of the components provide.\<close>

definition indexed :: "'a pfsolver_scheme \<Rightarrow> bool" where
  "indexed S \<longleftrightarrow> (\<forall>p \<in> set (pfNodes S). busIndex S p < numNodes S
       \<and> (\<forall>c \<in> set (compsAt S p). \<exists>v. componentBaseVoltage S c p = ok v))
     \<and> (\<forall>c \<in> set (mComponents (mSystem S)). \<exists>e. lineEnds S c = ok e
          \<and> (\<forall>a b. e = Some (a, b) \<longrightarrow> a < numNodes S \<and> b < numNodes S))"

lemma indexedD:
  assumes "indexed S"
  shows "p \<in> set (pfNodes S) \<Longrightarrow> busIndex S p < numNodes S"
    "p \<in> set (pfNodes S) \<Longrightarrow> c \<in> set (compsAt S p) \<Longrightarrow> \<exists>v. componentBaseVoltage S c p = ok v"
    "c \<in> set (mComponents (mSystem S)) \<Longrightarrow> \<exists>e. lineEnds S c = ok e
          \<and> (\<forall>a b. e = Some (a, b) \<longrightarrow> a < numNodes S \<and> b < numNodes S)"
  using assms unfolding indexed_def by blast+

lemma lineEdges_snoc:
  "lineEnds S c = ok None \<Longrightarrow> lineEdges S (cs @ [c]) = lineEdges S cs"
  "lineEnds S c = ok (Some e) \<Longrightarrow> lineEdges S (cs @ [c]) = insert e (lineEdges S cs)"
  by (auto simp: lineEdges_def)

lemma uniteLines:
  assumes "indexed S"
  shows "\<exists>zp. foldOE (uniteLine S) (mComponents (mSystem S)) [0..<numNodes S] = Some (ok zp)
    \<and> length zp = numNodes S \<and> zoned (lineEdges S (mComponents (mSystem S))) zp"
proof (rule foldOE_ok [where I = "\<lambda>ys zp. length zp = numNodes S \<and> zoned (lineEdges S ys) zp"])
  show "length [0..<numNodes S] = numNodes S \<and> zoned (lineEdges S []) [0..<numNodes S]"
    using zoned_init [of "numNodes S"] by (simp add: lineEdges_def)
next
  fix ys c zs zp
  assume c: "mComponents (mSystem S) = ys @ c # zs" and I: "length zp = numNodes S \<and> zoned (lineEdges S ys) zp"
  have "c \<in> set (mComponents (mSystem S))" by (simp add: c)
  then obtain e where e: "lineEnds S c = ok e" "\<forall>a b. e = Some (a, b) \<longrightarrow> a < numNodes S \<and> b < numNodes S"
    using indexedD(3) [OF assms] by blast
  show "\<exists>zp'. uniteLine S c zp = Some (ok zp')
      \<and> length zp' = numNodes S \<and> zoned (lineEdges S (ys @ [c])) zp'"
  proof (cases e)
    case None
    then show ?thesis using e(1) I by (simp add: uniteLine_def lineEdges_snoc)
  next
    case (Some ab)
    obtain a b where ab: "ab = (a, b)" by (cases ab)
    have "a < length zp" "b < length zp" using e(2) I Some ab by simp_all
    from uniteZones_zoned [OF conjunct2 [OF I] this] obtain zp' where
      "uniteZones a b zp = Some (ok zp')" "length zp' = length zp" "zoned (insert (a, b) (lineEdges S ys)) zp'"
      by blast
    then show ?thesis using e(1) I Some ab by (simp add: uniteLine_def lineEdges_snoc)
  qed
qed

definition bucketOf :: "'a pfsolver_scheme \<Rightarrow> buckets \<Rightarrow> nat \<Rightarrow> nat \<Rightarrow> (real \<times> nat) list" where
  "bucketOf S K c zone = (if isAuthoritative (pfData S c) then authoritative K zone else fallback K zone)"

lemma collectComp_ok:
  assumes "componentBaseVoltage S c node = ok v"
  obtains K' where "collectComp S zone node c K = ok K'" "zoneParent K' = zoneParent K"
    "\<And>d z. set (bucketOf S K d z) \<subseteq> set (bucketOf S K' d z)"
    "\<bar>v\<bar> > 1 / 10 ^ 6 \<Longrightarrow> (v, c) \<in> set (bucketOf S K' c zone)"
proof -
  obtain K1 where K1: "(case pfData S c of LoadComp _ \<Rightarrow> K\<lparr>zoneLoads := addAt zone c (zoneLoads K)\<rparr> | _ \<Rightarrow> K) = K1"
    by blast
  have same: "zoneParent K1 = zoneParent K" "authoritative K1 = authoritative K" "fallback K1 = fallback K"
    using K1 by (auto split: pfcomp.splits)
  define K' where "K' = (if \<bar>v\<bar> \<le> 1 / 10 ^ 6 then K1
     else if isAuthoritative (pfData S c) then K1\<lparr>authoritative := addAt zone (v, c) (authoritative K1)\<rparr>
     else K1\<lparr>fallback := addAt zone (v, c) (fallback K1)\<rparr>)"
  have "collectComp S zone node c K = ok K'"
    unfolding collectComp_def K1 Let_def assms by (simp add: K'_def)
  moreover have "zoneParent K' = zoneParent K" by (simp add: K'_def same)
  moreover have "set (bucketOf S K d z) \<subseteq> set (bucketOf S K' d z)" for d z
    by (auto simp: K'_def bucketOf_def same addAt_def)
  moreover have "(v, c) \<in> set (bucketOf S K' c zone)" if "\<bar>v\<bar> > 1 / 10 ^ 6"
    using that by (auto simp: K'_def bucketOf_def addAt_def)
  ultimately show ?thesis using that by blast
qed

lemma collectComps_ok:
  assumes "\<forall>c \<in> set cs. \<exists>v. componentBaseVoltage S c node = ok v"
  shows "\<exists>K'. foldE (collectComp S zone node) cs K = ok K' \<and> zoneParent K' = zoneParent K
    \<and> (\<forall>d z. set (bucketOf S K d z) \<subseteq> set (bucketOf S K' d z))
    \<and> (\<forall>c \<in> set cs. \<forall>v. componentBaseVoltage S c node = ok v \<longrightarrow> \<bar>v\<bar> > 1 / 10 ^ 6
         \<longrightarrow> (v, c) \<in> set (bucketOf S K' c zone))"
  using assms
proof (induction cs arbitrary: K)
  case (Cons c cs)
  from Cons.prems obtain v where v: "componentBaseVoltage S c node = ok v" by auto
  obtain K1 where K1: "collectComp S zone node c K = ok K1" "zoneParent K1 = zoneParent K"
    "\<And>d z. set (bucketOf S K d z) \<subseteq> set (bucketOf S K1 d z)"
    "\<bar>v\<bar> > 1 / 10 ^ 6 \<Longrightarrow> (v, c) \<in> set (bucketOf S K1 c zone)"
    using collectComp_ok [OF v, of zone K] by blast
  from Cons.IH [of K1] Cons.prems obtain K' where K': "foldE (collectComp S zone node) cs K1 = ok K'"
    "zoneParent K' = zoneParent K1" "\<forall>d z. set (bucketOf S K1 d z) \<subseteq> set (bucketOf S K' d z)"
    "\<forall>c \<in> set cs. \<forall>v. componentBaseVoltage S c node = ok v \<longrightarrow> \<bar>v\<bar> > 1 / 10 ^ 6
         \<longrightarrow> (v, c) \<in> set (bucketOf S K' c zone)"
    by auto
  show ?case
  proof (intro exI [of _ K'] conjI allI ballI impI)
    show "foldE (collectComp S zone node) (c # cs) K = ok K'" using K1(1) K'(1) by simp
    show "zoneParent K' = zoneParent K" using K1(2) K'(2) by simp
    show "set (bucketOf S K d z) \<subseteq> set (bucketOf S K' d z)" for d z using K1(3) K'(3) by blast
    fix c' w
    assume c': "c' \<in> set (c # cs)" and w: "componentBaseVoltage S c' node = ok w" "\<bar>w\<bar> > 1 / 10 ^ 6"
    show "(w, c') \<in> set (bucketOf S K' c' zone)"
    proof (cases "c' = c")
      case True
      then have "w = v" using v w(1) by simp
      then show ?thesis using True K1(4) w(2) K'(3) by blast
    qed (use c' w K'(4) in auto)
  qed
qed simp

text \<open>Every voltage a component of a node reports is in the bucket of the node's zone.\<close>

definition collected :: "'a pfsolver_scheme \<Rightarrow> (nat \<Rightarrow> nat) \<Rightarrow> buckets \<Rightarrow> nat list \<Rightarrow> bool" where
  "collected S R K ps \<longleftrightarrow> (\<forall>p \<in> set ps. \<forall>c \<in> set (compsAt S p). \<forall>v. componentBaseVoltage S c p = ok v
     \<longrightarrow> \<bar>v\<bar> > 1 / 10 ^ 6 \<longrightarrow> (v, c) \<in> set (bucketOf S K c (R (busIndex S p))))"

definition zonesAre :: "'a pfsolver_scheme \<Rightarrow> (nat \<Rightarrow> nat) \<Rightarrow> nat list \<Rightarrow> bool" where
  "zonesAre S R zp \<longleftrightarrow> length zp = numNodes S \<and> zoned (lineEdges S (mComponents (mSystem S))) zp
     \<and> (\<forall>j < numNodes S. rootOf zp j = R j)"

lemma zonesAre_find:
  assumes "zonesAre S R zp" "i < numNodes S"
  obtains zp' where "findZone zp i = Some (ok (zp', R i))" "zonesAre S R zp'"
proof -
  have z: "zoned (lineEdges S (mComponents (mSystem S))) zp" "i < length zp" "rootOf zp i = R i"
    "length zp = numNodes S" "\<forall>j < numNodes S. rootOf zp j = R j"
    using assms by (simp_all add: zonesAre_def)
  obtain zp' where zp': "findZone zp i = Some (ok (zp', rootOf zp i))" "length zp' = length zp"
    "zoned (lineEdges S (mComponents (mSystem S))) zp'" "\<And>j. j < length zp \<Longrightarrow> rootOf zp' j = rootOf zp j"
    using zoned_findZone [OF z(1,2)] by blast
  show ?thesis
    by (rule that [of zp']) (use zp' z in \<open>simp_all add: zonesAre_def\<close>)
qed

lemma collectNode_ok:
  assumes "indexed S" "p \<in> set (pfNodes S)" "zonesAre S R (zoneParent K)" "collected S R K ys"
  shows "\<exists>K'. collectNode S p K = Some (ok K') \<and> zonesAre S R (zoneParent K') \<and> collected S R K' (ys @ [p])"
proof -
  obtain zp where zp: "findZone (zoneParent K) (busIndex S p) = Some (ok (zp, R (busIndex S p)))" "zonesAre S R zp"
    by (rule zonesAre_find [OF assms(3) indexedD(1) [OF assms(1,2)]])
  have "\<forall>c \<in> set (compsAt S p). \<exists>v. componentBaseVoltage S c p = ok v" using indexedD(2) [OF assms(1,2)] by blast
  from collectComps_ok [OF this, of "R (busIndex S p)" "K\<lparr>zoneParent := zp\<rparr>"] obtain K' where
    K': "foldE (collectComp S (R (busIndex S p)) p) (compsAt S p) (K\<lparr>zoneParent := zp\<rparr>) = ok K'"
    "zoneParent K' = zp" "\<forall>d z. set (bucketOf S (K\<lparr>zoneParent := zp\<rparr>) d z) \<subseteq> set (bucketOf S K' d z)"
    "\<forall>c \<in> set (compsAt S p). \<forall>v. componentBaseVoltage S c p = ok v \<longrightarrow> \<bar>v\<bar> > 1 / 10 ^ 6
         \<longrightarrow> (v, c) \<in> set (bucketOf S K' c (R (busIndex S p)))"
    by auto
  have zpb: "bucketOf S (K\<lparr>zoneParent := zp\<rparr>) = bucketOf S K" by (simp add: bucketOf_def fun_eq_iff)
  have sub: "set (bucketOf S K d z) \<subseteq> set (bucketOf S K' d z)" for d z
    using K'(3) unfolding zpb by blast
  have "collectNode S p K = Some (ok K')" unfolding collectNode_def zp(1) by (simp add: K'(1))
  moreover have "collected S R K' (ys @ [p])"
    unfolding collected_def
  proof (intro ballI allI impI)
    fix p' c v
    assume p': "p' \<in> set (ys @ [p])" and c: "c \<in> set (compsAt S p')" "componentBaseVoltage S c p' = ok v"
      "\<bar>v\<bar> > 1 / 10 ^ 6"
    show "(v, c) \<in> set (bucketOf S K' c (R (busIndex S p')))"
    proof (cases "p' = p")
      case False
      then have "(v, c) \<in> set (bucketOf S K c (R (busIndex S p')))"
        using p' c assms(4) by (simp add: collected_def)
      then show ?thesis using sub by blast
    qed (use c K'(4) in blast)
  qed
  ultimately show ?thesis using zp(2) K'(2) by blast
qed

lemma collectZones_ok:
  assumes "indexed S"
  shows "\<exists>K R. collectZones S = Some (ok K) \<and> zonesAre S R (zoneParent K) \<and> collected S R K (pfNodes S)"
proof -
  obtain zp where zp: "foldOE (uniteLine S) (mComponents (mSystem S)) [0..<numNodes S] = Some (ok zp)"
    "length zp = numNodes S" "zoned (lineEdges S (mComponents (mSystem S))) zp" using uniteLines [OF assms] by blast
  let ?K0 = "\<lparr>zoneParent = zp, authoritative = \<lambda>_. [], fallback = \<lambda>_. [], zoneLoads = \<lambda>_. []\<rparr>"
  have "\<exists>K. foldOE (collectNode S) (pfNodes S) ?K0 = Some (ok K)
      \<and> (zonesAre S (rootOf zp) (zoneParent K) \<and> collected S (rootOf zp) K (pfNodes S))"
  proof (rule foldOE_ok [where I = "\<lambda>ys K. zonesAre S (rootOf zp) (zoneParent K) \<and> collected S (rootOf zp) K ys"])
    show "zonesAre S (rootOf zp) (zoneParent ?K0) \<and> collected S (rootOf zp) ?K0 []"
      using zp by (simp add: zonesAre_def collected_def)
  qed (use collectNode_ok [OF assms] in auto)
  then show ?thesis unfolding collectZones_def zp(1) by auto
qed

text \<open>The voltage of a zone, when the ratings agree.\<close>

definition agreed :: "(nat \<rightharpoonup> real) \<Rightarrow> (nat \<Rightarrow> (real \<times> nat) list) \<Rightarrow> real \<Rightarrow> nat list \<Rightarrow> bool" where
  "agreed zv bucket tol zones \<longleftrightarrow> (\<forall>z \<in> set zones. \<forall>(v, c) \<in> set (bucket z).
     \<exists>w. zv z = Some w \<and> relDiff v w \<le> tol)"

lemma agreedD: "agreed zv bucket tol zones \<Longrightarrow> z \<in> set zones \<Longrightarrow> (v, c) \<in> set (bucket z)
    \<Longrightarrow> \<exists>w. zv z = Some w \<and> relDiff v w \<le> tol"
  unfolding agreed_def by blast

lemma agreed_snoc:
  assumes "agreed zv bucket tol zs" "\<And>x w. zv x = Some w \<Longrightarrow> zv' x = Some w"
    "\<forall>(v, c) \<in> set (bucket z). \<exists>w. zv' z = Some w \<and> relDiff v w \<le> tol"
  shows "agreed zv' bucket tol (zs @ [z])"
  unfolding agreed_def
proof (intro ballI)
  fix x vc assume x: "x \<in> set (zs @ [z])" and vc: "vc \<in> set (bucket x)"
  obtain v c where [simp]: "vc = (v, c)" by (cases vc)
  show "case vc of (v, c) \<Rightarrow> \<exists>w. zv' x = Some w \<and> relDiff v w \<le> tol"
  proof (cases "x = z")
    case False
    then have "\<exists>w. zv x = Some w \<and> relDiff v w \<le> tol" using agreedD [OF assms(1)] x vc by simp
    then show ?thesis using assms(2) by auto
  qed (use assms(3) vc in auto)
qed

lemma verify_ok: "verify cs ref tol = ok u \<longleftrightarrow> (\<forall>c \<in> set cs. relDiff (fst c) ref \<le> tol)"
  by (simp add: verify_def list_ex_iff not_less [symmetric] split: if_splits)

lemma verify_error: "verify cs ref tol = Inl e \<Longrightarrow> e = InvalidArgumentException"
  by (simp add: verify_def split: if_splits)

text \<open>A loop that keeps \<open>I\<close> on the part of the list it has gone through.\<close>

lemma foldE_prefix:
  assumes "foldE f xs s = ok s'" "I [] s"
    and "\<And>ys x zs s s'. xs = ys @ x # zs \<Longrightarrow> I ys s \<Longrightarrow> f x s = ok s' \<Longrightarrow> I (ys @ [x]) s'"
  shows "I xs s'"
proof -
  have "I (ys @ zs) s'" if "xs = ys @ zs" "I ys s" "foldE f zs s = ok s'" for ys zs s
    using that
  proof (induction zs arbitrary: ys s)
    case (Cons x zs)
    from Cons.prems(3) obtain s1 where s1: "f x s = ok s1" "foldE f zs s1 = ok s'" by auto
    from assms(3) [OF Cons.prems(1,2) s1(1)] have "I (ys @ [x]) s1" .
    from Cons.IH [OF _ this s1(2)] Cons.prems(1) show ?case by simp
  qed simp
  from this [of "[]" xs s] assms(1,2) show ?thesis by simp
qed

lemma authoritativeVoltage_agreed:
  assumes "foldE (authoritativeVoltage tol K) [0..<n] Map.empty = ok zv"
  shows "agreed zv (authoritative K) tol [0..<n]"
proof -
  have "agreed zv (authoritative K) tol [0..<n] \<and> dom zv \<subseteq> set [0..<n]"
    using assms
  proof (rule foldE_prefix [where I = "\<lambda>zs zv. agreed zv (authoritative K) tol zs \<and> dom zv \<subseteq> set zs"])
    show "agreed Map.empty (authoritative K) tol [] \<and> dom Map.empty \<subseteq> set []" by (simp add: agreed_def)
  next
    fix ys z zs zv zv'
    assume d: "[0..<n] = ys @ z # zs" and I: "agreed zv (authoritative K) tol ys \<and> dom zv \<subseteq> set ys"
      and f: "authoritativeVoltage tol K z zv = ok zv'"
    have "distinct (ys @ z # zs)" by (simp only: d [symmetric] distinct_upt)
    then have none: "zv z = None" using I by auto
    show "agreed zv' (authoritative K) tol (ys @ [z]) \<and> dom zv' \<subseteq> set (ys @ [z])"
    proof (cases "authoritative K z")
      case Nil
      then have "zv' = zv" using f by (simp add: authoritativeVoltage_def)
      then show ?thesis using I Nil by (auto intro: agreed_snoc)
    next
      case (Cons vc r)
      obtain v c where vc: "vc = (v, c)" by (cases vc)
      have zv': "zv' = zv(z \<mapsto> v)" and ver: "verify (authoritative K z) v tol = ok ()"
        using f Cons vc by (auto simp: authoritativeVoltage_def)
      have "agreed zv' (authoritative K) tol (ys @ [z])"
        by (rule agreed_snoc [OF conjunct1 [OF I]]) (use ver none in \<open>auto simp: zv' verify_ok\<close>)
      then show ?thesis using I zv' by auto
    qed
  qed
  then show ?thesis by blast
qed

lemma fallbackVoltage_agreed:
  assumes "foldE (fallbackVoltage tol K) [0..<n] zv0 = ok zv" "agreed zv0 b tol' [0..<n]"
  shows "agreed zv (fallback K) tol [0..<n] \<and> agreed zv b tol' [0..<n]"
  using assms(1)
proof (rule foldE_prefix [where I = "\<lambda>zs zv. agreed zv (fallback K) tol zs \<and> agreed zv b tol' [0..<n]"])
  show "agreed zv0 (fallback K) tol [] \<and> agreed zv0 b tol' [0..<n]" using assms(2) by (simp add: agreed_def)
next
  fix ys z zs zv zv'
  assume I: "agreed zv (fallback K) tol ys \<and> agreed zv b tol' [0..<n]" and f: "fallbackVoltage tol K z zv = ok zv'"
  show "agreed zv' (fallback K) tol (ys @ [z]) \<and> agreed zv' b tol' [0..<n]"
  proof (cases "fallback K z")
    case Nil
    then have "zv' = zv" using f by (simp add: fallbackVoltage_def)
    then show ?thesis using I Nil by (auto intro: agreed_snoc)
  next
    case (Cons vc r)
    obtain v c where vc: "vc = (v, c)" by (cases vc)
    define ref where "ref = (case zv z of Some w \<Rightarrow> w | None \<Rightarrow> v)"
    have ver: "verify (fallback K z) ref tol = ok ()" and zv': "zv' = (if zv z = None then zv(z \<mapsto> ref) else zv)"
      using f Cons vc by (auto simp: fallbackVoltage_def Let_def ref_def)
    have keep: "zv x = Some w \<Longrightarrow> zv' x = Some w" for x w by (auto simp: zv')
    have zz: "zv' z = Some ref" by (auto simp: zv' ref_def)
    have "agreed zv' (fallback K) tol (ys @ [z])"
      by (rule agreed_snoc [OF conjunct1 [OF I] keep]) (use ver zz in \<open>auto simp: verify_ok\<close>)
    moreover have "agreed zv' b tol' [0..<n]"
      unfolding agreed_def using agreedD [OF conjunct2 [OF I]] keep by fastforce
    ultimately show ?thesis by blast
  qed
qed

lemma zoneVoltages_cases:
  "zoneVoltages S K = throw InvalidArgumentException
   \<or> (\<exists>zv. zoneVoltages S K = ok zv
        \<and> agreed zv (authoritative K) (mBaseVoltageStrictTolerance S) [0..<numNodes S]
        \<and> agreed zv (fallback K) (mBaseVoltageLooseTolerance S) [0..<numNodes S])"
proof (cases "zoneVoltages S K")
  case (Inr zv)
  then obtain zv0 where
    z0: "foldE (authoritativeVoltage (mBaseVoltageStrictTolerance S) K) [0..<numNodes S] Map.empty = ok zv0"
    "foldE (fallbackVoltage (mBaseVoltageLooseTolerance S) K) [0..<numNodes S] zv0 = ok zv"
    by (auto simp: zoneVoltages_def)
  then show ?thesis using Inr authoritativeVoltage_agreed fallbackVoltage_agreed by blast
next
  case (Inl e)
  have a: "authoritativeVoltage tol K z zv = Inl e \<Longrightarrow> e = InvalidArgumentException" for tol z zv
    by (auto simp: authoritativeVoltage_def bind_err_eq_Inl verify_error split: list.splits)
  have f: "fallbackVoltage tol K z zv = Inl e \<Longrightarrow> e = InvalidArgumentException" for tol z zv
    by (auto simp: fallbackVoltage_def Let_def bind_err_eq_Inl verify_error split: list.splits)
  from Inl have "e = InvalidArgumentException"
    unfolding zoneVoltages_def bind_err_eq_Inl using foldE_Inl a f by metis
  then show ?thesis using Inl by simp
qed

lemma assignVoltages_ok:
  assumes "indexed S" "zonesAre S R zp"
  shows "\<exists>zp' S'. foldOE (assignVoltage zv) (pfNodes S) (zp, S) = Some (ok (zp', S'))
    \<and> (\<forall>p \<in> set (pfNodes S). mBaseVoltageAtNode S' p
         = Some (case zv (R (busIndex S p)) of Some v \<Rightarrow> v | None \<Rightarrow> 0))"
proof -
  define I where "I ys st \<longleftrightarrow> zonesAre S R (fst st) \<and> busIndex (snd st) = busIndex S
      \<and> (\<forall>p \<in> set ys. mBaseVoltageAtNode (snd st) p
         = Some (case zv (R (busIndex S p)) of Some v \<Rightarrow> v | None \<Rightarrow> 0))" for ys and st :: "nat list \<times> 'a pfsolver_scheme"
  have "\<exists>st. foldOE (assignVoltage zv) (pfNodes S) (zp, S) = Some (ok st) \<and> I (pfNodes S) st"
  proof (rule foldOE_ok [where I = I])
    show "I [] (zp, S)" using assms(2) by (simp add: I_def)
  next
    fix ys p zs and st :: "nat list \<times> 'a pfsolver_scheme"
    assume p: "pfNodes S = ys @ p # zs" and I: "I ys st"
    obtain z1 T where st: "st = (z1, T)" by (cases st)
    have z1: "zonesAre S R z1" and T: "busIndex T = busIndex S" using I by (simp_all add: I_def st)
    have "busIndex S p < numNodes S" using indexedD(1) [OF assms(1)] p by simp
    then obtain z2 where z2: "findZone z1 (busIndex S p) = Some (ok (z2, R (busIndex S p)))" "zonesAre S R z2"
      using zonesAre_find [OF z1] by blast
    have b: "busIndex (T\<lparr>mBaseVoltageAtNode := m\<rparr>) = busIndex T" for m by (simp add: busIndex_def fun_eq_iff)
    show "\<exists>st'. assignVoltage zv p st = Some (ok st') \<and> I (ys @ [p]) st'"
      using z2 T I by (auto simp: assignVoltage_def st I_def b)
  qed
  then show ?thesis by (auto simp: I_def)
qed

lemma syncLoads_base: "mBaseVoltageAtNode (syncLoads zv K S) = mBaseVoltageAtNode S"
proof -
  have one: "mBaseVoltageAtNode (syncLoad v c S) = mBaseVoltageAtNode S" for v c and S :: "'a pfsolver_scheme"
    by (simp add: syncLoad_def setPf_def split: pfcomp.splits)
  have many: "mBaseVoltageAtNode (fold (syncLoad v) cs S) = mBaseVoltageAtNode S" for v cs and S :: "'a pfsolver_scheme"
    by (induction cs arbitrary: S) (simp_all add: one)
  have "mBaseVoltageAtNode (fold (\<lambda>zone S. case zv zone of None \<Rightarrow> S
      | Some v \<Rightarrow> fold (syncLoad v) (zoneLoads K zone) S) zones S) = mBaseVoltageAtNode S" for zones and S :: "'a pfsolver_scheme"
    by (induction zones arbitrary: S) (simp_all add: many split: option.splits)
  then show ?thesis by (simp add: syncLoads_def)
qed

text \<open>C20. The base voltage pass ends.  It either rejects the network or gives one voltage
  to all nodes that lines connect, and then every rating reported at a node agrees with the
  voltage of the node: within the strict tolerance for generators, transformers, external
  grids and inverters, within the loose one for the others.\<close>

theorem base_voltage_zones:
  assumes "indexed S"
  shows "propagateAndVerifyBaseVoltage S = Some (throw InvalidArgumentException)
    \<or> (\<exists>S'. propagateAndVerifyBaseVoltage S = Some (ok S')
       \<and> (\<forall>p \<in> set (pfNodes S). \<forall>q \<in> set (pfNodes S).
            (busIndex S p, busIndex S q) \<in> conn (lineEdges S (mComponents (mSystem S)))
            \<longrightarrow> mBaseVoltageAtNode S' p = mBaseVoltageAtNode S' q)
       \<and> (\<forall>p \<in> set (pfNodes S). \<forall>c \<in> set (compsAt S p). \<forall>v.
            componentBaseVoltage S c p = ok v \<longrightarrow> \<bar>v\<bar> > 1 / 10 ^ 6
            \<longrightarrow> (\<exists>w. mBaseVoltageAtNode S' p = Some w \<and> relDiff v w \<le>
                 (if isAuthoritative (pfData S c) then mBaseVoltageStrictTolerance S
                  else mBaseVoltageLooseTolerance S))))"
proof -
  obtain K R where K: "collectZones S = Some (ok K)" "zonesAre S R (zoneParent K)" "collected S R K (pfNodes S)"
    using collectZones_ok [OF assms] by blast
  show ?thesis
  proof (cases "zoneVoltages S K = throw InvalidArgumentException")
    case True
    then show ?thesis by (simp add: propagateAndVerifyBaseVoltage_def K(1))
  next
    case False
    then obtain zv where zv: "zoneVoltages S K = ok zv"
      "agreed zv (authoritative K) (mBaseVoltageStrictTolerance S) [0..<numNodes S]"
      "agreed zv (fallback K) (mBaseVoltageLooseTolerance S) [0..<numNodes S]"
      using zoneVoltages_cases by blast
    obtain zp T where T: "foldOE (assignVoltage zv) (pfNodes S) (zoneParent K, S) = Some (ok (zp, T))"
      "\<forall>p \<in> set (pfNodes S). mBaseVoltageAtNode T p = Some (case zv (R (busIndex S p)) of Some v \<Rightarrow> v | None \<Rightarrow> 0)"
      using assignVoltages_ok [OF assms K(2)] by blast
    have res: "propagateAndVerifyBaseVoltage S = Some (ok (syncLoads zv K T))"
      by (simp add: propagateAndVerifyBaseVoltage_def K(1) zv(1) T(1))
    have base: "mBaseVoltageAtNode (syncLoads zv K T) p
        = Some (case zv (R (busIndex S p)) of Some v \<Rightarrow> v | None \<Rightarrow> 0)" if "p \<in> set (pfNodes S)" for p
      using T(2) that by (simp add: syncLoads_base)
    have len: "length (zoneParent K) = numNodes S" and z: "zoned (lineEdges S (mComponents (mSystem S))) (zoneParent K)"
      and R: "j < numNodes S \<Longrightarrow> rootOf (zoneParent K) j = R j" for j
      using K(2) by (simp_all add: zonesAre_def)
    have same: "mBaseVoltageAtNode (syncLoads zv K T) p = mBaseVoltageAtNode (syncLoads zv K T) q"
      if pq: "p \<in> set (pfNodes S)" "q \<in> set (pfNodes S)"
        "(busIndex S p, busIndex S q) \<in> conn (lineEdges S (mComponents (mSystem S)))" for p q
    proof -
      have lt: "busIndex S p < numNodes S" "busIndex S q < numNodes S" using indexedD(1) [OF assms] pq by blast+
      then have "R (busIndex S p) = R (busIndex S q)"
        using zonedD [OF z] pq(3) R by (simp add: len)
      then show ?thesis using base pq by simp
    qed
    have rating: "\<exists>w. mBaseVoltageAtNode (syncLoads zv K T) p = Some w \<and> relDiff v w \<le>
        (if isAuthoritative (pfData S c) then mBaseVoltageStrictTolerance S else mBaseVoltageLooseTolerance S)"
      if p: "p \<in> set (pfNodes S)" and c: "c \<in> set (compsAt S p)" "componentBaseVoltage S c p = ok v"
        "\<bar>v\<bar> > 1 / 10 ^ 6" for p c v
    proof -
      have lt: "busIndex S p < numNodes S" using indexedD(1) [OF assms p] .
      have "R (busIndex S p) < numNodes S"
        using root_root [of "zoneParent K" "busIndex S p"] z lt len R by (simp add: zoned_def)
      then have zin: "R (busIndex S p) \<in> set [0..<numNodes S]" by simp
      have mem: "(v, c) \<in> set (bucketOf S K c (R (busIndex S p)))"
        using K(3) p c unfolding collected_def by blast
      show ?thesis
      proof (cases "isAuthoritative (pfData S c)")
        case True
        then show ?thesis using agreedD [OF zv(2) zin, of v c] mem base [OF p] by (auto simp: bucketOf_def)
      next
        case False
        then show ?thesis using agreedD [OF zv(3) zin, of v c] mem base [OF p] by (auto simp: bucketOf_def)
      qed
    qed
    show ?thesis using res same rating by blast
  qed
qed

theorem base_voltage_zones_witness:
  "\<exists>r. propagateAndVerifyBaseVoltage demo_pf = Some r
     \<and> (\<forall>S'. r = ok S' \<longrightarrow> mBaseVoltageAtNode S' 1 = mBaseVoltageAtNode S' 2
          \<and> (\<exists>w. mBaseVoltageAtNode S' 1 = Some w \<and> relDiff 20 w \<le> 1 / 100))"
proof -
  have v: "componentBaseVoltage demo_pf (Suc 0) p = ok 20" "componentBaseVoltage demo_pf 0 p = ok 20" for p
    by (simp_all add: componentBaseVoltage_def demo_gen_def demo_line_def)
  have e: "lineEnds demo_pf 0 = ok (Some (1, 2))" "lineEnds demo_pf (Suc 0) = ok None"
    by (simp_all add: lineEnds_def)
  have ix: "indexed demo_pf" using v e by (auto simp: indexed_def split: if_splits)
  have c: "(1, 2) \<in> conn (lineEdges demo_pf [0, 1])"
    by (rule conn_edge) (use e in \<open>auto simp: lineEdges_def\<close>)
  have s: "mBaseVoltageStrictTolerance demo_pf = 1 / 100" by (simp add: demo_pf_def)
  show ?thesis
    using base_voltage_zones [OF ix] c v(1) s
    by (auto simp: isAuthoritative_def dest!: bspec [where x = "Suc 0"])
qed

end
