(* ===== verification/PFSolution.thy ===== *)
theory PFSolution
  imports PFLimits PFZones
begin

text \<open>The ends of a power flow solve: the initial solution from the set points of the
  components (\<open>generateInitialSolution\<close>) and the results written to nodes and components
  (\<open>setSolution\<close>), with the balance of the branch flows at every bus.\<close>

section \<open>The initial solution\<close>

definition resizeSol :: "nat \<Rightarrow> pfpolar \<Rightarrow> pfpolar" where
  "resizeSol n S = S\<lparr>solSize := n, solP := \<lambda>_. 0, solQ := \<lambda>_. 0, solV := \<lambda>_. 0, solD := \<lambda>_. 0, solFinite := True\<rparr>"

definition resizeComplexSol :: "nat \<Rightarrow> pfpolar \<Rightarrow> pfpolar" where
  "resizeComplexSol n S = S\<lparr>solScomplex := \<lambda>_. 0, solVcomplex := \<lambda>_. 0\<rparr>"

definition updateComponent :: "real \<Rightarrow> nat \<Rightarrow> pfpolar \<Rightarrow> error + pfpolar" where
  "updateComponent time c S = (case pfData S c of
       LoadComp l \<Rightarrow> bind_err (if ld_useProfile l then loadUpdatePQ time l else ok l)
         (\<lambda>l. ok (setPf c (LoadComp (loadPerUnit (mBaseApparentPower S) l)) S))
     | GenComp g \<Rightarrow> ok (setPf c (GenComp (genPerUnit (mBaseApparentPower S) g)) S)
     | _ \<Rightarrow> ok S)"

text \<open>The contribution of a component to the specified power of a bus, and to its voltage.\<close>

definition sstInjection :: "pfpolar \<Rightarrow> nat \<Rightarrow> nat \<Rightarrow> sst \<Rightarrow> error + real \<times> real" where
  "sstInjection S c node s =
     bind_err (compNodeRef (compAt (heap S) c) 0) (\<lambda>p0.
     bind_err (compNodeRef (compAt (heap S) c) 1) (\<lambda>p1.
       sstNodalInjection (nodeName (nodeAt (heap S) p0)) (nodeName (nodeAt (heap S) p1))
         (nodeName (nodeAt (heap S) node)) s))"

definition pqContribution :: "pfpolar \<Rightarrow> nat \<Rightarrow> nat \<Rightarrow> real \<times> real \<Rightarrow> error + real \<times> real" where
  "pqContribution S node c acc = (case acc of (p, q) \<Rightarrow> (case pfData S c of
       LoadComp l \<Rightarrow> ok (p - ld_P_pu l, q - ld_Q_pu l)
     | SstComp s \<Rightarrow> bind_err (sstInjection S c node s) (\<lambda>(x, y). ok (p - x, q - y))
     | VsiComp v \<Rightarrow> ok (p + vsi_P_ref v / mBaseApparentPower S, q + vsi_Q_ref v / mBaseApparentPower S)
     | GenComp g \<Rightarrow> ok (p + gen_P_pu g, q + gen_Q_pu g)
     | _ \<Rightarrow> ok acc))"

definition pvContribution :: "pfpolar \<Rightarrow> nat \<Rightarrow> real \<times> real \<times> real \<Rightarrow> real \<times> real \<times> real" where
  "pvContribution S c acc = (case acc of (p, q, v) \<Rightarrow> (case pfData S c of
       GenComp g \<Rightarrow> (p + gen_P_pu g, q, gen_V_pu g)
     | LoadComp l \<Rightarrow> (p - ld_P_pu l, q - ld_Q_pu l, v)
     | VsiComp i \<Rightarrow> (p + vsi_P_ref i / mBaseApparentPower S, q, v)
     | ExtComp e \<Rightarrow> (p + ext_p_inj e / mBaseApparentPower S, q, ext_V_pu e)
     | _ \<Rightarrow> acc))"

definition vdContribution :: "pfpolar \<Rightarrow> nat \<Rightarrow> real \<times> real \<times> real \<Rightarrow> real \<times> real \<times> real" where
  "vdContribution S c acc = (case acc of (p, q, v) \<Rightarrow> (case pfData S c of
       ExtComp e \<Rightarrow> (p, q, ext_V_pu e)
     | LoadComp l \<Rightarrow> (p - ld_P_pu l, q - ld_Q_pu l, v)
     | GenComp g \<Rightarrow> (p + gen_P_pu g, q + gen_Q_pu g, gen_V_pu g)
     | _ \<Rightarrow> acc))"

definition setBus :: "nat \<Rightarrow> real \<Rightarrow> real \<Rightarrow> real \<Rightarrow> real \<Rightarrow> pfpolar \<Rightarrow> pfpolar" where
  "setBus k p q v d S = S\<lparr>solP := (solP S)(k := p), solQ := (solQ S)(k := q), solV := (solV S)(k := v),
     solD := (solD S)(k := d), solScomplex := (solScomplex S)(k := Complex p q),
     solVcomplex := (solVcomplex S)(k := polar v d)\<rparr>"

definition initPQ :: "bool \<Rightarrow> nat \<Rightarrow> pfpolar \<Rightarrow> error + pfpolar" where
  "initPQ keep node S =
     (let k = busIndex S node;
          v = (if keep then solV S k else 1);
          d = (if keep then solD S k else 0)
      in bind_err (foldE (pqContribution S node) (compsAt S node) (0, 0))
           (\<lambda>(p, q). ok (setBus k p q v d S)))"

definition initPV :: "bool \<Rightarrow> nat \<Rightarrow> pfpolar \<Rightarrow> pfpolar" where
  "initPV keep node S =
     (let k = busIndex S node;
          d = (if keep then solD S k else 0)
      in case fold (pvContribution S) (compsAt S node) (0, 0, if keep then solV S k else 1) of
           (p, q, v) \<Rightarrow> setBus k p q v d S)"

definition initVD :: "nat \<Rightarrow> pfpolar \<Rightarrow> pfpolar" where
  "initVD node S = (case fold (vdContribution S) (compsAt S node) (0, 0, 1) of
     (p, q, v) \<Rightarrow> setBus (busIndex S node) p q v 0 S)"

definition generateInitialSolution :: "real \<Rightarrow> bool \<Rightarrow> pfpolar \<Rightarrow> error + pfpolar" where
  "generateInitialSolution time keepLast S0 =
     (let S1 = (if mEnforceReactiveLimits S0 then resetToOriginalClassification clearReactiveLimitState S0 else S0);
          n = numNodes S1;
          canKeep = (keepLast \<and> mHasLastConvergedSolution S1 \<and> mLastConvergedSize S1 = n);
          S2 = resizeComplexSol n (resizeSol n S1);
          S3 = (if canKeep then S2\<lparr>solV := mLastConvergedV S2, solD := mLastConvergedD S2\<rparr> else S2)
      in bind_err (foldE (updateComponent time) (mComponents (mSystem S3)) S3) (\<lambda>S4.
         bind_err (foldE (initPQ canKeep) (mPQBuses S4) S4) (\<lambda>S5.
           let S6 = fold (initPV canKeep) (mPVBuses S5) S5;
               S7 = fold initVD (mVDBuses S6) S6
           in ok (S7\<lparr>Pesp := solP S7, Qesp := solQ S7\<rparr>))))"

section \<open>Powers of the solution\<close>

definition loadPower :: "pfpolar \<Rightarrow> nat \<Rightarrow> complex" where
  "loadPower S node = fold (\<lambda>c s. case pfData S c of
     LoadComp l \<Rightarrow> s + Complex (ld_P_pu l) (ld_Q_pu l) | _ \<Rightarrow> s) (compsAt S node) 0"

primrec updateFirstSource :: "complex \<Rightarrow> nat list \<Rightarrow> pfpolar \<Rightarrow> pfpolar" where
  "updateFirstSource s [] S = S"
| "updateFirstSource s (c # cs) S = (case pfData S c of
       ExtComp e \<Rightarrow> setPf c (ExtComp (extUpdatePower s e)) S
     | GenComp g \<Rightarrow> setPf c (GenComp (genUpdatePower s g)) S
     | _ \<Rightarrow> updateFirstSource s cs S)"

primrec updateFirstGenerator :: "complex \<Rightarrow> nat list \<Rightarrow> pfpolar \<Rightarrow> pfpolar" where
  "updateFirstGenerator s [] S = S"
| "updateFirstGenerator s (c # cs) S = (case pfData S c of
       GenComp g \<Rightarrow> setPf c (GenComp (genUpdateReactive s g)) S
     | _ \<Rightarrow> updateFirstGenerator s cs S)"

definition slackBus :: "nat \<Rightarrow> pfpolar \<Rightarrow> pfpolar" where
  "slackBus node S =
     (let k = busIndex S node; s = nodalPower S k;
          S1 = updateFirstSource ((s + loadPower S node) * of_real (mBaseApparentPower S)) (compsAt S node) S
      in S1\<lparr>solP := (solP S1)(k := Re s), solQ := (solQ S1)(k := Im s)\<rparr>)"

definition calculatePAndQAtSlackBus :: "pfpolar \<Rightarrow> pfpolar" where
  "calculatePAndQAtSlackBus S = fold slackBus (mVDBuses S) S"

definition pvBusQ :: "nat \<Rightarrow> pfpolar \<Rightarrow> pfpolar" where
  "pvBusQ node S =
     (let k = busIndex S node; s = nodalPower S k;
          S1 = updateFirstGenerator ((s + loadPower S node) * of_real (mBaseApparentPower S)) (compsAt S node) S
      in S1\<lparr>solQ := (solQ S1)(k := Im s)\<rparr>)"

definition calculateQAtPVBuses :: "pfpolar \<Rightarrow> pfpolar" where
  "calculateQAtPVBuses S = fold pvBusQ (mPVBuses S) S"

definition addShuntPower :: "pfpolar \<Rightarrow> real \<Rightarrow> nat \<Rightarrow> complex \<Rightarrow> complex" where
  "addShuntPower S v c s = (case pfData S c of
     ShuntComp h \<Rightarrow> s + of_real (v\<^sup>2) * Complex (- sh_G_pu h) (sh_B_pu h) | _ \<Rightarrow> s)"

definition pqBusPower :: "nat \<Rightarrow> pfpolar \<Rightarrow> pfpolar" where
  "pqBusPower node S =
     (let k = busIndex S node;
          s = fold (addShuntPower S (solV S k)) (compsAt S node) (nodalPower S k)
      in S\<lparr>solP := (solP S)(k := Re s), solQ := (solQ S)(k := Im s)\<rparr>)"

definition calculatePAndQInjectionPQBuses :: "pfpolar \<Rightarrow> pfpolar" where
  "calculatePAndQInjectionPQBuses S = fold pqBusPower (mPQBuses S) S"

section \<open>Branch flows and injections\<close>

text \<open>Currents Y v and flows v conj(Y v) of an element with the voltages v; an element whose
  matrix was never set cannot be multiplied.\<close>

definition branchFlow :: "complex matrix \<Rightarrow> complex \<Rightarrow> complex \<Rightarrow> (complex \<times> complex) \<times> complex \<times> complex" where
  "branchFlow E v0 v1 =
     (let i0 = ent E 0 0 * v0 + ent E 0 1 * v1; i1 = ent E 1 0 * v0 + ent E 1 1 * v1
      in ((i0, i1), (v0 * cnj i0, v1 * cnj i1)))"

definition endVoltages :: "nat \<Rightarrow> pfpolar \<Rightarrow> error + complex \<times> complex" where
  "endVoltages c S =
     bind_err (compNodeRef (compAt (heap S) c) 0) (\<lambda>p.
     bind_err (compNodeRef (compAt (heap S) c) 1) (\<lambda>q.
       ok (solVcomplex S (busIndex S p), solVcomplex S (busIndex S q))))"

definition lineFlow :: "nat \<Rightarrow> pfpolar \<Rightarrow> error + pfpolar" where
  "lineFlow c S = (case pfData S c of
       LineComp n \<Rightarrow> bind_err (endVoltages c S) (\<lambda>(v0, v1).
         if mrows (ln_Y n) \<noteq> 2 \<or> mcols (ln_Y n) \<noteq> 2 then throw UndefinedBehaviour
         else case branchFlow (ln_Y n) v0 v1 of (i, s) \<Rightarrow> ok (setPf c (LineComp (lineUpdateBranchFlow i s n)) S))
     | _ \<Rightarrow> ok S)"

definition trafoFlow :: "nat \<Rightarrow> pfpolar \<Rightarrow> error + pfpolar" where
  "trafoFlow c S = (case pfData S c of
       TrafoComp t \<Rightarrow> bind_err (endVoltages c S) (\<lambda>(v0, v1).
         if mrows (tr_Y t) \<noteq> 2 \<or> mcols (tr_Y t) \<noteq> 2 then throw UndefinedBehaviour
         else case branchFlow (tr_Y t) v0 v1 of (i, s) \<Rightarrow> ok (setPf c (TrafoComp (trafoUpdateBranchFlow i s t)) S))
     | _ \<Rightarrow> ok S)"

definition calculateBranchFlow :: "pfpolar \<Rightarrow> error + pfpolar" where
  "calculateBranchFlow S = bind_err (foldE lineFlow (mLines S) S) (\<lambda>S. foldE trafoFlow (mTransformers S) S)"

text \<open>The injection of a node is stored in the first line at it, or in the first
  transformer when there is no line.\<close>

definition isLine :: "pfcomp \<Rightarrow> bool" where "isLine d = (case d of LineComp _ \<Rightarrow> True | _ \<Rightarrow> False)"
definition isTrafo :: "pfcomp \<Rightarrow> bool" where "isTrafo d = (case d of TrafoComp _ \<Rightarrow> True | _ \<Rightarrow> False)"

definition storeInjection :: "complex \<Rightarrow> nat \<Rightarrow> pfpolar \<Rightarrow> pfpolar" where
  "storeInjection s c S = (case pfData S c of
       LineComp n \<Rightarrow> setPf c (LineComp (lineStoreInjection s n)) S
     | TrafoComp t \<Rightarrow> setPf c (TrafoComp (trafoStoreInjection s t)) S
     | _ \<Rightarrow> S)"

definition nodeInjection :: "nat \<Rightarrow> pfpolar \<Rightarrow> pfpolar" where
  "nodeInjection node S =
     (let s = solScomplex S (busIndex S node)
      in case find (\<lambda>c. isLine (pfData S c)) (compsAt S node) of
           Some c \<Rightarrow> storeInjection s c S
         | None \<Rightarrow> (case find (\<lambda>c. isTrafo (pfData S c)) (compsAt S node) of
             Some c \<Rightarrow> storeInjection s c S | None \<Rightarrow> S))"

definition calculateNodalInjection :: "pfpolar \<Rightarrow> pfpolar" where
  "calculateNodalInjection S = fold nodeInjection (pfNodes S) S"

section \<open>Writing the solution\<close>

definition writeNode :: "nat \<Rightarrow> pfpolar \<Rightarrow> error + pfpolar" where
  "writeNode node S = (case castNode ComplexVar (heap S) (Some node) of
       None \<Rightarrow> throw UndefinedBehaviour
     | Some q \<Rightarrow>
         let k = busIndex S node;
             base = (case mBaseVoltageAtNode S node of None \<Rightarrow> 0 | Some v \<Rightarrow> v);
             u = solVcomplex S k * of_real base; s = solScomplex S k * of_real (mBaseApparentPower S)
         in ok (S\<lparr>heap := updNode q (\<lambda>n. setNodePower s (setVoltage u n)) (heap S)\<rparr>))"

definition setSolution :: "pfpolar \<Rightarrow> error + pfpolar" where
  "setSolution S0 =
     (let S1 = (if \<not> isConverged S0 then S0
                else let S = calculatePAndQInjectionPQBuses (calculateQAtPVBuses (calculatePAndQAtSlackBus S0))
                     in S\<lparr>mLastConvergedV := solV S, mLastConvergedD := solD S,
                          mLastConvergedSize := solSize S, mHasLastConvergedSolution := True\<rparr>);
          S2 = S1\<lparr>solScomplex := \<lambda>i. if i < numNodes S1 then Complex (solP S1 i) (solQ S1 i) else solScomplex S1 i,
                  solVcomplex := \<lambda>i. if i < numNodes S1 then polar (solV S1 i) (solD S1 i) else solVcomplex S1 i\<rparr>
      in bind_err (foldE writeNode (pfNodes S2) S2) (\<lambda>S3.
         bind_err (calculateBranchFlow S3) (\<lambda>S4. ok (calculateNodalInjection S4))))"

definition solveTask :: "(real matrix \<Rightarrow> (nat \<Rightarrow> bound) \<Rightarrow> nat \<Rightarrow> bound) \<Rightarrow> real \<Rightarrow> pfpolar \<Rightarrow> error + pfpolar" where
  "solveTask lu time S = bind_err (generateInitialSolution time (mKeepLastSolution S) S)
     (\<lambda>S. setSolution (polarSolve lu S))"

text \<open>\<open>initialize\<close> of the solver; \<open>None\<close> is a union-find that does not end.\<close>

definition initializeSolver :: "pfpolar \<Rightarrow> (error + pfpolar) option" where
  "initializeSolver S0 =
     (let S1 = S0\<lparr>mSystem := componentsAtNodeList (heap S0) (mSystem S0)\<rparr>;
          S2 = setBaseApparentPower (fold registerComp (mComponents (mSystem S1)) S1)
      in case bind_err (assignMatrixNodeIndices S2) (\<lambda>S. bind_err (initializeComponents S) determinePFBusType) of
           Inl e \<Rightarrow> Some (throw e)
         | Inr S3 \<Rightarrow> bindOE (propagateAndVerifyBaseVoltage S3) (\<lambda>S4.
             Some (bind_err (composeAdmittanceMatrix S4) (\<lambda>S. ok (zeroUnknowns (setUpJacobianStorage S))))))"

section \<open>The balance at a bus\<close>

definition endIndex :: "'a pfsolver_scheme \<Rightarrow> nat \<Rightarrow> nat \<Rightarrow> nat" where
  "endIndex S c i = (case compMatrixNodeIndex (compAt (heap S) c) i 0 of Inl _ \<Rightarrow> 0 | Inr k \<Rightarrow> k)"

text \<open>Row \<open>k\<close> of a matrix times voltages, and what an element takes from bus \<open>k\<close>.\<close>

definition rowI :: "complex matrix \<Rightarrow> nat \<Rightarrow> (nat \<Rightarrow> complex) \<Rightarrow> nat \<Rightarrow> complex" where
  "rowI Y n V k = (\<Sum>j<n. ent Y k j * V j)"

definition elementI :: "complex matrix \<Rightarrow> (nat \<Rightarrow> complex) \<Rightarrow> nat \<Rightarrow> nat \<Rightarrow> nat \<Rightarrow> complex" where
  "elementI E V b0 b1 k = (if b0 = k then ent E 0 0 * V b0 + ent E 0 1 * V b1 else 0)
     + (if b1 = k then ent E 1 0 * V b0 + ent E 1 1 * V b1 else 0)"

lemma rowI_addY:
  assumes "j < n"
  shows "rowI (addY Y i j x) n V k = rowI Y n V k + (if k = i then x * V j else 0)"
proof (cases "k = i")
  case True
  have "rowI (addY Y i j x) n V k = (\<Sum>l<n. ent Y k l * V l + (if l = j then x * V l else 0))"
    unfolding rowI_def by (rule sum.cong) (auto simp: addY_def True algebra_simps)
  then show ?thesis using assms True by (simp add: sum.distrib sum.delta rowI_def)
qed (simp add: rowI_def addY_def)

lemma rowI_stamp2:
  assumes "b0 < n" "b1 < n"
  shows "rowI (stamp2 b0 b1 E Y) n V k = rowI Y n V k + elementI E V b0 b1 k"
  using assms by (auto simp: stamp2_def rowI_addY elementI_def)

text \<open>The current a component takes from bus \<open>k\<close>.\<close>

definition compI :: "(nat \<Rightarrow> complex) \<Rightarrow> nat \<Rightarrow> 'a pfsolver_scheme \<Rightarrow> nat \<Rightarrow> complex" where
  "compI V k S c = (case pfData S c of
     LineComp n \<Rightarrow> elementI (ln_Y n) V (endIndex S c 0) (endIndex S c 1) k
   | TrafoComp t \<Rightarrow> if tr_R t = 0 \<and> tr_L t = 0 then 0
       else elementI (tr_Y t) V (endIndex S c (tr_referenceTerminal t)) (endIndex S c (nonReferenceTerminal t)) k
   | ShuntComp h \<Rightarrow> if endIndex S c 0 = k then Complex (sh_G_pu h) (sh_B_pu h) * V k else 0
   | _ \<Rightarrow> 0)"

text \<open>What the base class has prepared: the lists hold components of their class, each once,
  whose cached indices are bus indices, and the winding roles are resolved.\<close>

definition registered :: "'a pfsolver_scheme \<Rightarrow> bool" where
  "registered S \<longleftrightarrow> distinct (mLines S @ mTransformers S @ mShunts S)
     \<and> (\<forall>c \<in> set (mLines S). \<exists>n. pfData S c = LineComp n)
     \<and> (\<forall>c \<in> set (mTransformers S). \<exists>t. pfData S c = TrafoComp t \<and> tr_referenceTerminal t \<le> 1)
     \<and> (\<forall>c \<in> set (mShunts S). \<exists>h. pfData S c = ShuntComp h)
     \<and> (\<forall>c i. endIndex S c i < numNodes S)"

text \<open>The component with its element matrix set; a transformer without leakage is passed over.\<close>

definition withElement :: "pfcomp \<Rightarrow> pfcomp \<Rightarrow> bool" where
  "withElement d d' \<longleftrightarrow> (case d of
     LineComp n \<Rightarrow> \<exists>E. d' = LineComp (n\<lparr>ln_Y := E\<rparr>) \<and> mrows E = 2 \<and> mcols E = 2
   | TrafoComp t \<Rightarrow> if tr_R t = 0 \<and> tr_L t = 0 then d' = d
       else \<exists>E. d' = TrafoComp (t\<lparr>tr_Y := E\<rparr>) \<and> mrows E = 2 \<and> mcols E = 2
   | _ \<Rightarrow> d' = d)"

lemma mat22_dims [simp]: "mrows (mat22 a b c d) = 2" "mcols (mat22 a b c d) = 2"
  by (simp_all add: mat22_def)

lemma element_dims:
  "lineElement n = ok E \<Longrightarrow> mrows E = 2 \<and> mcols E = 2" "trafoElement t = ok E \<Longrightarrow> mrows E = 2 \<and> mcols E = 2"
  by (auto simp: lineElement_def trafoElement_def Let_def split: if_splits)

definition stamps :: "nat \<Rightarrow> (nat \<Rightarrow> complex) \<Rightarrow> nat \<Rightarrow> nat \<Rightarrow> 'a pfsolver_scheme \<Rightarrow> 'a pfsolver_scheme \<Rightarrow> bool" where
  "stamps n V k c S S' \<longleftrightarrow> rowI (mY S') n V k = rowI (mY S) n V k + compI V k S' c
     \<and> withElement (pfData S c) (pfData S' c)
     \<and> (\<forall>q. q \<noteq> c \<longrightarrow> pfData S' q = pfData S q) \<and> heap S' = heap S \<and> mSystem S' = mSystem S
     \<and> mLines S' = mLines S \<and> mTransformers S' = mTransformers S \<and> mShunts S' = mShunts S"

definition stamped :: "nat \<Rightarrow> (nat \<Rightarrow> complex) \<Rightarrow> nat \<Rightarrow> nat list \<Rightarrow> 'a pfsolver_scheme \<Rightarrow> 'a pfsolver_scheme \<Rightarrow> bool" where
  "stamped n V k cs S S' \<longleftrightarrow> rowI (mY S') n V k = rowI (mY S) n V k + sum_list (map (compI V k S') cs)
     \<and> (\<forall>c \<in> set cs. withElement (pfData S c) (pfData S' c))
     \<and> (\<forall>q. q \<notin> set cs \<longrightarrow> pfData S' q = pfData S q) \<and> heap S' = heap S \<and> mSystem S' = mSystem S
     \<and> mLines S' = mLines S \<and> mTransformers S' = mTransformers S \<and> mShunts S' = mShunts S"

lemma stampedD:
  assumes "stamped n V k cs S S'"
  shows "rowI (mY S') n V k = rowI (mY S) n V k + sum_list (map (compI V k S') cs)"
    "q \<notin> set cs \<Longrightarrow> pfData S' q = pfData S q" "heap S' = heap S" "mSystem S' = mSystem S"
    "mLines S' = mLines S" "mTransformers S' = mTransformers S" "mShunts S' = mShunts S"
    "c \<in> set cs \<Longrightarrow> withElement (pfData S c) (pfData S' c)"
  using assms unfolding stamped_def by blast+

lemma compI_cong: "pfData S' c = pfData S c \<Longrightarrow> heap S' = heap S \<Longrightarrow> compI V k S' c = compI V k S c"
proof -
  assume d: "pfData S' c = pfData S c" and h: "heap S' = heap S"
  have "endIndex S' = endIndex S" using h by (simp add: endIndex_def fun_eq_iff)
  then show ?thesis unfolding compI_def d by (simp only:)
qed

lemma stamps_fold:
  assumes "foldE g cs S = ok S'" "distinct cs"
    and "\<And>c T T'. c \<in> set cs \<Longrightarrow> pfData T c = pfData S c \<Longrightarrow> heap T = heap S \<Longrightarrow> g c T = ok T'
      \<Longrightarrow> stamps n V k c T T'"
  shows "stamped n V k cs S S'"
  using assms
proof (induction cs arbitrary: S)
  case (Cons c cs)
  from Cons.prems(1) obtain T where T: "g c S = ok T" "foldE g cs T = ok S'" by auto
  have st: "stamps n V k c S T" using Cons.prems(3) [OF _ refl refl T(1)] by simp
  have hT: "heap T = heap S" "\<And>q. q \<in> set cs \<Longrightarrow> pfData T q = pfData S q"
    using st Cons.prems(2) by (auto simp: stamps_def)
  have rest: "stamps n V k d T1 T'" if "d \<in> set cs" "pfData T1 d = pfData T d" "heap T1 = heap T" "g d T1 = ok T'" for d T1 T'
    using Cons.prems(3) [of d T1 T'] that hT by simp
  have all: "stamped n V k cs T S'"
    by (rule Cons.IH [OF T(2)]) (use Cons.prems(2) in simp, rule rest)
  note IH = stampedD [OF all]
  have "c \<notin> set cs" using Cons.prems(2) by simp
  then have cI: "compI V k S' c = compI V k T c" "pfData S' c = pfData T c"
    by (rule compI_cong [OF IH(2) IH(3)], rule IH(2))
  have "withElement (pfData S d) (pfData S' d)" if "d \<in> set (c # cs)" for d
    using that st cI(2) IH(8) [of d] hT(2) [of d] by (auto simp: stamps_def)
  then show ?case using st IH cI(1) unfolding stamped_def stamps_def by simp
qed (simp add: stamped_def)

lemma endIndex_eq: "compMatrixNodeIndex (compAt (heap S) c) i 0 = ok b \<Longrightarrow> endIndex S c i = b"
  by (simp add: endIndex_def)

lemma endIndex_setPf [simp]: "endIndex (setPf p d S) = endIndex S" "endIndex (S\<lparr>mY := Y\<rparr>) = endIndex S"
  by (simp_all add: endIndex_def setPf_def fun_eq_iff)

lemma setPf_simps [simp]:
  "pfData (setPf p d S) = (pfData S)(p := d)" "mY (setPf p d S) = mY S" "heap (setPf p d S) = heap S"
  "mSystem (setPf p d S) = mSystem S" "mLines (setPf p d S) = mLines S"
  "mTransformers (setPf p d S) = mTransformers S" "mShunts (setPf p d S) = mShunts S"
  by (simp_all add: setPf_def)

lemma stampLine_stamps:
  assumes "pfData S c = LineComp n0" "\<forall>i. endIndex S c i < n" "stampLine c S = ok S'"
  shows "stamps n V k c S S'"
proof -
  obtain b0 b1 E where b: "compMatrixNodeIndex (compAt (heap S) c) 0 0 = ok b0"
    "compMatrixNodeIndex (compAt (heap S) c) 1 0 = ok b1" "lineElement n0 = ok E"
    and S': "S' = setPf c (LineComp (n0\<lparr>ln_Y := E\<rparr>)) (S\<lparr>mY := stamp2 b0 b1 E (mY S)\<rparr>)"
    using assms(1,3) by (auto simp: stampLine_def lineStamp_def)
  have e: "endIndex S c 0 = b0" "endIndex S c 1 = b1" using b by (simp_all add: endIndex_eq)
  then have lt: "b0 < n" "b1 < n" using assms(2) by auto
  have "compI V k S' c = elementI E V b0 b1 k" using e by (simp add: compI_def S')
  then show ?thesis using rowI_stamp2 [OF lt, of E "mY S" V k] element_dims(1) [OF b(3)] assms(1)
    by (auto simp: stamps_def S' withElement_def)
qed

lemma stampTrafo_stamps:
  assumes "pfData S c = TrafoComp t0" "tr_referenceTerminal t0 \<le> 1" "\<forall>i. endIndex S c i < n" "stampTrafo c S = ok S'"
  shows "stamps n V k c S S'"
proof (cases "tr_R t0 = 0 \<and> tr_L t0 = 0")
  case True
  then have "S' = S" using assms(1,4) by (simp add: stampTrafo_def)
  then show ?thesis using True assms(1) by (simp add: stamps_def compI_def withElement_def)
next
  case False
  obtain b0 b1 E where b: "compMatrixNodeIndex (compAt (heap S) c) 0 0 = ok b0"
    "compMatrixNodeIndex (compAt (heap S) c) 1 0 = ok b1" "trafoElement t0 = ok E"
    and S': "S' = setPf c (TrafoComp (t0\<lparr>tr_Y := E\<rparr>)) (S\<lparr>mY :=
      stamp2 (if tr_referenceTerminal t0 = 0 then b0 else b1) (if nonReferenceTerminal t0 = 0 then b0 else b1) E (mY S)\<rparr>)"
    using assms(1,4) False by (auto simp: stampTrafo_def trafoStamp_def)
  have e: "endIndex S c 0 = b0" "endIndex S c 1 = b1" using b by (simp_all add: endIndex_eq)
  then have lt: "b0 < n" "b1 < n" using assms(3) by auto
  have r: "endIndex S c (tr_referenceTerminal t0) = (if tr_referenceTerminal t0 = 0 then b0 else b1)"
    "endIndex S c (nonReferenceTerminal t0) = (if nonReferenceTerminal t0 = 0 then b0 else b1)"
    using e assms(2) by (auto simp: nonReferenceTerminal_def le_Suc_eq)
  have nr: "nonReferenceTerminal (t0\<lparr>tr_Y := E\<rparr>) = nonReferenceTerminal t0" by (simp add: nonReferenceTerminal_def)
  have "compI V k S' c = elementI E V (if tr_referenceTerminal t0 = 0 then b0 else b1)
      (if nonReferenceTerminal t0 = 0 then b0 else b1) k"
    using False r nr by (auto simp: compI_def S')
  moreover have "rowI (mY S') n V k = rowI (mY S) n V k + elementI E V
      (if tr_referenceTerminal t0 = 0 then b0 else b1) (if nonReferenceTerminal t0 = 0 then b0 else b1) k"
  proof -
    have "mY S' = stamp2 (if tr_referenceTerminal t0 = 0 then b0 else b1)
        (if nonReferenceTerminal t0 = 0 then b0 else b1) E (mY S)" by (simp add: S')
    then show ?thesis by (simp only:) (rule rowI_stamp2, use lt in auto)
  qed
  moreover have "withElement (pfData S c) (pfData S' c)"
    unfolding withElement_def S' setPf_simps assms(1) pfcomp.case if_not_P [OF False]
    using element_dims(2) [OF b(3)] by (intro exI [of _ E]) simp
  ultimately show ?thesis by (simp add: stamps_def S')
qed

lemma stampShunt_stamps:
  assumes "pfData S c = ShuntComp h" "\<forall>i. endIndex S c i < n" "stampShunt c S = ok S'"
  shows "stamps n V k c S S'"
proof -
  obtain b0 where b: "compMatrixNodeIndex (compAt (heap S) c) 0 0 = ok b0"
    and S': "S' = S\<lparr>mY := shuntStamp b0 h (mY S)\<rparr>"
    using assms(1,3) by (auto simp: stampShunt_def)
  have e: "endIndex S c 0 = b0" using b by (simp add: endIndex_eq)
  then have lt: "b0 < n" using assms(2) by auto
  have "compI V k S' c = (if b0 = k then Complex (sh_G_pu h) (sh_B_pu h) * V k else 0)"
    using e assms(1) by (simp add: compI_def S')
  then show ?thesis using rowI_addY [OF lt, of "mY S" b0 _ V k] assms(1)
    by (simp add: stamps_def S' shuntStamp_def withElement_def)
qed

lemma compose_rows:
  fixes S0 S :: "'a pfsolver_scheme"
  assumes "composeAdmittanceMatrix S0 = ok S" "registered S0"
  shows "rowI (mY S) (numNodes S) V k = sum_list (map (compI V k S) (mLines S @ mTransformers S @ mShunts S))"
    "c \<in> set (mLines S @ mTransformers S @ mShunts S) \<Longrightarrow> withElement (pfData S0 c) (pfData S c)"
    "heap S = heap S0" "mLines S = mLines S0" "mTransformers S = mTransformers S0" "mShunts S = mShunts S0"
proof -
  define n where "n = numNodes S0"
  have reg: "distinct (mLines S0)" "distinct (mTransformers S0)" "distinct (mShunts S0)"
    "set (mLines S0) \<inter> set (mTransformers S0) = {}" "set (mLines S0) \<inter> set (mShunts S0) = {}"
    "set (mTransformers S0) \<inter> set (mShunts S0) = {}" "\<And>c i. endIndex S0 c i < n"
    using assms(2) by (auto simp: registered_def n_def)
  then have pos: "0 < n" by (metis gr0I not_less0)
  let ?S1 = "S0\<lparr>mY := mkmat n n (\<lambda>_ _. 0)\<rparr>"
  obtain S2 S3 where c: "foldE stampLine (mLines S0) ?S1 = ok S2" "foldE stampTrafo (mTransformers S2) S2 = ok S3"
    "foldE stampShunt (mShunts S3) S3 = ok S"
    using assms(1) pos by (auto simp: composeAdmittanceMatrix_def n_def split: if_splits)
  have end_heap: "endIndex T c i < n" if "heap T = heap S0" for T :: "'a pfsolver_scheme" and c i
    using reg(7) that by (simp add: endIndex_def)
  have one_l: "\<And>c (T :: 'a pfsolver_scheme) T'. c \<in> set (mLines S0) \<Longrightarrow> pfData T c = pfData ?S1 c \<Longrightarrow> heap T = heap ?S1
      \<Longrightarrow> stampLine c T = ok T' \<Longrightarrow> stamps n V k c T T'"
  proof -
    fix c and T T' :: "'a pfsolver_scheme"
    assume a: "c \<in> set (mLines S0)" "pfData T c = pfData ?S1 c" "heap T = heap ?S1" "stampLine c T = ok T'"
    then obtain n0 where "pfData T c = LineComp n0" using assms(2) by (auto simp: registered_def)
    then show "stamps n V k c T T'" using stampLine_stamps [OF _ _ a(4)] end_heap a(3) by simp
  qed
  have "stamped n V k (mLines S0) ?S1 S2" by (rule stamps_fold [OF c(1) reg(1)]) (rule one_l)
  note l = stampedD [OF this]
  have c2: "foldE stampTrafo (mTransformers S0) S2 = ok S3" using c(2) l(6) by simp
  have one_t: "\<And>c (T :: 'a pfsolver_scheme) T'. c \<in> set (mTransformers S0) \<Longrightarrow> pfData T c = pfData S2 c \<Longrightarrow> heap T = heap S2
      \<Longrightarrow> stampTrafo c T = ok T' \<Longrightarrow> stamps n V k c T T'"
  proof -
    fix c and T T' :: "'a pfsolver_scheme"
    assume a: "c \<in> set (mTransformers S0)" "pfData T c = pfData S2 c" "heap T = heap S2" "stampTrafo c T = ok T'"
    have "pfData T c = pfData S0 c" using a(1,2) l(2) [of c] reg(4) by auto
    moreover have "\<exists>t. pfData S0 c = TrafoComp t \<and> tr_referenceTerminal t \<le> 1"
      using assms(2) a(1) by (simp add: registered_def)
    ultimately obtain t where "pfData T c = TrafoComp t" "tr_referenceTerminal t \<le> 1" by auto
    then show "stamps n V k c T T'" using stampTrafo_stamps [OF _ _ _ a(4)] end_heap a(3) l(3) by simp
  qed
  have "stamped n V k (mTransformers S0) S2 S3" by (rule stamps_fold [OF c2 reg(2)]) (rule one_t)
  note t = stampedD [OF this]
  have c3: "foldE stampShunt (mShunts S0) S3 = ok S" using c(3) t(7) l(7) by simp
  have one_h: "\<And>c (T :: 'a pfsolver_scheme) T'. c \<in> set (mShunts S0) \<Longrightarrow> pfData T c = pfData S3 c \<Longrightarrow> heap T = heap S3
      \<Longrightarrow> stampShunt c T = ok T' \<Longrightarrow> stamps n V k c T T'"
  proof -
    fix c and T T' :: "'a pfsolver_scheme"
    assume a: "c \<in> set (mShunts S0)" "pfData T c = pfData S3 c" "heap T = heap S3" "stampShunt c T = ok T'"
    have "c \<notin> set (mLines S0)" "c \<notin> set (mTransformers S0)" using a(1) reg(5,6) by blast+
    then have "pfData T c = pfData S0 c" using a(2) l(2) [of c] t(2) [of c] by simp
    moreover have "\<exists>h. pfData S0 c = ShuntComp h" using assms(2) a(1) by (simp add: registered_def)
    ultimately obtain h where "pfData T c = ShuntComp h" by auto
    then show "stamps n V k c T T'" using stampShunt_stamps [OF _ _ a(4)] end_heap a(3) l(3) t(3) by simp
  qed
  have "stamped n V k (mShunts S0) S3 S" by (rule stamps_fold [OF c3 reg(3)]) (rule one_h)
  note h = stampedD [OF this]
  have heaps: "heap S2 = heap S0" "heap S3 = heap S0" "heap S = heap S0" using l(3) t(3) h(3) by simp_all
  have n: "numNodes S = n" using l(4) t(4) h(4) by (simp add: numNodes_def n_def)
  have lists: "mLines S = mLines S0" "mTransformers S = mTransformers S0" "mShunts S = mShunts S0"
    using l(5-7) t(5-7) h(5-7) by simp_all
  have "compI V k S2 c = compI V k S c" if "c \<in> set (mLines S0)" for c
  proof -
    have "c \<notin> set (mTransformers S0)" "c \<notin> set (mShunts S0)" using that reg(4,5) by blast+
    then have "pfData S c = pfData S2 c" using t(2) [of c] h(2) [of c] by simp
    then show ?thesis using heaps by (intro compI_cong) simp_all
  qed
  then have sl: "sum_list (map (compI V k S2) (mLines S0)) = sum_list (map (compI V k S) (mLines S0))"
    by (metis map_cong)
  have "compI V k S3 c = compI V k S c" if "c \<in> set (mTransformers S0)" for c
  proof -
    have "c \<notin> set (mShunts S0)" using that reg(6) by blast
    then have "pfData S c = pfData S3 c" using h(2) [of c] by simp
    then show ?thesis using heaps by (intro compI_cong) simp_all
  qed
  then have st: "sum_list (map (compI V k S3) (mTransformers S0)) = sum_list (map (compI V k S) (mTransformers S0))"
    by (metis map_cong)
  have z: "rowI (mY ?S1) n V k = 0" by (simp add: rowI_def)
  have "rowI (mY S) n V k = rowI (mY ?S1) n V k + sum_list (map (compI V k S2) (mLines S0))
      + sum_list (map (compI V k S3) (mTransformers S0)) + sum_list (map (compI V k S) (mShunts S0))"
    using l(1) t(1) h(1) by simp
  then show "rowI (mY S) (numNodes S) V k = sum_list (map (compI V k S) (mLines S @ mTransformers S @ mShunts S))"
    unfolding n lists sl st z by simp
  show "withElement (pfData S0 c) (pfData S c)" if "c \<in> set (mLines S @ mTransformers S @ mShunts S)"
  proof -
    from that consider "c \<in> set (mLines S0)" | "c \<in> set (mTransformers S0)" | "c \<in> set (mShunts S0)"
      unfolding lists by auto
    then show ?thesis
    proof cases
      case 1
      then have "c \<notin> set (mTransformers S0)" "c \<notin> set (mShunts S0)" using reg(4,5) by blast+
      then show ?thesis using l(8) [OF 1] t(2) [of c] h(2) [of c] by simp
    next
      case 2
      then have "c \<notin> set (mLines S0)" "c \<notin> set (mShunts S0)" using reg(4,6) by blast+
      then show ?thesis using t(8) [OF 2] l(2) [of c] h(2) [of c] by simp
    next
      case 3
      then have "c \<notin> set (mLines S0)" "c \<notin> set (mTransformers S0)" using reg(5,6) by blast+
      then show ?thesis using h(8) [OF 3] l(2) [of c] t(2) [of c] by simp
    qed
  qed
  show "heap S = heap S0" "mLines S = mLines S0" "mTransformers S = mTransformers S0" "mShunts S = mShunts S0"
    by (rule heaps(3), rule lists(1), rule lists(2), rule lists(3))
qed


section \<open>The flows the solver reports\<close>

text \<open>Both nodes of a branch exist, and their bus indices are the indices the branch has cached.\<close>

definition endsCached :: "'a pfsolver_scheme \<Rightarrow> nat \<Rightarrow> bool" where
  "endsCached S c \<longleftrightarrow> (\<exists>p q. compNodeRef (compAt (heap S) c) 0 = ok p \<and> compNodeRef (compAt (heap S) c) 1 = ok q
     \<and> busIndex S p = endIndex S c 0 \<and> busIndex S q = endIndex S c 1)"

definition branchBase :: "'a pfsolver_scheme \<Rightarrow> nat \<Rightarrow> real" where
  "branchBase S c = (case pfData S c of LineComp n \<Rightarrow> ln_baseS n | TrafoComp t \<Rightarrow> tr_baseS t | _ \<Rightarrow> 0)"

text \<open>The power a branch reports to take from bus \<open>k\<close>, and the power of a shunt at bus \<open>k\<close>.\<close>

definition reportedFlow :: "'a pfsolver_scheme \<Rightarrow> nat \<Rightarrow> nat \<Rightarrow> complex" where
  "reportedFlow S k c = (case pfData S c of
     LineComp n \<Rightarrow> (if endIndex S c 0 = k then fst (ln_flow n) else 0) + (if endIndex S c 1 = k then snd (ln_flow n) else 0)
   | TrafoComp t \<Rightarrow> (if endIndex S c 0 = k then fst (tr_flow t) else 0) + (if endIndex S c 1 = k then snd (tr_flow t) else 0)
   | _ \<Rightarrow> 0)"

definition shuntPower :: "(nat \<Rightarrow> complex) \<Rightarrow> nat \<Rightarrow> 'a pfsolver_scheme \<Rightarrow> nat \<Rightarrow> complex" where
  "shuntPower V k S c = (case pfData S c of
     ShuntComp h \<Rightarrow> if endIndex S c 0 = k then V k * cnj (Complex (sh_G_pu h) (sh_B_pu h) * V k) else 0
   | _ \<Rightarrow> 0)"

text \<open>A branch after \<open>calculateBranchFlow\<close>.\<close>

definition withFlow :: "pfpolar \<Rightarrow> nat \<Rightarrow> pfcomp" where
  "withFlow S c = (let v0 = solVcomplex S (endIndex S c 0); v1 = solVcomplex S (endIndex S c 1) in
     case pfData S c of
       LineComp n \<Rightarrow> LineComp (lineUpdateBranchFlow (fst (branchFlow (ln_Y n) v0 v1)) (snd (branchFlow (ln_Y n) v0 v1)) n)
     | TrafoComp t \<Rightarrow> TrafoComp (trafoUpdateBranchFlow (fst (branchFlow (tr_Y t) v0 v1)) (snd (branchFlow (tr_Y t) v0 v1)) t)
     | d \<Rightarrow> d)"

lemma setPf_sol [simp]: "solVcomplex (setPf p d S) = solVcomplex S"
  by (simp add: setPf_def)

lemma fold_setPf:
  fixes S :: pfpolar
  shows "pfData (fold (\<lambda>c. setPf c (d c)) cs S) = (\<lambda>c. if c \<in> set cs then d c else pfData S c)"
    "heap (fold (\<lambda>c. setPf c (d c)) cs S) = heap S" "solVcomplex (fold (\<lambda>c. setPf c (d c)) cs S) = solVcomplex S"
    "mLines (fold (\<lambda>c. setPf c (d c)) cs S) = mLines S" "mTransformers (fold (\<lambda>c. setPf c (d c)) cs S) = mTransformers S"
    "mShunts (fold (\<lambda>c. setPf c (d c)) cs S) = mShunts S"
  by (induction cs arbitrary: S) (auto simp: fun_eq_iff)

lemma foldE_setPf:
  fixes S :: pfpolar
  assumes "distinct cs"
    and "\<And>c T. c \<in> set cs \<Longrightarrow> heap T = heap S \<Longrightarrow> solVcomplex T = solVcomplex S \<Longrightarrow> pfData T c = pfData S c
      \<Longrightarrow> g c T = ok (setPf c (d c) T)"
  shows "foldE g cs S = ok (fold (\<lambda>c. setPf c (d c)) cs S)"
  using assms
proof (induction cs arbitrary: S)
  case (Cons c cs)
  have "foldE g cs (setPf c (d c) S) = ok (fold (\<lambda>c. setPf c (d c)) cs (setPf c (d c) S))"
  proof (rule Cons.IH)
    show "g e T = ok (setPf e (d e) T)" if "e \<in> set cs" "heap T = heap (setPf c (d c) S)"
      "solVcomplex T = solVcomplex (setPf c (d c) S)" "pfData T e = pfData (setPf c (d c) S) e" for e T
      by (rule Cons.prems(2)) (use that Cons.prems(1) in auto)
  qed (use Cons.prems(1) in simp)
  moreover have "g c S = ok (setPf c (d c) S)" by (rule Cons.prems(2)) simp_all
  ultimately show ?case by simp
qed simp

lemma endVoltages_cached:
  assumes "endsCached S c" "heap T = heap S" "solVcomplex T = solVcomplex S"
  shows "endVoltages c T = ok (solVcomplex S (endIndex S c 0), solVcomplex S (endIndex S c 1))"
  using assms by (auto simp: endsCached_def endVoltages_def busIndex_def)

definition flowReady :: "pfpolar \<Rightarrow> nat \<Rightarrow> bool" where
  "flowReady S c \<longleftrightarrow> endsCached S c \<and> (case pfData S c of
     LineComp n \<Rightarrow> mrows (ln_Y n) = 2 \<and> mcols (ln_Y n) = 2 | TrafoComp t \<Rightarrow> mrows (tr_Y t) = 2 \<and> mcols (tr_Y t) = 2
   | _ \<Rightarrow> False)"

lemma branch_step:
  assumes "flowReady S c" "heap T = heap S" "solVcomplex T = solVcomplex S" "pfData T c = pfData S c"
  shows "pfData S c = LineComp n \<Longrightarrow> lineFlow c T = ok (setPf c (withFlow S c) T)"
    "pfData S c = TrafoComp t \<Longrightarrow> trafoFlow c T = ok (setPf c (withFlow S c) T)"
  using assms endVoltages_cached [of S c T]
  by (simp_all add: flowReady_def lineFlow_def trafoFlow_def withFlow_def Let_def case_prod_unfold)

lemma branch_flows:
  fixes S :: pfpolar
  assumes "distinct (mLines S @ mTransformers S)" "\<forall>c \<in> set (mLines S @ mTransformers S). flowReady S c"
    and "\<forall>c \<in> set (mLines S). \<exists>n. pfData S c = LineComp n" "\<forall>c \<in> set (mTransformers S). \<exists>t. pfData S c = TrafoComp t"
  shows "\<exists>S'. calculateBranchFlow S = ok S' \<and> heap S' = heap S \<and> mLines S' = mLines S
    \<and> mTransformers S' = mTransformers S \<and> mShunts S' = mShunts S
    \<and> (\<forall>c. pfData S' c = (if c \<in> set (mLines S @ mTransformers S) then withFlow S c else pfData S c))"
proof -
  let ?up = "fold (\<lambda>c. setPf c (withFlow S c))"
  note u = fold_setPf [where d = "withFlow S"]
  have l: "foldE lineFlow (mLines S) S = ok (?up (mLines S) S)"
    by (rule foldE_setPf) (use assms branch_step(1) in auto)
  have tr: "trafoFlow c T = ok (setPf c (withFlow S c) T)"
    if "c \<in> set (mTransformers S)" "heap T = heap (?up (mLines S) S)"
      "solVcomplex T = solVcomplex (?up (mLines S) S)" "pfData T c = pfData (?up (mLines S) S) c" for c T
  proof -
    have nl: "c \<notin> set (mLines S)" using that(1) assms(1) by auto
    have fr: "flowReady S c" using that(1) assms(2) unfolding set_append by blast
    from that(1) assms(4) obtain t where "pfData S c = TrafoComp t" by blast
    then show ?thesis by (rule branch_step(2) [OF fr, rotated 3]) (use that(2-4) nl in \<open>simp_all add: u\<close>)
  qed
  have t: "foldE trafoFlow (mTransformers S) (?up (mLines S) S) = ok (?up (mTransformers S) (?up (mLines S) S))"
    by (rule foldE_setPf) (use assms(1) in simp, rule tr)
  have "calculateBranchFlow S = ok (?up (mTransformers S) (?up (mLines S) S))"
    using l t u(5) [of "mLines S" S] by (simp add: calculateBranchFlow_def)
  then show ?thesis by (intro exI [of _ "?up (mTransformers S) (?up (mLines S) S)"]) (auto simp: u)
qed

lemma reported_line:
  assumes "pfData S c = LineComp n" "ln_baseS n = sb"
    and "pfData S' c = withFlow (S\<lparr>solVcomplex := V\<rparr>) c" "heap S' = heap S"
  shows "reportedFlow S' k c = of_real sb * (V k * cnj (compI V k S c))"
proof -
  have e: "endIndex S' c = endIndex S c" "endIndex (S\<lparr>solVcomplex := V\<rparr>) c = endIndex S c"
    using assms(4) by (simp_all add: endIndex_def fun_eq_iff)
  show ?thesis
    using assms(1,2) unfolding reportedFlow_def assms(3) withFlow_def
    by (cases "endIndex S c 0 = k"; cases "endIndex S c (Suc 0) = k")
      (simp_all add: e branchFlow_def lineUpdateBranchFlow_def compI_def elementI_def Let_def algebra_simps)
qed

lemma reported_trafo:
  assumes "pfData S c = TrafoComp t" "tr_baseS t = sb" "tr_referenceTerminal t = 0" "\<not> (tr_R t = 0 \<and> tr_L t = 0)"
    and "pfData S' c = withFlow (S\<lparr>solVcomplex := V\<rparr>) c" "heap S' = heap S"
  shows "reportedFlow S' k c = of_real sb * (V k * cnj (compI V k S c))"
proof -
  have e: "endIndex S' c = endIndex S c" "endIndex (S\<lparr>solVcomplex := V\<rparr>) c = endIndex S c"
    using assms(6) by (simp_all add: endIndex_def fun_eq_iff)
  have cI: "compI V k S c = elementI (tr_Y t) V (endIndex S c 0) (endIndex S c (Suc 0)) k"
    using assms(1,3,4) by (auto simp: compI_def nonReferenceTerminal_def)
  show ?thesis
    using assms(1,2) unfolding reportedFlow_def assms(5) withFlow_def cI
    by (cases "endIndex S c 0 = k"; cases "endIndex S c (Suc 0) = k")
      (simp_all add: e branchFlow_def trafoUpdateBranchFlow_def elementI_def Let_def algebra_simps)
qed

text \<open>C12. At every bus and for all voltages, the power that the assembled admittance matrix draws from the
  bus is the sum of the flows that calculateBranchFlow stores in the lines and transformers at the bus and of
  the powers of its shunts, in the base apparent power.  The transformers have leakage and their reference winding
  at the first terminal, every branch has cached the bus indices of its nodes, and the per-unit base of the
  branches is that of the solver.\<close>

theorem bus_power_balance:
  fixes S0 S :: pfpolar
  assumes "composeAdmittanceMatrix S0 = ok S" "registered S0"
    and ends: "\<forall>c \<in> set (mLines S0 @ mTransformers S0). endsCached S0 c \<and> branchBase S0 c = mBaseApparentPower S0"
    and ref: "\<forall>c \<in> set (mTransformers S0). \<forall>t. pfData S0 c = TrafoComp t
      \<longrightarrow> tr_referenceTerminal t = 0 \<and> \<not> (tr_R t = 0 \<and> tr_L t = 0)"
  shows "\<exists>S'. calculateBranchFlow (S\<lparr>solVcomplex := V\<rparr>) = ok S'
    \<and> (\<forall>k. of_real (mBaseApparentPower S0) * (V k * cnj (\<Sum>j<numNodes S. ent (mY S) k j * V j))
       = (\<Sum>c\<leftarrow>mLines S' @ mTransformers S'. reportedFlow S' k c)
         + of_real (mBaseApparentPower S0) * (\<Sum>c\<leftarrow>mShunts S'. shuntPower V k S' c))"
proof -
  let ?B = "of_real (mBaseApparentPower S0) :: complex" and ?V = "S\<lparr>solVcomplex := V\<rparr>"
  note rows = compose_rows [OF assms(1,2)]
  have reg: "distinct (mLines S @ mTransformers S @ mShunts S)"
    using assms(2) rows(4-6) by (simp add: registered_def)
  have line: "\<exists>n. pfData S c = LineComp n \<and> ln_baseS n = mBaseApparentPower S0 \<and> mrows (ln_Y n) = 2 \<and> mcols (ln_Y n) = 2"
    if c: "c \<in> set (mLines S)" for c
  proof -
    obtain n where n: "pfData S0 c = LineComp n" using c assms(2) rows(4) by (auto simp: registered_def)
    moreover have "branchBase S0 c = mBaseApparentPower S0" using ends c rows(4) by simp
    moreover have "withElement (pfData S0 c) (pfData S c)" using rows(2) c by simp
    ultimately show ?thesis by (auto simp: withElement_def branchBase_def)
  qed
  have trafo: "\<exists>t. pfData S c = TrafoComp t \<and> tr_baseS t = mBaseApparentPower S0 \<and> mrows (tr_Y t) = 2 \<and> mcols (tr_Y t) = 2
      \<and> tr_referenceTerminal t = 0 \<and> \<not> (tr_R t = 0 \<and> tr_L t = 0)" if c: "c \<in> set (mTransformers S)" for c
  proof -
    obtain t where t: "pfData S0 c = TrafoComp t" using c assms(2) rows(5) by (auto simp: registered_def)
    have b: "branchBase S0 c = mBaseApparentPower S0" using ends c rows(5) by simp
    have r: "tr_referenceTerminal t = 0" "\<not> (tr_R t = 0 \<and> tr_L t = 0)"
      using bspec [OF ref c [unfolded rows(5)]] t by simp_all
    have "withElement (pfData S0 c) (pfData S c)" using rows(2) c by simp
    then obtain E where "pfData S c = TrafoComp (t\<lparr>tr_Y := E\<rparr>)" "mrows E = 2" "mcols E = 2"
      unfolding withElement_def t pfcomp.case if_not_P [OF r(2)] by blast
    then show ?thesis using t b r by (simp add: branchBase_def)
  qed
  have bi: "busIndex ?V = busIndex S0" "endIndex ?V = endIndex S0" "endIndex S = endIndex S0"
    using rows(3) by (simp_all add: fun_eq_iff busIndex_def endIndex_def)
  have cached: "endsCached ?V c" if "c \<in> set (mLines S @ mTransformers S)" for c
    using ends that rows(3-5) by (simp add: endsCached_def bi)
  have ready: "\<forall>c \<in> set (mLines ?V @ mTransformers ?V). flowReady ?V c"
  proof
    fix c assume "c \<in> set (mLines ?V @ mTransformers ?V)"
    then have c: "c \<in> set (mLines S @ mTransformers S)" by simp
    then consider "c \<in> set (mLines S)" | "c \<in> set (mTransformers S)" by auto
    then show "flowReady ?V c"
    proof cases
      case 1
      then show ?thesis using line [OF 1] cached [OF c] by (auto simp: flowReady_def)
    next
      case 2
      then show ?thesis using trafo [OF 2] cached [OF c] by (auto simp: flowReady_def)
    qed
  qed
  obtain S' where S': "calculateBranchFlow ?V = ok S'" "heap S' = heap S" "mLines S' = mLines S"
    "mTransformers S' = mTransformers S" "mShunts S' = mShunts S"
    "\<And>c. pfData S' c = (if c \<in> set (mLines S @ mTransformers S) then withFlow ?V c else pfData S c)"
  proof -
    have "distinct (mLines ?V @ mTransformers ?V)" "\<forall>c \<in> set (mLines ?V). \<exists>n. pfData ?V c = LineComp n"
      "\<forall>c \<in> set (mTransformers ?V). \<exists>t. pfData ?V c = TrafoComp t" using reg line trafo by (auto, blast+)
    from branch_flows [OF this(1) ready this(2,3)] obtain S' where "calculateBranchFlow ?V = ok S'"
      "heap S' = heap ?V" "mLines S' = mLines ?V" "mTransformers S' = mTransformers ?V" "mShunts S' = mShunts ?V"
      "\<forall>c. pfData S' c = (if c \<in> set (mLines ?V @ mTransformers ?V) then withFlow ?V c else pfData ?V c)" by blast
    then show thesis by (intro that [of S']) simp_all
  qed
  have flow: "reportedFlow S' k c = ?B * (V k * cnj (compI V k S c))" if c: "c \<in> set (mLines S @ mTransformers S)" for c k
  proof -
    have w: "pfData S' c = withFlow ?V c" using S'(6) c by simp
    from c consider "c \<in> set (mLines S)" | "c \<in> set (mTransformers S)" by auto
    then show ?thesis
    proof cases
      case 1
      then show ?thesis using line [OF 1] reported_line [OF _ _ w S'(2)] by blast
    next
      case 2
      then show ?thesis using trafo [OF 2] reported_trafo [OF _ _ _ _ w S'(2)] by blast
    qed
  qed
  have shunt: "shuntPower V k S' c = V k * cnj (compI V k S c)" if c: "c \<in> set (mShunts S)" for c k
  proof -
    have "withElement (pfData S0 c) (pfData S c)" using rows(2) c by simp
    moreover have "\<exists>h. pfData S0 c = ShuntComp h" using assms(2) c rows(6) by (simp add: registered_def)
    ultimately obtain h where h: "pfData S c = ShuntComp h" by (auto simp: withElement_def)
    have "c \<notin> set (mLines S @ mTransformers S)" using c reg by auto
    then have "pfData S' c = ShuntComp h" using S'(6) h by simp
    moreover have "endIndex S' = endIndex S" using S'(2) by (simp add: fun_eq_iff endIndex_def)
    ultimately show ?thesis using h by (simp add: shuntPower_def compI_def)
  qed
  have scale: "(\<Sum>c\<leftarrow>cs. x * f c) = x * (\<Sum>c\<leftarrow>cs. f c)" for x :: complex and f and cs :: "nat list"
    by (induction cs) (simp_all add: distrib_left)
  have conj: "cnj (sum_list xs) = (\<Sum>x\<leftarrow>xs. cnj x)" for xs by (induction xs) simp_all
  have cong: "(\<Sum>c\<leftarrow>cs. f c) = (\<Sum>c\<leftarrow>cs. g c)" if "\<And>c. c \<in> set cs \<Longrightarrow> f c = g c"
    for f g :: "nat \<Rightarrow> complex" and cs using that by (simp cong: map_cong)
  have "?B * (V k * cnj (\<Sum>j<numNodes S. ent (mY S) k j * V j))
       = (\<Sum>c\<leftarrow>mLines S' @ mTransformers S'. reportedFlow S' k c)
         + ?B * (\<Sum>c\<leftarrow>mShunts S'. shuntPower V k S' c)" for k
  proof -
    have a: "(\<Sum>c\<leftarrow>mLines S @ mTransformers S. reportedFlow S' k c)
        = ?B * (V k * (\<Sum>c\<leftarrow>mLines S @ mTransformers S. cnj (compI V k S c)))"
      unfolding scale [symmetric] by (rule cong) (rule flow)
    have b: "(\<Sum>c\<leftarrow>mShunts S. shuntPower V k S' c) = V k * (\<Sum>c\<leftarrow>mShunts S. cnj (compI V k S c))"
      unfolding scale [symmetric] by (rule cong) (rule shunt)
    have r: "(\<Sum>j<numNodes S. ent (mY S) k j * V j)
        = (\<Sum>c\<leftarrow>mLines S @ mTransformers S. compI V k S c) + (\<Sum>c\<leftarrow>mShunts S. compI V k S c)"
      using rows(1) [of V k] by (simp add: rowI_def add.assoc)
    have m: "cnj (\<Sum>c\<leftarrow>cs. compI V k S c) = (\<Sum>c\<leftarrow>cs. cnj (compI V k S c))" for cs
      by (induction cs) simp_all
    show ?thesis unfolding S'(3-5) a b r complex_cnj_add m by (simp add: algebra_simps)
  qed
  then show ?thesis using S'(1) by blast
qed

text \<open>C35. The flow calculateBranchFlow reports for a transformer with different end buses, against the matrix its own
  stamp makes: with the reference winding at the first terminal it is the power the matrix draws from the
  two buses.  With the reference at the second terminal it is the power of a matrix with the two buses
  exchanged, so the diagonal and the coupling entries are taken from the wrong bus.\<close>

theorem transformer_flow:
  fixes S S1 :: pfpolar and V Y
  defines "V \<equiv> solVcomplex S" and "Y \<equiv> mY S1"
  assumes "pfData S c = TrafoComp t" "\<not> (tr_R t = 0 \<and> tr_L t = 0)" "tr_referenceTerminal t \<le> 1"
    and "endIndex S c 0 = b0" "endIndex S c 1 = b1" "b0 \<noteq> b1" "b0 < n" "b1 < n" "endsCached S c"
    and "stampTrafo c (S\<lparr>mY := mkmat n n (\<lambda>_ _. 0)\<rparr>) = ok S1"
  shows "\<exists>S2 t'. trafoFlow c S1 = ok S2 \<and> pfData S2 c = TrafoComp t'
    \<and> tr_flow t' = (if tr_referenceTerminal t = 0
        then (of_real (tr_baseS t) * (V b0 * cnj (\<Sum>j<n. ent Y b0 j * V j)),
              of_real (tr_baseS t) * (V b1 * cnj (\<Sum>j<n. ent Y b1 j * V j)))
        else (of_real (tr_baseS t) * (V b0 * cnj (ent Y b1 b1 * V b0 + ent Y b1 b0 * V b1)),
              of_real (tr_baseS t) * (V b1 * cnj (ent Y b0 b1 * V b0 + ent Y b0 b0 * V b1))))"
proof -
  obtain i0 i1 E where b: "compMatrixNodeIndex (compAt (heap S) c) 0 0 = ok i0"
    "compMatrixNodeIndex (compAt (heap S) c) 1 0 = ok i1" "trafoElement t = ok E"
    and S1: "S1 = setPf c (TrafoComp (t\<lparr>tr_Y := E\<rparr>)) (S\<lparr>mY :=
      stamp2 (if tr_referenceTerminal t = 0 then i0 else i1) (if nonReferenceTerminal t = 0 then i0 else i1) E (mkmat n n (\<lambda>_ _. 0))\<rparr>)"
    using assms(3,4,12) by (auto simp: stampTrafo_def trafoStamp_def)
  have i: "i0 = b0" "i1 = b1" using b(1,2) assms(6,7) by (simp_all add: endIndex_eq)
  have dim: "mrows E = 2" "mcols E = 2" using element_dims(2) [OF b(3)] by blast+
  have c1: "endsCached S1 c" using assms(11) S1 by (simp add: endsCached_def busIndex_def endIndex_def)
  have V1: "solVcomplex S1 = V" by (simp add: S1 V_def setPf_def)
  have e1: "endIndex S1 c 0 = b0" "endIndex S1 c (Suc 0) = b1" using assms(6,7) by (simp_all add: S1)
  have p1: "pfData S1 c = TrafoComp (t\<lparr>tr_Y := E\<rparr>)" by (simp add: S1)
  have run: "trafoFlow c S1 = ok (setPf c (withFlow S1 c) S1)"
    by (rule branch_step(2) [OF _ refl refl refl p1]) (simp add: flowReady_def c1 p1 dim)
  have flow: "withFlow S1 c = TrafoComp (trafoUpdateBranchFlow (fst (branchFlow E (V b0) (V b1)))
      (snd (branchFlow E (V b0) (V b1))) (t\<lparr>tr_Y := E\<rparr>))"
    by (simp add: withFlow_def p1 e1 V1 Let_def)
  have Y: "Y = stamp2 (if tr_referenceTerminal t = 0 then b0 else b1) (if tr_referenceTerminal t = 0 then b1 else b0) E (mkmat n n (\<lambda>_ _. 0))"
    using assms(5) by (auto simp: Y_def S1 i nonReferenceTerminal_def)
  have z: "rowI (mkmat n n (\<lambda>_ _. 0)) n V k = 0" for k by (simp add: rowI_def)
  have row: "(\<Sum>j<n. ent Y k j * V j) = elementI E V b0 b1 k" if "tr_referenceTerminal t = 0" for k
    using rowI_stamp2 [OF assms(9,10), of E "mkmat n n (\<lambda>_ _. 0)" V k] that z by (simp add: Y rowI_def)
  have ents: "ent Y b1 b1 = ent E 0 0" "ent Y b1 b0 = ent E 0 (Suc 0)" "ent Y b0 b1 = ent E (Suc 0) 0" "ent Y b0 b0 = ent E (Suc 0) (Suc 0)"
    if "tr_referenceTerminal t \<noteq> 0"
    using that assms(8-10) by (simp_all add: Y stamp2_def addY_def)
  show ?thesis
    by (intro exI [of _ "setPf c (withFlow S1 c) S1"]) (use run flow assms(8) row ents in
      \<open>auto simp: trafoUpdateBranchFlow_def branchFlow_def elementI_def Let_def algebra_simps\<close>)
qed


section \<open>Witnesses\<close>

text \<open>A line and a transformer between the buses 1 and 2, and a shunt at bus 1.\<close>

definition demo_primary :: trafo where
  "demo_primary = demo_trafo\<lparr>tr_R := 1, tr_leakage_pu := 1, tr_magnetizing_pu := 0, tr_ratio_pu := 2\<rparr>"

definition demo_shunt :: shunt where
  "demo_shunt = \<lparr>sh_G = 1, sh_B = 2, sh_G_pu = 1, sh_B_pu = 2, sh_baseVoltage = 20\<rparr>"

definition demo_link12 :: comp where
  "demo_link12 = demo_link\<lparr>mMatrixNodeIndices := [1, 0, 0, 2, 0, 0]\<rparr>"

definition demo_buses :: pfpolar where
  "demo_buses = demo_polar\<lparr>pfData := (\<lambda>c. if c = 0 then LineComp (demo_line\<lparr>ln_baseS := 10\<rparr>)
       else if c = 1 then TrafoComp demo_primary else ShuntComp demo_shunt),
     mLines := [0], mTransformers := [1], mShunts := [2], mBaseApparentPower := 10,
     heap := demo_net\<lparr>compAt := \<lambda>_. demo_link12\<rparr>\<rparr>"

lemma demo_link12_facts:
  "compNodeRef demo_link12 0 = ok 1" "compNodeRef demo_link12 (Suc 0) = ok 2"
  "compMatrixNodeIndex demo_link12 0 0 = ok 1" "compMatrixNodeIndex demo_link12 (Suc 0) 0 = ok 2"
  using demo_net_facts(4,5)
  by (simp_all add: demo_link12_def compNodeRef_def compNode_def compMatrixNodeIndex_def vec_at_def)

lemma demo_ends:
  assumes "heap S = demo_net\<lparr>compAt := \<lambda>_. demo_link12\<rparr>"
  shows "endIndex S c 0 = 1" "endIndex S c (Suc 0) = 2" "endsCached S c" "endIndex S c i < 3"
proof -
  show e: "endIndex S c 0 = 1" "endIndex S c (Suc 0) = 2" using assms by (simp_all add: endIndex_def demo_link12_facts)
  show "endsCached S c"
    using e by (simp add: endsCached_def assms demo_link12_facts busIndex_def matrixNodeIndex_def mkSimNode_def
        groundNode_def vec_at_def)
  show "endIndex S c i < 3"
    by (simp add: endIndex_def assms demo_link12_def compMatrixNodeIndex_def vec_at_def nth_Cons split: sum.split nat.split)
qed

theorem bus_power_balance_witness:
  "\<exists>S S'. composeAdmittanceMatrix demo_buses = ok S
     \<and> calculateBranchFlow (S\<lparr>solVcomplex := \<lambda>k. if k = 1 then 1 else \<i>\<rparr>) = ok S'
     \<and> 10 * (1 * cnj (\<Sum>j<numNodes S. ent (mY S) 1 j * (if j = 1 then 1 else \<i>)))
       = (\<Sum>c\<leftarrow>mLines S' @ mTransformers S'. reportedFlow S' 1 c)
         + 10 * (\<Sum>c\<leftarrow>mShunts S'. shuntPower (\<lambda>k. if k = 1 then 1 else \<i>) 1 S' c)"
proof -
  have h: "heap demo_buses = demo_net\<lparr>compAt := \<lambda>_. demo_link12\<rparr>" by (simp add: demo_buses_def)
  note e = demo_ends [OF h]
  have l: "mLines demo_buses = [0]" "mTransformers demo_buses = [1]" "mShunts demo_buses = [2]"
    "pfData demo_buses 0 = LineComp (demo_line\<lparr>ln_baseS := 10\<rparr>)" "pfData demo_buses (Suc 0) = TrafoComp demo_primary"
    "pfData demo_buses 2 = ShuntComp demo_shunt" "mBaseApparentPower demo_buses = 10" "numNodes demo_buses = 3"
    by (simp_all add: demo_buses_def demo_polar_def numNodes_def pfsolver.defs demo_pf_def)
  have t: "tr_R demo_primary = 1" "tr_referenceTerminal demo_primary = 0" "tr_baseS demo_primary = 10"
    by (simp_all add: demo_primary_def demo_trafo_def)
  have reg: "registered demo_buses" unfolding registered_def l using e(4) by (simp add: l t)
  have z: "Complex 0 1 \<noteq> 0" by (simp add: complex_eq_iff)
  have E: "\<exists>E. lineElement (demo_line\<lparr>ln_baseS := 10\<rparr>) = ok E" using z by (simp add: lineElement_def demo_line_def Let_def)
  have F: "\<exists>E. trafoElement demo_primary = ok E" by (simp add: trafoElement_def demo_primary_def Let_def)
  have "composeAdmittanceMatrix demo_buses \<noteq> throw e" for e
    using E F by (auto simp: composeAdmittanceMatrix_def l stampLine_def stampTrafo_def stampShunt_def h lineStamp_def
        trafoStamp_def demo_link12_facts t)
  then obtain S where S: "composeAdmittanceMatrix demo_buses = ok S" by (cases "composeAdmittanceMatrix demo_buses") auto
  have ends: "\<forall>c \<in> set (mLines demo_buses @ mTransformers demo_buses). endsCached demo_buses c
      \<and> branchBase demo_buses c = mBaseApparentPower demo_buses"
    using e(3) by (simp add: l branchBase_def t)
  have ref: "\<forall>c \<in> set (mTransformers demo_buses). \<forall>t. pfData demo_buses c = TrafoComp t
      \<longrightarrow> tr_referenceTerminal t = 0 \<and> \<not> (tr_R t = 0 \<and> tr_L t = 0)"
    by (auto simp: l t)
  let ?V = "\<lambda>k :: nat. if k = 1 then 1 else \<i>"
  obtain S' where S': "calculateBranchFlow (S\<lparr>solVcomplex := ?V\<rparr>) = ok S'"
    "of_real 10 * (?V 1 * cnj (\<Sum>j<numNodes S. ent (mY S) 1 j * ?V j))
       = (\<Sum>c\<leftarrow>mLines S' @ mTransformers S'. reportedFlow S' 1 c)
         + of_real 10 * (\<Sum>c\<leftarrow>mShunts S'. shuntPower ?V 1 S' c)"
    using bus_power_balance [OF S reg ends ref, of ?V] unfolding l(7) by blast
  show ?thesis using S S' by (intro exI [of _ S] exI [of _ S']) simp
qed

text \<open>The transformer with its reference at the second terminal: with both voltages one, the code reports a
  flow of -10 at its first terminal, while the transformer takes a power of 20 from that bus.\<close>

definition demo_secondary :: trafo where
  "demo_secondary = demo_primary\<lparr>tr_referenceTerminal := 1\<rparr>"

definition demo_flow :: pfpolar where
  "demo_flow = demo_buses\<lparr>pfData := \<lambda>_. TrafoComp demo_secondary, solVcomplex := \<lambda>_. 1\<rparr>"

theorem transformer_flow_witness:
  "\<exists>S1 S2 t'. stampTrafo 1 (demo_flow\<lparr>mY := mkmat 3 3 (\<lambda>_ _. 0)\<rparr>) = ok S1 \<and> trafoFlow 1 S1 = ok S2
     \<and> pfData S2 1 = TrafoComp t' \<and> fst (tr_flow t') = - 10
     \<and> 10 * (1 * cnj (\<Sum>j<3. ent (mY S1) 1 j * 1)) = 20"
proof -
  have p: "pfData demo_flow 1 = TrafoComp demo_secondary" "solVcomplex demo_flow = (\<lambda>_. 1)"
    "heap demo_flow = demo_net\<lparr>compAt := \<lambda>_. demo_link12\<rparr>" by (simp_all add: demo_flow_def demo_buses_def)
  note e = demo_ends [OF p(3), of 1]
  have t: "\<not> (tr_R demo_secondary = 0 \<and> tr_L demo_secondary = 0)" "tr_referenceTerminal demo_secondary = 1"
    "tr_baseS demo_secondary = 10" "trafoElement demo_secondary = ok (mat22 1 (- 2) (- 2) 4)" "tr_R demo_secondary = 1"
    by (simp_all add: demo_secondary_def demo_primary_def demo_trafo_def trafoElement_def Let_def)
  let ?S1 = "setPf 1 (TrafoComp (demo_secondary\<lparr>tr_Y := mat22 1 (- 2) (- 2) 4\<rparr>))
    (demo_flow\<lparr>mY := stamp2 2 1 (mat22 1 (- 2) (- 2) 4) (mkmat 3 3 (\<lambda>_ _. 0))\<rparr>)"
  have S1: "stampTrafo 1 (demo_flow\<lparr>mY := mkmat 3 3 (\<lambda>_ _. 0)\<rparr>) = ok ?S1"
    by (simp add: stampTrafo_def p(1) [simplified] p(3) t(2,4,5) trafoStamp_def demo_link12_facts nonReferenceTerminal_def)
  have Y: "mY ?S1 = stamp2 2 1 (mat22 1 (- 2) (- 2) 4) (mkmat 3 3 (\<lambda>_ _. 0))" by simp
  obtain S2 t' where r: "trafoFlow 1 ?S1 = ok S2" "pfData S2 1 = TrafoComp t'"
    "fst (tr_flow t') = of_real 10 * (1 * cnj (ent (mY ?S1) 2 2 * 1 + ent (mY ?S1) 2 1 * 1))"
    using transformer_flow [OF p(1) t(1) _ e(1) e(2) [folded One_nat_def] _ _ _ e(3) S1] by (auto simp: t(2,3) p(2))
  have ents: "ent (mY ?S1) 2 2 = 1" "ent (mY ?S1) 2 1 = - 2" "ent (mY ?S1) 1 0 = 0" "ent (mY ?S1) 1 1 = 4" "ent (mY ?S1) 1 2 = - 2"
    by (simp_all add: Y stamp2_def addY_def)
  have "(\<Sum>j<3. ent (mY ?S1) 1 j * 1) = 2"
    by (simp add: Y stamp2_def addY_def eval_nat_numeral)
  moreover have "fst (tr_flow t') = - 10" using r(3) unfolding ents by simp
  ultimately show ?thesis using S1 r(1,2) by (intro exI [of _ ?S1] exI [of _ S2] exI [of _ t']) simp
qed


end
