(* ===== verification/Events.thy ===== *)
theory Events
  imports DPsim_Prelude
begin

text \<open>dpsim/src/Event.cpp and dpsim/include/dpsim/Event.h: events, and the event queue of a
  simulation.  An event is its time and its virtual method \<open>execute\<close>, a function on the world of the
  simulation.  The queue is a \<open>std::priority_queue\<close> ordered by \<open>EventComparator\<close>; which of several
  events of the same time it returns first is not fixed, so the queue is an interface, the locale
  \<open>event_queue\<close>, and the theorems hold for every queue that keeps its laws.\<close>

section \<open>Events\<close>

record 'w event =
  mTime :: real
  execute :: "'w \<Rightarrow> 'w"

definition eventComparator :: "'w event \<Rightarrow> 'w event \<Rightarrow> bool" where
  "eventComparator l r \<longleftrightarrow> mTime l > mTime r"

text \<open>An event that sets an attribute to a value, and one that switches.  \<open>setter\<close> is the \<open>set\<close> of
  the attribute, \<open>close\<close> and \<open>open\<close> the methods of the switch.\<close>

definition AttributeEvent :: "real \<Rightarrow> ('a \<Rightarrow> 'w \<Rightarrow> 'w) \<Rightarrow> 'a \<Rightarrow> 'w event" where
  "AttributeEvent t setter v = \<lparr>mTime = t, execute = setter v\<rparr>"

definition SwitchEvent :: "real \<Rightarrow> ('w \<Rightarrow> 'w) \<Rightarrow> ('w \<Rightarrow> 'w) \<Rightarrow> bool \<Rightarrow> 'w event" where
  "SwitchEvent t closeIt openIt state = \<lparr>mTime = t, execute = (\<lambda>w. if state then closeIt w else openIt w)\<rparr>"

definition SwitchEvent3Ph :: "real \<Rightarrow> ('w \<Rightarrow> 'w) \<Rightarrow> ('w \<Rightarrow> 'w) \<Rightarrow> bool \<Rightarrow> 'w event" where
  "SwitchEvent3Ph t closeIt openIt state = \<lparr>mTime = t, execute = (\<lambda>w. if state then closeIt w else openIt w)\<rparr>"

section \<open>The queue\<close>

record ('w, 'q) priority_queue =
  qPush :: "'w event \<Rightarrow> 'q \<Rightarrow> 'q"
  qTop :: "'q \<Rightarrow> 'w event"
  qPop :: "'q \<Rightarrow> 'q"
  qEmpty :: "'q \<Rightarrow> bool"

definition addEvent :: "('w, 'q) priority_queue \<Rightarrow> 'w event \<Rightarrow> 'q \<Rightarrow> 'q" where
  "addEvent Q e q = qPush Q e q"

definition due :: "real \<Rightarrow> 'w event \<Rightarrow> bool" where
  "due currentTime e \<longleftrightarrow> currentTime > mTime e \<or> mTime e - currentTime < 100 / 10 ^ 9"

text \<open>The loop of \<open>handleEvents\<close>; \<open>None\<close> is a loop that does not end.\<close>

partial_function (option) handleEvents ::
  "('w, 'q) priority_queue \<Rightarrow> real \<Rightarrow> 'q \<Rightarrow> 'w \<Rightarrow> ('q \<times> 'w) option" where
  "handleEvents Q currentTime q w =
     (if qEmpty Q q then Some (q, w)
      else let e = qTop Q q in
        if due currentTime e then handleEvents Q currentTime (qPop Q q) (execute e w)
        else Some (q, w))"

lemma due_iff: "due t e \<longleftrightarrow> mTime e < t + 1 / 10 ^ 7"
  by (auto simp: due_def)

section \<open>The contract of the queue\<close>

locale event_queue =
  fixes Q :: "('w, 'q) priority_queue" and elems :: "'q \<Rightarrow> 'w event multiset" and inv :: "'q \<Rightarrow> bool"
  assumes empty: "inv q \<Longrightarrow> qEmpty Q q \<longleftrightarrow> elems q = {#}"
    and push: "inv q \<Longrightarrow> elems (qPush Q e q) = add_mset e (elems q)" "inv q \<Longrightarrow> inv (qPush Q e q)"
    and top: "inv q \<Longrightarrow> elems q \<noteq> {#} \<Longrightarrow> qTop Q q \<in># elems q"
      "inv q \<Longrightarrow> e \<in># elems q \<Longrightarrow> \<not> eventComparator (qTop Q q) e"
    and pop: "inv q \<Longrightarrow> elems q \<noteq> {#} \<Longrightarrow> elems (qPop Q q) = elems q - {#qTop Q q#}"
      "inv q \<Longrightarrow> elems q \<noteq> {#} \<Longrightarrow> inv (qPop Q q)"
begin

lemma handleEvents_spec:
  assumes "inv q"
  shows "\<exists>q' es. handleEvents Q t q w = Some (q', fold execute es w) \<and> inv q'
    \<and> sorted (map mTime es) \<and> mset es = filter_mset (due t) (elems q)
    \<and> elems q' = filter_mset (\<lambda>e. \<not> due t e) (elems q)"
  using assms
proof (induction "size (elems q)" arbitrary: q w)
  case 0
  then have "elems q = {#}" "qEmpty Q q" using empty by auto
  then show ?case using 0 by (subst handleEvents.simps) (auto intro!: exI [of _ "[]"])
next
  case (Suc n)
  then have ne: "elems q \<noteq> {#}" "\<not> qEmpty Q q" using empty [OF Suc.prems] by auto
  let ?e = "qTop Q q"
  have e: "?e \<in># elems q" using top(1) [OF Suc.prems ne(1)] .
  have min: "mTime ?e \<le> mTime x" if "x \<in># elems q" for x
    using top(2) [OF Suc.prems that] by (simp add: eventComparator_def)
  show ?case
  proof (cases "due t ?e")
    case True
    have q': "elems q = add_mset ?e (elems (qPop Q q))" "inv (qPop Q q)"
      using pop [OF Suc.prems ne(1)] e by simp_all
    then have "n = size (elems (qPop Q q))" using Suc.hyps(2) by (metis size_add_mset Suc_inject)
    from Suc.hyps(1) [OF this q'(2), of "execute ?e w"] obtain q2 es where *:
      "handleEvents Q t (qPop Q q) (execute ?e w) = Some (q2, fold execute es (execute ?e w))" "inv q2"
      "sorted (map mTime es)" "mset es = filter_mset (due t) (elems (qPop Q q))"
      "elems q2 = filter_mset (\<lambda>e. \<not> due t e) (elems (qPop Q q))" by blast
    have "x \<in># elems q" if "x \<in> set es" for x
    proof -
      have "x \<in># mset es" using that by simp
      then have "x \<in># elems (qPop Q q)" unfolding *(4) by simp
      then show ?thesis using q'(1) by simp
    qed
    then have "\<forall>x\<in>set es. mTime ?e \<le> mTime x" using min by blast
    then show ?thesis using * True ne(2) q'(1)
      by (subst handleEvents.simps) (auto intro!: exI [of _ "?e # es"] simp: Let_def)
  next
    case False
    then have "\<not> due t x" if "x \<in># elems q" for x using min [OF that] by (auto simp: due_iff)
    then have "filter_mset (due t) (elems q) = {#}" "filter_mset (\<lambda>e. \<not> due t e) (elems q) = elems q"
      by (auto simp: filter_mset_eq_conv)
    then show ?thesis using False ne(2) Suc.prems
      by (subst handleEvents.simps) (auto intro!: exI [of _ "[]"] simp: Let_def)
  qed
qed

lemma addEvents:
  assumes "inv q"
  shows "inv (fold (addEvent Q) es q)" "elems (fold (addEvent Q) es q) = elems q + mset es"
  using assms by (induction es arbitrary: q) (simp_all add: addEvent_def push)

end

section \<open>A queue\<close>

text \<open>A list sorted by time is such a queue; a new event goes behind the events of its time.\<close>

primrec insertEvent :: "'w event \<Rightarrow> 'w event list \<Rightarrow> 'w event list" where
  "insertEvent e [] = [e]"
| "insertEvent e (x # xs) = (if eventComparator x e then e # x # xs else x # insertEvent e xs)"

definition sortedQueue :: "('w, 'w event list) priority_queue" where
  "sortedQueue = \<lparr>qPush = insertEvent, qTop = hd, qPop = tl, qEmpty = (\<lambda>q. q = [])\<rparr>"

lemma mset_insertEvent [simp]: "mset (insertEvent e q) = add_mset e (mset q)"
  by (induction q) auto

lemma set_insertEvent [simp]: "set (insertEvent e q) = insert e (set q)"
  by (induction q) auto

lemma sorted_insertEvent: "sorted (map mTime q) \<Longrightarrow> sorted (map mTime (insertEvent e q))"
  by (induction q) (auto simp: eventComparator_def)

interpretation sorted_queue: event_queue sortedQueue mset "\<lambda>q. sorted (map mTime q)"
proof unfold_locales
  fix q :: "'a event list" and e
  assume s: "sorted (map mTime q)"
  show "e \<in># mset q \<Longrightarrow> \<not> eventComparator (qTop sortedQueue q) e"
    using s by (cases q) (auto simp: sortedQueue_def eventComparator_def)
  assume "mset q \<noteq> {#}"
  then show "qTop sortedQueue q \<in># mset q" "mset (qPop sortedQueue q) = mset q - {#qTop sortedQueue q#}"
    "sorted (map mTime (qPop sortedQueue q))"
    using s by (cases q; simp add: sortedQueue_def)+
qed (auto simp: sortedQueue_def sorted_insertEvent)

end
