(* ===== verification/SimulationRun.thy ===== *)
theory SimulationRun
  imports Events
begin

text \<open>dpsim/src/Simulation.cpp and dpsim/include/dpsim/Simulation.h: starting, stepping and running
  a simulation.  The world \<open>'w\<close> is all that the events and tasks change; the \<open>step\<close> of the scheduler
  is a function on it that may fail or not return.  Logging, interfaces and time measurements are
  left out.\<close>

section \<open>The simulation\<close>

datatype solver_type = MNA | DAE | NRP

record ('w, 'q) simulation =
  simTime :: real
  mTimeStepCount :: int
  mFinalTime :: real
  mSimTimeStep :: real
  mEvents :: 'q
  simWorld :: 'w
  mInitialized :: bool
  mSolverType :: solver_type

definition DOUBLE_EPSILON :: real where "DOUBLE_EPSILON = 1 / 10 ^ 12"

definition newSimulation :: "real \<Rightarrow> real \<Rightarrow> solver_type \<Rightarrow> 'q \<Rightarrow> 'w \<Rightarrow> ('w, 'q) simulation" where
  "newSimulation finalTime timeStep ty q w = \<lparr>simTime = 0, mTimeStepCount = 0, mFinalTime = finalTime,
     mSimTimeStep = timeStep, mEvents = q, simWorld = w, mInitialized = False, mSolverType = ty\<rparr>"

definition setTimeStep :: "real \<Rightarrow> ('w, 'q) simulation \<Rightarrow> ('w, 'q) simulation" where
  "setTimeStep dt S = S\<lparr>mSimTimeStep := dt\<rparr>"

definition setFinalTime :: "real \<Rightarrow> ('w, 'q) simulation \<Rightarrow> ('w, 'q) simulation" where
  "setFinalTime T S = S\<lparr>mFinalTime := T\<rparr>"

definition simAddEvent ::
  "('w, 'q) priority_queue \<Rightarrow> 'w event \<Rightarrow> ('w, 'q) simulation \<Rightarrow> ('w, 'q) simulation" where
  "simAddEvent Q e S = S\<lparr>mEvents := addEvent Q e (mEvents S)\<rparr>"

text \<open>\<open>create\<close> is \<open>createSolvers\<close> followed by \<open>schedule\<close>.\<close>

definition simInitialize :: "('w \<Rightarrow> error + 'w) \<Rightarrow> ('w, 'q) simulation \<Rightarrow> error + ('w, 'q) simulation" where
  "simInitialize create S = (if mInitialized S then ok S
     else bind_err (create (simWorld S)) (\<lambda>w.
       ok (S\<lparr>simWorld := w, simTime := 0, mTimeStepCount := 0, mInitialized := True\<rparr>)))"

definition simStart :: "('w \<Rightarrow> error + 'w) \<Rightarrow> ('w, 'q) simulation \<Rightarrow> error + ('w, 'q) simulation" where
  "simStart create S = bind_err (simInitialize create S) (\<lambda>S1.
     ok (if mSolverType S1 \<noteq> NRP then S1\<lparr>simTime := simTime S1 + mSimTimeStep S1\<rparr> else S1))"

type_synonym 'w sched_step = "real \<Rightarrow> int \<Rightarrow> 'w \<Rightarrow> (error + 'w) option"

text \<open>The step counter is an \<open>int\<close> of 32 bits; counting past its largest value is undefined.\<close>

definition simStep :: "('w, 'q) priority_queue \<Rightarrow> 'w sched_step \<Rightarrow> ('w, 'q) simulation
    \<Rightarrow> (error + ('w, 'q) simulation) option" where
  "simStep Q sched S = (case handleEvents Q (simTime S) (mEvents S) (simWorld S) of None \<Rightarrow> None
     | Some (q, w) \<Rightarrow> (case sched (simTime S) (mTimeStepCount S) w of None \<Rightarrow> None
       | Some (Inl e) \<Rightarrow> Some (throw e)
       | Some (Inr w') \<Rightarrow> Some (if mTimeStepCount S + 1 < 2 ^ 31
           then ok (S\<lparr>mEvents := q, simWorld := w', simTime := simTime S + mSimTimeStep S,
                      mTimeStepCount := mTimeStepCount S + 1\<rparr>)
           else throw UndefinedBehaviour)))"

definition running :: "('w, 'q) simulation \<Rightarrow> bool" where
  "running S \<longleftrightarrow> simTime S < mFinalTime S + DOUBLE_EPSILON"

definition simNext :: "('w, 'q) priority_queue \<Rightarrow> 'w sched_step \<Rightarrow> ('w, 'q) simulation
    \<Rightarrow> (error + ('w, 'q) simulation) option" where
  "simNext Q sched S = (if running S then simStep Q sched S else Some (ok S))"

partial_function (option) simLoop :: "('w, 'q) priority_queue \<Rightarrow> 'w sched_step \<Rightarrow> ('w, 'q) simulation
    \<Rightarrow> (error + ('w, 'q) simulation) option" where
  "simLoop Q sched S = (if running S
     then Option.bind (simStep Q sched S) (\<lambda>r. case r of Inl e \<Rightarrow> Some (throw e) | Inr S' \<Rightarrow> simLoop Q sched S')
     else Some (ok S))"

definition simRun :: "('w, 'q) priority_queue \<Rightarrow> ('w \<Rightarrow> error + 'w) \<Rightarrow> 'w sched_step \<Rightarrow> ('w, 'q) simulation
    \<Rightarrow> (error + ('w, 'q) simulation) option" where
  "simRun Q create sched S = (case simStart create S of Inl e \<Rightarrow> Some (throw e) | Inr S1 \<Rightarrow> simLoop Q sched S1)"

section \<open>The steps of a run\<close>

lemma due_mono: "due t e \<Longrightarrow> t \<le> t' \<Longrightarrow> due t' e"
  by (simp add: due_iff)

text \<open>How often the loop runs: the multiples of the time step below the final time.\<close>

definition stepsLeft :: "('w, 'q) simulation \<Rightarrow> nat" where
  "stepsLeft S = nat \<lceil>(mFinalTime S + DOUBLE_EPSILON - simTime S) / mSimTimeStep S\<rceil>"

lemma stepsLeft_0: "mSimTimeStep S > 0 \<Longrightarrow> stepsLeft S = 0 \<longleftrightarrow> \<not> running S"
  by (auto simp: stepsLeft_def running_def divide_le_0_iff ceiling_le_zero not_less)

lemma stepsLeft_Suc:
  assumes "mSimTimeStep S > 0" "running S" "S' = S\<lparr>mEvents := q, simWorld := w, simTime := simTime S + mSimTimeStep S,
     mTimeStepCount := c\<rparr>"
  shows "stepsLeft S = Suc (stepsLeft S')"
proof -
  let ?x = "(mFinalTime S + DOUBLE_EPSILON - simTime S) / mSimTimeStep S"
  have "?x > 0" using assms(1,2) by (simp add: running_def)
  then have pos: "0 < \<lceil>?x\<rceil>" by simp
  have "(mFinalTime S' + DOUBLE_EPSILON - simTime S') / mSimTimeStep S' = ?x - 1"
    using assms(1) by (simp add: assms(3) field_simps)
  then have *: "stepsLeft S' = nat (\<lceil>?x\<rceil> - 1)" by (simp add: stepsLeft_def ceiling_diff_one)
  have "nat c = Suc (nat (c - 1))" if "0 < c" for c :: int using that by arith
  then show ?thesis unfolding * unfolding stepsLeft_def using pos by blast
qed

text \<open>Step \<open>k\<close> of a run from \<open>S\<close>: the events \<open>es\<close> it handles, the world \<open>w\<close> before and \<open>w'\<close> after it.\<close>

definition dueAt :: "real \<Rightarrow> real \<Rightarrow> nat \<Rightarrow> 'w event \<Rightarrow> bool" where
  "dueAt t0 dt k e \<longleftrightarrow> due (t0 + real k * dt) e \<and> (k = 0 \<or> \<not> due (t0 + real (k - 1) * dt) e)"

definition runStep :: "'w sched_step \<Rightarrow> ('w, 'q) simulation \<Rightarrow> 'w event multiset \<Rightarrow> nat
    \<Rightarrow> 'w event list \<Rightarrow> 'w \<Rightarrow> 'w \<Rightarrow> bool" where
  "runStep sched S M k es w w' \<longleftrightarrow> sorted (map mTime es)
     \<and> mset es = filter_mset (dueAt (simTime S) (mSimTimeStep S) k) M
     \<and> sched (simTime S + real k * mSimTimeStep S) (mTimeStepCount S + int k) (fold execute es w) = Some (ok w')"

lemma dueAt_0: "dueAt t0 dt 0 = due t0"
  by (auto simp: dueAt_def fun_eq_iff)

lemma dueAt_Suc:
  fixes M :: "'w event multiset"
  assumes "dt > 0"
  shows "filter_mset (dueAt t0 dt (Suc k)) M = filter_mset (dueAt (t0 + dt) dt k) (filter_mset (\<lambda>e. \<not> due t0 e) M)"
proof -
  have "dueAt t0 dt (Suc k) e \<longleftrightarrow> dueAt (t0 + dt) dt k e \<and> \<not> due t0 e" for e :: "'w event"
  proof (cases k)
    case (Suc j)
    have "due t0 e \<Longrightarrow> due (t0 + real k * dt) e" using assms by (elim due_mono) simp
    then show ?thesis by (auto simp: dueAt_def Suc algebra_simps)
  qed (auto simp: dueAt_def)
  then have "dueAt t0 dt (Suc k) = (\<lambda>e :: 'w event. \<not> due t0 e \<and> dueAt (t0 + dt) dt k e)" by (intro ext) blast
  then show ?thesis by (simp add: filter_filter_mset)
qed

lemma fold_execute_inv:
  "P w \<Longrightarrow> \<forall>e\<in>set es. \<forall>w. P w \<longrightarrow> P (execute e w) \<Longrightarrow> P (fold execute es w)"
  by (induction es arbitrary: w) auto

context event_queue begin

lemma simStep_spec:
  assumes "inv (mEvents S)" "P (simWorld S)" "\<forall>e\<in>#elems (mEvents S). \<forall>w. P w \<longrightarrow> P (execute e w)"
    and "\<forall>t c w. P w \<longrightarrow> (\<exists>w'. sched t c w = Some (ok w') \<and> P w')" "mTimeStepCount S + 1 < 2 ^ 31"
  shows "\<exists>q es w'. simStep Q sched S = Some (ok (S\<lparr>mEvents := q, simWorld := w', simTime := simTime S + mSimTimeStep S,
        mTimeStepCount := mTimeStepCount S + 1\<rparr>))
    \<and> inv q \<and> P w' \<and> elems q = filter_mset (\<lambda>e. \<not> due (simTime S) e) (elems (mEvents S))
    \<and> runStep sched S (elems (mEvents S)) 0 es (simWorld S) w'"
proof -
  obtain q es where q: "handleEvents Q (simTime S) (mEvents S) (simWorld S) = Some (q, fold execute es (simWorld S))"
    "inv q" "sorted (map mTime es)" "mset es = filter_mset (due (simTime S)) (elems (mEvents S))"
    "elems q = filter_mset (\<lambda>e. \<not> due (simTime S) e) (elems (mEvents S))"
    using handleEvents_spec [OF assms(1), of "simTime S" "simWorld S"] by blast
  have "e \<in># elems (mEvents S)" if "e \<in> set es" for e
  proof -
    have "e \<in># mset es" using that by simp
    then show ?thesis unfolding q(4) by simp
  qed
  then have "\<forall>e\<in>set es. \<forall>w. P w \<longrightarrow> P (execute e w)" using assms(3) by blast
  then have "P (fold execute es (simWorld S))" by (rule fold_execute_inv [of P, OF assms(2)])
  then obtain w' where w': "sched (simTime S) (mTimeStepCount S) (fold execute es (simWorld S)) = Some (ok w')" "P w'"
    using assms(4) by blast
  have "simStep Q sched S = Some (ok (S\<lparr>mEvents := q, simWorld := w', simTime := simTime S + mSimTimeStep S,
      mTimeStepCount := mTimeStepCount S + 1\<rparr>))"
    unfolding simStep_def q(1) option.case prod.case w'(1) sum.case if_P [OF assms(5)] ..
  moreover have "runStep sched S (elems (mEvents S)) 0 es (simWorld S) w'"
    using q(3,4) w'(1) by (simp add: runStep_def dueAt_0)
  ultimately show ?thesis using q(2,5) w'(2) by blast
qed

lemma simLoop_spec:
  assumes "inv (mEvents S)" "P (simWorld S)" "\<forall>e\<in>#elems (mEvents S). \<forall>w. P w \<longrightarrow> P (execute e w)"
    and "\<forall>t c w. P w \<longrightarrow> (\<exists>w'. sched t c w = Some (ok w') \<and> P w')"
    and "mSimTimeStep S > 0" "mTimeStepCount S + int (stepsLeft S) < 2 ^ 31"
  shows "\<exists>S' ess ws. simLoop Q sched S = Some (ok S') \<and> \<not> running S'
    \<and> length ess = stepsLeft S \<and> length ws = stepsLeft S
    \<and> (\<forall>k < stepsLeft S. runStep sched S (elems (mEvents S)) k (ess ! k) ((simWorld S # ws) ! k) (ws ! k) \<and> P (ws ! k))
    \<and> simWorld S' = last (simWorld S # ws) \<and> simTime S' = simTime S + real (stepsLeft S) * mSimTimeStep S
    \<and> mTimeStepCount S' = mTimeStepCount S + int (stepsLeft S)"
  using assms
proof (induction "stepsLeft S" arbitrary: S)
  case 0
  then show ?case using stepsLeft_0 [of S] by (subst simLoop.simps) simp
next
  case (Suc n)
  have run: "running S" using Suc.hyps(2) Suc.prems(5) stepsLeft_0 [of S] by simp
  have c: "mTimeStepCount S + 1 < 2 ^ 31" using Suc.prems(6) Suc.hyps(2) by linarith
  obtain q es w' where q: "inv q" "P w'" "elems q = filter_mset (\<lambda>e. \<not> due (simTime S) e) (elems (mEvents S))"
    "runStep sched S (elems (mEvents S)) 0 es (simWorld S) w'"
    "simStep Q sched S = Some (ok (S\<lparr>mEvents := q, simWorld := w', simTime := simTime S + mSimTimeStep S,
        mTimeStepCount := mTimeStepCount S + 1\<rparr>))"
    using simStep_spec [OF Suc.prems(1-4) c] by blast
  let ?S = "S\<lparr>mEvents := q, simWorld := w', simTime := simTime S + mSimTimeStep S, mTimeStepCount := mTimeStepCount S + 1\<rparr>"
  have n: "stepsLeft S = Suc (stepsLeft ?S)" by (rule stepsLeft_Suc [OF Suc.prems(5) run refl])
  then have n': "n = stepsLeft ?S" using Suc.hyps(2) by linarith
  have "\<exists>S' ess ws. simLoop Q sched ?S = Some (ok S') \<and> \<not> running S'
    \<and> length ess = stepsLeft ?S \<and> length ws = stepsLeft ?S
    \<and> (\<forall>k < stepsLeft ?S. runStep sched ?S (elems (mEvents ?S)) k (ess ! k) ((simWorld ?S # ws) ! k) (ws ! k) \<and> P (ws ! k))
    \<and> simWorld S' = last (simWorld ?S # ws) \<and> simTime S' = simTime ?S + real (stepsLeft ?S) * mSimTimeStep ?S
    \<and> mTimeStepCount S' = mTimeStepCount ?S + int (stepsLeft ?S)"
  proof (rule Suc.hyps(1) [OF n'])
    show "mTimeStepCount ?S + int (stepsLeft ?S) < 2 ^ 31" using Suc.prems(6) n by simp
  qed (use q Suc.prems(3-5) in simp_all)
  then obtain S' ess ws where S': "simLoop Q sched ?S = Some (ok S')" "\<not> running S'"
    "length ess = stepsLeft ?S" "length ws = stepsLeft ?S"
    "\<forall>k < stepsLeft ?S. runStep sched ?S (elems q) k (ess ! k) ((w' # ws) ! k) (ws ! k) \<and> P (ws ! k)"
    "simWorld S' = last (w' # ws)" "simTime S' = simTime S + mSimTimeStep S + real (stepsLeft ?S) * mSimTimeStep S"
    "mTimeStepCount S' = mTimeStepCount S + 1 + int (stepsLeft ?S)"
    by auto
  have "runStep sched S (elems (mEvents S)) (Suc k) es2 w1 w2" if "runStep sched ?S (elems q) k es2 w1 w2" for k es2 w1 w2
    using that unfolding runStep_def dueAt_Suc [OF Suc.prems(5)] q(3) by (simp add: algebra_simps)
  then have "runStep sched S (elems (mEvents S)) k ((es # ess) ! k) ((simWorld S # w' # ws) ! k) ((w' # ws) ! k) \<and> P ((w' # ws) ! k)"
    if "k < stepsLeft S" for k
    using that S'(5) q(2,4) n by (cases k) auto
  moreover have "simLoop Q sched S = Some (ok S')" using run q(5) S'(1) by (subst simLoop.simps) simp
  ultimately show ?case using S' n
    by (intro exI [of _ S'] exI [of _ "es # ess"] exI [of _ "w' # ws"]) (simp add: algebra_simps)
qed

end

text \<open>With a time step that is not positive the time never reaches the final time.\<close>

lemma simStep_time:
  "simStep Q sched S = Some (Inr S') \<Longrightarrow> simTime S' = simTime S + mSimTimeStep S \<and> mSimTimeStep S' = mSimTimeStep S
     \<and> mFinalTime S' = mFinalTime S"
  by (auto simp: simStep_def split: option.splits sum.splits if_splits)

lemma simLoop_stuck:
  assumes "simLoop Q sched S = Some r" "mSimTimeStep S \<le> 0" "running S"
  shows "\<exists>e. r = throw e"
proof -
  have "mSimTimeStep S \<le> 0 \<longrightarrow> running S \<longrightarrow> (\<exists>e. r = throw e)"
  proof (induction rule: simLoop.raw_induct)
    case (1 f Q sched S r)
    show ?case
    proof (intro impI)
      assume dt: "mSimTimeStep S \<le> 0" and run: "running S"
      then obtain s where s: "simStep Q sched S = Some s"
        "(case s of Inl e \<Rightarrow> Some (throw e) | Inr S' \<Rightarrow> f Q sched S') = Some r"
        using 1(2) by (cases "simStep Q sched S") simp_all
      show "\<exists>e. r = throw e"
      proof (cases s)
        case (Inr S')
        then have "mSimTimeStep S' \<le> 0" "running S'"
          using simStep_time [OF s(1) [unfolded Inr]] dt run by (simp_all add: running_def)
        moreover have "f Q sched S' = Some r" using s(2) Inr by simp
        ultimately show ?thesis using 1(1) by blast
      qed (use s(2) in auto)
    qed
  qed (rule assms(1))
  then show ?thesis using assms(2,3) by blast
qed

lemma start_new:
  assumes "create w = ok w1"
  shows "simStart create (newSimulation T dt ty q w) = ok ((newSimulation T dt ty q w)\<lparr>simWorld := w1,
    simTime := (if ty \<noteq> NRP then dt else 0), mInitialized := True\<rparr>)"
  using assms by (simp add: simStart_def simInitialize_def newSimulation_def)

lemma simulation_loop:
  assumes "event_queue Q elems legal" "legal q" "create w = ok w1" "dt > 0"
    and "P w1" "\<forall>e\<in>#elems q. \<forall>w. P w \<longrightarrow> P (execute e w)"
    and "\<forall>t c w. P w \<longrightarrow> (\<exists>w'. sched t c w = Some (ok w') \<and> P w')"
    and S1: "S1 = (newSimulation T dt ty q w)\<lparr>simWorld := w1, simTime := (if ty \<noteq> NRP then dt else 0), mInitialized := True\<rparr>"
    and N: "N = nat \<lceil>(T + DOUBLE_EPSILON - simTime S1) / dt\<rceil>" "int N < 2 ^ 31"
  shows "\<exists>S' ess ws. simRun Q create sched (newSimulation T dt ty q w) = Some (ok S')
    \<and> length ess = N \<and> length ws = N
    \<and> (\<forall>k < N. runStep sched S1 (elems q) k (ess ! k) ((w1 # ws) ! k) (ws ! k) \<and> P (ws ! k))
    \<and> simWorld S' = last (w1 # ws) \<and> simTime S' = simTime S1 + real N * dt \<and> mTimeStepCount S' = int N"
proof -
  have f: "mEvents S1 = q" "simWorld S1 = w1" "mSimTimeStep S1 = dt" "mTimeStepCount S1 = 0" "mFinalTime S1 = T"
    by (simp_all add: S1 newSimulation_def)
  have n: "stepsLeft S1 = N" by (simp add: stepsLeft_def f N(1))
  have "simRun Q create sched (newSimulation T dt ty q w) = simLoop Q sched S1"
    by (simp add: simRun_def start_new [where create = create and w = w, OF assms(3)] S1)
  then show ?thesis
    using event_queue.simLoop_spec [OF assms(1), of S1 P sched, unfolded f n, OF assms(2,5-7,4)] N(2)
    by (auto simp del: last.simps)
qed

section \<open>The theorems\<close>

text \<open>C9. A run of a simulation with a positive time step returns: it makes as many steps as there are times
  \<open>t0 + k * dt\<close> below the final time (plus the tolerance), where \<open>t0\<close> is the first time step, or \<open>0\<close> for a power
  flow.  Step \<open>k\<close> first executes, in the order of their times, the events that became due since the step before,
  each exactly once, and then calls the scheduler with the time of the step and the number of the step.
  This holds for every queue that keeps its contract, and for all events and schedulers that keep
  an invariant \<open>P\<close> of the world and never fail on it, as long as there are fewer than \<open>2 ^ 31\<close> steps
  (the counter is a 32-bit integer).\<close>

theorem simulation_run:
  assumes "event_queue Q elems legal" "legal q" "create w = ok w1" "dt > 0"
    and "P w1" "\<forall>e\<in>#elems q. \<forall>w. P w \<longrightarrow> P (execute e w)"
    and "\<forall>t c w. P w \<longrightarrow> (\<exists>w'. sched t c w = Some (ok w') \<and> P w')"
    and S1: "S1 = (newSimulation T dt ty q w)\<lparr>simWorld := w1, simTime := (if ty \<noteq> NRP then dt else 0), mInitialized := True\<rparr>"
    and N: "N = nat \<lceil>(T + DOUBLE_EPSILON - simTime S1) / dt\<rceil>" "int N < 2 ^ 31"
  shows "\<exists>S' ess ws. simRun Q create sched (newSimulation T dt ty q w) = Some (ok S')
    \<and> length ess = N \<and> length ws = N
    \<and> (\<forall>k < N. runStep sched S1 (elems q) k (ess ! k) ((w1 # ws) ! k) (ws ! k) \<and> P (ws ! k))
    \<and> simWorld S' = last (w1 # ws) \<and> simTime S' = simTime S1 + real N * dt \<and> mTimeStepCount S' = int N"
  by (rule simulation_loop [where create = create and w = w and P = P]) (rule assms)+

text \<open>A simulation of two events, whose scheduler appends the number of the step to its world.\<close>

definition logStep :: "int list sched_step" where "logStep t c w = Some (ok (w @ [c]))"

definition logEvent :: "real \<Rightarrow> int \<Rightarrow> int list event" where "logEvent t v = AttributeEvent t (\<lambda>v w. w @ [v]) v"

theorem simulation_run_witness:
  "\<exists>S' ess. simRun sortedQueue ok logStep (newSimulation 3 1 MNA [logEvent 1 10, logEvent 2 20] []) = Some (ok S')
    \<and> ess ! 0 = [logEvent 1 10] \<and> ess ! 1 = [logEvent 2 20] \<and> ess ! 2 = []
    \<and> simWorld S' = [10, 0, 20, 1, 2]"
proof -
  let ?q = "[logEvent 1 10, logEvent 2 20]"
  let ?S = "(newSimulation 3 1 MNA ?q [])\<lparr>simWorld := [], simTime := (if MNA \<noteq> NRP then 1 else 0), mInitialized := True\<rparr>"
  have "\<lceil>(3 + DOUBLE_EPSILON - simTime ?S) / 1\<rceil> = 3" by (simp add: DOUBLE_EPSILON_def ceiling_eq_iff)
  then have N: "3 = nat \<lceil>(3 + DOUBLE_EPSILON - simTime ?S) / 1\<rceil>" by simp
  obtain S' ess ws where S': "simRun sortedQueue ok logStep (newSimulation 3 1 MNA ?q []) = Some (ok S')" "length ws = 3"
    "\<forall>k < 3. runStep logStep ?S (mset ?q) k (ess ! k) (([] # ws) ! k) (ws ! k)" "simWorld S' = last ([] # ws)"
    using simulation_run [OF sorted_queue.event_queue_axioms, where q = ?q and create = ok and ?w = "[]" and ?w1.0 = "[]" and dt = 1
      and P = "\<lambda>w. True" and sched = logStep and T = 3 and ty = MNA and ?N = 3] N
    by (auto simp: logStep_def logEvent_def AttributeEvent_def)
  have d: "dueAt 1 1 0 (logEvent 1 10)" "\<not> dueAt 1 1 0 (logEvent 2 20)" "\<not> dueAt 1 1 1 (logEvent 1 10)"
    "dueAt 1 1 1 (logEvent 2 20)" "\<not> dueAt 1 1 2 (logEvent 1 10)" "\<not> dueAt 1 1 2 (logEvent 2 20)"
    by (simp_all add: dueAt_def due_def logEvent_def AttributeEvent_def)
  have "\<forall>k < 3. mset (ess ! k) = filter_mset (dueAt 1 1 k) (mset ?q)"
    using S'(3) by (simp add: runStep_def newSimulation_def)
  then have "mset (ess ! 0) = filter_mset (dueAt 1 1 0) (mset ?q)" "mset (ess ! 1) = filter_mset (dueAt 1 1 1) (mset ?q)"
    "mset (ess ! 2) = filter_mset (dueAt 1 1 2) (mset ?q)" by simp_all
  then have e: "ess ! 0 = [logEvent 1 10]" "ess ! 1 = [logEvent 2 20]" "ess ! 2 = []"
    using d by simp_all
  have "fold execute (ess ! k) (([] # ws) ! k) @ [int k] = ws ! k" if "k < 3" for k
    using S'(3) that by (simp add: runStep_def newSimulation_def logStep_def)
  then have st: "fold execute (ess ! 0) (([] # ws) ! 0) @ [int 0] = ws ! 0" "fold execute (ess ! 1) (([] # ws) ! 1) @ [int 1] = ws ! 1"
    "fold execute (ess ! 2) (([] # ws) ! 2) @ [int 2] = ws ! 2" by (rule; simp)+
  have "ws ! 0 = [10, 0]" "ws ! 1 = ws ! 0 @ [20, 1]" "ws ! 2 = ws ! 1 @ [2]"
    using st e by (simp_all add: logEvent_def AttributeEvent_def)
  moreover have "ws \<noteq> []" using S'(2) by auto
  ultimately have "last ([] # ws) = [10, 0, 20, 1, 2]" using S'(2) by (simp add: last_conv_nth)
  then show ?thesis using S' e by (intro exI [of _ S'] exI [of _ ess]) simp
qed

text \<open>C34. A run whose time step is not positive and whose final time is not negative never returns
  normally, whatever the queue, the events and the scheduler do: it ends by an error of a step
  (the overflow of the step counter in the end), or not at all.\<close>

theorem simulation_stuck:
  assumes "dt \<le> 0" "0 \<le> T"
  shows "simRun Q create sched (newSimulation T dt ty q w) \<noteq> Some (ok S')"
proof (cases "create w")
  case (Inr w1)
  let ?S = "(newSimulation T dt ty q w)\<lparr>simWorld := w1, simTime := (if ty \<noteq> NRP then dt else 0), mInitialized := True\<rparr>"
  have "running ?S" "mSimTimeStep ?S \<le> 0" using assms by (simp_all add: running_def newSimulation_def DOUBLE_EPSILON_def)
  then have "simLoop Q sched ?S \<noteq> Some (ok S')" using simLoop_stuck by blast
  then show ?thesis by (simp add: simRun_def start_new [where create = create and w = w, OF Inr])
qed (simp add: simRun_def simStart_def simInitialize_def newSimulation_def)

theorem simulation_stuck_witness:
  "simRun sortedQueue ok logStep (newSimulation 1 0 MNA [logEvent 1 10] [])
     \<noteq> Some (ok (newSimulation 1 0 MNA [] []))"
  by (rule simulation_stuck) simp_all

end
