(* ===== verification/MnaNumbering.thy ===== *)
theory MnaNumbering
  imports Topology
begin

text \<open>dpsim/src/MNASolver.cpp, the part that reads the network: the objects of the topology
  sorted into the lists of the solver, the mode of the system matrix, the collection of the
  virtual nodes and the numbering of nodes and phases by rows of the system matrix.  Which
  interfaces an object implements (\<open>std::dynamic_pointer_cast\<close>) is the function \<open>cls\<close>; the
  sub-components of a component are the function \<open>sub\<close>.  A null node is dereferenced by the
  code right after it is read, here \<open>UndefinedBehaviour\<close>.\<close>

section \<open>The solver\<close>

datatype recomputation_mode = ModeAuto | ModeEnabled | ModeDisabled

record mna_iface =
  isMNA :: bool
  isSwitch :: bool
  isVariable :: bool
  isSyncGen :: bool
  isSignal :: bool
  supportsPrecomputedSystemMatrices :: bool

record mna_solver =
  mDomain :: Domain
  mSimNodes :: "nat list"
  mNumNodes :: nat
  mNumNetNodes :: nat
  mNumVirtual :: nat
  mNumMatrixNodeIndices :: nat
  mNumNetMatrixNodeIndices :: nat
  mNumVirtualMatrixNodeIndices :: nat
  mNumHarmMatrixNodeIndices :: nat
  mNumTotalMatrixNodeIndices :: nat
  mMNAComponents :: "nat list"
  mSwitches :: "nat list"
  mMNAIntfSwitches :: "nat list"
  mSimSignalComps :: "nat list"
  mSyncGen :: "nat list"
  mVariableComps :: "nat list"
  mMNAIntfVariableComps :: "nat list"
  mFrequencyParallel :: bool
  mSystemMatrixRecomputationMode :: recomputation_mode
  mSystemMatrixRecomputationEnabled :: bool

definition mkMnaSolver :: "Domain \<Rightarrow> bool \<Rightarrow> recomputation_mode \<Rightarrow> mna_solver" where
  "mkMnaSolver d par mode =
     \<lparr>mDomain = d, mSimNodes = [], mNumNodes = 0, mNumNetNodes = 0, mNumVirtual = 0,
      mNumMatrixNodeIndices = 0, mNumNetMatrixNodeIndices = 0, mNumVirtualMatrixNodeIndices = 0,
      mNumHarmMatrixNodeIndices = 0, mNumTotalMatrixNodeIndices = 0, mMNAComponents = [], mSwitches = [],
      mMNAIntfSwitches = [], mSimSignalComps = [], mSyncGen = [], mVariableComps = [],
      mMNAIntfVariableComps = [], mFrequencyParallel = par, mSystemMatrixRecomputationMode = mode,
      mSystemMatrixRecomputationEnabled = False\<rparr>"

section \<open>The lists of the solver\<close>

definition identifyNode :: "var_type \<Rightarrow> store \<Rightarrow> nat option \<Rightarrow> mna_solver \<Rightarrow> error + mna_solver" where
  "identifyNode v H p S = (case p of None \<Rightarrow> throw UndefinedBehaviour
     | Some q \<Rightarrow> if isGround (nodeAt H q) then ok S
         else case castNode v H p of None \<Rightarrow> throw UndefinedBehaviour
           | Some q \<Rightarrow> ok (S\<lparr>mSimNodes := mSimNodes S @ [q]\<rparr>))"

definition identifyComp :: "(nat \<Rightarrow> mna_iface) \<Rightarrow> nat \<Rightarrow> mna_solver \<Rightarrow> mna_solver" where
  "identifyComp cls p S =
     (let c = cls p;
          S1 = (if isSyncGen c then S\<lparr>mSyncGen := mSyncGen S @ [p]\<rparr> else S);
          S2 = (if isSwitch c
                then S1\<lparr>mSwitches := mSwitches S1 @ [p],
                        mMNAIntfSwitches := mMNAIntfSwitches S1 @ (if isMNA c then [p] else [])\<rparr>
                else S1);
          S3 = (if isVariable c
                then S2\<lparr>mVariableComps := mVariableComps S2 @ [p],
                        mMNAIntfVariableComps := mMNAIntfVariableComps S2 @ (if isMNA c then [p] else [])\<rparr>
                else S2)
      in if isSwitch c \<or> isVariable c then S3
         else S3\<lparr>mMNAComponents := mMNAComponents S3 @ (if isMNA c then [p] else []),
                  mSimSignalComps := mSimSignalComps S3 @ (if isSignal c then [p] else [])\<rparr>)"

definition identifyTopologyObjects ::
  "var_type \<Rightarrow> (nat \<Rightarrow> mna_iface) \<Rightarrow> store \<Rightarrow> topology \<Rightarrow> mna_solver \<Rightarrow> error + mna_solver" where
  "identifyTopologyObjects v cls H T S =
     bind_err (foldE (identifyNode v H) (mNodes T) S) (\<lambda>S. ok (fold (identifyComp cls) (mComponents T) S))"

definition needsRecomputation :: "(nat \<Rightarrow> mna_iface) \<Rightarrow> nat \<Rightarrow> bool" where
  "needsRecomputation cls p \<longleftrightarrow> \<not> isSwitch (cls p) \<or> \<not> supportsPrecomputedSystemMatrices (cls p)"

definition resolveSystemMatrixRecomputationMode :: "(nat \<Rightarrow> mna_iface) \<Rightarrow> mna_solver \<Rightarrow> mna_solver" where
  "resolveSystemMatrixRecomputationMode cls S =
     (let hasRecomputationComp = list_ex (needsRecomputation cls) (mVariableComps S)
      in S\<lparr>mSystemMatrixRecomputationEnabled :=
            (case mSystemMatrixRecomputationMode S of
               ModeAuto \<Rightarrow> hasRecomputationComp | ModeEnabled \<Rightarrow> True | ModeDisabled \<Rightarrow> False)\<rparr>)"

section \<open>Virtual nodes\<close>

definition pushVirtual :: "comp \<Rightarrow> nat \<Rightarrow> mna_solver \<Rightarrow> error + mna_solver" where
  "pushVirtual c node S = bind_err (virtualNode c node)
     (\<lambda>n. case n of None \<Rightarrow> throw UndefinedBehaviour | Some q \<Rightarrow> ok (S\<lparr>mSimNodes := mSimNodes S @ [q]\<rparr>))"

definition pushSubVirtual :: "comp \<Rightarrow> nat \<Rightarrow> mna_solver \<Rightarrow> error + mna_solver" where
  "pushSubVirtual c node S = bind_err (virtualNode c node)
     (\<lambda>n. case n of None \<Rightarrow> throw UndefinedBehaviour
       | Some q \<Rightarrow> if q \<in> set (mSimNodes S) then ok S else ok (S\<lparr>mSimNodes := mSimNodes S @ [q]\<rparr>))"

definition collectOwn :: "comp \<Rightarrow> mna_solver \<Rightarrow> error + mna_solver" where
  "collectOwn c S = (if hasVirtualNodes c then foldE (pushVirtual c) [0..<virtualNodesNumber c] S else ok S)"

definition collectSub :: "store \<Rightarrow> nat \<Rightarrow> mna_solver \<Rightarrow> error + mna_solver" where
  "collectSub H q S = foldE (pushSubVirtual (compAt H q)) [0..<virtualNodesNumber (compAt H q)] S"

definition collectFrom :: "var_type \<Rightarrow> (nat \<Rightarrow> nat list) \<Rightarrow> store \<Rightarrow> nat \<Rightarrow> mna_solver \<Rightarrow> error + mna_solver" where
  "collectFrom v sub H p S = (case castPower v H p of None \<Rightarrow> ok S
     | Some p \<Rightarrow> bind_err (collectOwn (compAt H p) S) (foldE (collectSub H) (sub p)))"

definition collectFromVariable :: "var_type \<Rightarrow> store \<Rightarrow> nat \<Rightarrow> mna_solver \<Rightarrow> error + mna_solver" where
  "collectFromVariable v H p S =
     (case castPower v H p of None \<Rightarrow> ok S | Some p \<Rightarrow> collectOwn (compAt H p) S)"

definition collectVirtualNodes ::
  "var_type \<Rightarrow> (nat \<Rightarrow> nat list) \<Rightarrow> store \<Rightarrow> mna_solver \<Rightarrow> error + mna_solver" where
  "collectVirtualNodes v sub H S =
     bind_err (foldE (collectFrom v sub H) (mMNAComponents S) (S\<lparr>mNumNetNodes := length (mSimNodes S)\<rparr>)) (\<lambda>S1.
     bind_err (foldE (collectFromVariable v H) (mVariableComps S1) S1) (\<lambda>S2.
       ok (S2\<lparr>mNumNodes := length (mSimNodes S2), mNumVirtual := length (mSimNodes S2) - mNumNetNodes S2\<rparr>)))"

section \<open>Rows of the system matrix\<close>

text \<open>The state of the loop: the nodes, the counter \<open>matrixNodeIndexIdx\<close>, and the number of
  rows of the network nodes.  The comparison with \<open>mNumNetNodes - 1\<close> of unsigned numbers is
  never true when there is no network node.\<close>

definition assignNode :: "nat \<Rightarrow> nat \<times> nat \<Rightarrow> store \<times> nat \<times> nat \<Rightarrow> error + store \<times> nat \<times> nat" where
  "assignNode nNet = (\<lambda>(idx, p) (H, k, net).
     bind_err (setMatrixNodeIndex 0 k (nodeAt H p)) (\<lambda>n0.
     bind_err (if nodePhase n0 = PhaseABC
               then bind_err (setMatrixNodeIndex 1 (k + 1) n0) (\<lambda>n1.
                    bind_err (setMatrixNodeIndex 2 (k + 2) n1) (\<lambda>n2. ok (n2, k + 3)))
               else ok (n0, k + 1)) (\<lambda>(n, k').
       ok (updNode p (\<lambda>_. n) H, k', if idx + 1 = nNet then k' else net))))"

definition assignMatrixNodeIndices :: "topology \<Rightarrow> store \<times> mna_solver \<Rightarrow> error + store \<times> mna_solver" where
  "assignMatrixNodeIndices T st = (let (H, S) = st; freqs = mrows (mFrequencies T) * mcols (mFrequencies T) in
     bind_err (foldE (assignNode (mNumNetNodes S)) (enumerate 0 (mSimNodes S)) (H, 0, mNumNetMatrixNodeIndices S))
       (\<lambda>(H', k, net). ok (H', S\<lparr>mNumMatrixNodeIndices := k, mNumNetMatrixNodeIndices := net,
          mNumVirtualMatrixNodeIndices := k - net, mNumHarmMatrixNodeIndices := (freqs - 1) * k,
          mNumTotalMatrixNodeIndices := freqs * k\<rparr>)))"

section \<open>Preparing the system\<close>

text \<open>\<open>createSubComponents\<close> is virtual: it may create components and register them with
  their parent, so it is a function \<open>create\<close> on the store and the lists of sub-components.
  Only the sub-components a call has newly registered are visited in turn; the recursion is
  a list of the components still to visit.\<close>

type_synonym subs = "nat \<Rightarrow> nat list"

definition newSubs :: "var_type \<Rightarrow> (nat \<Rightarrow> mna_iface) \<Rightarrow> nat \<Rightarrow> store \<times> subs \<Rightarrow> store \<times> subs \<Rightarrow> nat list" where
  "newSubs v cls p st st' =
     (if castPower v (fst st) p = None then []
      else filter (\<lambda>q. isMNA (cls q)) (filter (\<lambda>q. q \<notin> set (snd st p)) (snd st' p)))"

partial_function (option) createAll ::
  "var_type \<Rightarrow> (nat \<Rightarrow> mna_iface) \<Rightarrow> (nat \<Rightarrow> store \<times> subs \<Rightarrow> store \<times> subs) \<Rightarrow> nat list \<Rightarrow> store \<times> subs
   \<Rightarrow> (store \<times> subs) option" where
  "createAll v cls create ps st = (case ps of [] \<Rightarrow> Some st
     | p # ps \<Rightarrow> let st' = create p st in createAll v cls create (newSubs v cls p st st' @ ps) st')"

text \<open>The part of \<open>initialize\<close> up to the numbering.  \<open>None\<close> is a creation of sub-components
  that never ends.\<close>

definition prepareSystem ::
  "var_type \<Rightarrow> (nat \<Rightarrow> mna_iface) \<Rightarrow> (nat \<Rightarrow> store \<times> subs \<Rightarrow> store \<times> subs) \<Rightarrow> topology
   \<Rightarrow> store \<times> subs \<Rightarrow> mna_solver \<Rightarrow> (error + (store \<times> subs) \<times> mna_solver) option" where
  "prepareSystem v cls create T st S =
     (if mComponents T = [] then Some (throw SolverException)
      else case identifyTopologyObjects v cls (fst st) T S of Inl e \<Rightarrow> Some (throw e)
      | Inr S1 \<Rightarrow> let S2 = resolveSystemMatrixRecomputationMode cls S1 in
          if mFrequencyParallel S2 \<and> mSystemMatrixRecomputationEnabled S2 then Some (throw SystemError)
          else Option.bind
            (createAll v cls create (mMNAComponents S2 @ mMNAIntfVariableComps S2 @ mMNAIntfSwitches S2) st)
            (\<lambda>(H, sub). Some (
               bind_err (collectVirtualNodes v sub H S2) (\<lambda>S3.
               bind_err (assignMatrixNodeIndices T (H, S3)) (\<lambda>(H', S4). ok ((H', sub), S4))))))"

lemma createAll_simps [simp]:
  "createAll v cls create [] st = Some st"
  "createAll v cls create (p # ps) st =
     createAll v cls create (newSubs v cls p st (create p st) @ ps) (create p st)"
  by (subst createAll.simps, simp add: Let_def)+

section \<open>What the lists hold\<close>

lemma identifyComp_simps:
  "mSimNodes (identifyComp cls p S) = mSimNodes S"
  "mMNAComponents (identifyComp cls p S) =
     mMNAComponents S @ (if isMNA (cls p) \<and> \<not> isSwitch (cls p) \<and> \<not> isVariable (cls p) then [p] else [])"
  "mSimSignalComps (identifyComp cls p S) =
     mSimSignalComps S @ (if isSignal (cls p) \<and> \<not> isSwitch (cls p) \<and> \<not> isVariable (cls p) then [p] else [])"
  "mSwitches (identifyComp cls p S) = mSwitches S @ (if isSwitch (cls p) then [p] else [])"
  "mMNAIntfSwitches (identifyComp cls p S) =
     mMNAIntfSwitches S @ (if isMNA (cls p) \<and> isSwitch (cls p) then [p] else [])"
  "mVariableComps (identifyComp cls p S) = mVariableComps S @ (if isVariable (cls p) then [p] else [])"
  "mMNAIntfVariableComps (identifyComp cls p S) =
     mMNAIntfVariableComps S @ (if isMNA (cls p) \<and> isVariable (cls p) then [p] else [])"
  "mNumNetMatrixNodeIndices (identifyComp cls p S) = mNumNetMatrixNodeIndices S"
  "mSyncGen (identifyComp cls p S) = mSyncGen S @ (if isSyncGen (cls p) then [p] else [])"
  by (auto simp: identifyComp_def Let_def)

lemma fold_identifyComp:
  "mSimNodes (fold (identifyComp cls) ps S) = mSimNodes S"
  "mMNAComponents (fold (identifyComp cls) ps S) = mMNAComponents S
     @ filter (\<lambda>p. isMNA (cls p) \<and> \<not> isSwitch (cls p) \<and> \<not> isVariable (cls p)) ps"
  "mSimSignalComps (fold (identifyComp cls) ps S) = mSimSignalComps S
     @ filter (\<lambda>p. isSignal (cls p) \<and> \<not> isSwitch (cls p) \<and> \<not> isVariable (cls p)) ps"
  "mSwitches (fold (identifyComp cls) ps S) = mSwitches S @ filter (\<lambda>p. isSwitch (cls p)) ps"
  "mMNAIntfSwitches (fold (identifyComp cls) ps S) = mMNAIntfSwitches S
     @ filter (\<lambda>p. isMNA (cls p) \<and> isSwitch (cls p)) ps"
  "mVariableComps (fold (identifyComp cls) ps S) = mVariableComps S @ filter (\<lambda>p. isVariable (cls p)) ps"
  "mMNAIntfVariableComps (fold (identifyComp cls) ps S) = mMNAIntfVariableComps S
     @ filter (\<lambda>p. isMNA (cls p) \<and> isVariable (cls p)) ps"
  "mNumNetMatrixNodeIndices (fold (identifyComp cls) ps S) = mNumNetMatrixNodeIndices S"
  "mSyncGen (fold (identifyComp cls) ps S) = mSyncGen S @ filter (\<lambda>p. isSyncGen (cls p)) ps"
  by (induction ps arbitrary: S) (auto simp: identifyComp_simps)

section \<open>The numbering\<close>

text \<open>The index vector of a node has one entry, or three for a three-phase node; its
  entries are the rows of the node.\<close>

definition node_rows :: "simNode \<Rightarrow> nat" where
  "node_rows n = (if nodePhase n = PhaseABC then 3 else 1)"

definition node_ok :: "simNode \<Rightarrow> bool" where
  "node_ok n \<longleftrightarrow> length (mMatrixNodeIndex n) = node_rows n"

lemma node_ok_mkSimNode: "length idx = 3 \<Longrightarrow> node_ok (mkSimNode v uid name idx ph iv)"
  by (simp add: node_ok_def node_rows_def mkSimNode_def Let_def)

definition numberAs :: "nat \<Rightarrow> simNode \<Rightarrow> simNode" where
  "numberAs k n = n\<lparr>mMatrixNodeIndex := [k..<k + node_rows n]\<rparr>"

lemma list_eq3: "length xs = 3 \<Longrightarrow> xs[0 := a, Suc 0 := b, 2 := c] = [a, b, c]"
  by (auto simp: length_Suc_conv eval_nat_numeral)

lemma assignNode_ok:
  assumes "node_ok (nodeAt H p)"
  shows "assignNode nNet (idx, p) (H, k, net)
    = ok (updNode p (numberAs k) H, k + node_rows (nodeAt H p),
          if idx + 1 = nNet then k + node_rows (nodeAt H p) else net)"
proof (cases "nodePhase (nodeAt H p) = PhaseABC")
  case True
  then have len: "length (mMatrixNodeIndex (nodeAt H p)) = 3"
    using assms by (simp add: node_ok_def node_rows_def)
  have "[k..<k + 3] = [k, k + 1, k + 2]" by (simp add: upt_rec)
  then show ?thesis using True len
    by (simp add: assignNode_def setMatrixNodeIndex_def vec_set_def node_rows_def numberAs_def updNode_def
        list_eq3 [OF len] len [folded length_greater_0_conv] flip: length_greater_0_conv)
next
  case False
  then have "length (mMatrixNodeIndex (nodeAt H p)) = 1"
    using assms by (simp add: node_ok_def node_rows_def)
  then obtain x where "mMatrixNodeIndex (nodeAt H p) = [x]" by (auto simp: length_Suc_conv)
  with False show ?thesis
    by (simp add: assignNode_def setMatrixNodeIndex_def vec_set_def node_rows_def numberAs_def updNode_def)
qed

text \<open>The rows of a list of nodes, one after the other.\<close>

definition rowsOf :: "store \<Rightarrow> nat list \<Rightarrow> nat" where
  "rowsOf H ps = (\<Sum>p\<leftarrow>ps. node_rows (nodeAt H p))"

lemma rowsOf_simps [simp]: "rowsOf H [] = 0" "rowsOf H (p # ps) = node_rows (nodeAt H p) + rowsOf H ps"
  "rowsOf H (ps @ qs) = rowsOf H ps + rowsOf H qs"
  by (simp_all add: rowsOf_def)

lemma numberAs_simps [simp]: "node_rows (numberAs k n) = node_rows n" "node_ok (numberAs k n)"
  "isGround (numberAs k n) = isGround n" "nodePhase (numberAs k n) = nodePhase n"
  by (simp_all add: numberAs_def node_rows_def node_ok_def)

lemma rowsOf_updNode [simp]: "rowsOf (updNode p (numberAs k) H) ps = rowsOf H ps"
  by (simp add: rowsOf_def map_eq_conv cong: map_cong) (rule arg_cong [where f = sum_list], simp)

lemma assign_loop:
  assumes "\<And>p. p \<in> set ps \<Longrightarrow> node_ok (nodeAt H p)" "distinct ps"
  shows "\<exists>H' net'. foldE (assignNode nNet) (enumerate i ps) (H, k, net) = ok (H', k + rowsOf H ps, net')
     \<and> concat (map (\<lambda>p. mMatrixNodeIndex (nodeAt H' p)) ps) = [k..<k + rowsOf H ps]
     \<and> net' = (if i < nNet \<and> nNet \<le> i + length ps then k + rowsOf H (take (nNet - i) ps) else net)
     \<and> (\<forall>p. p \<notin> set ps \<longrightarrow> nodeAt H' p = nodeAt H p)
     \<and> (\<forall>p. \<exists>m. nodeAt H' p = nodeAt H p \<or> nodeAt H' p = numberAs m (nodeAt H p))
     \<and> compAt H' = compAt H"
  using assms
proof (induction ps arbitrary: H i k net)
  case Nil
  show ?case by simp
next
  case (Cons p ps)
  let ?H = "updNode p (numberAs k) H" and ?k = "k + node_rows (nodeAt H p)"
  let ?net = "if i + 1 = nNet then ?k else net"
  have okp: "node_ok (nodeAt H p)" using Cons.prems(1) by simp
  have okps: "\<And>q. q \<in> set ps \<Longrightarrow> node_ok (nodeAt ?H q)" and dist: "distinct ps" "p \<notin> set ps"
    using Cons.prems by auto
  obtain H' net' where run: "foldE (assignNode nNet) (enumerate (Suc i) ps) (?H, ?k, ?net)
        = ok (H', ?k + rowsOf ?H ps, net')"
    and rows: "concat (map (\<lambda>q. mMatrixNodeIndex (nodeAt H' q)) ps) = [?k..<?k + rowsOf ?H ps]"
    and net': "net' = (if Suc i < nNet \<and> nNet \<le> Suc i + length ps
        then ?k + rowsOf ?H (take (nNet - Suc i) ps) else ?net)"
    and fr: "\<forall>q. q \<notin> set ps \<longrightarrow> nodeAt H' q = nodeAt ?H q"
      "\<forall>q. \<exists>m. nodeAt H' q = nodeAt ?H q \<or> nodeAt H' q = numberAs m (nodeAt ?H q)" "compAt H' = compAt ?H"
    using Cons.IH [OF okps dist(1), of "Suc i" ?k ?net] by blast
  have p: "mMatrixNodeIndex (nodeAt H' p) = [k..<?k]"
    using fr(1) dist(2) by (simp add: numberAs_def)
  have upt: "[k..<?k] @ [?k..<?k + rowsOf H ps] = [k..<?k + rowsOf H ps]"
    by (metis le_add1 upt_add_eq_append)
  have same: "\<exists>m. nodeAt H' q = nodeAt H q \<or> nodeAt H' q = numberAs m (nodeAt H q)" for q
  proof (cases "q = p")
    case True
    then show ?thesis using fr(1) dist(2) by auto
  next
    case False
    then show ?thesis using fr(2) [rule_format, of q] by auto
  qed
  have net: "net' = (if i < nNet \<and> nNet \<le> i + length (p # ps)
      then k + rowsOf H (take (nNet - i) (p # ps)) else net)"
  proof (cases "i + 1 = nNet")
    case True
    then show ?thesis using net' by auto
  next
    case False
    show ?thesis
    proof (cases "Suc i < nNet \<and> nNet \<le> Suc i + length ps")
      case True
      then have "nNet - i = Suc (nNet - Suc i)" by arith
      with True False net' show ?thesis by simp
    next
      case c: False
      then have "\<not> (i < nNet \<and> nNet \<le> i + length (p # ps))" using False by auto
      moreover have "net' = net" using net' c False by auto
      ultimately show ?thesis by (simp only: if_False)
    qed
  qed
  show ?case
    by (intro exI [of _ H'] exI [of _ net'])
      (use run rows p upt net fr(1,3) same in \<open>simp add: assignNode_ok [OF okp] add.assoc\<close>)
qed

section \<open>The nodes the solver collects\<close>

lemma foldE_mono:
  assumes "\<And>x s s'. f x s = ok s' \<Longrightarrow> R s s'" "\<And>s. R s s" "\<And>a b c. R a b \<Longrightarrow> R b c \<Longrightarrow> R a c"
    and "foldE f xs s = ok s'"
  shows "R s s'"
  using assms(4)
proof (induction xs arbitrary: s)
  case Nil
  then show ?case using assms(2) by simp
next
  case (Cons x xs)
  then obtain s1 where "f x s = ok s1" "foldE f xs s1 = ok s'" by auto
  then show ?case using assms(1,3) Cons.IH by blast
qed

text \<open>Collecting appends nodes and touches nothing else.\<close>

definition appends :: "mna_solver \<Rightarrow> mna_solver \<Rightarrow> bool" where
  "appends S S' \<longleftrightarrow> (\<exists>ns. S' = S\<lparr>mSimNodes := mSimNodes S @ ns\<rparr>)"

lemma appends_refl: "appends S S"
  unfolding appends_def by (rule exI [of _ "[]"]) simp

lemma appends_trans: "appends a b \<Longrightarrow> appends b c \<Longrightarrow> appends a c"
  by (auto simp: appends_def)

lemma appends_push: "appends S (S\<lparr>mSimNodes := mSimNodes S @ ns\<rparr>)"
  unfolding appends_def by blast

lemma foldE_appends:
  assumes "\<And>x s s'. f x s = ok s' \<Longrightarrow> appends s s'" "foldE f xs s = ok s'"
  shows "appends s s'"
  by (rule foldE_mono [of f, OF assms(1) appends_refl appends_trans assms(2)])

lemma pushVirtual_appends: "pushVirtual c i S = ok S' \<Longrightarrow> appends S S'"
  by (auto simp: pushVirtual_def appends_push split: option.splits)

lemma pushSubVirtual_appends: "pushSubVirtual c i S = ok S' \<Longrightarrow> appends S S'"
  by (auto simp: pushSubVirtual_def appends_push appends_refl split: option.splits if_splits)

lemma collectOwn_appends: "collectOwn c S = ok S' \<Longrightarrow> appends S S'"
  by (auto simp: collectOwn_def appends_refl split: if_splits intro: foldE_appends [OF pushVirtual_appends])

lemma collectSub_appends: "collectSub H q S = ok S' \<Longrightarrow> appends S S'"
  unfolding collectSub_def by (rule foldE_appends [OF pushSubVirtual_appends])

lemma collectFrom_appends: "collectFrom v sub H p S = ok S' \<Longrightarrow> appends S S'"
  by (auto simp: collectFrom_def appends_refl split: option.splits
      intro: appends_trans [OF collectOwn_appends foldE_appends [OF collectSub_appends]])

lemma collectFromVariable_appends: "collectFromVariable v H p S = ok S' \<Longrightarrow> appends S S'"
  by (auto simp: collectFromVariable_def appends_refl split: option.splits intro: collectOwn_appends)

lemma collectVirtualNodes_spec:
  assumes "collectVirtualNodes v sub H S = ok S'"
  obtains ns where "S' = S\<lparr>mSimNodes := mSimNodes S @ ns, mNumNetNodes := length (mSimNodes S),
      mNumNodes := length (mSimNodes S) + length ns, mNumVirtual := length ns\<rparr>"
proof -
  let ?S0 = "S\<lparr>mNumNetNodes := length (mSimNodes S)\<rparr>"
  from assms obtain S1 S2 where 1: "foldE (collectFrom v sub H) (mMNAComponents S) ?S0 = ok S1"
    and 2: "foldE (collectFromVariable v H) (mVariableComps S1) S1 = ok S2"
    and S': "S' = S2\<lparr>mNumNodes := length (mSimNodes S2), mNumVirtual := length (mSimNodes S2) - mNumNetNodes S2\<rparr>"
    by (auto simp: collectVirtualNodes_def)
  have "appends ?S0 S2"
    by (rule appends_trans [OF foldE_appends [OF collectFrom_appends 1]
          foldE_appends [OF collectFromVariable_appends 2]])
  then obtain ns where "S2 = ?S0\<lparr>mSimNodes := mSimNodes ?S0 @ ns\<rparr>" unfolding appends_def by blast
  then have "S' = S\<lparr>mSimNodes := mSimNodes S @ ns, mNumNetNodes := length (mSimNodes S),
      mNumNodes := length (mSimNodes S) + length ns, mNumVirtual := length ns\<rparr>"
    by (simp add: S')
  then show ?thesis by (rule that)
qed

lemma identifyNode_nodes:
  assumes "foldE (identifyNode v H) ps S = ok S'"
  shows "S' = S\<lparr>mSimNodes := mSimNodes S @ filter (\<lambda>q. \<not> isGround (nodeAt H q)) (map the ps)\<rparr>"
  using assms
proof (induction ps arbitrary: S)
  case (Cons p ps)
  then obtain S1 where S1: "identifyNode v H p S = ok S1" "foldE (identifyNode v H) ps S1 = ok S'" by auto
  then obtain q where q: "p = Some q" by (auto simp: identifyNode_def split: option.splits)
  have "S1 = S\<lparr>mSimNodes := mSimNodes S @ (if isGround (nodeAt H q) then [] else [q])\<rparr>"
    using S1(1) by (auto simp: identifyNode_def q castNode_def split: if_splits)
  with Cons.IH [OF S1(2)] show ?case by (simp add: q)
qed simp

definition nodes_ok :: "store \<Rightarrow> bool" where
  "nodes_ok H \<longleftrightarrow> (\<forall>p. node_ok (nodeAt H p))"

lemma createAll_nodes_ok:
  assumes "createAll v cls create ps st = Some st'"
    and "\<And>p st. nodes_ok (fst st) \<Longrightarrow> nodes_ok (fst (create p st))" "nodes_ok (fst st)"
  shows "nodes_ok (fst st')"
proof -
  have "(\<forall>p st. nodes_ok (fst st) \<longrightarrow> nodes_ok (fst (create p st))) \<longrightarrow> nodes_ok (fst st) \<longrightarrow> nodes_ok (fst st')"
  proof (rule createAll.raw_induct [of "\<lambda>v cls create ps st st'.
      (\<forall>p st. nodes_ok (fst st) \<longrightarrow> nodes_ok (fst (create p st))) \<longrightarrow> nodes_ok (fst st) \<longrightarrow> nodes_ok (fst st')",
      OF _ assms(1)], intro impI, goal_cases)
    case (1 createAll v cls create ps st st')
    show ?case
    proof (cases ps)
      case Nil
      then show ?thesis using 1 by simp
    next
      case (Cons p qs)
      have step: "createAll v cls create (newSubs v cls p st (create p st) @ qs) (create p st) = Some st'"
        using 1(2) by (simp add: Cons Let_def)
      show ?thesis using 1(1) [OF step] 1(3,4) by blast
    qed
  qed
  then show ?thesis using assms(2,3) by blast
qed

lemma assignMatrixNodeIndices_spec:
  assumes "nodes_ok H" "mSimNodes S = net @ vs" "mNumNetNodes S = length net" "mNumNetMatrixNodeIndices S = 0"
    and "distinct (net @ vs)" "assignMatrixNodeIndices T (H, S) = ok (H', S')"
  shows "mSimNodes S' = net @ vs" "mNumNetNodes S' = length net"
    "concat (map (\<lambda>p. mMatrixNodeIndex (nodeAt H' p)) (net @ vs)) = [0..<mNumMatrixNodeIndices S']"
    "concat (map (\<lambda>p. mMatrixNodeIndex (nodeAt H' p)) net) = [0..<mNumNetMatrixNodeIndices S']"
    "mNumNetMatrixNodeIndices S' + mNumVirtualMatrixNodeIndices S' = mNumMatrixNodeIndices S'"
proof -
  obtain H1 net1 where run: "foldE (assignNode (length net)) (enumerate 0 (net @ vs)) (H, 0, 0)
        = ok (H1, 0 + rowsOf H (net @ vs), net1)"
    and idx: "concat (map (\<lambda>p. mMatrixNodeIndex (nodeAt H1 p)) (net @ vs)) = [0..<0 + rowsOf H (net @ vs)]"
    and net1: "net1 = (if 0 < length net \<and> length net \<le> 0 + length (net @ vs)
        then 0 + rowsOf H (take (length net - 0) (net @ vs)) else 0)"
    and fr: "\<forall>p. \<exists>m. nodeAt H1 p = nodeAt H p \<or> nodeAt H1 p = numberAs m (nodeAt H p)"
    using assign_loop [OF _ assms(5), of H "length net" 0 0 0] assms(1) unfolding nodes_ok_def by blast
  have S': "mSimNodes S' = net @ vs" "mNumNetNodes S' = length net" "H' = H1"
    "mNumMatrixNodeIndices S' = rowsOf H (net @ vs)"
    "mNumNetMatrixNodeIndices S' = net1" "mNumVirtualMatrixNodeIndices S' = rowsOf H (net @ vs) - net1"
    using assms(2,3,4,6) run by (auto simp: assignMatrixNodeIndices_def Let_def)
  have n1: "net1 = rowsOf H net" using net1 by (cases net) auto
  have len: "length (mMatrixNodeIndex (nodeAt H1 p)) = node_rows (nodeAt H p)" for p
    using fr assms(1) unfolding nodes_ok_def node_ok_def by (metis node_ok_def numberAs_simps(1,2))
  have lens: "length (concat (map (\<lambda>p. mMatrixNodeIndex (nodeAt H1 p)) ps)) = rowsOf H ps" for ps
    by (induction ps) (simp_all add: len)
  have "concat (map (\<lambda>p. mMatrixNodeIndex (nodeAt H1 p)) net)
      = take (rowsOf H net) (concat (map (\<lambda>p. mMatrixNodeIndex (nodeAt H1 p)) (net @ vs)))"
    using lens [of net] by simp
  also have "\<dots> = [0..<rowsOf H net]" unfolding idx by (simp add: take_upt)
  finally have netidx: "concat (map (\<lambda>p. mMatrixNodeIndex (nodeAt H1 p)) net) = [0..<rowsOf H net]" .
  show "mSimNodes S' = net @ vs" "mNumNetNodes S' = length net" by (rule S'(1,2))+
  show "concat (map (\<lambda>p. mMatrixNodeIndex (nodeAt H' p)) (net @ vs)) = [0..<mNumMatrixNodeIndices S']"
    unfolding S'(3,4) using idx by simp
  show "concat (map (\<lambda>p. mMatrixNodeIndex (nodeAt H' p)) net) = [0..<mNumNetMatrixNodeIndices S']"
    unfolding S'(3,5) n1 by (rule netidx)
  show "mNumNetMatrixNodeIndices S' + mNumVirtualMatrixNodeIndices S' = mNumMatrixNodeIndices S'"
    unfolding S'(4-6) n1 by simp
qed

text \<open>C8. Initialising a solver gives every phase of every node it solves for a row of the
  system matrix of its own, without gaps: the network nodes, which are the nodes of the
  topology other than ground, in order, take the first rows, the virtual nodes of the components the rest.\<close>

theorem mna_numbering:
  assumes "prepareSystem v cls create T st (mkMnaSolver d par mode) = Some (ok ((H', sub), S))"
    and "distinct (mSimNodes S)" "nodes_ok (fst st)"
    and "\<And>p st. nodes_ok (fst st) \<Longrightarrow> nodes_ok (fst (create p st))"
  shows "concat (map (\<lambda>p. mMatrixNodeIndex (nodeAt H' p)) (mSimNodes S)) = [0..<mNumMatrixNodeIndices S]
    \<and> concat (map (\<lambda>p. mMatrixNodeIndex (nodeAt H' p)) (take (mNumNetNodes S) (mSimNodes S)))
        = [0..<mNumNetMatrixNodeIndices S]
    \<and> take (mNumNetNodes S) (mSimNodes S) = filter (\<lambda>q. \<not> isGround (nodeAt (fst st) q)) (map the (mNodes T))
    \<and> mNumNetMatrixNodeIndices S + mNumVirtualMatrixNodeIndices S = mNumMatrixNodeIndices S"
proof -
  let ?S0 = "mkMnaSolver d par mode"
  let ?net = "filter (\<lambda>q. \<not> isGround (nodeAt (fst st) q)) (map the (mNodes T))"
  from assms(1) obtain S1 where S1: "identifyTopologyObjects v cls (fst st) T ?S0 = ok S1"
    by (auto simp: prepareSystem_def split: if_splits sum.splits)
  let ?S2 = "resolveSystemMatrixRecomputationMode cls S1"
  obtain H sb S3 where cr: "createAll v cls create
        (mMNAComponents ?S2 @ mMNAIntfVariableComps ?S2 @ mMNAIntfSwitches ?S2) st = Some (H, sb)"
    and S3: "collectVirtualNodes v sb H ?S2 = ok S3"
    and as: "assignMatrixNodeIndices T (H, S3) = ok (H', S)"
    using assms(1) S1
    by (auto simp: prepareSystem_def Let_def split: if_splits simp: bind_eq_Some_conv)
  have net: "mSimNodes ?S2 = ?net" "mNumNetMatrixNodeIndices ?S2 = 0"
    using S1 by (auto simp: identifyTopologyObjects_def fold_identifyComp mkMnaSolver_def
        resolveSystemMatrixRecomputationMode_def Let_def dest!: identifyNode_nodes)
  obtain vs where S3': "S3 = ?S2\<lparr>mSimNodes := mSimNodes ?S2 @ vs, mNumNetNodes := length (mSimNodes ?S2),
      mNumNodes := length (mSimNodes ?S2) + length vs, mNumVirtual := length vs\<rparr>"
    by (rule collectVirtualNodes_spec [OF S3])
  have nodes: "mSimNodes S3 = ?net @ vs" "mNumNetNodes S3 = length ?net" "mNumNetMatrixNodeIndices S3 = 0"
    using net by (simp_all add: S3')
  have "mSimNodes S = mSimNodes S3" using as by (auto simp: assignMatrixNodeIndices_def Let_def)
  then have dist: "distinct (?net @ vs)" using assms(2) nodes(1) by simp
  have okH: "nodes_ok H" using createAll_nodes_ok [OF cr assms(4,3)] by simp
  note sp = assignMatrixNodeIndices_spec [OF okH nodes dist as]
  show ?thesis using sp by simp
qed

abbreviation demo_mna :: mna_iface where
  "demo_mna \<equiv> \<lparr>isMNA = True, isSwitch = False, isVariable = False, isSyncGen = False, isSignal = False,
     supportsPrecomputedSystemMatrices = True\<rparr>"

text \<open>A ground node, a single-phase node 1, a three-phase node 2 and a component with the
  virtual node 3.\<close>

abbreviation demo_heap :: store where
  "demo_heap \<equiv> \<lparr>nodeAt = (\<lambda>p. if p = 0 then groundNode RealVar PhaseSingle
       else if p = 2 then mkSimNode RealVar ''n'' ''n'' [0, 0, 0] PhaseABC [0, 0, 0]
       else mkSimNode RealVar ''n'' ''n'' [0, 0, 0] PhaseSingle [0, 0, 0]),
     nextNode = 4,
     compAt = (\<lambda>_. (mkPowerComp RealVar ''v'' ''v'' ''VoltageSource'' PhaseSingle)
       \<lparr>mNumVirtualNodes := 1, mVirtualNodes := [Some 3]\<rparr>), nextComp = 1\<rparr>"

lemma demo_heap_ok: "nodes_ok demo_heap"
  by (simp add: nodes_ok_def node_ok_mkSimNode groundNode_def node_ok_def node_rows_def mkSimNode_def)

abbreviation demo_sys :: topology where
  "demo_sys \<equiv> (emptyTopology 50)\<lparr>mNodes := [Some 0, Some 1, Some 2], mComponents := [0]\<rparr>"

theorem mna_numbering_witness:
  "\<exists>H' sub S. prepareSystem RealVar (\<lambda>_. demo_mna) (\<lambda>p st. st) demo_sys (demo_heap, \<lambda>_. [])
       (mkMnaSolver EMT False ModeAuto) = Some (ok ((H', sub), S))
     \<and> concat (map (\<lambda>p. mMatrixNodeIndex (nodeAt H' p)) (mSimNodes S)) = [0..<mNumMatrixNodeIndices S]"
proof -
  let ?run = "prepareSystem RealVar (\<lambda>_. demo_mna) (\<lambda>p st. st) demo_sys (demo_heap, \<lambda>_. [])
       (mkMnaSolver EMT False ModeAuto)"
  have "\<exists>H' sub S. ?run = Some (ok ((H', sub), S)) \<and> distinct (mSimNodes S)"
    by (simp add: prepareSystem_def identifyTopologyObjects_def identifyNode_def identifyComp_def mkMnaSolver_def
        emptyTopology_def initFrequency_def groundNode_def mkSimNode_def castNode_def castPower_def mkPowerComp_def
        resolveSystemMatrixRecomputationMode_def Let_def newSubs_def collectVirtualNodes_def collectFrom_def
        collectOwn_def hasVirtualNodes_def virtualNodesNumber_def pushVirtual_def virtualNode_def
        assignMatrixNodeIndices_def assignNode_def setMatrixNodeIndex_def vec_set_def)
  then obtain H' sub S where run: "?run = Some (ok ((H', sub), S))" and d: "distinct (mSimNodes S)" by blast
  show ?thesis using mna_numbering [OF run d] run demo_heap_ok by fastforce
qed

end
