(* ===== verification/MnaDirect.thy ===== *)
theory MnaDirect
  imports MnaNumbering Stamping "HOL-Library.Word"
begin

text \<open>dpsim/src/MNASolver.cpp and dpsim/src/MNASolverDirect.cpp, the system matrices: one
  precomputed matrix and factorization per combination of switch states, or one matrix that
  is recomputed when a component changes, and the solution of a step.  The virtual methods of
  the components are the record \<open>mna_methods\<close> over the \<open>world\<close>, the store together with what
  the classes derived from \<open>SimPowerComp\<close> add to each component; the interface
  \<open>DirectLinearSolver\<close> is the record \<open>direct_solver\<close>.  Time measurements and logging are left
  out.\<close>

section \<open>The interfaces\<close>

type_synonym 'x world = "store \<times> (nat \<Rightarrow> 'x)"
type_synonym entries = "(nat \<times> nat) list"

record 'x mna_methods =
  mnaInitialize :: "real \<Rightarrow> real \<Rightarrow> nat \<Rightarrow> nat \<Rightarrow> 'x world \<Rightarrow> error + 'x world"
  initializeFromNodesAndTerminals :: "real \<Rightarrow> nat \<Rightarrow> 'x world \<Rightarrow> error + 'x world"
  signalInitialize :: "real \<Rightarrow> real \<Rightarrow> nat \<Rightarrow> 'x world \<Rightarrow> error + 'x world"
  mnaApplySystemMatrixStamp :: "'x world \<Rightarrow> nat \<Rightarrow> real matrix \<Rightarrow> error + real matrix"
  mnaApplySwitchSystemMatrixStamp :: "'x world \<Rightarrow> nat \<Rightarrow> bool \<Rightarrow> real matrix \<Rightarrow> error + real matrix"
  mnaApplyRightSideVectorStamp :: "nat \<Rightarrow> 'x world \<times> real matrix \<Rightarrow> error + 'x world \<times> real matrix"
  getRightVector :: "'x world \<Rightarrow> nat \<Rightarrow> real matrix"
  mnaIsClosed :: "'x world \<Rightarrow> nat \<Rightarrow> bool"
  hasParameterChanged :: "nat \<Rightarrow> 'x world \<Rightarrow> bool \<times> 'x world"
  mVariableSystemMatrixEntries :: "'x world \<Rightarrow> nat \<Rightarrow> entries"
  requiresIteration :: "nat \<Rightarrow> 'x world \<Rightarrow> bool \<times> 'x world"
  correctorStep :: "nat \<Rightarrow> 'x world \<Rightarrow> 'x world"
  genUpdateVoltage :: "real matrix \<Rightarrow> nat \<Rightarrow> 'x world \<Rightarrow> 'x world"

record 'f direct_solver =
  newSolver :: 'f
  preprocessing :: "'f \<Rightarrow> real matrix \<Rightarrow> entries \<Rightarrow> 'f"
  factorize :: "'f \<Rightarrow> real matrix \<Rightarrow> 'f"
  partialRefactorize :: "'f \<Rightarrow> real matrix \<Rightarrow> entries \<Rightarrow> 'f"
  lusolve :: "'f \<Rightarrow> real matrix \<Rightarrow> real matrix"

section \<open>The state of the solver\<close>

record ('x, 'f) mna_direct =
  objs :: "'x world"
  mnaBase :: mna_solver
  mTimeStep :: real
  mInitFromNodes :: bool
  mIsInInitialization :: bool
  mRightVectorStamps :: "nat list"
  mRightSideVector :: "real matrix"
  mLeftSideVector :: "real matrix"
  mRightSideVectorHarm :: "real matrix list"
  mCurrentSwitchStatus :: "64 word"
  mSwitchedMatrices :: "(64 word, real matrix) multimap"
  mDirectLinearSolvers :: "(64 word, 'f) multimap"
  mListVariableSystemMatrixEntries :: entries
  mBaseSystemMatrix :: "real matrix"
  mVariableSystemMatrix :: "real matrix"
  mVariableSolver :: 'f
  mVariableComponentChanged :: bool
  mSystemMatrixChanged :: bool
  mNumRecomputations :: nat
  mIter :: nat

definition zeros :: "nat \<Rightarrow> nat \<Rightarrow> real matrix" where
  "zeros r c = mkmat r c (\<lambda>_ _. 0)"

definition setZero :: "real matrix \<Rightarrow> real matrix" where
  "setZero M = mkmat (mrows M) (mcols M) (\<lambda>_ _. 0)"

definition numFrequencies :: "topology \<Rightarrow> nat" where
  "numFrequencies T = mrows (mFrequencies T) * mcols (mFrequencies T)"

section \<open>Vectors and empty matrices\<close>

definition createEmptyVectors :: "var_type \<Rightarrow> topology \<Rightarrow> ('x, 'f) mna_direct \<Rightarrow> ('x, 'f) mna_direct" where
  "createEmptyVectors v T S = (let n = mNumMatrixNodeIndices (mnaBase S) in
     case v of RealVar \<Rightarrow> S\<lparr>mRightSideVector := zeros n 1, mLeftSideVector := zeros n 1\<rparr>
     | ComplexVar \<Rightarrow>
        if mFrequencyParallel (mnaBase S)
        then S\<lparr>mRightSideVectorHarm := mRightSideVectorHarm S @ replicate (numFrequencies T) (zeros (2 * n) 1)\<rparr>
        else let k = 2 * (n + mNumHarmMatrixNodeIndices (mnaBase S))
             in S\<lparr>mRightSideVector := zeros k 1, mLeftSideVector := zeros k 1\<rparr>)"

text \<open>\<open>1ULL << mSwitches.size()\<close> is undefined when the size is the width of the type.\<close>

definition switchCombinations :: "('x, 'f) mna_direct \<Rightarrow> error + nat" where
  "switchCombinations S = (let n = length (mSwitches (mnaBase S))
     in if 64 \<le> n then throw UndefinedBehaviour else ok (2 ^ n))"

definition pushMatrix :: "'f direct_solver \<Rightarrow> nat \<Rightarrow> nat \<Rightarrow> ('x, 'f) mna_direct \<Rightarrow> ('x, 'f) mna_direct" where
  "pushMatrix D n i S = (let w = word_of_nat i in
     S\<lparr>mSwitchedMatrices := edges_push (mSwitchedMatrices S) w (zeros n n),
       mDirectLinearSolvers := edges_push (mDirectLinearSolvers S) w (newSolver D)\<rparr>)"

definition pushMatrices :: "'f direct_solver \<Rightarrow> nat \<Rightarrow> nat \<Rightarrow> nat \<Rightarrow> ('x, 'f) mna_direct \<Rightarrow> ('x, 'f) mna_direct" where
  "pushMatrices D n freqs combos S = fold (\<lambda>i. fold (\<lambda>_. pushMatrix D n i) [0..<freqs]) [0..<combos] S"

definition createEmptySystemMatrix ::
  "var_type \<Rightarrow> topology \<Rightarrow> 'f direct_solver \<Rightarrow> ('x, 'f) mna_direct \<Rightarrow> error + ('x, 'f) mna_direct" where
  "createEmptySystemMatrix v T D S = (let L = mnaBase S; n = mNumMatrixNodeIndices L in
     if 64 < length (mSwitches L) then throw SystemError
     else if v = ComplexVar \<and> mFrequencyParallel L
     then ok (pushMatrices D (2 * n) (numFrequencies T) (2 ^ length (mSwitches L)) S)
     else if mSystemMatrixRecomputationEnabled L
     then let k = (case v of RealVar \<Rightarrow> n | ComplexVar \<Rightarrow> 2 * n)
          in ok (S\<lparr>mBaseSystemMatrix := zeros k k, mVariableSystemMatrix := zeros k k\<rparr>)
     else bind_err (switchCombinations S) (\<lambda>combos.
          ok (pushMatrices D (case v of RealVar \<Rightarrow> n | ComplexVar \<Rightarrow> 2 * mNumTotalMatrixNodeIndices L)
                1 combos S)))"

section \<open>Initialising the components\<close>

definition allMNAComps :: "mna_solver \<Rightarrow> nat list" where
  "allMNAComps L = mMNAComponents L @ mMNAIntfVariableComps L"

definition initPower :: "var_type \<Rightarrow> 'x mna_methods \<Rightarrow> topology \<Rightarrow> nat \<Rightarrow> ('x, 'f) mna_direct \<Rightarrow> error + ('x, 'f) mna_direct" where
  "initPower v C T p S = (case castPower v (fst (objs S)) p of None \<Rightarrow> ok S
     | Some p \<Rightarrow> bind_err (checkForUnconnectedTerminals (compAt (fst (objs S)) p)) (\<lambda>_.
         if mInitFromNodes S
         then bind_err (initializeFromNodesAndTerminals C (mSystemFrequency T) p (objs S)) (\<lambda>W. ok (S\<lparr>objs := W\<rparr>))
         else ok S))"

definition initMna :: "'x mna_methods \<Rightarrow> real \<Rightarrow> nat \<Rightarrow> ('x, 'f) mna_direct \<Rightarrow> error + ('x, 'f) mna_direct" where
  "initMna C omega p S =
     bind_err (mnaInitialize C omega (mTimeStep S) (mrows (mLeftSideVector S)) p (objs S)) (\<lambda>W.
       let stamp = getRightVector C W p
       in ok (S\<lparr>objs := W, mRightVectorStamps := mRightVectorStamps S
            @ (if mrows stamp * mcols stamp \<noteq> 0 then [p] else [])\<rparr>))"

definition initSwitch :: "'x mna_methods \<Rightarrow> real \<Rightarrow> nat \<Rightarrow> ('x, 'f) mna_direct \<Rightarrow> error + ('x, 'f) mna_direct" where
  "initSwitch C omega p S =
     bind_err (mnaInitialize C omega (mTimeStep S) (mrows (mLeftSideVector S)) p (objs S))
       (\<lambda>W. ok (S\<lparr>objs := W\<rparr>))"

definition initSignal :: "'x mna_methods \<Rightarrow> real \<Rightarrow> nat \<Rightarrow> ('x, 'f) mna_direct \<Rightarrow> error + ('x, 'f) mna_direct" where
  "initSignal C omega p S =
     bind_err (signalInitialize C omega (mTimeStep S) p (objs S)) (\<lambda>W. ok (S\<lparr>objs := W\<rparr>))"

definition initNodes :: "('x, 'f) mna_direct \<Rightarrow> ('x, 'f) mna_direct" where
  "initNodes S = S\<lparr>objs := (fold (\<lambda>p. updNode p initializeNode) (mSimNodes (mnaBase S)) (fst (objs S)), snd (objs S))\<rparr>"

text \<open>\<open>omega\<close> is \<open>mSystem.mSystemOmega\<close>.\<close>

definition initializeComponents ::
  "var_type \<Rightarrow> 'x mna_methods \<Rightarrow> topology \<Rightarrow> real \<Rightarrow> ('x, 'f) mna_direct \<Rightarrow> error + ('x, 'f) mna_direct" where
  "initializeComponents v C T omega S =
     bind_err (foldE (initPower v C T) (allMNAComps (mnaBase S)) S) (\<lambda>S1.
     bind_err (foldE (initSignal C omega) (mSimSignalComps (mnaBase S1)) S1) (\<lambda>S2.
     bind_err (foldE (initMna C omega) (allMNAComps (mnaBase S2)) S2) (\<lambda>S3.
     bind_err (foldE (initSwitch C omega) (mMNAIntfSwitches (mnaBase S3)) S3) (\<lambda>S4. ok (initNodes S4)))))"

section \<open>Precomputed matrices\<close>

definition emptyAt :: "64 word \<Rightarrow> nat \<Rightarrow> ('x, 'f) mna_direct \<Rightarrow> error + ('x, 'f) mna_direct" where
  "emptyAt w freq S = (let ms = edges_at (mSwitchedMatrices S) w in
     bind_err (vec_at ms freq) (\<lambda>M. bind_err (vec_set ms freq (setZero M)) (\<lambda>ms'.
       ok (S\<lparr>mSwitchedMatrices := edges_set (mSwitchedMatrices S) w ms'\<rparr>))))"

definition switchedMatrixEmpty :: "nat \<Rightarrow> ('x, 'f) mna_direct \<Rightarrow> error + ('x, 'f) mna_direct" where
  "switchedMatrixEmpty index S = emptyAt (word_of_nat index) 0 S"

definition switchedMatrixEmptyFreq :: "nat \<Rightarrow> nat \<Rightarrow> ('x, 'f) mna_direct \<Rightarrow> error + ('x, 'f) mna_direct" where
  "switchedMatrixEmptyFreq swIdx freqIdx S = emptyAt (word_of_nat swIdx) freqIdx S"

definition stampComps :: "'x mna_methods \<Rightarrow> 'x world \<Rightarrow> nat list \<Rightarrow> real matrix \<Rightarrow> error + real matrix" where
  "stampComps C W ps M = foldE (mnaApplySystemMatrixStamp C W) ps M"

definition stampSwitches ::
  "'x mna_methods \<Rightarrow> 'x world \<Rightarrow> 64 word \<Rightarrow> nat list \<Rightarrow> real matrix \<Rightarrow> error + real matrix" where
  "stampSwitches C W w ps M =
     foldE (\<lambda>(i, p). mnaApplySwitchSystemMatrixStamp C W p (bit w i)) (enumerate 0 ps) M"

definition switchedMatrixStamp ::
  "'x mna_methods \<Rightarrow> 'f direct_solver \<Rightarrow> nat \<Rightarrow> ('x, 'f) mna_direct \<Rightarrow> error + ('x, 'f) mna_direct" where
  "switchedMatrixStamp C D index S =
     (let w = word_of_nat index; ms = edges_at (mSwitchedMatrices S) w; fs = edges_at (mDirectLinearSolvers S) w in
     bind_err (vec_at ms 0) (\<lambda>sys.
     bind_err (stampComps C (objs S) (mMNAComponents (mnaBase S)) sys) (\<lambda>sys.
     bind_err (stampSwitches C (objs S) w (mSwitches (mnaBase S)) sys) (\<lambda>sys.
     bind_err (vec_set ms 0 sys) (\<lambda>ms'.
     bind_err (vec_at fs 0) (\<lambda>f.
     bind_err (vec_set fs 0 (factorize D (preprocessing D f sys (mListVariableSystemMatrixEntries S)) sys)) (\<lambda>fs'.
       ok (S\<lparr>mSwitchedMatrices := edges_set (mSwitchedMatrices S) w ms',
             mDirectLinearSolvers := edges_set (mDirectLinearSolvers S) w fs'\<rparr>))))))))"

text \<open>The overload for a frequency: the base class does nothing, and no class overrides it.\<close>

definition switchedMatrixStampFreq :: "nat \<Rightarrow> nat \<Rightarrow> ('x, 'f) mna_direct \<Rightarrow> error + ('x, 'f) mna_direct" where
  "switchedMatrixStampFreq swIdx freqIdx S = ok S"

definition updateSwitchStatus :: "'x mna_methods \<Rightarrow> ('x, 'f) mna_direct \<Rightarrow> ('x, 'f) mna_direct" where
  "updateSwitchStatus C S = S\<lparr>mCurrentSwitchStatus :=
     fold (\<lambda>(i, p) w. if mnaIsClosed C (objs S) p then set_bit i w else unset_bit i w)
       (enumerate 0 (mSwitches (mnaBase S))) (mCurrentSwitchStatus S)\<rparr>"

definition initRightSide :: "'x mna_methods \<Rightarrow> ('x, 'f) mna_direct \<Rightarrow> error + ('x, 'f) mna_direct" where
  "initRightSide C S =
     bind_err (foldE (mnaApplyRightSideVectorStamp C) (mMNAComponents (mnaBase S)) (objs S, mRightSideVector S))
       (\<lambda>(W, b). ok (S\<lparr>objs := W, mRightSideVector := b\<rparr>))"

definition initializeSystemWithPrecomputedMatrices ::
  "'x mna_methods \<Rightarrow> 'f direct_solver \<Rightarrow> ('x, 'f) mna_direct \<Rightarrow> error + ('x, 'f) mna_direct" where
  "initializeSystemWithPrecomputedMatrices C D S =
     bind_err (switchCombinations S) (\<lambda>combos.
     bind_err (foldE switchedMatrixEmpty [0..<combos] S) (\<lambda>S1.
     bind_err (if length (mSwitches (mnaBase S1)) < 1 then switchedMatrixStamp C D 0 S1
               else bind_err (foldE (switchedMatrixStamp C D) [0..<combos] S1) (\<lambda>S2. ok (updateSwitchStatus C S2)))
       (initRightSide C)))"

definition initializeSystemWithParallelFrequencies ::
  "'x mna_methods \<Rightarrow> topology \<Rightarrow> (nat \<Rightarrow> nat \<Rightarrow> real matrix \<Rightarrow> real matrix)
   \<Rightarrow> ('x, 'f) mna_direct \<Rightarrow> error + ('x, 'f) mna_direct" where
  "initializeSystemWithParallelFrequencies C T rightHarm S =
     bind_err (switchCombinations S) (\<lambda>combos.
     bind_err (foldE (\<lambda>sw. foldE (\<lambda>freq S. bind_err (switchedMatrixEmptyFreq sw freq S)
                 (switchedMatrixStampFreq sw freq)) [0..<numFrequencies T]) [0..<combos] S) (\<lambda>S1.
     let S2 = (if length (mSwitches (mnaBase S1)) > 0 then updateSwitchStatus C S1 else S1) in
     bind_err (foldE (\<lambda>freq S. foldE (\<lambda>p S. bind_err (vec_at (mRightSideVectorHarm S) freq) (\<lambda>b.
                  bind_err (vec_set (mRightSideVectorHarm S) freq (rightHarm p freq b))
                    (\<lambda>bs. ok (S\<lparr>mRightSideVectorHarm := bs\<rparr>)))) (mMNAComponents (mnaBase S)) S)
                [0..<numFrequencies T] S2) ok))"

section \<open>The recomputed matrix\<close>

definition stampVariableSystemMatrix ::
  "'x mna_methods \<Rightarrow> 'f direct_solver \<Rightarrow> ('x, 'f) mna_direct \<Rightarrow> error + ('x, 'f) mna_direct" where
  "stampVariableSystemMatrix C D S =
     bind_err (stampComps C (objs S) (mMNAComponents (mnaBase S)) (setZero (mBaseSystemMatrix S))) (\<lambda>base.
     bind_err (stampComps C (objs S) (mMNAIntfVariableComps (mnaBase S)) base) (\<lambda>M.
       ok (S\<lparr>mBaseSystemMatrix := base, mVariableSystemMatrix := M,
             mVariableSolver := factorize D (preprocessing D (newSolver D) M
               (mListVariableSystemMatrixEntries S)) M\<rparr>)))"

definition initializeSystemWithVariableMatrix ::
  "'x mna_methods \<Rightarrow> 'f direct_solver \<Rightarrow> ('x, 'f) mna_direct \<Rightarrow> error + ('x, 'f) mna_direct" where
  "initializeSystemWithVariableMatrix C D S =
     (let es = concat (map (mVariableSystemMatrixEntries C (objs S)) (mVariableComps (mnaBase S))) in
     bind_err (stampVariableSystemMatrix C D
         (S\<lparr>mListVariableSystemMatrixEntries := mListVariableSystemMatrixEntries S @ es\<rparr>)) (initRightSide C))"

definition initializeSystem ::
  "'x mna_methods \<Rightarrow> topology \<Rightarrow> (nat \<Rightarrow> nat \<Rightarrow> real matrix \<Rightarrow> real matrix) \<Rightarrow> 'f direct_solver
   \<Rightarrow> ('x, 'f) mna_direct \<Rightarrow> error + ('x, 'f) mna_direct" where
  "initializeSystem C T rightHarm D S =
     (let S1 = S\<lparr>mRightSideVector := setZero (mRightSideVector S)\<rparr> in
      if length (mSwitches (mnaBase S1)) > 64 then throw SystemError
      else if mFrequencyParallel (mnaBase S1) then initializeSystemWithParallelFrequencies C T rightHarm S1
      else if mSystemMatrixRecomputationEnabled (mnaBase S1) then initializeSystemWithVariableMatrix C D S1
      else initializeSystemWithPrecomputedMatrices C D S1)"

text \<open>\<open>hasVariableComponentChanged\<close> returns at the first component that reports a change.\<close>

primrec hasVariableComponentChanged :: "'x mna_methods \<Rightarrow> nat list \<Rightarrow> 'x world \<Rightarrow> bool \<times> 'x world" where
  "hasVariableComponentChanged C [] W = (False, W)"
| "hasVariableComponentChanged C (p # ps) W =
     (let (changed, W') = hasParameterChanged C p W
      in if changed then (True, W') else hasVariableComponentChanged C ps W')"

definition recomputeSystemMatrix ::
  "'x mna_methods \<Rightarrow> 'f direct_solver \<Rightarrow> ('x, 'f) mna_direct \<Rightarrow> error + ('x, 'f) mna_direct" where
  "recomputeSystemMatrix C D S =
     bind_err (stampComps C (objs S) (mMNAIntfVariableComps (mnaBase S)) (mBaseSystemMatrix S)) (\<lambda>M.
       ok (S\<lparr>mVariableSystemMatrix := M,
             mVariableSolver := partialRefactorize D (mVariableSolver S) M (mListVariableSystemMatrixEntries S),
             mNumRecomputations := mNumRecomputations S + 1\<rparr>))"

section \<open>Solving a step\<close>

definition sumRightVectors :: "'x mna_methods \<Rightarrow> ('x, 'f) mna_direct \<Rightarrow> ('x, 'f) mna_direct" where
  "sumRightVectors C S = S\<lparr>mRightSideVector :=
     fold (\<lambda>p b. mat_add b (getRightVector C (objs S) p)) (mRightVectorStamps S) (setZero (mRightSideVector S))\<rparr>"

definition updateNodes :: "('x, 'f) mna_direct \<Rightarrow> error + ('x, 'f) mna_direct" where
  "updateNodes S = bind_err (foldE (\<lambda>p H. bind_err (mnaUpdateVoltage (mLeftSideVector S) (nodeAt H p))
         (\<lambda>n. ok (updNode p (\<lambda>_. n) H))) (take (mNumNetNodes (mnaBase S)) (mSimNodes (mnaBase S))) (fst (objs S)))
       (\<lambda>H. ok (S\<lparr>objs := (H, snd (objs S))\<rparr>))"

definition solveWithSystemMatrixRecomputation ::
  "'x mna_methods \<Rightarrow> 'f direct_solver \<Rightarrow> ('x, 'f) mna_direct \<Rightarrow> error + ('x, 'f) mna_direct" where
  "solveWithSystemMatrixRecomputation C D S =
     (let S1 = sumRightVectors C S;
          (changed, W) = hasVariableComponentChanged C (mVariableComps (mnaBase S1)) (objs S1);
          S2 = S1\<lparr>objs := W, mVariableComponentChanged := changed\<rparr>
      in bind_err (if changed then recomputeSystemMatrix C D S2 else ok S2) (\<lambda>S3.
         updateNodes (S3\<lparr>mLeftSideVector := lusolve D (mVariableSolver S3) (mRightSideVector S3)\<rparr>)))"

definition solveCurrent :: "'f direct_solver \<Rightarrow> ('x, 'f) mna_direct \<Rightarrow> error + ('x, 'f) mna_direct" where
  "solveCurrent D S =
     (if mSwitchedMatrices S = [] then ok S
      else bind_err (vec_at (edges_at (mDirectLinearSolvers S) (mCurrentSwitchStatus S)) 0) (\<lambda>f.
        ok (S\<lparr>mLeftSideVector := lusolve D f (mRightSideVector S)\<rparr>)))"

definition switchStep :: "'x mna_methods \<Rightarrow> ('x, 'f) mna_direct \<Rightarrow> ('x, 'f) mna_direct" where
  "switchStep C S = (if mIsInInitialization S then S else updateSwitchStatus C S)"

definition updateGens :: "'x mna_methods \<Rightarrow> ('x, 'f) mna_direct \<Rightarrow> ('x, 'f) mna_direct" where
  "updateGens C S = S\<lparr>objs := fold (genUpdateVoltage C (mLeftSideVector S)) (mSyncGen (mnaBase S)) (objs S)\<rparr>"

text \<open>Asking every generator whether it needs another iteration.\<close>

definition countIterating :: "'x mna_methods \<Rightarrow> nat list \<Rightarrow> 'x world \<Rightarrow> nat \<times> 'x world" where
  "countIterating C ps W = fold (\<lambda>p (n, W). let (r, W') = requiresIteration C p W
     in (if r then n + 1 else n, W')) ps (0, W)"

definition iterateStep ::
  "'x mna_methods \<Rightarrow> 'f direct_solver \<Rightarrow> ('x, 'f) mna_direct \<Rightarrow> error + ('x, 'f) mna_direct" where
  "iterateStep C D S =
     (let S1 = switchStep C (S\<lparr>mIter := mIter S + 1, mRightSideVector := setZero (mRightSideVector S)\<rparr>);
          S2 = S1\<lparr>objs := fold (correctorStep C) (mSyncGen (mnaBase S1)) (objs S1)\<rparr>
      in bind_err (solveCurrent D (sumRightVectors C S2)) (\<lambda>S3. ok (updateGens C S3)))"

text \<open>The loop of the iterative generator models; \<open>None\<close> is a loop that never ends.\<close>

partial_function (option) iterateGens ::
  "'x mna_methods \<Rightarrow> 'f direct_solver \<Rightarrow> ('x, 'f) mna_direct \<Rightarrow> (error + ('x, 'f) mna_direct) option" where
  "iterateGens C D S =
     (let (n, W) = countIterating C (mSyncGen (mnaBase S)) (objs S); S1 = S\<lparr>objs := W\<rparr>
      in if n = 0 then Some (ok S1)
         else case iterateStep C D S1 of Inl e \<Rightarrow> Some (throw e) | Inr S2 \<Rightarrow> iterateGens C D S2)"

definition solve ::
  "'x mna_methods \<Rightarrow> 'f direct_solver \<Rightarrow> ('x, 'f) mna_direct \<Rightarrow> (error + ('x, 'f) mna_direct) option" where
  "solve C D S =
     (case solveCurrent D (switchStep C (sumRightVectors C S)) of Inl e \<Rightarrow> Some (throw e)
      | Inr S1 \<Rightarrow> let S2 = (updateGens C S1)\<lparr>mIter := 0\<rparr> in
         Option.bind (if mSyncGen (mnaBase S2) = [] then Some (ok S2) else iterateGens C D S2) (\<lambda>r. Some (
           bind_err r (\<lambda>S3. updateNodes (S3\<lparr>mSystemMatrixChanged :=
              mCurrentSwitchStatus S3 \<noteq> mCurrentSwitchStatus S\<rparr>)))))"

text \<open>\<open>solveWithHarmonics\<close>: the column of the frequency of every right vector, solved with the
  factorization of the frequency.  The solution goes to the attribute of the frequency.\<close>

definition solveWithHarmonics ::
  "'x mna_methods \<Rightarrow> 'f direct_solver \<Rightarrow> nat \<Rightarrow> ('x, 'f) mna_direct
   \<Rightarrow> error + real matrix \<times> ('x, 'f) mna_direct" where
  "solveWithHarmonics C D freqIdx S =
     bind_err (vec_at (mRightSideVectorHarm S) freqIdx) (\<lambda>b0.
     let b = fold (\<lambda>p b. let V = getRightVector C (objs S) p
                in mat_add b (mkmat (mrows V) 1 (\<lambda>i j. ent V i freqIdx))) (mRightVectorStamps S) (setZero b0)
     in bind_err (vec_set (mRightSideVectorHarm S) freqIdx b) (\<lambda>bs.
        bind_err (vec_at (edges_at (mDirectLinearSolvers S) (mCurrentSwitchStatus S)) freqIdx) (\<lambda>f.
          ok (lusolve D f b, S\<lparr>mRightSideVectorHarm := bs\<rparr>))))"

end
