(* ===== verification/MnaSolve.thy ===== *)
theory MnaSolve
  imports MnaDirect
begin

text \<open>What the solver of theory MnaDirect computes.  The locale \<open>mna_components\<close> states what
  it relies on: a component adds its own equations to the rows of the system matrix.  Inside
  it, every precomputed matrix is the sum of the stamps for its combination of switch states,
  and a solved step satisfies the equations of all components with the switches in the
  states they have.\<close>

section \<open>Switch states as bits\<close>

lemma word_of_nat_eq64:
  assumes "i < 2 ^ n" "j < 2 ^ n" "n < 64" "(word_of_nat i :: 64 word) = word_of_nat j"
  shows "i = j"
proof -
  have le: "2 ^ n \<le> (2 :: nat) ^ 64" using assms(3) by (intro power_increasing) auto
  have "unat (word_of_nat m :: 64 word) = m" if "m < 2 ^ n" for m
    using that le by (simp add: unat_of_nat take_bit_nat_eq_self)
  then show ?thesis using assms(1,2,4) by metis
qed

lemma unat_low_bits:
  assumes "\<And>i. n \<le> i \<Longrightarrow> \<not> bit (w :: 64 word) i"
  shows "unat w < 2 ^ n"
proof -
  have "take_bit n (unat w) = unat w"
    by (rule bit_eqI) (use assms in \<open>auto simp: bit_take_bit_iff bit_unsigned_iff, metis not_le\<close>)
  then show ?thesis by (metis take_bit_nat_less_exp)
qed

lemma status_bits:
  fixes w :: "64 word"
  assumes "length ps + k \<le> 64"
  shows "bit (fold (\<lambda>(i, p) w. if P p then set_bit i w else unset_bit i w) (enumerate k ps) w) j
    \<longleftrightarrow> (if k \<le> j \<and> j < k + length ps then P (ps ! (j - k)) else bit w j)"
  using assms
proof (induction ps arbitrary: k w)
  case (Cons p ps)
  have "bit (if P p then set_bit k w else unset_bit k w) j \<longleftrightarrow> (if j = k then P p else bit w j)"
    using Cons.prems by (auto simp: bit_set_bit_iff bit_unset_bit_iff possible_bit_word)
  then show ?case using Cons by (auto simp: nth_Cons' Suc_le_eq)
qed auto

section \<open>The maps of matrices and solvers\<close>

text \<open>A loop over distinct indices, each step turning \<open>P i\<close> into \<open>Q i\<close> and leaving the other
  indices alone.\<close>

lemma foldE_each:
  assumes "distinct is" "I S" "\<And>i. i \<in> set is \<Longrightarrow> P i S"
    and "\<And>i S. i \<in> set is \<Longrightarrow> I S \<Longrightarrow> P i S \<Longrightarrow> \<exists>S'. f i S = ok S' \<and> I S' \<and> Q i S'
        \<and> (\<forall>j\<in>set is. j \<noteq> i \<longrightarrow> (P j S \<longrightarrow> P j S') \<and> (Q j S \<longrightarrow> Q j S'))"
  shows "\<exists>S'. foldE f is S = ok S' \<and> I S' \<and> (\<forall>i\<in>set is. Q i S')"
proof -
  have "\<exists>S'. foldE f ys S = ok S' \<and> I S' \<and> (\<forall>i\<in>set xs \<union> set ys. Q i S')"
    if "is = xs @ ys" "I S" "\<forall>i\<in>set xs. Q i S" "\<forall>i\<in>set ys. P i S" for xs ys S
    using that
  proof (induction ys arbitrary: xs S)
    case (Cons y ys)
    have y: "y \<in> set is" "P y S" using Cons.prems by auto
    obtain S1 where S1: "f y S = ok S1" "I S1" "Q y S1"
      "\<And>j. j \<in> set is \<Longrightarrow> j \<noteq> y \<Longrightarrow> (P j S \<longrightarrow> P j S1) \<and> (Q j S \<longrightarrow> Q j S1)"
      using assms(4) [OF y(1) Cons.prems(2) y(2)] by blast
    have fresh: "y \<notin> set xs" "y \<notin> set ys" using assms(1) Cons.prems(1) by auto
    have "\<forall>i\<in>set (xs @ [y]). Q i S1" "\<forall>i\<in>set ys. P i S1"
      using Cons.prems S1(3,4) fresh by auto
    then show ?case using Cons.IH [of "xs @ [y]" S1] Cons.prems(1) S1(1,2) by auto
  qed simp
  from this [of "[]" "is" S] assms(2,3) show ?thesis by simp
qed

text \<open>The fields the loops over the combinations leave alone.\<close>

definition keeps :: "('x, 'f) mna_direct \<Rightarrow> ('x, 'f) mna_direct \<Rightarrow> bool" where
  "keeps S S' \<longleftrightarrow> S' = S\<lparr>mSwitchedMatrices := mSwitchedMatrices S', mDirectLinearSolvers := mDirectLinearSolvers S'\<rparr>"

lemma keepsD:
  assumes "keeps S S'"
  shows "objs S' = objs S" "mnaBase S' = mnaBase S" "mCurrentSwitchStatus S' = mCurrentSwitchStatus S"
    "mListVariableSystemMatrixEntries S' = mListVariableSystemMatrixEntries S"
    "mRightSideVector S' = mRightSideVector S" "mRightVectorStamps S' = mRightVectorStamps S"
    "mIsInInitialization S' = mIsInInitialization S" "mLeftSideVector S' = mLeftSideVector S"
  using assms by (metis keeps_def mna_direct.select_convs mna_direct.update_convs mna_direct.surjective)+

lemma keeps_refl: "keeps S S"
  by (simp add: keeps_def)

lemma keeps_trans: "keeps S S1 \<Longrightarrow> keeps S1 S2 \<Longrightarrow> keeps S S2"
  unfolding keeps_def by (cases S, cases S1, cases S2) simp

lemma keeps_upd: "keeps S (S\<lparr>mSwitchedMatrices := m, mDirectLinearSolvers := f\<rparr>)" "keeps S (S\<lparr>mSwitchedMatrices := m\<rparr>)"
  by (simp_all add: keeps_def)

abbreviation matrixAt :: "('x, 'f) mna_direct \<Rightarrow> nat \<Rightarrow> real matrix list" where
  "matrixAt S i \<equiv> edges_at (mSwitchedMatrices S) (word_of_nat i)"

abbreviation solverAt :: "('x, 'f) mna_direct \<Rightarrow> nat \<Rightarrow> 'f list" where
  "solverAt S i \<equiv> edges_at (mDirectLinearSolvers S) (word_of_nat i)"

definition blank :: "nat \<Rightarrow> 'f direct_solver \<Rightarrow> ('x, 'f) mna_direct \<Rightarrow> nat \<Rightarrow> bool" where
  "blank k D S i \<longleftrightarrow> matrixAt S i = [zeros k k] \<and> solverAt S i = [newSolver D]"

lemma zeros_square [simp]: "setZero (zeros r c) = zeros r c" "mrows (zeros r c) = r" "mcols (zeros r c) = c"
  by (simp_all add: setZero_def zeros_def)

lemma pushMatrices_blank:
  assumes "n < 64"
  shows "keeps S (pushMatrices D k 1 (2 ^ n) S) \<and> (mSwitchedMatrices S = [] \<longrightarrow> mDirectLinearSolvers S = [] \<longrightarrow>
     (\<forall>i < 2 ^ n. blank k D (pushMatrices D k 1 (2 ^ n) S) i))"
proof -
  have fold: "keeps S (pushMatrices D k 1 m S) \<and>
      ((\<forall>i. matrixAt S i = [] \<and> solverAt S i = []) \<longrightarrow>
        (\<forall>i < 2 ^ n. if i < m then blank k D (pushMatrices D k 1 m S) i
                   else matrixAt (pushMatrices D k 1 m S) i = [] \<and> solverAt (pushMatrices D k 1 m S) i = []))"
    if "m \<le> 2 ^ n" for m
    using that
  proof (induction m)
    case (Suc m)
    let ?S = "pushMatrices D k 1 m S"
    have eq: "pushMatrices D k 1 (Suc m) S = pushMatrix D k m ?S" by (simp add: pushMatrices_def)
    have IH: "keeps S ?S" "(\<forall>i. matrixAt S i = [] \<and> solverAt S i = []) \<Longrightarrow> i < 2 ^ n \<Longrightarrow>
        if i < m then blank k D ?S i else matrixAt ?S i = [] \<and> solverAt ?S i = []" for i
      using Suc by auto
    have ne: "(word_of_nat i :: 64 word) = word_of_nat m \<longleftrightarrow> i = m" if "i < 2 ^ n" for i
      using word_of_nat_eq64 [OF that _ assms, of m] Suc.prems by auto
    have "keeps S (pushMatrix D k m ?S)"
      by (rule keeps_trans [OF IH(1)]) (simp add: pushMatrix_def Let_def keeps_upd)
    moreover have "if i < Suc m then blank k D (pushMatrix D k m ?S) i
         else matrixAt (pushMatrix D k m ?S) i = [] \<and> solverAt (pushMatrix D k m ?S) i = []"
      if "\<forall>i. matrixAt S i = [] \<and> solverAt S i = []" "i < 2 ^ n" for i
      using IH(2) [OF that] IH(2) [OF that(1), of m] Suc.prems ne [OF that(2)]
      by (auto simp: pushMatrix_def Let_def blank_def edge_simps split: if_splits)
    ultimately show ?case unfolding eq by blast
  qed (simp add: pushMatrices_def keeps_refl)
  show ?thesis using fold [of "2 ^ n"] by (auto split: if_splits)
qed

text \<open>The matrix of a combination of switch states, and what the maps hold for it after
  the initialisation.\<close>

definition systemMatrix ::
  "'x mna_methods \<Rightarrow> 'x world \<Rightarrow> mna_solver \<Rightarrow> nat \<Rightarrow> 64 word \<Rightarrow> error + real matrix" where
  "systemMatrix C W L k w =
     bind_err (stampComps C W (mMNAComponents L) (zeros k k)) (stampSwitches C W w (mSwitches L))"

definition precomputed ::
  "'x mna_methods \<Rightarrow> 'f direct_solver \<Rightarrow> nat \<Rightarrow> ('x, 'f) mna_direct \<Rightarrow> nat \<Rightarrow> bool" where
  "precomputed C D k S i \<longleftrightarrow> (\<exists>M. systemMatrix C (objs S) (mnaBase S) k (word_of_nat i) = ok M \<and> matrixAt S i = [M]
     \<and> solverAt S i = [factorize D (preprocessing D (newSolver D) M (mListVariableSystemMatrixEntries S)) M])"

lemma vec_single [simp]: "vec_at [x] 0 = ok x" "vec_set [x] 0 y = ok [y]"
  by (simp_all add: vec_at_def vec_set_def)

lemma empty_loop:
  assumes "n < 64" "\<And>i. i < 2 ^ n \<Longrightarrow> blank k D S i"
  shows "\<exists>S'. foldE switchedMatrixEmpty [0..<2 ^ n] S = ok S' \<and> keeps S S' \<and> (\<forall>i < 2 ^ n. blank k D S' i)"
proof -
  have "\<exists>S'. foldE switchedMatrixEmpty [0..<2 ^ n] S = ok S' \<and> keeps S S' \<and> (\<forall>i\<in>set [0..<2 ^ n]. blank k D S' i)"
  proof (rule foldE_each [where P = "\<lambda>i S. blank k D S i"])
    fix i S1 assume i: "i \<in> set [0..<2 ^ n]" and S1: "keeps S S1" "blank k D S1 i"
    then have ms: "matrixAt S1 i = [zeros k k]" by (simp add: blank_def)
    let ?S = "S1\<lparr>mSwitchedMatrices := edges_set (mSwitchedMatrices S1) (word_of_nat i) [zeros k k]\<rparr>"
    have "switchedMatrixEmpty i S1 = ok ?S"
      by (simp add: switchedMatrixEmpty_def emptyAt_def ms Let_def)
    moreover have "matrixAt ?S j = matrixAt S1 j" "solverAt ?S j = solverAt S1 j" for j
      using ms by (simp_all add: edge_simps)
    then have "blank k D ?S j = blank k D S1 j" for j by (simp add: blank_def)
    ultimately show "\<exists>S'. switchedMatrixEmpty i S1 = ok S' \<and> keeps S S' \<and> blank k D S' i
        \<and> (\<forall>j\<in>set [0..<2 ^ n]. j \<noteq> i \<longrightarrow> (blank k D S1 j \<longrightarrow> blank k D S' j) \<and> (blank k D S1 j \<longrightarrow> blank k D S' j))"
      using S1(2) by (intro exI [of _ ?S]) (simp add: keeps_trans [OF S1(1) keeps_upd(2)])
  qed (use assms keeps_refl in auto)
  then show ?thesis by (simp add: Ball_def)
qed

lemma stamp_loop:
  assumes "n < 64" "\<forall>i\<in>set is. i < 2 ^ n" "distinct is" "\<And>i. i \<in> set is \<Longrightarrow> blank k D S i"
    and "\<And>w. \<exists>M. systemMatrix C (objs S) (mnaBase S) k w = ok M"
  shows "\<exists>S'. foldE (switchedMatrixStamp C D) is S = ok S' \<and> keeps S S' \<and> (\<forall>i\<in>set is. precomputed C D k S' i)"
proof (rule foldE_each [where P = "\<lambda>i S. blank k D S i"])
  fix i S1 assume i: "i \<in> set is" and S1: "keeps S S1" "blank k D S1 i"
  obtain M where M: "systemMatrix C (objs S) (mnaBase S) k (word_of_nat i) = ok M" using assms(5) by blast
  let ?f = "factorize D (preprocessing D (newSolver D) M (mListVariableSystemMatrixEntries S)) M"
  let ?S = "S1\<lparr>mSwitchedMatrices := edges_set (mSwitchedMatrices S1) (word_of_nat i) [M],
               mDirectLinearSolvers := edges_set (mDirectLinearSolvers S1) (word_of_nat i) [?f]\<rparr>"
  have b: "matrixAt S1 i = [zeros k k]" "solverAt S1 i = [newSolver D]"
    using S1(2) by (simp_all add: blank_def)
  have "switchedMatrixStamp C D i S1 = ok ?S"
    using M unfolding systemMatrix_def
    by (auto simp: switchedMatrixStamp_def Let_def b keepsD [OF S1(1)])
  moreover have "matrixAt ?S j = matrixAt S1 j \<and> solverAt ?S j = solverAt S1 j" if "j \<in> set is" "j \<noteq> i" for j
    using word_of_nat_eq64 [OF _ _ assms(1), of j i] that i assms(2) by (auto simp: edge_simps)
  moreover have "precomputed C D k ?S i"
    unfolding precomputed_def using M by (simp add: edge_simps keepsD [OF S1(1)])
  ultimately show "\<exists>S'. switchedMatrixStamp C D i S1 = ok S' \<and> keeps S S' \<and> precomputed C D k S' i
      \<and> (\<forall>j\<in>set is. j \<noteq> i \<longrightarrow> (blank k D S1 j \<longrightarrow> blank k D S' j)
           \<and> (precomputed C D k S1 j \<longrightarrow> precomputed C D k S' j))"
    by (intro exI [of _ ?S]) (simp add: keeps_trans [OF S1(1) keeps_upd(1)] blank_def precomputed_def)
qed (use assms keeps_refl in auto)

section \<open>The equations of the components\<close>

definition square :: "nat \<Rightarrow> real matrix \<Rightarrow> bool" where
  "square k M \<longleftrightarrow> mrows M = k \<and> mcols M = k"

text \<open>Row \<open>a\<close> of the system applied to the unknowns \<open>v\<close>.\<close>

abbreviation lhs :: "real matrix \<Rightarrow> real matrix \<Rightarrow> nat \<Rightarrow> real" where
  "lhs M v a \<equiv> ent (mat_mult M v) a 0"

text \<open>\<open>row W p v a\<close> is what component \<open>p\<close> adds to row \<open>a\<close> at the unknowns \<open>v\<close>, \<open>swrow\<close> the
  same for a switch in a given state; \<open>fit k W p\<close> says that the component is connected to a
  system with \<open>k\<close> rows.\<close>

locale mna_components =
  fixes C :: "'x mna_methods" and fit :: "nat \<Rightarrow> 'x world \<Rightarrow> nat \<Rightarrow> bool"
    and row :: "'x world \<Rightarrow> nat \<Rightarrow> real matrix \<Rightarrow> nat \<Rightarrow> real"
    and swrow :: "'x world \<Rightarrow> nat \<Rightarrow> bool \<Rightarrow> real matrix \<Rightarrow> nat \<Rightarrow> real"
  assumes stamp: "\<lbrakk>fit k W p; square k M\<rbrakk> \<Longrightarrow> \<exists>M'. mnaApplySystemMatrixStamp C W p M = ok M' \<and> square k M'
        \<and> (\<forall>v a. a < k \<longrightarrow> lhs M' v a = lhs M v a + row W p v a)"
    and switch_stamp: "\<lbrakk>fit k W p; square k M\<rbrakk> \<Longrightarrow> \<exists>M'. mnaApplySwitchSystemMatrixStamp C W p cl M = ok M'
        \<and> square k M' \<and> (\<forall>v a. a < k \<longrightarrow> lhs M' v a = lhs M v a + swrow W p cl v a)"
begin

lemma stampComps_rows:
  assumes "\<And>p. p \<in> set ps \<Longrightarrow> fit k W p" "square k M"
  shows "\<exists>M'. stampComps C W ps M = ok M' \<and> square k M'
    \<and> (\<forall>v a. a < k \<longrightarrow> lhs M' v a = lhs M v a + (\<Sum>p\<leftarrow>ps. row W p v a))"
  using assms
proof (induction ps arbitrary: M)
  case (Cons p ps)
  obtain M1 where M1: "mnaApplySystemMatrixStamp C W p M = ok M1" "square k M1"
    "\<And>v a. a < k \<Longrightarrow> lhs M1 v a = lhs M v a + row W p v a"
    using stamp [of k W p M] Cons.prems by auto
  obtain M' where M': "stampComps C W ps M1 = ok M'" "square k M'"
    "\<And>v a. a < k \<Longrightarrow> lhs M' v a = lhs M1 v a + (\<Sum>p\<leftarrow>ps. row W p v a)"
    using Cons.IH [OF _ M1(2)] Cons.prems(1) by auto
  show ?case using M1 M' by (intro exI [of _ M']) (simp add: stampComps_def)
qed (simp add: stampComps_def)

lemma foldE_switches_rows:
  assumes "\<And>p. p \<in> set ps \<Longrightarrow> fit k W p" "square k M"
  shows "\<exists>M'. foldE (\<lambda>(i, p). mnaApplySwitchSystemMatrixStamp C W p (bit w i)) (enumerate n ps) M = ok M'
    \<and> square k M' \<and> (\<forall>v a. a < k \<longrightarrow> lhs M' v a = lhs M v a
        + (\<Sum>(i, p)\<leftarrow>enumerate n ps. swrow W p (bit w i) v a))"
  using assms
proof (induction ps arbitrary: M n)
  case (Cons p ps)
  obtain M1 where M1: "mnaApplySwitchSystemMatrixStamp C W p (bit w n) M = ok M1" "square k M1"
    "\<And>v a. a < k \<Longrightarrow> lhs M1 v a = lhs M v a + swrow W p (bit w n) v a"
    using switch_stamp [of k W p M "bit w n"] Cons.prems by auto
  obtain M' where M': "foldE (\<lambda>(i, p). mnaApplySwitchSystemMatrixStamp C W p (bit w i))
      (enumerate (Suc n) ps) M1 = ok M'" "square k M'"
    "\<And>v a. a < k \<Longrightarrow> lhs M' v a = lhs M1 v a + (\<Sum>(i, p)\<leftarrow>enumerate (Suc n) ps. swrow W p (bit w i) v a)"
    using Cons.IH [OF _ M1(2), of "Suc n"] Cons.prems(1) by auto
  show ?case using M1 M' by (intro exI [of _ M']) simp
qed simp

lemma stampSwitches_rows:
  assumes "\<And>p. p \<in> set ps \<Longrightarrow> fit k W p" "square k M"
  shows "\<exists>M'. stampSwitches C W w ps M = ok M' \<and> square k M' \<and> (\<forall>v a. a < k \<longrightarrow> lhs M' v a = lhs M v a
    + (\<Sum>(i, p)\<leftarrow>enumerate 0 ps. swrow W p (bit w i) v a))"
  unfolding stampSwitches_def by (rule foldE_switches_rows [OF assms])

text \<open>So every matrix exists, and its rows are the equations of all components with the
  switches in the states of the combination.\<close>

definition rows :: "'x world \<Rightarrow> mna_solver \<Rightarrow> 64 word \<Rightarrow> real matrix \<Rightarrow> nat \<Rightarrow> real" where
  "rows W L w v a = (\<Sum>p\<leftarrow>mMNAComponents L. row W p v a)
     + (\<Sum>(i, p)\<leftarrow>enumerate 0 (mSwitches L). swrow W p (bit w i) v a)"

definition fits :: "nat \<Rightarrow> 'x world \<Rightarrow> mna_solver \<Rightarrow> bool" where
  "fits k W L \<longleftrightarrow> (\<forall>p\<in>set (mMNAComponents L) \<union> set (mSwitches L). fit k W p)"

lemma systemMatrix_rows:
  assumes "fits k W L"
  shows "\<exists>M. systemMatrix C W L k w = ok M \<and> square k M \<and> (\<forall>v a. a < k \<longrightarrow> lhs M v a = rows W L w v a)"
proof -
  have z: "square k (zeros k k)" "lhs (zeros k k) v a = 0" for v a
    by (simp_all add: square_def zeros_def mat_mult_def)
  obtain M where M: "stampComps C W (mMNAComponents L) (zeros k k) = ok M" "square k M"
    "\<And>v a. a < k \<Longrightarrow> lhs M v a = (\<Sum>p\<leftarrow>mMNAComponents L. row W p v a)"
    using stampComps_rows [of "mMNAComponents L" k W "zeros k k"] z assms by (auto simp: fits_def)
  obtain M' where M': "stampSwitches C W w (mSwitches L) M = ok M'" "square k M'"
    "\<And>v a. a < k \<Longrightarrow> lhs M' v a = lhs M v a + (\<Sum>(i, p)\<leftarrow>enumerate 0 (mSwitches L). swrow W p (bit w i) v a)"
    using stampSwitches_rows [of "mSwitches L" k W M w] M(2) assms by (auto simp: fits_def)
  show ?thesis using M M' by (intro exI [of _ M']) (simp add: systemMatrix_def rows_def)
qed

lemma precompute_ok:
  assumes "length (mSwitches (mnaBase S)) < 64" "\<And>i. i < 2 ^ length (mSwitches (mnaBase S)) \<Longrightarrow> blank k D S i"
    and "fits k (objs S) (mnaBase S)"
  shows "\<exists>S2. initializeSystemWithPrecomputedMatrices C D S
       = initRightSide C (if mSwitches (mnaBase S) = [] then S2 else updateSwitchStatus C S2)
    \<and> keeps S S2 \<and> (\<forall>i < 2 ^ length (mSwitches (mnaBase S)). precomputed C D k S2 i)"
proof -
  let ?n = "length (mSwitches (mnaBase S))"
  have combos: "switchCombinations S = ok (2 ^ ?n)" using assms(1) by (simp add: switchCombinations_def Let_def)
  obtain S1 where S1: "foldE switchedMatrixEmpty [0..<2 ^ ?n] S = ok S1" "keeps S S1" "\<forall>i < 2 ^ ?n. blank k D S1 i"
    using empty_loop [OF assms(1,2)] by blast
  have sys: "\<exists>M. systemMatrix C (objs S1) (mnaBase S1) k w = ok M" for w
    using systemMatrix_rows [OF assms(3)] unfolding keepsD(1,2) [OF S1(2)] by blast
  obtain S2 where S2: "foldE (switchedMatrixStamp C D) [0..<2 ^ ?n] S1 = ok S2" "keeps S1 S2"
    "\<forall>i\<in>set [0..<2 ^ ?n]. precomputed C D k S2 i"
    using stamp_loop [OF assms(1), of "[0..<2 ^ ?n]" k D S1 C] S1(3) sys by (simp add: Ball_def) blast
  have stamped: "(if length (mSwitches (mnaBase S1)) < 1 then switchedMatrixStamp C D 0 S1
       else bind_err (foldE (switchedMatrixStamp C D) [0..<2 ^ ?n] S1) (\<lambda>S2. ok (updateSwitchStatus C S2)))
     = ok (if mSwitches (mnaBase S) = [] then S2 else updateSwitchStatus C S2)"
    using S2(1) keepsD(2) [OF S1(2)] by (auto split: sum.splits simp: bind_err_def)
  have "initializeSystemWithPrecomputedMatrices C D S
       = initRightSide C (if mSwitches (mnaBase S) = [] then S2 else updateSwitchStatus C S2)"
    unfolding initializeSystemWithPrecomputedMatrices_def combos S1(1) bind_err_simps stamped by simp
  then show ?thesis using keeps_trans [OF S1(2) S2(2)] S2(3) by auto
qed

section \<open>Solving with a precomputed matrix\<close>

text \<open>The equations with every switch in the state it has.\<close>

definition rowsNow :: "'x world \<Rightarrow> mna_solver \<Rightarrow> real matrix \<Rightarrow> nat \<Rightarrow> real" where
  "rowsNow W L v a = (\<Sum>p\<leftarrow>mMNAComponents L. row W p v a)
     + (\<Sum>p\<leftarrow>mSwitches L. swrow W p (mnaIsClosed C W p) v a)"

lemma rows_status:
  assumes "length (mSwitches L) \<le> 64" "w = mCurrentSwitchStatus (updateSwitchStatus C S)" "mnaBase S = L"
  shows "rows W L w v a = (\<Sum>p\<leftarrow>mMNAComponents L. row W p v a)
     + (\<Sum>p\<leftarrow>mSwitches L. swrow W p (mnaIsClosed C (objs S) p) v a)"
proof -
  have "bit w i \<longleftrightarrow> mnaIsClosed C (objs S) p" if "(i, p) \<in> set (enumerate 0 (mSwitches L))" for i p
    using that assms status_bits [of "mSwitches L" 0 "mnaIsClosed C (objs S)" "mCurrentSwitchStatus S" i]
    by (auto simp: in_set_enumerate_eq updateSwitchStatus_def)
  then have "map (\<lambda>(i, p). swrow W p (bit w i) v a) (enumerate 0 (mSwitches L))
      = map (\<lambda>(i, p). swrow W p (mnaIsClosed C (objs S) p) v a) (enumerate 0 (mSwitches L))"
    by (intro map_cong) auto
  moreover have "map (\<lambda>(i, p). f p) (enumerate n ps) = map f ps" for f :: "nat \<Rightarrow> real" and n ps
    by (induction ps arbitrary: n) auto
  ultimately show ?thesis by (simp add: rows_def)
qed

end

text \<open>The sum of the right vectors.\<close>

lemma sumRightVectors_ent:
  "ent (mRightSideVector (sumRightVectors C S)) a 0 = (\<Sum>p\<leftarrow>mRightVectorStamps S. ent (getRightVector C (objs S) p) a 0)"
  "mrows (mRightSideVector (sumRightVectors C S)) = mrows (mRightSideVector S)"
proof -
  have "ent (fold (\<lambda>p b. mat_add b (f p)) ps b) a 0 = ent b a 0 + (\<Sum>p\<leftarrow>ps. ent (f p) a 0)
    \<and> mrows (fold (\<lambda>p b. mat_add b (f p)) ps b) = mrows b" for f :: "nat \<Rightarrow> real matrix" and ps b
    by (induction ps arbitrary: b) (simp_all add: mat_add_def)
  then show "ent (mRightSideVector (sumRightVectors C S)) a 0 = (\<Sum>p\<leftarrow>mRightVectorStamps S. ent (getRightVector C (objs S) p) a 0)"
    "mrows (mRightSideVector (sumRightVectors C S)) = mrows (mRightSideVector S)"
    by (simp_all add: sumRightVectors_def setZero_def)
qed

text \<open>Reading the node voltages never fails, and only changes the voltages.\<close>

lemma readPhases_ok:
  assumes "node_ok n"
  shows "\<exists>V. readPhases read freq n = ok (n\<lparr>mVoltage := V\<rparr>)"
proof -
  have "length (mMatrixNodeIndex n) = node_rows n" using assms by (simp add: node_ok_def)
  then show ?thesis by (auto simp: readPhases_def Let_def node_rows_def vec_at_def)
qed

lemma mnaUpdateVoltage_ok:
  assumes "node_ok n"
  shows "\<exists>V. Components.mnaUpdateVoltage x n = ok (n\<lparr>mVoltage := V\<rparr>)"
proof (cases "nodeVar n")
  case RealVar
  then show ?thesis using readPhases_ok [OF assms] by (simp add: mnaUpdateVoltage_def)
next
  case ComplexVar
  have "\<exists>V. readFreqs x fs n = ok (n\<lparr>mVoltage := V\<rparr>)" if "node_ok n" for fs n
    using that
  proof (induction fs arbitrary: n)
    case Nil
    show ?case by (simp, rule exI [of _ "mVoltage n"]) simp
  next
    case (Cons f fs)
    obtain V where V: "readPhases (\<lambda>i. complexFromVectorElement x i (nodeNumFreqs n) f) f n = ok (n\<lparr>mVoltage := V\<rparr>)"
      using readPhases_ok [OF Cons.prems] by blast
    have "node_ok (n\<lparr>mVoltage := V\<rparr>)" using Cons.prems by (simp add: node_ok_def node_rows_def)
    then show ?case using Cons.IH [of "n\<lparr>mVoltage := V\<rparr>"] V by auto
  qed
  then show ?thesis using ComplexVar assms by (simp add: mnaUpdateVoltage_def)
qed

definition voltagesOnly :: "store \<Rightarrow> store \<Rightarrow> bool" where
  "voltagesOnly H H' \<longleftrightarrow> compAt H' = compAt H \<and> (\<forall>p. \<exists>V. nodeAt H' p = (nodeAt H p)\<lparr>mVoltage := V\<rparr>)"

lemma voltagesOnly_nodes_ok: "voltagesOnly H H' \<Longrightarrow> nodes_ok H \<Longrightarrow> nodes_ok H'"
  unfolding voltagesOnly_def nodes_ok_def node_ok_def node_rows_def
  by (metis simNode.select_convs(4,6) simNode.surjective simNode.update_convs(10))

lemma voltagesOnly_trans: "voltagesOnly H H1 \<Longrightarrow> voltagesOnly H1 H2 \<Longrightarrow> voltagesOnly H H2"
  by (simp add: voltagesOnly_def) (metis simNode.surjective simNode.update_convs(10))

lemma updateNodes_ok:
  assumes "nodes_ok (fst (objs S))"
  shows "\<exists>H'. updateNodes S = ok (S\<lparr>objs := (H', snd (objs S))\<rparr>) \<and> voltagesOnly (fst (objs S)) H'"
proof -
  have "\<exists>H'. foldE (\<lambda>p H. bind_err (Components.mnaUpdateVoltage (mLeftSideVector S) (nodeAt H p))
         (\<lambda>n. ok (updNode p (\<lambda>_. n) H))) ps H = ok H' \<and> voltagesOnly H H'" if "nodes_ok H" for ps H
    using that
  proof (induction ps arbitrary: H)
    case Nil
    show ?case by (simp add: voltagesOnly_def) (metis simNode.surjective simNode.update_convs(10))
  next
    case (Cons p ps)
    obtain V where V: "Components.mnaUpdateVoltage (mLeftSideVector S) (nodeAt H p) = ok ((nodeAt H p)\<lparr>mVoltage := V\<rparr>)"
      using mnaUpdateVoltage_ok [of "nodeAt H p" "mLeftSideVector S"] Cons.prems unfolding nodes_ok_def by blast
    let ?H = "updNode p (\<lambda>_. (nodeAt H p)\<lparr>mVoltage := V\<rparr>) H"
    have vo: "voltagesOnly H ?H" by (auto simp: voltagesOnly_def) (metis simNode.surjective simNode.update_convs(10))
    show ?case using Cons.IH [OF voltagesOnly_nodes_ok [OF vo Cons.prems]] V voltagesOnly_trans [OF vo] by auto
  qed
  from this [OF assms, of "take (mNumNetNodes (mnaBase S)) (mSimNodes (mnaBase S))"]
  show ?thesis unfolding updateNodes_def by fastforce
qed

context mna_components
begin

text \<open>\<open>lu_ok\<close>: the factorization the solver keeps for a matrix solves its equations.\<close>

definition lu_ok :: "nat \<Rightarrow> 'f direct_solver \<Rightarrow> ('x, 'f) mna_direct \<Rightarrow> real matrix \<Rightarrow> bool" where
  "lu_ok k D S M \<longleftrightarrow> (\<forall>b a. mrows b = k \<longrightarrow> a < k \<longrightarrow>
     lhs M (lusolve D (factorize D (preprocessing D (newSolver D) M (mListVariableSystemMatrixEntries S)) M) b) a
     = ent b a 0)"

text \<open>\<open>ready k D S W0\<close>: the maps hold what the initialisation in the world \<open>W0\<close> has put there,
  and the components have not changed their equations since.\<close>

definition ready :: "nat \<Rightarrow> 'f direct_solver \<Rightarrow> ('x, 'f) mna_direct \<Rightarrow> 'x world \<Rightarrow> bool" where
  "ready k D S W0 \<longleftrightarrow> length (mSwitches (mnaBase S)) < 64 \<and> fits k W0 (mnaBase S)
     \<and> (\<forall>i < 2 ^ length (mSwitches (mnaBase S)). precomputed C D k (S\<lparr>objs := W0\<rparr>) i)
     \<and> (\<forall>j. length (mSwitches (mnaBase S)) \<le> j \<longrightarrow> \<not> bit (mCurrentSwitchStatus S) j)
     \<and> (\<forall>p\<in>set (mMNAComponents (mnaBase S)). row W0 p = row (objs S) p)
     \<and> (\<forall>p\<in>set (mSwitches (mnaBase S)). swrow W0 p = swrow (objs S) p)
     \<and> mrows (mRightSideVector S) = k \<and> nodes_ok (fst (objs S)) \<and> \<not> mIsInInitialization S"

lemma status_ready:
  assumes "ready k D S W0"
  shows "\<exists>i < 2 ^ length (mSwitches (mnaBase S)). mCurrentSwitchStatus (updateSwitchStatus C S) = word_of_nat i"
    "length (mSwitches (mnaBase S)) \<le> j \<Longrightarrow> \<not> bit (mCurrentSwitchStatus (updateSwitchStatus C S)) j"
proof -
  let ?w = "mCurrentSwitchStatus (updateSwitchStatus C S)"
  have hi: "\<not> bit ?w j" if "length (mSwitches (mnaBase S)) \<le> j" for j
    using assms that status_bits [of "mSwitches (mnaBase S)" 0 "mnaIsClosed C (objs S)" "mCurrentSwitchStatus S" j]
    by (simp add: updateSwitchStatus_def ready_def)
  then show "length (mSwitches (mnaBase S)) \<le> j \<Longrightarrow> \<not> bit ?w j" .
  have "unat ?w < 2 ^ length (mSwitches (mnaBase S))" by (rule unat_low_bits) (rule hi)
  then show "\<exists>i < 2 ^ length (mSwitches (mnaBase S)). ?w = word_of_nat i" by (intro exI [of _ "unat ?w"]) simp
qed

lemma solve_rows:
  assumes r: "ready k D S W0" and "mSyncGen (mnaBase S) = []"
    and lu: "\<forall>w M. systemMatrix C W0 (mnaBase S) k w = ok M \<longrightarrow> lu_ok k D S M"
  shows "\<exists>S' H'. solve C D S = Some (ok S')
     \<and> S' = S\<lparr>mRightSideVector := mRightSideVector S', mLeftSideVector := mLeftSideVector S',
          mCurrentSwitchStatus := mCurrentSwitchStatus S', mIter := 0,
          mSystemMatrixChanged := (mCurrentSwitchStatus S' \<noteq> mCurrentSwitchStatus S),
          objs := (H', snd (objs S))\<rparr>
     \<and> voltagesOnly (fst (objs S)) H' \<and> mrows (mRightSideVector S') = k
     \<and> (\<forall>j. length (mSwitches (mnaBase S)) \<le> j \<longrightarrow> \<not> bit (mCurrentSwitchStatus S') j)
     \<and> (\<forall>a < k. rowsNow (objs S) (mnaBase S) (mLeftSideVector S') a
          = (\<Sum>p\<leftarrow>mRightVectorStamps S. ent (getRightVector C (objs S) p) a 0))"
proof -
  let ?L = "mnaBase S"
  define S1 where "S1 = updateSwitchStatus C (sumRightVectors C S)"
  have S1: "S1 = S\<lparr>mRightSideVector := mRightSideVector S1, mCurrentSwitchStatus := mCurrentSwitchStatus S1\<rparr>"
    "mCurrentSwitchStatus S1 = mCurrentSwitchStatus (updateSwitchStatus C S)"
    "mRightSideVector S1 = mRightSideVector (sumRightVectors C S)"
    by (simp_all add: S1_def updateSwitchStatus_def sumRightVectors_def)
  obtain i where i: "i < 2 ^ length (mSwitches ?L)" "mCurrentSwitchStatus S1 = word_of_nat i"
    using status_ready(1) [OF r] S1(2) by auto
  have "precomputed C D k (S\<lparr>objs := W0\<rparr>) i" using r i(1) unfolding ready_def by blast
  then obtain M where M: "systemMatrix C W0 ?L k (word_of_nat i) = ok M" "matrixAt S i = [M]"
    "solverAt S i = [factorize D (preprocessing D (newSolver D) M (mListVariableSystemMatrixEntries S)) M]"
    by (auto simp: precomputed_def)
  let ?f = "factorize D (preprocessing D (newSolver D) M (mListVariableSystemMatrixEntries S)) M"
  let ?x = "lusolve D ?f (mRightSideVector S1)"
  let ?S2 = "S1\<lparr>mLeftSideVector := ?x\<rparr>"
  have nonempty: "mSwitchedMatrices S \<noteq> []" using M(2) by auto
  have cur: "mSwitchedMatrices S1 = mSwitchedMatrices S" "mDirectLinearSolvers S1 = mDirectLinearSolvers S"
    "mnaBase S1 = mnaBase S" "objs S1 = objs S" "mIsInInitialization S1 = mIsInInitialization S"
    by (simp_all add: S1_def updateSwitchStatus_def sumRightVectors_def)
  have run: "solveCurrent D (switchStep C (sumRightVectors C S)) = ok ?S2"
  proof -
    have "switchStep C (sumRightVectors C S) = S1"
      using r by (simp add: switchStep_def S1_def ready_def sumRightVectors_def)
    then show ?thesis using nonempty M(3) i(2) by (simp add: solveCurrent_def cur)
  qed
  let ?S3 = "?S2\<lparr>mIter := 0, mSystemMatrixChanged := (mCurrentSwitchStatus S1 \<noteq> mCurrentSwitchStatus S)\<rparr>"
  have gens: "updateGens C ?S2 = ?S2" using assms(2) by (simp add: updateGens_def cur)
  have ok3: "nodes_ok (fst (objs ?S3))" using r by (simp add: cur ready_def)
  obtain H' where H': "updateNodes ?S3 = ok (?S3\<lparr>objs := (H', snd (objs ?S3))\<rparr>)"
    "voltagesOnly (fst (objs ?S3)) H'"
    using updateNodes_ok [OF ok3] by blast
  have solved: "solve C D S = Some (ok (?S3\<lparr>objs := (H', snd (objs S))\<rparr>))"
    using H'(1) assms(2) by (simp add: solve_def run gens cur)
  have sys: "square k M" "lhs M v a = rows W0 ?L (word_of_nat i) v a" if "a < k" for v a
    using systemMatrix_rows [of k W0 ?L "word_of_nat i"] M(1) r that unfolding ready_def by auto
  have "rowsNow (objs S) ?L ?x a = (\<Sum>p\<leftarrow>mRightVectorStamps S. ent (getRightVector C (objs S) p) a 0)"
    if a: "a < k" for a
  proof -
    have "rowsNow (objs S) ?L ?x a = (\<Sum>p\<leftarrow>mMNAComponents ?L. row W0 p ?x a)
        + (\<Sum>p\<leftarrow>mSwitches ?L. swrow W0 p (mnaIsClosed C (objs S) p) ?x a)"
      unfolding rowsNow_def using r unfolding ready_def
      by (intro arg_cong2 [where f = "(+)"] arg_cong [where f = sum_list] map_cong) auto
    also have "\<dots> = rows W0 ?L (word_of_nat i) ?x a"
      by (rule rows_status [symmetric, where S = S]) (use r i(2) S1(2) in \<open>auto simp: ready_def\<close>)
    also have "\<dots> = lhs M ?x a" by (rule sys(2) [OF a, symmetric])
    also have "\<dots> = ent (mRightSideVector S1) a 0"
      using lu [rule_format, OF M(1)] a r unfolding lu_ok_def S1(3) ready_def by (simp add: sumRightVectors_ent(2))
    finally show ?thesis by (simp add: S1(3) sumRightVectors_ent(1))
  qed
  moreover have "mrows (mRightSideVector S1) = k" using r unfolding S1(3) ready_def by (simp add: sumRightVectors_ent(2))
  moreover have "\<forall>j. length (mSwitches ?L) \<le> j \<longrightarrow> \<not> bit (mCurrentSwitchStatus S1) j"
    using status_ready(2) [OF r] S1(2) by simp
  moreover have "?S3\<lparr>objs := (H', snd (objs S))\<rparr> = S\<lparr>mRightSideVector := mRightSideVector S1,
      mLeftSideVector := ?x, mCurrentSwitchStatus := mCurrentSwitchStatus S1, mIter := 0,
      mSystemMatrixChanged := (mCurrentSwitchStatus S1 \<noteq> mCurrentSwitchStatus S), objs := (H', snd (objs S))\<rparr>"
    by (simp add: S1_def updateSwitchStatus_def sumRightVectors_def)
  ultimately show ?thesis
    using solved H'(2)
    by (intro exI [of _ "?S3\<lparr>objs := (H', snd (objs S))\<rparr>"] exI [of _ H']) (auto simp: cur)
qed

end

end
