(* ===== verification/EmtPh1.thy ===== *)
theory EmtPh1
  imports MnaSolve
begin

text \<open>The single-phase components of the EMT domain: dpsim-models/src/EMT/EMT_Ph1_Resistor.cpp,
  EMT_Ph1_Inductor.cpp, EMT_Ph1_Capacitor.cpp, EMT_Ph1_VoltageSource.cpp,
  EMT_Ph1_CurrentSource.cpp and EMT_Ph1_Switch.cpp, with the part of
  dpsim-models/src/MNASimPowerComp.cpp that dispatches to them.  The members a class adds to
  \<open>SimPowerComp\<close> are the constructors of \<open>emt_model\<close>; a virtual method is a case distinction
  on them.  \<open>mIntfVoltage\<close> and \<open>mIntfCurrent\<close> are members of the component in the store.\<close>

section \<open>The classes\<close>

record equiv_source =
  mEquivCond :: real
  mEquivCurrent :: real

record emt_switch =
  mOpenResistance :: real
  mClosedResistance :: real
  mIsClosed :: bool
  mIsClosedPrev :: bool

datatype emt_model =
    Resistor real
  | Inductor real equiv_source
  | Capacitor real equiv_source
  | VoltageSource complex real
  | CurrentSource complex real
  | Switch emt_switch

datatype mna_task = MnaPreStep | MnaPostStep

record emt_ext =
  model :: emt_model
  mRightVector :: "real matrix"
  mMnaTasks :: "mna_task list"

type_synonym emt_world = "emt_ext world"

definition hasPreStep :: "emt_model \<Rightarrow> bool" where
  "hasPreStep m = (case m of Resistor _ \<Rightarrow> False | Switch _ \<Rightarrow> False | _ \<Rightarrow> True)"

definition hasPostStep :: "emt_model \<Rightarrow> bool" where
  "hasPostStep m = True"

definition setSourceParameters :: "complex \<Rightarrow> real \<Rightarrow> emt_model \<Rightarrow> emt_model" where
  "setSourceParameters ref srcFreq m = (case m of VoltageSource _ _ \<Rightarrow> VoltageSource ref srcFreq
     | CurrentSource _ _ \<Rightarrow> CurrentSource ref srcFreq | _ \<Rightarrow> m)"

definition setSwitchParameters :: "real \<Rightarrow> real \<Rightarrow> bool \<Rightarrow> emt_switch \<Rightarrow> emt_switch" where
  "setSwitchParameters ro rc cl s = s\<lparr>mOpenResistance := ro, mClosedResistance := rc, mIsClosed := cl\<rparr>"

definition closeSwitch :: "emt_switch \<Rightarrow> emt_switch" where "closeSwitch s = s\<lparr>mIsClosed := True\<rparr>"
definition openSwitch :: "emt_switch \<Rightarrow> emt_switch" where "openSwitch s = s\<lparr>mIsClosed := False\<rparr>"

text \<open>The entry (0, 0) of the interface quantities.\<close>

definition intfV :: "comp \<Rightarrow> real" where "intfV c = Re (varEnt (mIntfVoltage c) 0 0)"
definition intfI :: "comp \<Rightarrow> real" where "intfI c = Re (varEnt (mIntfCurrent c) 0 0)"

definition setV :: "real \<Rightarrow> comp \<Rightarrow> comp" where
  "setV x c = c\<lparr>mIntfVoltage := varSet (mIntfVoltage c) 0 0 (of_real x)\<rparr>"

definition setI :: "real \<Rightarrow> comp \<Rightarrow> comp" where
  "setI x c = c\<lparr>mIntfCurrent := varSet (mIntfCurrent c) 0 0 (of_real x)\<rparr>"

lemma intf_simps [simp]:
  "intfV (setV x c) = x" "intfI (setV x c) = intfI c" "intfI (setI x c) = x" "intfV (setI x c) = intfV c"
  by (cases "mIntfVoltage c"; simp add: intfV_def intfI_def setV_def setI_def varEnt_def varSet_def;
      cases "mIntfCurrent c"; simp)+

section \<open>Construction\<close>

text \<open>The constructors; \<open>mHasPreStep\<close> and \<open>mHasPostStep\<close> are arguments of the base class, fixed
  per class.  The interface quantities start as one zero.\<close>

definition mkPh1 :: "string \<Rightarrow> string \<Rightarrow> string \<Rightarrow> comp" where
  "mkPh1 uid name ty = (setTerminalNumber 2 (mkPowerComp RealVar uid name ty PhaseSingle))
     \<lparr>mIntfVoltage := zeroVar RealVar 1 1, mIntfCurrent := zeroVar RealVar 1 1\<rparr>"

definition newResistor :: "string \<Rightarrow> string \<Rightarrow> comp \<times> emt_model" where
  "newResistor uid name = (mkPh1 uid name ''EMT::Ph1::Resistor'', Resistor 0)"

definition newInductor :: "string \<Rightarrow> string \<Rightarrow> real \<Rightarrow> comp \<times> emt_model" where
  "newInductor uid name cond =
     (mkPh1 uid name ''EMT::Ph1::Inductor'', Inductor 0 \<lparr>mEquivCond = cond, mEquivCurrent = 0\<rparr>)"

definition newCapacitor :: "string \<Rightarrow> string \<Rightarrow> real \<Rightarrow> comp \<times> emt_model" where
  "newCapacitor uid name cond =
     (mkPh1 uid name ''EMT::Ph1::Capacitor'', Capacitor 0 \<lparr>mEquivCond = cond, mEquivCurrent = 0\<rparr>)"

definition newCurrentSource :: "string \<Rightarrow> string \<Rightarrow> comp \<times> emt_model" where
  "newCurrentSource uid name = (mkPh1 uid name ''EMT::Ph1::CurrentSource'', CurrentSource 0 0)"

definition newSwitch :: "string \<Rightarrow> string \<Rightarrow> comp \<times> emt_model" where
  "newSwitch uid name = (mkPh1 uid name ''EMT::Ph1::Switch'',
     Switch \<lparr>mOpenResistance = 0, mClosedResistance = 0, mIsClosed = False, mIsClosedPrev = False\<rparr>)"

definition newVoltageSource :: "string \<Rightarrow> string \<Rightarrow> store \<Rightarrow> error + store \<times> comp \<times> emt_model" where
  "newVoltageSource uid name H =
     bind_err (setVirtualNodeNumber RealVar 1 H (mkPowerComp RealVar uid name ''EMT::Ph1::VoltageSource'' PhaseSingle))
       (\<lambda>(H', c). ok (H', (setTerminalNumber 2 c)\<lparr>mIntfVoltage := zeroVar RealVar 1 1, mIntfCurrent := zeroVar RealVar 1 1\<rparr>,
          VoltageSource 0 0))"

section \<open>Initialisation\<close>

definition switchResistance :: "emt_switch \<Rightarrow> bool \<Rightarrow> real" where
  "switchResistance s cl = (if cl then mClosedResistance s else mOpenResistance s)"

text \<open>\<open>initializeFromNodesAndTerminals\<close>: voltage and current from the power flow.\<close>

definition initialAcross :: "store \<Rightarrow> comp \<Rightarrow> error + complex" where
  "initialAcross H c = bind_err (compInitialSingleVoltage H c 1) (\<lambda>v1.
     bind_err (compInitialSingleVoltage H c 0) (\<lambda>v0. ok (of_real RMS3PH_TO_PEAK1PH * (v1 - v0))))"

definition resistorInitFromNodes :: "store \<Rightarrow> real \<Rightarrow> comp \<Rightarrow> error + comp" where
  "resistorInitFromNodes H r c = bind_err (initialAcross H c) (\<lambda>voltage.
     let c' = setV (Re voltage) c in ok (setI (intfV c' / r) c'))"

definition inductorInitFromNodes :: "store \<Rightarrow> real \<Rightarrow> real \<Rightarrow> comp \<Rightarrow> error + comp" where
  "inductorInitFromNodes H frequency l c = (let omega = 2 * pi * frequency; impedance = Complex 0 (omega * l) in
     bind_err (initialAcross H c) (\<lambda>voltage. ok (setI (Re (voltage / impedance)) (setV (Re voltage) c))))"

definition capacitorInitFromNodes :: "store \<Rightarrow> real \<Rightarrow> real \<Rightarrow> comp \<Rightarrow> error + comp" where
  "capacitorInitFromNodes H frequency cap c =
     (let omega = 2 * pi * frequency; impedance = Complex 0 (- 1 / (omega * cap)) in
     bind_err (initialAcross H c) (\<lambda>voltage. ok (setI (Re (voltage / impedance)) (setV (Re voltage) c))))"

definition switchInitFromNodes :: "store \<Rightarrow> emt_switch \<Rightarrow> comp \<Rightarrow> error + comp" where
  "switchInitFromNodes H s c = (let resistance = switchResistance s (mIsClosed s) in
     bind_err (initialAcross H c) (\<lambda>voltage.
       let c' = setV (Re voltage) c in ok (setI (intfV c' / resistance) c')))"

definition emtInitFromNodes :: "real \<Rightarrow> nat \<Rightarrow> emt_world \<Rightarrow> error + emt_world" where
  "emtInitFromNodes frequency p W = (let (H, X) = W; c = compAt H p in
     bind_err (case model (X p) of
         Resistor r \<Rightarrow> resistorInitFromNodes H r c
       | Inductor l _ \<Rightarrow> inductorInitFromNodes H frequency l c
       | Capacitor cap _ \<Rightarrow> capacitorInitFromNodes H frequency cap c
       | Switch s \<Rightarrow> switchInitFromNodes H s c
       | _ \<Rightarrow> ok c)
     (\<lambda>c'. ok (setComp p c' H, X)))"

text \<open>The equivalent source of the companion model from the last voltage and current.\<close>

definition inductorUpdate :: "comp \<Rightarrow> equiv_source \<Rightarrow> equiv_source" where
  "inductorUpdate c e = e\<lparr>mEquivCurrent := mEquivCond e * intfV c + intfI c\<rparr>"

definition capacitorUpdate :: "comp \<Rightarrow> equiv_source \<Rightarrow> equiv_source" where
  "capacitorUpdate c e = e\<lparr>mEquivCurrent := - intfI c + - mEquivCond e * intfV c\<rparr>"

text \<open>\<open>mnaCompInitialize\<close> of the classes, on the component and the derived part, after the
  base class has set the source vector and the tasks.\<close>

definition resistorInitialize :: "store \<Rightarrow> comp \<Rightarrow> emt_ext \<Rightarrow> error + comp \<times> emt_ext" where
  "resistorInitialize H c x = bind_err (updateMatrixNodeIndices H c) (\<lambda>c'. ok (c', x\<lparr>mRightVector := zeros 0 0\<rparr>))"

definition inductorInitialize ::
  "real \<Rightarrow> real \<Rightarrow> equiv_source \<Rightarrow> store \<Rightarrow> comp \<Rightarrow> emt_ext \<Rightarrow> error + comp \<times> emt_ext" where
  "inductorInitialize timeStep l e H c x = bind_err (updateMatrixNodeIndices H c) (\<lambda>c'.
     ok (c', x\<lparr>model := Inductor l (inductorUpdate c' (e\<lparr>mEquivCond := timeStep / (2 * l)\<rparr>))\<rparr>))"

definition capacitorInitialize ::
  "real \<Rightarrow> real \<Rightarrow> equiv_source \<Rightarrow> store \<Rightarrow> comp \<Rightarrow> emt_ext \<Rightarrow> error + comp \<times> emt_ext" where
  "capacitorInitialize timeStep cap e H c x = bind_err (updateMatrixNodeIndices H c) (\<lambda>c'.
     ok (c', x\<lparr>model := Capacitor cap (capacitorUpdate c' (e\<lparr>mEquivCond := (2 * cap) / timeStep\<rparr>))\<rparr>))"

definition voltageSourceInitialize :: "complex \<Rightarrow> store \<Rightarrow> comp \<Rightarrow> emt_ext \<Rightarrow> error + comp \<times> emt_ext" where
  "voltageSourceInitialize v H c x = bind_err (updateMatrixNodeIndices H c) (\<lambda>c'.
     ok (setV (absC v * cos (phase v)) c', x))"

definition currentSourceInitialize :: "complex \<Rightarrow> store \<Rightarrow> comp \<Rightarrow> emt_ext \<Rightarrow> error + comp \<times> emt_ext" where
  "currentSourceInitialize i H c x = bind_err (updateMatrixNodeIndices H c) (\<lambda>c'.
     ok (setI (absC i * cos (phase i)) c', x))"

definition switchInitialize :: "store \<Rightarrow> comp \<Rightarrow> emt_ext \<Rightarrow> error + comp \<times> emt_ext" where
  "switchInitialize H c x = bind_err (updateMatrixNodeIndices H c) (\<lambda>c'.
     ok (c', x\<lparr>mMnaTasks := mMnaTasks x @ [MnaPostStep]\<rparr>))"

text \<open>\<open>mnaInitialize\<close> of \<open>MNASimPowerComp\<close>.\<close>

definition emtInitialize :: "real \<Rightarrow> real \<Rightarrow> nat \<Rightarrow> nat \<Rightarrow> emt_world \<Rightarrow> error + emt_world" where
  "emtInitialize omega timeStep rows p W = (let (H, X) = W; m = model (X p); c = compAt H p;
       x = \<lparr>model = m, mRightVector = zeros rows 1, mMnaTasks = (if hasPreStep m then [MnaPreStep] else [])
              @ (if hasPostStep m then [MnaPostStep] else [])\<rparr>
     in bind_err (case m of
         Resistor _ \<Rightarrow> resistorInitialize H c x
       | Inductor l e \<Rightarrow> inductorInitialize timeStep l e H c x
       | Capacitor cap e \<Rightarrow> capacitorInitialize timeStep cap e H c x
       | VoltageSource v _ \<Rightarrow> voltageSourceInitialize v H c x
       | CurrentSource i _ \<Rightarrow> currentSourceInitialize i H c x
       | Switch _ \<Rightarrow> switchInitialize H c x)
     (\<lambda>(c', x'). ok (setComp p c' H, X(p := x'))))"

section \<open>Stamps\<close>

text \<open>The matrix indices and grounding flags of the two terminals, the arguments of every
  stamp.  The constructor sizes both vectors for two terminals.\<close>

definition ends :: "comp \<Rightarrow> error + nat \<times> nat \<times> bool \<times> bool" where
  "ends c = bind_err (compMatrixNodeIndex c 0 0) (\<lambda>i0. bind_err (compMatrixNodeIndex c 1 0) (\<lambda>i1.
     bind_err (terminalNotGrounded c 0) (\<lambda>t0. bind_err (terminalNotGrounded c 1) (\<lambda>t1. ok (i0, i1, t0, t1)))))"

text \<open>\<open>mVirtualNodes[0]->matrixNodeIndex()\<close>.\<close>

definition virtualIndex :: "store \<Rightarrow> comp \<Rightarrow> error + nat" where
  "virtualIndex H c = bind_err (vec_at (mVirtualNodes c) 0) (\<lambda>n. case n of None \<Rightarrow> throw UndefinedBehaviour
     | Some q \<Rightarrow> matrixNodeIndex (nodeAt H q) PhaseSingle)"

definition stampTwoPort :: "real \<Rightarrow> comp \<Rightarrow> real matrix \<Rightarrow> error + real matrix" where
  "stampTwoPort g c M = bind_err (ends c) (\<lambda>(i0, i1, t0, t1). ok (stampConductance g M i0 i1 t0 t1))"

definition resistorStamp :: "real \<Rightarrow> comp \<Rightarrow> real matrix \<Rightarrow> error + real matrix" where
  "resistorStamp r c M = (let conductance = 1 / r in stampTwoPort conductance c M)"

definition inductorStamp :: "equiv_source \<Rightarrow> comp \<Rightarrow> real matrix \<Rightarrow> error + real matrix" where
  "inductorStamp e c M = stampTwoPort (mEquivCond e) c M"

definition capacitorStamp :: "equiv_source \<Rightarrow> comp \<Rightarrow> real matrix \<Rightarrow> error + real matrix" where
  "capacitorStamp e c M = stampTwoPort (mEquivCond e) c M"

definition stampSource :: "nat \<Rightarrow> nat \<times> nat \<times> bool \<times> bool \<Rightarrow> real matrix \<Rightarrow> real matrix" where
  "stampSource iv = (\<lambda>(i0, i1, t0, t1) M.
     let M0 = (if t0 then addToMatrixElementR (addToMatrixElementR M i0 iv (-1)) iv i0 (-1) else M)
     in if t1 then addToMatrixElementR (addToMatrixElementR M0 i1 iv 1) iv i1 1 else M0)"

definition voltageSourceStamp :: "store \<Rightarrow> comp \<Rightarrow> real matrix \<Rightarrow> error + real matrix" where
  "voltageSourceStamp H c M = bind_err (ends c) (\<lambda>e. bind_err (virtualIndex H c) (\<lambda>iv. ok (stampSource iv e M)))"

text \<open>\<open>mnaCompApplySystemMatrixStamp\<close> of a switch takes its own state,
  \<open>mnaCompApplySwitchSystemMatrixStamp\<close> the given one.  Only the switch overrides the latter.\<close>

definition switchStampWith :: "emt_switch \<Rightarrow> bool \<Rightarrow> comp \<Rightarrow> real matrix \<Rightarrow> error + real matrix" where
  "switchStampWith s cl c M =
     (let conductance = (if cl then 1 / mClosedResistance s else 1 / mOpenResistance s)
      in stampTwoPort conductance c M)"

definition switchStamp :: "emt_switch \<Rightarrow> comp \<Rightarrow> real matrix \<Rightarrow> error + real matrix" where
  "switchStamp s c M =
     (let conductance = (if mIsClosed s then 1 / mClosedResistance s else 1 / mOpenResistance s)
      in stampTwoPort conductance c M)"

definition emtIsClosed :: "emt_world \<Rightarrow> nat \<Rightarrow> bool" where
  "emtIsClosed W p = (case model (snd W p) of Switch s \<Rightarrow> mIsClosed s | _ \<Rightarrow> False)"

definition emtStamp :: "emt_world \<Rightarrow> nat \<Rightarrow> real matrix \<Rightarrow> error + real matrix" where
  "emtStamp W p M = (let c = compAt (fst W) p in case model (snd W p) of
       Resistor r \<Rightarrow> resistorStamp r c M
     | Inductor _ e \<Rightarrow> inductorStamp e c M
     | Capacitor _ e \<Rightarrow> capacitorStamp e c M
     | VoltageSource _ _ \<Rightarrow> voltageSourceStamp (fst W) c M
     | CurrentSource _ _ \<Rightarrow> ok M
     | Switch s \<Rightarrow> switchStamp s c M)"

definition emtSwitchStamp :: "emt_world \<Rightarrow> nat \<Rightarrow> bool \<Rightarrow> real matrix \<Rightarrow> error + real matrix" where
  "emtSwitchStamp W p cl M = (case model (snd W p) of
     Switch s \<Rightarrow> switchStampWith s cl (compAt (fst W) p) M | _ \<Rightarrow> ok M)"

text \<open>The conductance an element adds to the matrix, with a switch in a given state.\<close>

definition emtConductance :: "emt_model \<Rightarrow> bool \<Rightarrow> real" where
  "emtConductance m cl = (case m of Resistor r \<Rightarrow> 1 / r | Inductor _ e \<Rightarrow> mEquivCond e
     | Capacitor _ e \<Rightarrow> mEquivCond e | Switch s \<Rightarrow> 1 / switchResistance s cl | _ \<Rightarrow> 0)"

definition setEnds :: "real \<Rightarrow> nat \<times> nat \<times> bool \<times> bool \<Rightarrow> real matrix \<Rightarrow> real matrix" where
  "setEnds x = (\<lambda>(i0, i1, t0, t1) b.
     let b0 = (if t0 then setVectorElementR b i0 x else b)
     in if t1 then setVectorElementR b0 i1 (- x) else b0)"

text \<open>\<open>mnaCompApplyRightSideVectorStamp\<close>; an inductor or capacitor updates its equivalent
  source first.\<close>

definition inductorRightStamp :: "comp \<Rightarrow> equiv_source \<times> real matrix \<Rightarrow> error + equiv_source \<times> real matrix" where
  "inductorRightStamp c = (\<lambda>(e, b). let e' = inductorUpdate c e in
     bind_err (ends c) (\<lambda>n. ok (e', setEnds (mEquivCurrent e') n b)))"

definition capacitorRightStamp :: "comp \<Rightarrow> equiv_source \<times> real matrix \<Rightarrow> error + equiv_source \<times> real matrix" where
  "capacitorRightStamp c = (\<lambda>(e, b). let e' = capacitorUpdate c e in
     bind_err (ends c) (\<lambda>n. ok (e', setEnds (mEquivCurrent e') n b)))"

definition currentSourceRightStamp :: "comp \<Rightarrow> real matrix \<Rightarrow> error + real matrix" where
  "currentSourceRightStamp c b = bind_err (ends c) (\<lambda>n. ok (setEnds (- intfI c) n b))"

definition voltageSourceRightStamp :: "store \<Rightarrow> comp \<Rightarrow> real matrix \<Rightarrow> error + real matrix" where
  "voltageSourceRightStamp H c b = bind_err (virtualIndex H c) (\<lambda>iv. ok (setVectorElementR b iv (intfV c)))"

definition emtRightStamp :: "nat \<Rightarrow> emt_world \<times> real matrix \<Rightarrow> error + emt_world \<times> real matrix" where
  "emtRightStamp p = (\<lambda>((H, X), b). let c = compAt H p in
     bind_err (case model (X p) of
         Inductor l e \<Rightarrow> bind_err (inductorRightStamp c (e, b)) (\<lambda>(e', b'). ok (Inductor l e', b'))
       | Capacitor cap e \<Rightarrow> bind_err (capacitorRightStamp c (e, b)) (\<lambda>(e', b'). ok (Capacitor cap e', b'))
       | CurrentSource _ _ \<Rightarrow> bind_err (currentSourceRightStamp c b) (\<lambda>b'. ok (model (X p), b'))
       | VoltageSource _ _ \<Rightarrow> bind_err (voltageSourceRightStamp H c b) (\<lambda>b'. ok (model (X p), b'))
       | m \<Rightarrow> ok (m, b))
     (\<lambda>(m, b'). ok ((H, X(p := (X p)\<lparr>model := m\<rparr>)), b')))"

definition switchHasParameterChanged :: "emt_switch \<Rightarrow> bool \<times> emt_switch" where
  "switchHasParameterChanged s =
     (if mIsClosedPrev s \<noteq> mIsClosed s then (True, s\<lparr>mIsClosedPrev := mIsClosed s\<rparr>) else (False, s))"

definition emtHasParameterChanged :: "nat \<Rightarrow> emt_world \<Rightarrow> bool \<times> emt_world" where
  "emtHasParameterChanged p W = (case model (snd W p) of
     Switch s \<Rightarrow> let (changed, s') = switchHasParameterChanged s
       in (changed, (fst W, (snd W)(p := (snd W p)\<lparr>model := Switch s'\<rparr>)))
   | _ \<Rightarrow> (False, W))"

section \<open>A time step\<close>

text \<open>\<open>updateVoltage\<close> and \<open>updateState\<close> of the sources.\<close>

definition sourceValue :: "complex \<Rightarrow> real \<Rightarrow> real \<Rightarrow> real" where
  "sourceValue ref freq time =
     (if freq > 0 then absC ref * cos (time * 2 * pi * freq + phase ref) else Re ref)"

definition voltageSourceUpdate :: "complex \<Rightarrow> real \<Rightarrow> real \<Rightarrow> comp \<Rightarrow> comp" where
  "voltageSourceUpdate v srcFreq time c = setV (sourceValue v srcFreq time) c"

definition currentSourceUpdate :: "complex \<Rightarrow> real \<Rightarrow> real \<Rightarrow> comp \<Rightarrow> comp" where
  "currentSourceUpdate i srcFreq time c = setI (sourceValue i srcFreq time) c"

definition updateSource :: "real \<Rightarrow> emt_model \<Rightarrow> comp \<Rightarrow> comp" where
  "updateSource time m c = (case m of VoltageSource v f \<Rightarrow> voltageSourceUpdate v f time c
     | CurrentSource i f \<Rightarrow> currentSourceUpdate i f time c | _ \<Rightarrow> c)"

text \<open>\<open>mnaCompPreStep\<close>: a source updates its value, then the component stamps its own source
  vector.  The pre-step task exists only for the classes that have one.\<close>

definition emtPreStep :: "real \<Rightarrow> nat \<Rightarrow> emt_world \<Rightarrow> error + emt_world" where
  "emtPreStep time p W = (let (H, X) = W; m = model (X p) in
     if hasPreStep m
     then bind_err (emtRightStamp p ((setComp p (updateSource time m (compAt H p)) H, X), mRightVector (X p)))
       (\<lambda>((H', X'), b). ok (H', X'(p := (X' p)\<lparr>mRightVector := b\<rparr>)))
     else ok W)"

text \<open>\<open>mnaCompUpdateVoltage\<close>: the voltage between the terminals, read from the solution.\<close>

definition voltageAcross :: "real matrix \<Rightarrow> nat \<times> nat \<times> bool \<times> bool \<Rightarrow> real" where
  "voltageAcross x = (\<lambda>(i0, i1, t0, t1).
     (if t1 then realFromVectorElement x i1 else 0) - (if t0 then realFromVectorElement x i0 else 0))"

definition updateV :: "real matrix \<Rightarrow> comp \<Rightarrow> error + comp" where
  "updateV x c = bind_err (ends c) (\<lambda>e. ok (setV (voltageAcross x e) c))"

text \<open>\<open>mnaCompPostStep\<close> with \<open>mnaCompUpdateVoltage\<close> and \<open>mnaCompUpdateCurrent\<close> of the classes.\<close>

definition resistorPostStep :: "real \<Rightarrow> real matrix \<Rightarrow> comp \<Rightarrow> error + comp" where
  "resistorPostStep r x c = bind_err (updateV x c) (\<lambda>c'. ok (setI (intfV c' / r) c'))"

definition inductorPostStep :: "equiv_source \<Rightarrow> real matrix \<Rightarrow> comp \<Rightarrow> error + comp" where
  "inductorPostStep e x c =
     bind_err (updateV x c) (\<lambda>c'. ok (setI (mEquivCond e * intfV c' + mEquivCurrent e) c'))"

definition capacitorPostStep :: "equiv_source \<Rightarrow> real matrix \<Rightarrow> comp \<Rightarrow> error + comp" where
  "capacitorPostStep e x c =
     bind_err (updateV x c) (\<lambda>c'. ok (setI (mEquivCond e * intfV c' + mEquivCurrent e) c'))"

definition voltageSourcePostStep :: "store \<Rightarrow> real matrix \<Rightarrow> comp \<Rightarrow> error + comp" where
  "voltageSourcePostStep H x c = bind_err (virtualIndex H c) (\<lambda>iv. ok (setI (realFromVectorElement x iv) c))"

definition currentSourcePostStep :: "real matrix \<Rightarrow> comp \<Rightarrow> error + comp" where
  "currentSourcePostStep x c = bind_err (ends c) (\<lambda>(i0, i1, t0, t1). ok (setV (
     (if t0 then realFromVectorElement x i0 else 0) - (if t1 then realFromVectorElement x i1 else 0)) c))"

definition switchPostStep :: "emt_switch \<Rightarrow> real matrix \<Rightarrow> comp \<Rightarrow> error + comp" where
  "switchPostStep s x c = bind_err (updateV x c) (\<lambda>c'. ok (setI
     (if mIsClosed s then intfV c' / mClosedResistance s else intfV c' / mOpenResistance s) c'))"

definition emtPostStep :: "real matrix \<Rightarrow> nat \<Rightarrow> emt_world \<Rightarrow> error + emt_world" where
  "emtPostStep x p W = (let (H, X) = W; c = compAt H p in
     bind_err (case model (X p) of
         Resistor r \<Rightarrow> resistorPostStep r x c
       | Inductor _ e \<Rightarrow> inductorPostStep e x c
       | Capacitor _ e \<Rightarrow> capacitorPostStep e x c
       | VoltageSource _ _ \<Rightarrow> voltageSourcePostStep H x c
       | CurrentSource _ _ \<Rightarrow> currentSourcePostStep x c
       | Switch s \<Rightarrow> switchPostStep s x c)
     (\<lambda>c'. ok (setComp p c' H, X)))"

text \<open>The definitions of the classes, for proofs by cases on the class.\<close>

lemmas class_stamps = resistorStamp_def inductorStamp_def capacitorStamp_def voltageSourceStamp_def
  switchStampWith_def switchStamp_def stampTwoPort_def

lemmas class_right = inductorRightStamp_def capacitorRightStamp_def currentSourceRightStamp_def
  voltageSourceRightStamp_def inductorUpdate_def capacitorUpdate_def

lemmas class_post = resistorPostStep_def inductorPostStep_def capacitorPostStep_def voltageSourcePostStep_def
  currentSourcePostStep_def switchPostStep_def updateV_def

text \<open>The right stamp of every class in terms of the updated model.\<close>

definition updateEquiv :: "comp \<Rightarrow> emt_model \<Rightarrow> emt_model" where
  "updateEquiv c m = (case m of Inductor l e \<Rightarrow> Inductor l (inductorUpdate c e)
     | Capacitor cap e \<Rightarrow> Capacitor cap (capacitorUpdate c e) | _ \<Rightarrow> m)"

text \<open>The methods the solver calls.\<close>

definition emt_methods :: "emt_ext mna_methods" where
  "emt_methods = \<lparr>mnaInitialize = emtInitialize, initializeFromNodesAndTerminals = emtInitFromNodes,
     signalInitialize = (\<lambda>omega dt p W. ok W),
     mnaApplySystemMatrixStamp = emtStamp, mnaApplySwitchSystemMatrixStamp = emtSwitchStamp,
     mnaApplyRightSideVectorStamp = emtRightStamp, getRightVector = (\<lambda>W p. mRightVector (snd W p)),
     mnaIsClosed = emtIsClosed, hasParameterChanged = emtHasParameterChanged,
     mVariableSystemMatrixEntries = (\<lambda>W p. []), requiresIteration = (\<lambda>p W. (False, W)),
     correctorStep = (\<lambda>p W. W), genUpdateVoltage = (\<lambda>x p W. W)\<rparr>"

lemma emt_methods_simps [simp]:
  "mnaInitialize emt_methods = emtInitialize" "mnaApplySystemMatrixStamp emt_methods = emtStamp"
  "mnaApplySwitchSystemMatrixStamp emt_methods = emtSwitchStamp"
  "getRightVector emt_methods W p = mRightVector (snd W p)" "mnaIsClosed emt_methods = emtIsClosed"
  "hasParameterChanged emt_methods = emtHasParameterChanged" "mnaApplyRightSideVectorStamp emt_methods = emtRightStamp"
  by (simp_all add: emt_methods_def)

end
