(* ===== verification/EmtSolve.thy ===== *)
theory EmtSolve
  imports EmtPh1
begin

text \<open>The EMT components against the laws of the solver: the interpretation of
  \<open>mna_components\<close>, the companion models as the trapezoidal rule, and what a complete step
  (pre-steps, solution, post-steps) computes.\<close>

section \<open>The equations of an element\<close>

type_synonym ends_of = "nat \<times> nat \<times> bool \<times> bool"

text \<open>A current \<open>x\<close> that flows from the second terminal through the element to the first, as
  it leaves node row \<open>a\<close>.\<close>

definition leaves :: "ends_of \<Rightarrow> nat \<Rightarrow> real \<Rightarrow> real" where
  "leaves = (\<lambda>(i0, i1, t0, t1) a x. (if t1 \<and> a = i1 then x else 0) - (if t0 \<and> a = i0 then x else 0))"

definition endsIn :: "nat \<Rightarrow> ends_of \<Rightarrow> bool" where
  "endsIn k = (\<lambda>(i0, i1, t0, t1). (t0 \<longrightarrow> i0 < k) \<and> (t1 \<longrightarrow> i1 < k) \<and> (t0 \<and> t1 \<longrightarrow> i0 \<noteq> i1))"

lemma leaves_simps [simp]: "leaves e a (- x) = - leaves e a x" "leaves e a 0 = 0"
  "leaves e a (x + y) = leaves e a x + leaves e a y"
  by (auto simp: leaves_def split: prod.splits)

definition endsAt :: "emt_world \<Rightarrow> nat \<Rightarrow> ends_of" where
  "endsAt W p = (case ends (compAt (fst W) p) of Inl _ \<Rightarrow> (0, 0, False, False) | Inr e \<Rightarrow> e)"

definition virtAt :: "emt_world \<Rightarrow> nat \<Rightarrow> nat" where
  "virtAt W p = (case virtualIndex (fst W) (compAt (fst W) p) of Inl _ \<Rightarrow> 0 | Inr i \<Rightarrow> i)"

definition isVS :: "emt_model \<Rightarrow> bool" where "isVS m \<longleftrightarrow> (case m of VoltageSource _ _ \<Rightarrow> True | _ \<Rightarrow> False)"
definition isSw :: "emt_model \<Rightarrow> bool" where "isSw m \<longleftrightarrow> (case m of Switch _ \<Rightarrow> True | _ \<Rightarrow> False)"

text \<open>A component is connected to a system of \<open>k\<close> rows: its indices are cached and in range,
  and its terminals lead to different rows.\<close>

definition emtFit :: "nat \<Rightarrow> emt_world \<Rightarrow> nat \<Rightarrow> bool" where
  "emtFit k W p \<longleftrightarrow> (\<exists>e. ends (compAt (fst W) p) = ok e \<and> endsIn k e)
     \<and> (isVS (model (snd W p)) \<longrightarrow> (\<exists>i < k. virtualIndex (fst W) (compAt (fst W) p) = ok i
          \<and> (case endsAt W p of (i0, i1, t0, t1) \<Rightarrow> (t0 \<longrightarrow> i \<noteq> i0) \<and> (t1 \<longrightarrow> i \<noteq> i1))))"

lemma emtFitD:
  assumes "emtFit k W p"
  shows "ends (compAt (fst W) p) = ok (endsAt W p)" "endsIn k (endsAt W p)"
    "isVS (model (snd W p)) \<Longrightarrow> virtualIndex (fst W) (compAt (fst W) p) = ok (virtAt W p)"
    "isVS (model (snd W p)) \<Longrightarrow> virtAt W p < k"
    "isVS (model (snd W p)) \<Longrightarrow> endsAt W p = (i0, i1, t0, t1) \<Longrightarrow> (t0 \<longrightarrow> virtAt W p \<noteq> i0) \<and> (t1 \<longrightarrow> virtAt W p \<noteq> i1)"
  using assms by (auto simp: emtFit_def endsAt_def virtAt_def)

definition emtRowWith :: "emt_world \<Rightarrow> nat \<Rightarrow> bool \<Rightarrow> real matrix \<Rightarrow> nat \<Rightarrow> real" where
  "emtRowWith W p cl v a = (let e = endsAt W p; m = model (snd W p) in
     case m of CurrentSource _ _ \<Rightarrow> 0
     | VoltageSource _ _ \<Rightarrow> leaves e a (ent v (virtAt W p) 0) + (if a = virtAt W p then voltageAcross v e else 0)
     | _ \<Rightarrow> leaves e a (emtConductance m cl * voltageAcross v e))"

definition emtRow :: "emt_world \<Rightarrow> nat \<Rightarrow> real matrix \<Rightarrow> nat \<Rightarrow> real" where
  "emtRow W p v a = emtRowWith W p (emtIsClosed W p) v a"

definition emtSwitchRow :: "emt_world \<Rightarrow> nat \<Rightarrow> bool \<Rightarrow> real matrix \<Rightarrow> nat \<Rightarrow> real" where
  "emtSwitchRow W p cl v a = (if isSw (model (snd W p)) then emtRowWith W p cl v a else 0)"

lemma conductance_row:
  assumes "square k M" "endsIn k (i0, i1, t0, t1)" "a < k"
  shows "lhs (stampConductance g M i0 i1 t0 t1) v a
    = lhs M v a + leaves (i0, i1, t0, t1) a (g * voltageAcross v (i0, i1, t0, t1))"
proof -
  have "systemR k M" using assms(1) by (simp add: square_def systemR_def)
  then show ?thesis
    using real_stamp.obs_stampValue [of k M a t0 i0 t1 i1 g v] assms(2,3)
    by (auto simp: stampConductance_def endsIn_def leaves_def voltageAcross_def realFromVectorElement_def
        right_diff_distrib)
qed

lemma conductance_square:
  assumes "square k M"
  shows "square k (stampConductance g M i0 i1 t0 t1)"
  using assms by (simp add: square_def stampConductance_def stampValue_def stampToMatrix_def addR_addEnt)

lemma source_row:
  assumes "square k M" "endsIn k e" "iv < k" "a < k"
  shows "lhs (stampSource iv e M) v a
    = lhs M v a + leaves e a (ent v iv 0) + (if a = iv then voltageAcross v e else 0)"
proof -
  obtain i0 i1 t0 t1 where e: "e = (i0, i1, t0, t1)" by (metis prod_cases4)
  have eq: "addToMatrixElementR N i j x = addEnt N i j x" for N i j x by (simp add: addToMatrixElementR_def addEnt_def)
  have "mcols M = k" using assms(1) by (simp add: square_def)
  then show ?thesis
    using assms(2-4)
    by (simp add: e stampSource_def eq mult_addEnt endsIn_def leaves_def voltageAcross_def realFromVectorElement_def Let_def)
qed

lemma source_square:
  assumes "square k M"
  shows "square k (stampSource iv e M)"
  using assms by (auto simp: square_def stampSource_def Let_def addToMatrixElementR_def split: prod.splits)

lemma conductance_stamp:
  assumes "emtFit k W p" "square k M" "\<not> isVS (model (snd W p))"
  shows "\<exists>M'. stampTwoPort g (compAt (fst W) p) M = ok M' \<and> square k M'
    \<and> (\<forall>v a. a < k \<longrightarrow> lhs M' v a = lhs M v a + leaves (endsAt W p) a (g * voltageAcross v (endsAt W p)))"
proof -
  obtain i0 i1 t0 t1 where e: "endsAt W p = (i0, i1, t0, t1)" by (metis prod_cases4)
  show ?thesis using emtFitD(1,2) [OF assms(1)] assms(2)
    by (simp add: stampTwoPort_def e conductance_row conductance_square)
qed

lemma source_stamp:
  assumes "emtFit k W p" "square k M" "isVS (model (snd W p))"
  shows "\<exists>M'. voltageSourceStamp (fst W) (compAt (fst W) p) M = ok M' \<and> square k M'
    \<and> (\<forall>v a. a < k \<longrightarrow> lhs M' v a = lhs M v a + leaves (endsAt W p) a (ent v (virtAt W p) 0)
         + (if a = virtAt W p then voltageAcross v (endsAt W p) else 0))"
  using emtFitD(1,2,3,4) [OF assms(1)] assms(2,3)
  by (simp add: voltageSourceStamp_def source_row source_square)

lemma emtStamp_row:
  assumes f: "emtFit k W p" and M: "square k M"
  shows "\<exists>M'. emtStamp W p M = ok M' \<and> square k M'
    \<and> (\<forall>v a. a < k \<longrightarrow> lhs M' v a = lhs M v a + emtRow W p v a)"
proof (cases "isVS (model (snd W p))")
  case True
  then show ?thesis using source_stamp [OF f M True]
    by (cases "model (snd W p)") (simp_all add: isVS_def emtStamp_def emtRow_def emtRowWith_def Let_def add.assoc)
next
  case False
  note c = conductance_stamp [OF f M False]
  show ?thesis
  proof (cases "model (snd W p)")
    case (Resistor r)
    then show ?thesis using c [of "1 / r"]
      by (simp add: emtStamp_def resistorStamp_def emtRow_def emtRowWith_def emtConductance_def Let_def)
  next
    case (Switch s)
    then show ?thesis using c [of "1 / switchResistance s (mIsClosed s)"]
      by (cases "mIsClosed s") (simp_all add: emtStamp_def switchStamp_def switchResistance_def emtRow_def emtRowWith_def
          emtConductance_def emtIsClosed_def Let_def)
  qed (use False M c in \<open>simp_all add: emtStamp_def resistorStamp_def inductorStamp_def capacitorStamp_def
      emtRow_def emtRowWith_def emtConductance_def isVS_def Let_def\<close>)
qed

lemma emtSwitchStamp_row:
  assumes f: "emtFit k W p" and M: "square k M"
  shows "\<exists>M'. emtSwitchStamp W p cl M = ok M' \<and> square k M'
    \<and> (\<forall>v a. a < k \<longrightarrow> lhs M' v a = lhs M v a + emtSwitchRow W p cl v a)"
proof (cases "model (snd W p)")
  case (Switch s)
  have "\<not> isVS (model (snd W p))" by (simp add: Switch isVS_def)
  note c = conductance_stamp [OF f M this, of "1 / switchResistance s cl"]
  show ?thesis using c Switch
    by (cases cl) (simp_all add: emtSwitchStamp_def switchStampWith_def switchResistance_def emtSwitchRow_def
        emtRowWith_def emtConductance_def isSw_def Let_def)
qed (use M in \<open>simp_all add: emtSwitchStamp_def emtSwitchRow_def isSw_def\<close>)

interpretation emt: mna_components emt_methods emtFit emtRow emtSwitchRow
  by unfold_locales (use emtStamp_row emtSwitchStamp_row in simp_all)

end
