(* ===== verification/EmtStep.thy ===== *)
theory EmtStep
  imports EmtSolve
begin

text \<open>A time step of an EMT network: the pre-steps of all components, the solution, the
  post-steps.  The step is shown to be one step of the trapezoidal rule for the network: every
  component satisfies its discretised law, and the currents at every node add up to zero.\<close>

section \<open>What a step leaves alone\<close>

text \<open>The parameters of a model, without the parts that change from step to step.\<close>

definition params :: "emt_model \<Rightarrow> emt_model" where
  "params m = (case m of
     Inductor l e \<Rightarrow> Inductor l (e\<lparr>mEquivCurrent := 0\<rparr>)
   | Capacitor cap e \<Rightarrow> Capacitor cap (e\<lparr>mEquivCurrent := 0\<rparr>)
   | Switch s \<Rightarrow> Switch (s\<lparr>mIsClosed := False, mIsClosedPrev := False\<rparr>)
   | _ \<Rightarrow> m)"

definition wired :: "comp \<Rightarrow> comp \<Rightarrow> bool" where
  "wired c c' \<longleftrightarrow> mMatrixNodeIndices c' = mMatrixNodeIndices c
     \<and> mMatrixNodeIndexIsGround c' = mMatrixNodeIndexIsGround c \<and> mVirtualNodes c' = mVirtualNodes c"

definition sameNet :: "emt_world \<Rightarrow> emt_world \<Rightarrow> bool" where
  "sameNet W W' \<longleftrightarrow> (\<forall>p. wired (compAt (fst W) p) (compAt (fst W') p))
     \<and> (\<forall>q ph. matrixNodeIndex (nodeAt (fst W') q) ph = matrixNodeIndex (nodeAt (fst W) q) ph)
     \<and> (\<forall>p. params (model (snd W' p)) = params (model (snd W p)))"

lemma sameNet_refl: "sameNet W W"
  by (simp add: sameNet_def wired_def)

lemma sameNet_trans: "sameNet W W1 \<Longrightarrow> sameNet W1 W2 \<Longrightarrow> sameNet W W2"
  by (simp add: sameNet_def wired_def)

lemma wired_set [simp]: "wired c (setV x c')  = wired c c'" "wired c (setI x c') = wired c c'"
  by (simp_all add: wired_def setV_def setI_def)

lemma wired_refl [simp]: "wired c c" by (simp add: wired_def)

lemma wired_ends: "wired c c' \<Longrightarrow> ends c' = ends c"
  by (simp add: wired_def ends_def compMatrixNodeIndex_def terminalNotGrounded_def)

lemma sameNet_ends:
  assumes "sameNet W W'"
  shows "ends (compAt (fst W') p) = ends (compAt (fst W) p)" "endsAt W' p = endsAt W p"
    "virtualIndex (fst W') (compAt (fst W') p) = virtualIndex (fst W) (compAt (fst W) p)"
    "virtAt W' p = virtAt W p"
proof -
  have w: "wired (compAt (fst W) p) (compAt (fst W') p)" using assms by (simp add: sameNet_def)
  then show e: "ends (compAt (fst W') p) = ends (compAt (fst W) p)" by (rule wired_ends)
  then show "endsAt W' p = endsAt W p" by (simp add: endsAt_def)
  show v: "virtualIndex (fst W') (compAt (fst W') p) = virtualIndex (fst W) (compAt (fst W) p)"
    using w assms by (simp add: virtualIndex_def wired_def sameNet_def)
  then show "virtAt W' p = virtAt W p" by (simp add: virtAt_def)
qed

lemma params_class:
  assumes "params m' = params m"
  shows "isVS m' = isVS m" "isSw m' = isSw m" "emtConductance m' cl = emtConductance m cl"
    "hasPreStep m' = hasPreStep m"
  using assms
  by (cases m; cases m'; simp add: params_def isVS_def isSw_def emtConductance_def switchResistance_def hasPreStep_def;
      metis equiv_source.select_convs(1) equiv_source.update_convs(2) equiv_source.surjective
        emt_switch.select_convs(1,2) emt_switch.update_convs(3,4) emt_switch.surjective)+

lemma sameNet_params: "sameNet W W' \<Longrightarrow> params (model (snd W' p)) = params (model (snd W p))"
  by (simp add: sameNet_def)

lemma sameNet_row:
  assumes "sameNet W W'"
  shows "emtRowWith W' p cl = emtRowWith W p cl" "emtSwitchRow W' p = emtSwitchRow W p"
proof -
  note c = params_class [OF sameNet_params [OF assms, of p]]
  have *: "emtRowWith W' p cl v a = emtRowWith W p cl v a" for cl v a
    using sameNet_params [OF assms, of p] c(3) [of cl]
    by (cases "model (snd W p)"; cases "model (snd W' p)")
      (simp_all add: emtRowWith_def Let_def sameNet_ends [OF assms] params_def)
  then show "emtRowWith W' p cl = emtRowWith W p cl" by blast
  show "emtSwitchRow W' p = emtSwitchRow W p"
    by (intro ext) (simp add: emtSwitchRow_def c(2) *)
qed

lemma emtRow_state:
  assumes "\<not> isSw (model (snd W p))"
  shows "emtRowWith W p cl = emtRowWith W p cl'"
  using assms
  by (intro ext) (cases "model (snd W p)"; simp add: emtRowWith_def Let_def emtConductance_def isSw_def)

lemma sameNet_emtRow:
  assumes "sameNet W W'" "\<not> isSw (model (snd W p))"
  shows "emtRow W' p = emtRow W p"
  using sameNet_row(1) [OF assms(1)] emtRow_state [OF assms(2)] by (auto simp: emtRow_def fun_eq_iff)

lemma sameNet_fit: "sameNet W W' \<Longrightarrow> emtFit k W' p = emtFit k W p"
  by (simp add: emtFit_def sameNet_ends params_class(1) [OF sameNet_params])

section \<open>The pre-step\<close>

definition isRes :: "emt_model \<Rightarrow> bool" where "isRes m \<longleftrightarrow> (case m of Resistor _ \<Rightarrow> True | _ \<Rightarrow> False)"

text \<open>The right side of an element: the rows of its source vector.\<close>

definition emtRhs :: "emt_world \<Rightarrow> nat \<Rightarrow> nat \<Rightarrow> real" where
  "emtRhs W p a = (let e = endsAt W p; c = compAt (fst W) p in
     case model (snd W p) of
       Inductor _ q \<Rightarrow> - leaves e a (mEquivCurrent q)
     | Capacitor _ q \<Rightarrow> - leaves e a (mEquivCurrent q)
     | CurrentSource _ _ \<Rightarrow> leaves e a (intfI c)
     | VoltageSource _ _ \<Rightarrow> (if a = virtAt W p then intfV c else 0)
     | _ \<Rightarrow> 0)"

text \<open>The rows a class writes; its source vector is zero in all other rows.\<close>

definition emtOwn :: "emt_world \<Rightarrow> nat \<Rightarrow> nat \<Rightarrow> bool" where
  "emtOwn W p a \<longleftrightarrow> (case model (snd W p) of
       Resistor _ \<Rightarrow> False | Switch _ \<Rightarrow> False | VoltageSource _ _ \<Rightarrow> a = virtAt W p
     | _ \<Rightarrow> (case endsAt W p of (i0, i1, t0, t1) \<Rightarrow> (t0 \<and> a = i0) \<or> (t1 \<and> a = i1)))"

definition emtClean :: "nat \<Rightarrow> emt_world \<Rightarrow> nat \<Rightarrow> bool" where
  "emtClean k W p \<longleftrightarrow> mrows (mRightVector (snd W p)) = k
     \<and> (\<forall>a. \<not> emtOwn W p a \<longrightarrow> ent (mRightVector (snd W p)) a 0 = 0)"

lemma setEnds_ent:
  assumes "endsIn k (i0, i1, t0, t1)"
  shows "ent (setEnds x (i0, i1, t0, t1) b) a 0
      = (if (t0 \<and> a = i0) \<or> (t1 \<and> a = i1) then - leaves (i0, i1, t0, t1) a x else ent b a 0)"
    "mrows (setEnds x (i0, i1, t0, t1) b) = mrows b"
  using assms by (auto simp: setEnds_def setVectorElementR_def leaves_def endsIn_def Let_def)

text \<open>The component, its model and its source vector after the pre-step.\<close>

definition preComp :: "real \<Rightarrow> emt_world \<Rightarrow> nat \<Rightarrow> comp" where
  "preComp time W p = updateSource time (model (snd W p)) (compAt (fst W) p)"

definition preModel :: "emt_world \<Rightarrow> nat \<Rightarrow> emt_model" where
  "preModel W p = updateEquiv (compAt (fst W) p) (model (snd W p))"

definition preVec :: "real \<Rightarrow> emt_world \<Rightarrow> nat \<Rightarrow> real matrix" where
  "preVec time W p = (let b = mRightVector (snd W p); c = preComp time W p in
     case preModel W p of
       Inductor _ e \<Rightarrow> setEnds (mEquivCurrent e) (endsAt W p) b
     | Capacitor _ e \<Rightarrow> setEnds (mEquivCurrent e) (endsAt W p) b
     | CurrentSource _ _ \<Rightarrow> setEnds (- intfI c) (endsAt W p) b
     | VoltageSource _ _ \<Rightarrow> setVectorElementR b (virtAt W p) (intfV c)
     | _ \<Rightarrow> b)"

definition preWorld :: "real \<Rightarrow> emt_world \<Rightarrow> nat \<Rightarrow> emt_world" where
  "preWorld time W p = (if hasPreStep (model (snd W p))
     then (setComp p (preComp time W p) (fst W),
       (snd W)(p := (snd W p)\<lparr>model := preModel W p, mRightVector := preVec time W p\<rparr>))
     else W)"

lemma updateSource_wired [simp]: "wired c (updateSource time m c') = wired c c'"
  by (simp add: updateSource_def voltageSourceUpdate_def currentSourceUpdate_def split: emt_model.split)

lemma updateEquiv_params [simp]: "params (updateEquiv c m) = params m"
  by (simp add: updateEquiv_def inductorUpdate_def capacitorUpdate_def params_def split: emt_model.split)

lemma preWorld_sameNet: "sameNet W (preWorld time W p)"
  by (simp add: sameNet_def preWorld_def preComp_def preModel_def)

lemma ends_updateSource [simp]: "ends (updateSource time m c) = ends c"
  by (rule wired_ends) simp

lemma virtualIndex_updateSource [simp]:
  "virtualIndex (setComp p c' H) (updateSource time m c) = virtualIndex H c"
  by (simp add: virtualIndex_def updateSource_def voltageSourceUpdate_def
      currentSourceUpdate_def setV_def setI_def split: emt_model.split)

lemma emtPreStep_eq:
  assumes "emtFit k W p"
  shows "emtPreStep time p W = ok (preWorld time W p)"
proof -
  obtain H X where W: "W = (H, X)" by (cases W)
  note f = emtFitD(1,3) [OF assms, unfolded W fst_conv snd_conv]
  note defs = W emtPreStep_def emtRightStamp_def hasPreStep_def preWorld_def preVec_def preModel_def preComp_def
    updateEquiv_def Let_def class_right
  show ?thesis
  proof (cases "model (X p)")
    case (Inductor l q)
    then show ?thesis using f(1) by (simp add: defs updateSource_def)
  next
    case (Capacitor l q)
    then show ?thesis using f(1) by (simp add: defs updateSource_def)
  next
    case (CurrentSource l q)
    then show ?thesis using f(1) ends_updateSource [of time "CurrentSource l q" "compAt H p"]
      by (simp add: defs del: ends_updateSource)
  next
    case (VoltageSource l q)
    then show ?thesis using f(2) by (simp add: defs isVS_def)
  qed (simp_all add: W emtPreStep_def hasPreStep_def preWorld_def)
qed

lemma preWorld_at:
  assumes "hasPreStep (model (snd W p))"
  shows "model (snd (preWorld time W p) p) = preModel W p"
    "compAt (fst (preWorld time W p)) p = preComp time W p"
    "mRightVector (snd (preWorld time W p) p) = preVec time W p"
  using assms by (simp_all add: preWorld_def)

lemma preVec_ent:
  assumes f: "emtFit k W p" and c: "emtClean k W p" and h: "hasPreStep (model (snd W p))"
  shows "ent (preVec time W p) a 0 = emtRhs (preWorld time W p) p a" "mrows (preVec time W p) = k"
proof -
  obtain i0 i1 t0 t1 where e: "endsAt W p = (i0, i1, t0, t1)" by (metis prod_cases4)
  note e' = sameNet_ends(2,4) [OF preWorld_sameNet [of W time p]]
  have en: "endsIn k (i0, i1, t0, t1)" using emtFitD(2) [OF f] e by simp
  note se = setEnds_ent [OF en]
  have c0: "mrows (mRightVector (snd W p)) = k"
    "\<And>a. \<not> emtOwn W p a \<Longrightarrow> ent (mRightVector (snd W p)) a 0 = 0"
    using c by (simp_all add: emtClean_def)
  have own: "emtOwn W p a \<longleftrightarrow> (t0 \<and> a = i0) \<or> (t1 \<and> a = i1)" if "\<not> isVS (model (snd W p))"
    using that h by (cases "model (snd W p)") (simp_all add: emtOwn_def e isVS_def hasPreStep_def)
  have off: "leaves (i0, i1, t0, t1) a x = 0" if "\<not> ((t0 \<and> a = i0) \<or> (t1 \<and> a = i1))" for x
    using that by (auto simp: leaves_def)
  have "ent (preVec time W p) a 0 = emtRhs (preWorld time W p) p a \<and> mrows (preVec time W p) = k"
  proof (cases "model (snd W p)")
    case (VoltageSource v fr)
    have "emtOwn W p a \<longleftrightarrow> a = virtAt W p" by (simp add: emtOwn_def VoltageSource)
    then show ?thesis using c0 VoltageSource
      by (simp add: emtRhs_def e' preWorld_at [OF h] preVec_def preModel_def updateEquiv_def setVectorElementR_def Let_def)
  next
    case (Inductor l q)
    have "emtOwn W p a \<longleftrightarrow> (t0 \<and> a = i0) \<or> (t1 \<and> a = i1)" using own by (simp add: Inductor isVS_def)
    then show ?thesis using c0 Inductor off
      by (simp add: emtRhs_def e' e preWorld_at [OF h] preVec_def preModel_def updateEquiv_def Let_def se)
  next
    case (Capacitor l q)
    have "emtOwn W p a \<longleftrightarrow> (t0 \<and> a = i0) \<or> (t1 \<and> a = i1)" using own by (simp add: Capacitor isVS_def)
    then show ?thesis using c0 Capacitor off
      by (simp add: emtRhs_def e' e preWorld_at [OF h] preVec_def preModel_def updateEquiv_def Let_def se)
  next
    case (CurrentSource i fr)
    have "emtOwn W p a \<longleftrightarrow> (t0 \<and> a = i0) \<or> (t1 \<and> a = i1)" using own by (simp add: CurrentSource isVS_def)
    then show ?thesis using c0 CurrentSource off
      by (simp add: emtRhs_def e' e preWorld_at [OF h] preVec_def preModel_def updateEquiv_def Let_def se)
  qed (use h in \<open>simp_all add: hasPreStep_def\<close>)
  then show "ent (preVec time W p) a 0 = emtRhs (preWorld time W p) p a" "mrows (preVec time W p) = k" by simp_all
qed

lemma preWorld_clean:
  assumes "emtFit k W p" "emtClean k W p"
  shows "emtClean k (preWorld time W p) p"
proof (cases "hasPreStep (model (snd W p))")
  case True
  have own: "emtOwn (preWorld time W p) p a = emtOwn W p a" for a
    unfolding emtOwn_def preWorld_at [OF True] sameNet_ends [OF preWorld_sameNet] preModel_def updateEquiv_def
    by (simp split: emt_model.split)
  have "emtRhs (preWorld time W p) p a = 0" if "\<not> emtOwn W p a" for a
  proof -
    obtain i0 i1 t0 t1 where e: "endsAt W p = (i0, i1, t0, t1)" by (metis prod_cases4)
    show ?thesis using that
      unfolding emtRhs_def Let_def preWorld_at [OF True] sameNet_ends [OF preWorld_sameNet] preModel_def updateEquiv_def
      by (cases "model (snd W p)") (auto simp: emtOwn_def e leaves_def)
  qed
  then show ?thesis
    by (simp add: emtClean_def own preWorld_at [OF True] preVec_ent [OF assms True])
qed (use assms in \<open>simp add: preWorld_def\<close>)

text \<open>A component only depends on, and only changes, its own part of the world.\<close>

definition agree :: "nat \<Rightarrow> emt_world \<Rightarrow> emt_world \<Rightarrow> bool" where
  "agree p W W' \<longleftrightarrow> nodeAt (fst W') = nodeAt (fst W) \<and> compAt (fst W') p = compAt (fst W) p \<and> snd W' p = snd W p"

lemma agree_views:
  assumes "agree p W W'"
  shows "endsAt W' p = endsAt W p" "virtAt W' p = virtAt W p" "emtFit k W' p = emtFit k W p"
    "emtRhs W' p = emtRhs W p" "emtOwn W' p = emtOwn W p" "emtClean k W' p = emtClean k W p"
proof -
  have v: "virtualIndex (fst W') c = virtualIndex (fst W) c" for c
    using assms by (simp add: virtualIndex_def agree_def cong: option.case_cong)
  show e: "endsAt W' p = endsAt W p" "virtAt W' p = virtAt W p"
    using assms by (simp_all add: endsAt_def virtAt_def v agree_def)
  show "emtFit k W' p = emtFit k W p" using assms e by (simp add: emtFit_def v agree_def)
  show "emtRhs W' p = emtRhs W p" using assms by (intro ext) (simp add: emtRhs_def e agree_def Let_def cong: emt_model.case_cong)
  show o: "emtOwn W' p = emtOwn W p" using assms by (intro ext) (simp add: emtOwn_def e agree_def cong: emt_model.case_cong)
  show "emtClean k W' p = emtClean k W p" using assms by (simp add: emtClean_def o agree_def)
qed

lemma agree_preWorld:
  assumes "agree p W W'"
  shows "agree p (preWorld time W p) (preWorld time W' p)"
  using assms agree_views(1,2) [OF assms]
  by (simp add: agree_def preWorld_def preComp_def preModel_def preVec_def Let_def cong: emt_model.case_cong)

lemma agree_other: "q \<noteq> p \<Longrightarrow> agree q W (preWorld time W p)"
  by (simp add: agree_def preWorld_def)

lemma agree_trans: "agree p W W1 \<Longrightarrow> agree p W1 W2 \<Longrightarrow> agree p W W2"
  by (simp add: agree_def)

lemma preSteps:
  assumes "distinct ps" "\<forall>p\<in>set ps. emtFit k W p"
  shows "\<exists>W'. foldE (emtPreStep time) ps W = ok W' \<and> sameNet W W' \<and> nodeAt (fst W') = nodeAt (fst W)
    \<and> (\<forall>p\<in>set ps. agree p (preWorld time W p) W') \<and> (\<forall>p. p \<notin> set ps \<longrightarrow> agree p W W')"
  using assms
proof (induction ps arbitrary: W)
  case Nil
  then show ?case by (simp add: sameNet_refl agree_def)
next
  case (Cons p ps)
  let ?W = "preWorld time W p"
  have step: "emtPreStep time p W = ok ?W" using Cons.prems(2) by (auto intro!: emtPreStep_eq)
  have nd: "nodeAt (fst ?W) = nodeAt (fst W)" by (simp add: preWorld_def)
  have other: "agree q W ?W" if "q \<in> set ps" for q using Cons.prems(1) that by (intro agree_other) auto
  have "\<forall>q\<in>set ps. emtFit k ?W q" using agree_views(3) [OF other] Cons.prems(2) by simp
  then obtain W' where W': "foldE (emtPreStep time) ps ?W = ok W'" "sameNet ?W W'" "nodeAt (fst W') = nodeAt (fst ?W)"
    "\<forall>q\<in>set ps. agree q (preWorld time ?W q) W'" "\<forall>q. q \<notin> set ps \<longrightarrow> agree q ?W W'"
    using Cons.IH [of ?W] Cons.prems(1) by auto
  have "agree q (preWorld time W q) W'" if "q \<in> set (p # ps)" for q
  proof (cases "q = p")
    case True
    then show ?thesis using W'(5) Cons.prems(1) by auto
  next
    case False
    then have q: "q \<in> set ps" using that by simp
    show ?thesis using agree_trans [OF agree_preWorld [OF other [OF q]]] W'(4) q by blast
  qed
  moreover have "agree q W W'" if "q \<notin> set (p # ps)" for q
    using W'(5) that agree_trans [OF agree_other [of q p W time]] by simp
  ultimately show ?case
    using W'(1-3) nd step sameNet_trans [OF preWorld_sameNet W'(2)] by auto
qed

section \<open>The post-step\<close>

definition postV :: "real matrix \<Rightarrow> emt_world \<Rightarrow> nat \<Rightarrow> real" where
  "postV x W p = (case model (snd W p) of
     VoltageSource _ _ \<Rightarrow> intfV (compAt (fst W) p)
   | CurrentSource _ _ \<Rightarrow> - voltageAcross x (endsAt W p)
   | _ \<Rightarrow> voltageAcross x (endsAt W p))"

definition postI :: "real matrix \<Rightarrow> emt_world \<Rightarrow> nat \<Rightarrow> real" where
  "postI x W p = (let u = voltageAcross x (endsAt W p) in case model (snd W p) of
     VoltageSource _ _ \<Rightarrow> ent x (virtAt W p) 0
   | CurrentSource _ _ \<Rightarrow> intfI (compAt (fst W) p)
   | Resistor r \<Rightarrow> u / r
   | Switch s \<Rightarrow> u / switchResistance s (mIsClosed s)
   | Inductor _ e \<Rightarrow> mEquivCond e * u + mEquivCurrent e
   | Capacitor _ e \<Rightarrow> mEquivCond e * u + mEquivCurrent e)"

lemma postStep_ok:
  assumes "emtFit k W p"
  shows "\<exists>c. emtPostStep x p W = ok (setComp p c (fst W), snd W) \<and> wired (compAt (fst W) p) c
    \<and> intfV c = postV x W p \<and> intfI c = postI x W p"
proof -
  obtain H X where W: "W = (H, X)" by (cases W)
  obtain i0 i1 t0 t1 where e: "endsAt (H, X) p = (i0, i1, t0, t1)" by (metis prod_cases4)
  note f = emtFitD(1,3) [OF assms, unfolded W fst_conv snd_conv e]
  have "\<exists>c. (case model (X p) of
         Resistor r \<Rightarrow> resistorPostStep r x (compAt H p)
       | Inductor _ e \<Rightarrow> inductorPostStep e x (compAt H p)
       | Capacitor _ e \<Rightarrow> capacitorPostStep e x (compAt H p)
       | VoltageSource _ _ \<Rightarrow> voltageSourcePostStep H x (compAt H p)
       | CurrentSource _ _ \<Rightarrow> currentSourcePostStep x (compAt H p)
       | Switch s \<Rightarrow> switchPostStep s x (compAt H p)) = ok c
    \<and> wired (compAt H p) c \<and> intfV c = postV x (H, X) p \<and> intfI c = postI x (H, X) p"
    using f by (cases "model (X p)")
      (simp_all add: class_post Let_def postV_def postI_def isVS_def e voltageAcross_def
        switchResistance_def realFromVectorElement_def)
  then show ?thesis by (auto simp: W emtPostStep_def Let_def)
qed

lemma setComp_sameNet:
  assumes "wired (compAt (fst W) p) c"
  shows "sameNet W (setComp p c (fst W), snd W)"
  using assms by (simp add: sameNet_def)

lemma postSteps:
  assumes "\<forall>p\<in>set ps. emtFit k W p"
  shows "\<exists>H'. foldE (emtPostStep x) ps W = ok (H', snd W) \<and> sameNet W (H', snd W) \<and> nodeAt H' = nodeAt (fst W)
    \<and> (\<forall>p. intfV (compAt H' p) = (if p \<in> set ps then postV x W p else intfV (compAt (fst W) p)))
    \<and> (\<forall>p. intfI (compAt H' p) = (if p \<in> set ps then postI x W p else intfI (compAt (fst W) p)))"
  using assms
proof (induction ps rule: rev_induct)
  case Nil
  then show ?case by (cases W) (auto simp: sameNet_refl)
next
  case (snoc p ps)
  then obtain H where H: "foldE (emtPostStep x) ps W = ok (H, snd W)" "sameNet W (H, snd W)" "nodeAt H = nodeAt (fst W)"
    "\<forall>p. intfV (compAt H p) = (if p \<in> set ps then postV x W p else intfV (compAt (fst W) p))"
    "\<forall>p. intfI (compAt H p) = (if p \<in> set ps then postI x W p else intfI (compAt (fst W) p))"
    by auto
  have fit: "emtFit k (H, snd W) p" using sameNet_fit [OF H(2)] snoc.prems by simp
  obtain c where c: "emtPostStep x p (H, snd W) = ok (setComp p c H, snd W)" "wired (compAt H p) c"
    "intfV c = postV x (H, snd W) p" "intfI c = postI x (H, snd W) p"
    using postStep_ok [OF fit] by auto
  have V: "postV x (H, snd W) p = postV x W p"
    using H(4) by (simp add: postV_def sameNet_ends [OF H(2)] split: emt_model.split)
  have I: "postI x (H, snd W) p = postI x W p"
    using H(5) by (simp add: postI_def sameNet_ends [OF H(2)] Let_def split: emt_model.split)
  have "sameNet W (setComp p c H, snd W)"
    using sameNet_trans [OF H(2) setComp_sameNet [of "(H, snd W)" p c]] c(2) by simp
  then show ?case using H c V I by (simp add: foldE_append)
qed

section \<open>A time step of the network\<close>

text \<open>The tasks of a time step in an order the task graph allows: the pre-steps \<open>pre\<close>, the
  solve task, the post-steps \<open>post\<close>.  \<open>None\<close> is a step that does not return.\<close>

definition emtTimeStep :: "'f direct_solver \<Rightarrow> real \<Rightarrow> nat list \<Rightarrow> nat list
    \<Rightarrow> (emt_ext, 'f) mna_direct \<Rightarrow> (error + (emt_ext, 'f) mna_direct) option" where
  "emtTimeStep D time pre post S = (case foldE (emtPreStep time) pre (objs S) of Inl e \<Rightarrow> Some (Inl e)
     | Inr W \<Rightarrow> (case solve emt_methods D (S\<lparr>objs := W\<rparr>) of
         Some (Inr S') \<Rightarrow> Some (bind_err (foldE (emtPostStep (mLeftSideVector S')) post (objs S'))
           (\<lambda>W'. ok (S'\<lparr>objs := W'\<rparr>)))
       | r \<Rightarrow> r))"

definition emtParams :: "real \<Rightarrow> emt_model \<Rightarrow> bool" where
  "emtParams dt m = (case m of Inductor l e \<Rightarrow> l \<noteq> 0 \<and> mEquivCond e = dt / (2 * l)
     | Capacitor cap e \<Rightarrow> dt \<noteq> 0 \<and> mEquivCond e = 2 * cap / dt
     | _ \<Rightarrow> True)"

text \<open>The right vectors the solver adds up are those of the components with a pre-step, and zero
  vectors.\<close>

definition stampsOk :: "(emt_ext, 'f) mna_direct \<Rightarrow> bool" where
  "stampsOk S \<longleftrightarrow> (let pre = (\<lambda>p. hasPreStep (model (snd (objs S) p))) in
     filter pre (mRightVectorStamps S) = filter pre (mMNAComponents (mnaBase S))
     \<and> (\<forall>p\<in>set (mRightVectorStamps S). \<not> pre p \<longrightarrow> (\<forall>a. ent (mRightVector (snd (objs S) p)) a 0 = 0)))"

lemma noPre_rhs: "\<not> hasPreStep (model (snd W p)) \<Longrightarrow> emtRhs W p a = 0"
  by (cases "model (snd W p)") (simp_all add: hasPreStep_def emtRhs_def)

text \<open>The state a step starts from: the matrices are precomputed, the components are connected,
  and the rows of a source vector that its component does not write are zero.\<close>

definition emtReady :: "real \<Rightarrow> nat \<Rightarrow> 'f direct_solver \<Rightarrow> (emt_ext, 'f) mna_direct \<Rightarrow> emt_world \<Rightarrow> bool" where
  "emtReady dt k D S W0 \<longleftrightarrow> emt.ready k D S W0 \<and> mSyncGen (mnaBase S) = []
     \<and> distinct (mMNAComponents (mnaBase S))
     \<and> stampsOk S
     \<and> (\<forall>p\<in>set (mMNAComponents (mnaBase S)). \<not> isSw (model (snd (objs S) p)) \<and> emtFit k (objs S) p
          \<and> (hasPreStep (model (snd (objs S) p)) \<longrightarrow> emtClean k (objs S) p)
          \<and> emtParams dt (model (snd (objs S) p)))
     \<and> (\<forall>p\<in>set (mSwitches (mnaBase S)). isSw (model (snd (objs S) p)) \<and> emtFit k (objs S) p)"

text \<open>The current that leaves row \<open>a\<close> through a component.\<close>

definition outflow :: "emt_world \<Rightarrow> nat \<Rightarrow> nat \<Rightarrow> real" where
  "outflow W p a = (let i = leaves (endsAt W p) a (intfI (compAt (fst W) p)) in
     case model (snd W p) of CurrentSource _ _ \<Rightarrow> - i | _ \<Rightarrow> i)"

text \<open>The law of a component over a step from \<open>W\<close> to \<open>W'\<close>, with solution \<open>x\<close>.\<close>

definition emtLaw :: "real \<Rightarrow> real \<Rightarrow> emt_world \<Rightarrow> emt_world \<Rightarrow> nat \<Rightarrow> bool" where
  "emtLaw dt time W W' p = (let u = intfV (compAt (fst W) p); u' = intfV (compAt (fst W') p);
       i = intfI (compAt (fst W) p); i' = intfI (compAt (fst W') p) in
     case model (snd W p) of
       Resistor r \<Rightarrow> i' = u' / r
     | Inductor l _ \<Rightarrow> l * (i' - i) = dt / 2 * (u' + u)
     | Capacitor cap _ \<Rightarrow> cap * (u' - u) = dt / 2 * (i' + i)
     | VoltageSource v f \<Rightarrow> u' = sourceValue v f time
     | CurrentSource c f \<Rightarrow> i' = sourceValue c f time
     | Switch s \<Rightarrow> i' = u' / switchResistance s (mIsClosed s))"

definition across :: "real matrix \<Rightarrow> emt_world \<Rightarrow> nat \<Rightarrow> real" where
  "across x W p = (let u = voltageAcross x (endsAt W p) in
     case model (snd W p) of CurrentSource _ _ \<Rightarrow> - u | _ \<Rightarrow> u)"

lemma emtParams_params: "params m' = params m \<Longrightarrow> emtParams dt m' = emtParams dt m"
  by (cases m; cases m'; simp add: params_def emtParams_def;
      metis equiv_source.select_convs(1) equiv_source.update_convs(2) equiv_source.surjective)

lemma emtParams_laws:
  assumes "emtParams dt m" "m = Inductor l e"
  shows "l * ((mEquivCond e * u' + (mEquivCond e * u + i)) - i) = dt / 2 * (u' + u)"
  using assms by (simp add: emtParams_def field_simps)

lemma emtParams_lawC:
  assumes "emtParams dt m" "m = Capacitor cap e"
  shows "cap * (u' - u) = dt / 2 * ((mEquivCond e * u' + (- i + - mEquivCond e * u)) + i)"
  using assms by (simp add: emtParams_def field_simps)

text \<open>What a component leaves in a row: its part of the equations less its part of the right
  side.\<close>

definition residual :: "emt_world \<Rightarrow> real matrix \<Rightarrow> nat \<Rightarrow> nat \<Rightarrow> real" where
  "residual W x p a = emtRow W p x a - (if hasPreStep (model (snd W p)) then emtRhs W p a else 0)"

lemma voltagesOnly_sameNet:
  assumes "voltagesOnly (fst W) H'"
  shows "sameNet W (H', snd W)"
proof -
  have "matrixNodeIndex (nodeAt H' q) ph = matrixNodeIndex (nodeAt (fst W) q) ph" for q ph
  proof -
    obtain V where "nodeAt H' q = (nodeAt (fst W) q)\<lparr>mVoltage := V\<rparr>" using assms unfolding voltagesOnly_def by blast
    then show ?thesis by (simp add: matrixNodeIndex_def)
  qed
  then show ?thesis using assms by (simp add: sameNet_def voltagesOnly_def)
qed

lemma ready_sameNet:
  assumes "emt.ready k D S W0" "sameNet (objs S) W" "nodes_ok (fst W)"
    "\<forall>p\<in>set (mMNAComponents (mnaBase S)). \<not> isSw (model (snd (objs S) p))"
  shows "emt.ready k D (S\<lparr>objs := W\<rparr>) W0"
  using assms(1,3,4) sameNet_emtRow [OF assms(2)] sameNet_row(2) [OF assms(2)]
  unfolding emt.ready_def by simp

lemma preSteps_ready:
  assumes r: "emtReady dt k D S W0"
    and pre: "distinct pre" "set pre = {p \<in> set (mMNAComponents (mnaBase S)). hasPreStep (model (snd (objs S) p))}"
  shows "\<exists>W. foldE (emtPreStep time) pre (objs S) = ok W \<and> emtReady dt k D (S\<lparr>objs := W\<rparr>) W0
    \<and> sameNet (objs S) W \<and> (\<forall>p\<in>set pre. agree p (preWorld time (objs S) p) W) \<and> (\<forall>p. p \<notin> set pre \<longrightarrow> agree p (objs S) W)
    \<and> (\<forall>p\<in>set (mRightVectorStamps S). \<forall>a. ent (mRightVector (snd W p)) a 0 = emtRhs W p a)"
proof -
  let ?C = "mMNAComponents (mnaBase S)"
  note rd = r [unfolded emtReady_def]
  have "\<forall>p\<in>set pre. emtFit k (objs S) p" using rd pre(2) by auto
  then obtain W where W: "foldE (emtPreStep time) pre (objs S) = ok W" "sameNet (objs S) W"
    "nodeAt (fst W) = nodeAt (fst (objs S))" "\<forall>p\<in>set pre. agree p (preWorld time (objs S) p) W"
    "\<forall>p. p \<notin> set pre \<longrightarrow> agree p (objs S) W"
    using preSteps [OF pre(1)] by blast
  have cls: "isSw (model (snd W p)) = isSw (model (snd (objs S) p))"
    "hasPreStep (model (snd W p)) = hasPreStep (model (snd (objs S) p))"
    "emtParams dt (model (snd W p)) = emtParams dt (model (snd (objs S) p))" for p
    by (simp_all add: params_class(2,4) [OF sameNet_params [OF W(2)]] emtParams_params [OF sameNet_params [OF W(2)]])
  have clean: "emtClean k W p" if p: "p \<in> set ?C" "hasPreStep (model (snd (objs S) p))" for p
  proof -
    have "p \<in> set pre" using p pre(2) by simp
    moreover have "emtClean k (preWorld time (objs S) p) p" by (rule preWorld_clean) (use rd p in auto)
    ultimately show ?thesis using agree_views(6) W(4) by blast
  qed
  have rhs: "ent (mRightVector (snd W p)) a 0 = emtRhs W p a" if p: "p \<in> set (mRightVectorStamps S)" for p a
  proof (cases "hasPreStep (model (snd (objs S) p))")
    case True
    have "set (filter (\<lambda>p. hasPreStep (model (snd (objs S) p))) (mRightVectorStamps S))
        = set (filter (\<lambda>p. hasPreStep (model (snd (objs S) p))) ?C)"
      using rd by (simp only: stampsOk_def Let_def)
    then have h: "p \<in> set ?C" using p True by auto
    have ag: "agree p (preWorld time (objs S) p) W" using W(4) h True pre(2) by auto
    have "mRightVector (snd W p) = preVec time (objs S) p"
      using ag preWorld_at(3) [OF True] by (simp add: agree_def)
    moreover have "emtFit k (objs S) p" "emtClean k (objs S) p" using rd h True by blast+
    ultimately show ?thesis using preVec_ent(1) [of k "objs S" p time a] True agree_views(4) [OF ag] by simp
  next
    case False
    then have "agree p (objs S) W" using W(5) pre(2) by auto
    moreover have "ent (mRightVector (snd (objs S) p)) a 0 = 0"
      using rd False p by (simp add: stampsOk_def Let_def)
    ultimately show ?thesis using noPre_rhs [of W p a] False cls(2) by (simp add: agree_def)
  qed
  have stamps: "stampsOk (S\<lparr>objs := W\<rparr>)"
  proof -
    have "ent (mRightVector (snd W p)) a 0 = 0"
      if "p \<in> set (mRightVectorStamps S)" "\<not> hasPreStep (model (snd (objs S) p))" for p a
      using rhs [OF that(1), of a] noPre_rhs [of W p a] that(2) cls(2) by simp
    moreover have "filter (\<lambda>p. hasPreStep (model (snd (objs S) p))) (mRightVectorStamps S)
        = filter (\<lambda>p. hasPreStep (model (snd (objs S) p))) ?C"
      using rd by (simp add: stampsOk_def Let_def)
    ultimately show ?thesis by (simp add: stampsOk_def Let_def cls)
  qed
  have "nodes_ok (fst W)" using rd W(3) by (auto simp: emt.ready_def nodes_ok_def)
  then have "emt.ready k D (S\<lparr>objs := W\<rparr>) W0"
    by (intro ready_sameNet) (use rd W(2) in auto)
  then have "emtReady dt k D (S\<lparr>objs := W\<rparr>) W0"
    using rd clean stamps by (simp add: emtReady_def cls sameNet_fit [OF W(2)])
  then show ?thesis using W rhs by blast
qed

lemma sum_list_filter_if: "(\<Sum>p\<leftarrow>filter P ps. f p) = (\<Sum>p\<leftarrow>ps. if P p then f p else 0)"
  for f :: "nat \<Rightarrow> real"
  by (induction ps) simp_all

lemma emt_balance:
  assumes "emtReady dt k D S W0"
    and "rowsNow (objs S) (mnaBase S) x a = (\<Sum>p\<leftarrow>mRightVectorStamps S. emtRhs (objs S) p a)"
    and rN: "rowsNow = emt.rowsNow"
  shows "(\<Sum>p\<leftarrow>mMNAComponents (mnaBase S) @ mSwitches (mnaBase S). residual (objs S) x p a) = 0"
proof -
  let ?W = "objs S"
  note rd = assms(1) [unfolded emtReady_def]
  have c: "(\<Sum>p\<leftarrow>mMNAComponents (mnaBase S). residual ?W x p a)
      = (\<Sum>p\<leftarrow>mMNAComponents (mnaBase S). emtRow ?W p x a) - (\<Sum>p\<leftarrow>mRightVectorStamps S. emtRhs ?W p a)"
  proof -
    have st: "filter (\<lambda>p. hasPreStep (model (snd ?W p))) (mRightVectorStamps S)
        = filter (\<lambda>p. hasPreStep (model (snd ?W p))) (mMNAComponents (mnaBase S))"
      using rd by (simp add: stampsOk_def Let_def)
    have "(\<Sum>p\<leftarrow>mRightVectorStamps S. emtRhs ?W p a)
        = (\<Sum>p\<leftarrow>mRightVectorStamps S. if hasPreStep (model (snd ?W p)) then emtRhs ?W p a else 0)"
      using noPre_rhs by (intro arg_cong [where f = sum_list] map_cong) auto
    also have "\<dots> = (\<Sum>p\<leftarrow>mMNAComponents (mnaBase S). if hasPreStep (model (snd ?W p)) then emtRhs ?W p a else 0)"
      unfolding sum_list_filter_if [symmetric] st ..
    finally show ?thesis by (simp add: residual_def sum_list_subtractf)
  qed
  have s: "map (\<lambda>p. residual ?W x p a) (mSwitches (mnaBase S))
      = map (\<lambda>p. emtSwitchRow ?W p (emtIsClosed ?W p) x a) (mSwitches (mnaBase S))"
  proof (rule map_cong [OF refl])
    fix p assume "p \<in> set (mSwitches (mnaBase S))"
    then have "isSw (model (snd ?W p))" using rd by auto
    then show "residual ?W x p a = emtSwitchRow ?W p (emtIsClosed ?W p) x a"
      by (cases "model (snd ?W p)")
        (simp_all add: isSw_def residual_def hasPreStep_def emtSwitchRow_def emtRow_def)
  qed
  show ?thesis using assms(2) unfolding rN emt.rowsNow_def by (simp add: c s)
qed

text \<open>The solution of a step and the state after it.\<close>

lemma emt_step_core:
  assumes r: "emtReady dt k D S W0"
    and lu: "\<forall>w M. systemMatrix emt_methods W0 (mnaBase S) k w = ok M \<longrightarrow> emt.lu_ok k D S M"
    and pre: "distinct pre" "set pre = {p \<in> set (mMNAComponents (mnaBase S)). hasPreStep (model (snd (objs S) p))}"
    and post: "set post = set (mMNAComponents (mnaBase S) @ mSwitches (mnaBase S))"
  shows "\<exists>S' W. emtTimeStep D time pre post S = Some (ok S') \<and> emtReady dt k D S' W0 \<and> mnaBase S' = mnaBase S
    \<and> mListVariableSystemMatrixEntries S' = mListVariableSystemMatrixEntries S
    \<and> sameNet (objs S) W \<and> sameNet W (objs S') \<and> snd (objs S') = snd W
    \<and> (\<forall>p\<in>set pre. agree p (preWorld time (objs S) p) W) \<and> (\<forall>p. p \<notin> set pre \<longrightarrow> agree p (objs S) W)
    \<and> (\<forall>p\<in>set post. intfV (compAt (fst (objs S')) p) = postV (mLeftSideVector S') W p
         \<and> intfI (compAt (fst (objs S')) p) = postI (mLeftSideVector S') W p)
    \<and> (\<forall>a < k. (\<Sum>p\<leftarrow>mMNAComponents (mnaBase S) @ mSwitches (mnaBase S). residual W (mLeftSideVector S') p a) = 0)"
proof -
  let ?L = "mnaBase S"
  obtain W where W: "foldE (emtPreStep time) pre (objs S) = ok W" "emtReady dt k D (S\<lparr>objs := W\<rparr>) W0"
    "sameNet (objs S) W" "\<forall>p\<in>set pre. agree p (preWorld time (objs S) p) W" "\<forall>p. p \<notin> set pre \<longrightarrow> agree p (objs S) W"
    "\<forall>p\<in>set (mRightVectorStamps S). \<forall>a. ent (mRightVector (snd W p)) a 0 = emtRhs W p a"
    using preSteps_ready [OF r pre] by blast
  let ?S = "S\<lparr>objs := W\<rparr>"
  note rd = W(2) [unfolded emtReady_def]
  have lu': "\<forall>w M. systemMatrix emt_methods W0 (mnaBase ?S) k w = ok M \<longrightarrow> emt.lu_ok k D ?S M"
    using lu by (simp add: emt.lu_ok_def)
  obtain S1 H1 where S1: "solve emt_methods D ?S = Some (ok S1)"
    "S1 = ?S\<lparr>mRightSideVector := mRightSideVector S1, mLeftSideVector := mLeftSideVector S1,
          mCurrentSwitchStatus := mCurrentSwitchStatus S1, mIter := 0,
          mSystemMatrixChanged := (mCurrentSwitchStatus S1 \<noteq> mCurrentSwitchStatus ?S),
          objs := (H1, snd (objs ?S))\<rparr>"
    "voltagesOnly (fst (objs ?S)) H1" "mrows (mRightSideVector S1) = k"
    "\<forall>j. length (mSwitches (mnaBase ?S)) \<le> j \<longrightarrow> \<not> bit (mCurrentSwitchStatus S1) j"
    "\<forall>a < k. emt.rowsNow (objs ?S) (mnaBase ?S) (mLeftSideVector S1) a
          = (\<Sum>p\<leftarrow>mRightVectorStamps ?S. ent (getRightVector emt_methods (objs ?S) p) a 0)"
    using emt.solve_rows [OF conjunct1 [OF rd] conjunct1 [OF conjunct2 [OF rd]] lu'] by blast
  let ?x = "mLeftSideVector S1"
  have W1: "sameNet W (H1, snd W)" using voltagesOnly_sameNet [of W H1] S1(3) by simp
  have fit: "\<forall>p\<in>set post. emtFit k (H1, snd W) p"
    using rd post sameNet_fit [OF W1] by auto
  obtain H2 where H2: "foldE (emtPostStep ?x) post (H1, snd W) = ok (H2, snd W)" "sameNet (H1, snd W) (H2, snd W)"
    "nodeAt H2 = nodeAt H1"
    "\<forall>p. intfV (compAt H2 p) = (if p \<in> set post then postV ?x (H1, snd W) p else intfV (compAt H1 p))"
    "\<forall>p. intfI (compAt H2 p) = (if p \<in> set post then postI ?x (H1, snd W) p else intfI (compAt H1 p))"
    using postSteps [OF fit, of ?x] by auto
  let ?S' = "S1\<lparr>objs := (H2, snd W)\<rparr>"
  have o1: "objs S1 = (H1, snd W)" using arg_cong [OF S1(2), of objs] by simp
  have net: "sameNet W (H2, snd W)" by (rule sameNet_trans [OF W1 H2(2)])
  have step: "emtTimeStep D time pre post S = Some (ok ?S')"
    by (simp add: emtTimeStep_def W(1) S1(1) o1 H2(1))
  have c1: "compAt H1 = compAt (fst W)" using S1(3) by (simp add: voltagesOnly_def)
  have V: "postV ?x (H1, snd W) p = postV ?x W p" "postI ?x (H1, snd W) p = postI ?x W p" for p
    by (simp_all add: postV_def postI_def sameNet_ends [OF W1] c1 Let_def split: emt_model.split)
  have bal: "(\<Sum>p\<leftarrow>mMNAComponents ?L @ mSwitches ?L. residual W ?x p a) = 0" if "a < k" for a
  proof -
    have "emt.rowsNow W ?L ?x a = (\<Sum>p\<leftarrow>mRightVectorStamps S. ent (mRightVector (snd W p)) a 0)"
      using S1(6) that by simp
    also have "\<dots> = (\<Sum>p\<leftarrow>mRightVectorStamps S. emtRhs W p a)"
      using W(6) by (intro arg_cong [where f = sum_list] map_cong) auto
    finally show ?thesis using emt_balance [OF W(2), of emt.rowsNow ?x a] by simp
  qed
  have eqs: "mnaBase ?S' = ?L" "mRightVectorStamps ?S' = mRightVectorStamps S"
    "mListVariableSystemMatrixEntries ?S' = mListVariableSystemMatrixEntries S"
    by (subst S1(2), simp)+
  have nok: "nodes_ok H2"
    using voltagesOnly_nodes_ok [OF S1(3)] rd H2(3) by (simp add: emt.ready_def nodes_ok_def)
  have r1: "emt.ready k D S1 W0"
  proof -
    have n1: "nodes_ok H1" using nok H2(3) by (simp add: nodes_ok_def)
    have "emt.ready k D (?S\<lparr>objs := (H1, snd W)\<rparr>) W0"
      using ready_sameNet [of k D ?S W0 "(H1, snd W)"] rd W1 n1 by simp
    then have "emt.ready k D (?S\<lparr>mRightSideVector := mRightSideVector S1, mLeftSideVector := mLeftSideVector S1,
          mCurrentSwitchStatus := mCurrentSwitchStatus S1, mIter := 0,
          mSystemMatrixChanged := (mCurrentSwitchStatus S1 \<noteq> mCurrentSwitchStatus ?S),
          objs := (H1, snd (objs ?S))\<rparr>) W0"
      using S1(4,5) unfolding emt.ready_def precomputed_def by simp
    then show ?thesis using S1(2) by simp
  qed
  have cls: "emtClean k (H2, snd W) p = emtClean k W p" for p
  proof -
    have "emtOwn (H2, snd W) p = emtOwn W p"
      by (intro ext) (simp add: emtOwn_def sameNet_ends [OF net] cong: emt_model.case_cong)
    then show "emtClean k (H2, snd W) p = emtClean k W p" by (simp add: emtClean_def)
  qed
  have r2: "emt.ready k D ?S' W0"
  proof (rule ready_sameNet [OF r1])
    show "sameNet (objs S1) (H2, snd W)" by (simp add: o1 H2(2))
    show "nodes_ok (fst (H2, snd W))" using nok by simp
    show "\<forall>p\<in>set (mMNAComponents (mnaBase S1)). \<not> isSw (model (snd (objs S1) p))"
      using rd eqs(1) by (simp add: o1)
  qed
  have stamps: "stampsOk ?S'"
    using rd unfolding stampsOk_def eqs(1,2) by simp
  have "emtReady dt k D ?S' W0"
    unfolding emtReady_def eqs(1)
    using r2 rd cls sameNet_fit [OF net] stamps by simp
  moreover have "sameNet W (objs ?S')" "snd (objs ?S') = snd W" using net by simp_all
  moreover have "\<forall>p\<in>set post. intfV (compAt (fst (objs ?S')) p) = postV (mLeftSideVector ?S') W p
         \<and> intfI (compAt (fst (objs ?S')) p) = postI (mLeftSideVector ?S') W p"
    using H2(4,5) V by simp
  moreover have "\<forall>a < k. (\<Sum>p\<leftarrow>mMNAComponents ?L @ mSwitches ?L. residual W (mLeftSideVector ?S') p a) = 0"
    using bal by simp
  ultimately show ?thesis using step eqs(1,3) W(3-5) by blast
qed

text \<open>The row of a voltage source belongs to its virtual node: no terminal leads to it, and no
  other source has it.\<close>

definition touches :: "emt_world \<Rightarrow> nat \<Rightarrow> nat \<Rightarrow> bool" where
  "touches W p a = (case endsAt W p of (i0, i1, t0, t1) \<Rightarrow> (t0 \<and> a = i0) \<or> (t1 \<and> a = i1))"

definition virtualRow :: "emt_world \<Rightarrow> nat list \<Rightarrow> nat \<Rightarrow> bool" where
  "virtualRow W ps a = list_ex (\<lambda>p. isVS (model (snd W p)) \<and> virtAt W p = a) ps"

definition separateRows :: "emt_world \<Rightarrow> nat list \<Rightarrow> bool" where
  "separateRows W ps = list_all (\<lambda>p. isVS (model (snd W p)) \<longrightarrow>
     list_all (\<lambda>q. \<not> touches W q (virtAt W p) \<and> (q \<noteq> p \<and> isVS (model (snd W q)) \<longrightarrow> virtAt W q \<noteq> virtAt W p)) ps) ps"

lemma isSw_not_isVS: "isSw m \<Longrightarrow> \<not> isVS m"
  by (cases m) (simp_all add: isSw_def isVS_def)

lemma not_touching: "\<not> touches W p a \<Longrightarrow> leaves (endsAt W p) a x = 0"
  by (auto simp: touches_def leaves_def split: prod.splits)

lemma residual_outflow:
  assumes net: "sameNet W W'" "snd W' = snd W"
    and I: "intfI (compAt (fst W') p) = postI x W p" and a: "isVS (model (snd W p)) \<longrightarrow> virtAt W p \<noteq> a"
  shows "residual W x p a = outflow W' p a"
  using a unfolding residual_def emtRow_def emtRowWith_def emtRhs_def outflow_def Let_def
    sameNet_ends [OF net(1)] I net(2) postI_def emtIsClosed_def emtConductance_def hasPreStep_def isVS_def
  by (cases "model (snd W p)") simp_all

lemma residual_virtual:
  assumes "separateRows W ps" "p \<in> set ps" "isVS (model (snd W p))" "q \<in> set ps"
  shows "residual W x q (virtAt W p) = (if q = p then voltageAcross x (endsAt W p) - intfV (compAt (fst W) p) else 0)"
proof -
  have t: "\<not> touches W q (virtAt W p)" "q \<noteq> p \<Longrightarrow> isVS (model (snd W q)) \<Longrightarrow> virtAt W q \<noteq> virtAt W p"
    using assms unfolding separateRows_def list_all_iff by blast+
  note z = not_touching [OF t(1)]
  show ?thesis
  proof (cases "q = p")
    case True
    then show ?thesis using assms(3) z
      by (cases "model (snd W p)")
        (simp_all add: isVS_def residual_def emtRow_def emtRowWith_def emtRhs_def hasPreStep_def Let_def)
  next
    case False
    then show ?thesis using t(2) z
      by (cases "model (snd W q)")
        (simp_all add: isVS_def residual_def emtRow_def emtRowWith_def emtRhs_def hasPreStep_def Let_def)
  qed
qed

lemma sum_list_single:
  assumes "distinct ps" "p \<in> set ps" "\<And>q. q \<in> set ps \<Longrightarrow> q \<noteq> p \<Longrightarrow> f q = (0::real)"
  shows "(\<Sum>q\<leftarrow>ps. f q) = f p"
proof -
  have "(\<Sum>q\<leftarrow>ps. f q) = (\<Sum>q\<in>set ps. f q)" using assms(1) by (rule sum_list_distinct_conv_sum_set)
  also have "\<dots> = (\<Sum>q\<in>{p}. f q)" using assms(2,3) by (intro sum.mono_neutral_right) auto
  finally show ?thesis by simp
qed

lemma separate_sameNet:
  assumes "sameNet W W'"
  shows "separateRows W' ps = separateRows W ps" "virtualRow W' ps a = virtualRow W ps a"
  by (simp_all add: separateRows_def virtualRow_def touches_def sameNet_ends [OF assms]
      params_class(1) [OF sameNet_params [OF assms]])

lemma residual_source:
  assumes "distinct ps" "separateRows W (ps @ qs)" "p \<in> set ps" "isVS (model (snd W p))" "p \<notin> set qs"
    and "(\<Sum>q\<leftarrow>ps @ qs. residual W x q (virtAt W p)) = 0"
  shows "voltageAcross x (endsAt W p) = intfV (compAt (fst W) p)"
proof -
  have r: "residual W x q (virtAt W p) = (if q = p then voltageAcross x (endsAt W p) - intfV (compAt (fst W) p) else 0)"
    if "q \<in> set (ps @ qs)" for q
    using residual_virtual [OF assms(2) _ assms(4) that] assms(3) by simp
  have "(\<Sum>q\<leftarrow>ps. residual W x q (virtAt W p)) = residual W x p (virtAt W p)"
    using r by (intro sum_list_single) (use assms(1,3) in auto)
  moreover have "(\<Sum>q\<leftarrow>qs. residual W x q (virtAt W p)) = (\<Sum>q\<leftarrow>qs. 0)"
    using r assms(5) by (intro arg_cong [where f = sum_list] map_cong) auto
  ultimately show ?thesis using assms(3,6) r [of p] by simp
qed

text \<open>The law of one component, from its pre-step and its post-step.\<close>

lemma step_law:
  assumes pre: "hasPreStep (model (snd W p)) \<Longrightarrow> agree p (preWorld time W p) W1"
      "\<not> hasPreStep (model (snd W p)) \<Longrightarrow> agree p W W1"
    and post: "intfV (compAt (fst W') p) = postV x W1 p" "intfI (compAt (fst W') p) = postI x W1 p"
    and par: "emtParams dt (model (snd W p))"
  shows "emtLaw dt time W W' p"
proof (cases "hasPreStep (model (snd W p))")
  case True
  note ag = pre(1) [OF True, unfolded agree_def]
  have m: "model (snd W1 p) = preModel W p" "compAt (fst W1) p = preComp time W p"
    using ag preWorld_at(1,2) [OF True] by simp_all
  show ?thesis
  proof (cases "model (snd W p)")
    case (Inductor l e)
    then show ?thesis using emtParams_laws [OF par] m post
      by (simp add: emtLaw_def preModel_def updateEquiv_def inductorUpdate_def capacitorUpdate_def postV_def postI_def Let_def)
  next
    case (Capacitor cap e)
    then show ?thesis using emtParams_lawC [OF par] m post
      by (simp add: emtLaw_def preModel_def updateEquiv_def inductorUpdate_def capacitorUpdate_def postV_def postI_def Let_def)
  qed (use True m post in \<open>simp_all add: hasPreStep_def emtLaw_def preModel_def preComp_def updateEquiv_def
        updateSource_def voltageSourceUpdate_def currentSourceUpdate_def postV_def postI_def Let_def\<close>)
next
  case False
  have m: "model (snd W1 p) = model (snd W p)" using pre(2) [OF False] by (simp add: agree_def)
  show ?thesis
    using False m post by (cases "model (snd W p)")
      (simp_all add: hasPreStep_def emtLaw_def postV_def postI_def Let_def)
qed

end
