(* ===== verification/EmtNetwork.thy ===== *)
theory EmtNetwork
  imports EmtStep
begin

text \<open>The theorems on a time step of an EMT network, with a network on which they are applied:
  a voltage source, a resistor, an inductor and a switch between one bus and the ground.\<close>

section \<open>An example network\<close>

definition exNodes :: "nat \<Rightarrow> simNode" where
  "exNodes q = mkSimNode RealVar ''n'' ''n'' (if q = 1 then [1, 1, 1] else [0, 0, 0]) PhaseSingle [0, 0, 0]"

definition exComp :: "nat \<Rightarrow> comp" where
  "exComp p = (mkPowerComp RealVar ''c'' ''c'' ''EMT'' PhaseSingle)\<lparr>mMatrixNodeIndices := [0, 0, 0, 0, 0, 0],
     mMatrixNodeIndexIsGround := [True, False], mVirtualNodes := (if p = 0 then [Some 1] else [])\<rparr>"

definition exModel :: "nat \<Rightarrow> emt_model" where
  "exModel p = (if p = 0 then VoltageSource 5 0 else if p = 1 then Resistor 2
     else if p = 2 then Inductor 1 \<lparr>mEquivCond = 1 / 2, mEquivCurrent = 0\<rparr>
     else Switch \<lparr>mOpenResistance = 1000, mClosedResistance = 1, mIsClosed = True, mIsClosedPrev = False\<rparr>)"

definition exWorld :: emt_world where
  "exWorld = (\<lparr>nodeAt = exNodes, nextNode = 2, compAt = exComp, nextComp = 4\<rparr>,
     \<lambda>p. \<lparr>model = exModel p, mRightVector = (if p = 1 then zeros 0 0 else zeros 2 1), mMnaTasks = []\<rparr>)"

text \<open>A solver for two equations, by Cramer's rule.\<close>

definition cramer :: "real matrix \<Rightarrow> real matrix \<Rightarrow> real matrix" where
  "cramer M b = (let d = ent M 0 0 * ent M 1 1 - ent M 0 1 * ent M 1 0 in
     mkmat 2 1 (\<lambda>i j. if i = 0 then (ent b 0 0 * ent M 1 1 - ent M 0 1 * ent b 1 0) / d
       else (ent M 0 0 * ent b 1 0 - ent b 0 0 * ent M 1 0) / d))"

definition exLU :: "real matrix direct_solver" where
  "exLU = \<lparr>newSolver = zeros 0 0, preprocessing = (\<lambda>f M es. f), factorize = (\<lambda>f M. M),
     partialRefactorize = (\<lambda>f M es. M), lusolve = cramer\<rparr>"

definition exSolver :: mna_solver where
  "exSolver = (mkMnaSolver EMT False ModeDisabled)\<lparr>mMNAComponents := [0, 1, 2], mSwitches := [3]\<rparr>"

definition exMatrix :: "64 word \<Rightarrow> real matrix" where
  "exMatrix w = (case systemMatrix emt_methods exWorld exSolver 2 w of Inl _ \<Rightarrow> zeros 0 0 | Inr M \<Rightarrow> M)"

definition exState :: "(emt_ext, real matrix) mna_direct" where
  "exState = \<lparr>objs = exWorld, mnaBase = exSolver, mTimeStep = 1, mInitFromNodes = False,
     mIsInInitialization = False, mRightVectorStamps = [0, 2, 3], mRightSideVector = zeros 2 1,
     mLeftSideVector = zeros 2 1, mRightSideVectorHarm = [], mCurrentSwitchStatus = 0,
     mSwitchedMatrices = [(0, [exMatrix 0]), (1, [exMatrix 1])],
     mDirectLinearSolvers = [(0, [exMatrix 0]), (1, [exMatrix 1])],
     mListVariableSystemMatrixEntries = [], mBaseSystemMatrix = zeros 0 0, mVariableSystemMatrix = zeros 0 0,
     mVariableSolver = zeros 0 0, mVariableComponentChanged = False, mSystemMatrixChanged = False,
     mNumRecomputations = 0, mIter = 0\<rparr>"

lemma ex_ends: "ends (exComp p) = ok (0, 0, False, True)"
  by (simp add: ends_def compMatrixNodeIndex_def terminalNotGrounded_def vec_at_def exComp_def)

lemma ex_virtual: "virtualIndex (fst exWorld) (exComp 0) = ok 1"
  by (simp add: virtualIndex_def exWorld_def exComp_def exNodes_def vec_at_def matrixNodeIndex_def mkSimNode_def Let_def)

lemma ex_world [simp]: "compAt (fst exWorld) = exComp" "model (snd exWorld p) = exModel p"
    "mRightVector (snd exWorld p) = (if p = 1 then zeros 0 0 else zeros 2 1)" "nodeAt (fst exWorld) = exNodes"
  by (simp_all add: exWorld_def)

lemma ex_views: "endsAt exWorld p = (0, 0, False, True)" "virtAt exWorld 0 = 1"
  by (simp_all add: endsAt_def virtAt_def ex_ends ex_virtual)

lemma ex_fit: "emtFit 2 exWorld p"
  using ex_virtual by (auto simp: emtFit_def ex_views ex_ends endsIn_def isVS_def exModel_def)

lemma ex_stamp:
  "voltageSourceStamp (fst exWorld) (exComp 0) M = ok (addToMatrixElementR (addToMatrixElementR M 0 1 1) 1 0 1)"
  "stampTwoPort g (exComp p) M = ok (addEnt M 0 0 g)"
  using ex_virtual ex_ends
  by (simp_all add: voltageSourceStamp_def stampTwoPort_def stampSource_def stampConductance_def stampValue_def
      stampToMatrix_def addR_addEnt Let_def)

lemma ex_matrix:
  assumes "systemMatrix emt_methods exWorld exSolver 2 w = ok M"
  shows "mcols M = 2" "ent M 0 0 = 1 + (if bit w 0 then 1 else 1 / 1000)" "ent M 0 1 = 1" "ent M 1 0 = 1" "ent M 1 1 = 0"
proof -
  have "M = addEnt (addEnt (addEnt (addToMatrixElementR (addToMatrixElementR (zeros 2 2) 0 1 1) 1 0 1) 0 0 (1 / 2)) 0 0 (1 / 2))
       0 0 (if bit w 0 then 1 else 1 / 1000)"
    using assms ex_stamp
    by (cases "bit w 0") (simp_all add: systemMatrix_def stampComps_def stampSwitches_def exSolver_def mkMnaSolver_def
        emtStamp_def emtSwitchStamp_def resistorStamp_def inductorStamp_def switchStampWith_def exModel_def)
  then show "mcols M = 2" "ent M 0 0 = 1 + (if bit w 0 then 1 else 1 / 1000)" "ent M 0 1 = 1" "ent M 1 0 = 1" "ent M 1 1 = 0"
    by (simp_all add: addEnt_def addToMatrixElementR_def zeros_def)
qed

lemma ex_lu: "systemMatrix emt_methods exWorld exSolver 2 w = ok M \<Longrightarrow> emt.lu_ok 2 exLU exState M"
  using ex_matrix [of w M]
  by (auto simp: emt.lu_ok_def exLU_def cramer_def Let_def mat_mult_def numeral_2_eq_2 less_Suc_eq field_simps)

lemma ex_precomputed: "i < 2 \<Longrightarrow> precomputed emt_methods exLU 2 exState i"
proof -
  assume i: "i < 2"
  have "emt.fits 2 exWorld exSolver" by (simp add: emt.fits_def ex_fit)
  then obtain M where M: "systemMatrix emt_methods exWorld exSolver 2 (word_of_nat i) = ok M"
    using emt.systemMatrix_rows by blast
  have "i = 0 \<or> i = 1" using i by auto
  then show ?thesis using M
    by (auto simp: precomputed_def exState_def exMatrix_def exLU_def edges_at_def)
qed

lemma ex_ready: "emtReady 1 2 exLU exState exWorld"
proof -
  have L: "mMNAComponents exSolver = [0, 1, 2]" "mSwitches exSolver = [3]" "mSyncGen exSolver = []"
    by (simp_all add: exSolver_def mkMnaSolver_def)
  have S: "objs exState = exWorld" "mnaBase exState = exSolver" "mRightVectorStamps exState = [0, 2, 3]"
    by (simp_all add: exState_def)
  have nd: "nodes_ok (fst exWorld)"
    by (simp add: nodes_ok_def node_ok_def node_rows_def exNodes_def mkSimNode_def Let_def)
  have "emt.ready 2 exLU exState exWorld"
    unfolding emt.ready_def S L
    using ex_precomputed ex_fit nd by (auto simp: emt.fits_def L) (simp_all add: exState_def zeros_def)
  moreover have "emtClean 2 exWorld p" if "p \<noteq> 1" for p
    using that by (simp add: emtClean_def zeros_def)
  ultimately show ?thesis
    unfolding emtReady_def stampsOk_def Let_def S L using ex_fit
    by (simp add: exModel_def isSw_def hasPreStep_def emtParams_def zeros_def)
qed

lemma ex_step:
  "\<forall>w M. systemMatrix emt_methods exWorld (mnaBase exState) 2 w = ok M \<longrightarrow> emt.lu_ok 2 exLU exState M"
  "distinct [2, 0 :: nat]" "set [2, 0] = {p \<in> set (mMNAComponents (mnaBase exState)). hasPreStep (model (snd (objs exState) p))}"
  "set [3, 0, 1, 2, 3] = set (mMNAComponents (mnaBase exState) @ mSwitches (mnaBase exState))"
  "separateRows (objs exState) (mMNAComponents (mnaBase exState) @ mSwitches (mnaBase exState))"
proof -
  have L: "mMNAComponents (mnaBase exState) = [0, 1, 2]" "mSwitches (mnaBase exState) = [3]" "objs exState = exWorld"
    "mnaBase exState = exSolver"
    by (simp_all add: exState_def exSolver_def mkMnaSolver_def)
  show "\<forall>w M. systemMatrix emt_methods exWorld (mnaBase exState) 2 w = ok M \<longrightarrow> emt.lu_ok 2 exLU exState M"
    using ex_lu unfolding L(4) by blast
  show "distinct [2, 0 :: nat]" by simp
  show "set [2, 0] = {p \<in> set (mMNAComponents (mnaBase exState)). hasPreStep (model (snd (objs exState) p))}"
    unfolding L(1,3) by (auto simp: exModel_def hasPreStep_def)
  show "set [3, 0, 1, 2, 3] = set (mMNAComponents (mnaBase exState) @ mSwitches (mnaBase exState))"
    unfolding L(1,2) by auto
  show "separateRows (objs exState) (mMNAComponents (mnaBase exState) @ mSwitches (mnaBase exState))"
    unfolding L(1-3) by (simp add: separateRows_def touches_def ex_views isVS_def exModel_def)
qed

section \<open>A time step\<close>

text \<open>Kirchhoff's current law.\<close>

lemma step_kcl:
  assumes r: "emtReady dt k D S W0"
    and lu: "\<forall>w M. systemMatrix emt_methods W0 (mnaBase S) k w = ok M \<longrightarrow> emt.lu_ok k D S M"
    and pre: "distinct pre" "set pre = {p \<in> set (mMNAComponents (mnaBase S)). hasPreStep (model (snd (objs S) p))}"
    and post: "set post = set (mMNAComponents (mnaBase S) @ mSwitches (mnaBase S))"
  shows "\<exists>S'. emtTimeStep D time pre post S = Some (ok S') \<and> emtReady dt k D S' W0
    \<and> (\<forall>a < k. \<not> virtualRow (objs S) (mMNAComponents (mnaBase S)) a \<longrightarrow>
         (\<Sum>p\<leftarrow>mMNAComponents (mnaBase S) @ mSwitches (mnaBase S). outflow (objs S') p a) = 0)"
proof -
  let ?ps = "mMNAComponents (mnaBase S) @ mSwitches (mnaBase S)"
  obtain S' W where S': "emtTimeStep D time pre post S = Some (ok S')" "emtReady dt k D S' W0"
    "sameNet (objs S) W" "sameNet W (objs S')" "snd (objs S') = snd W"
    "\<forall>p\<in>set post. intfI (compAt (fst (objs S')) p) = postI (mLeftSideVector S') W p"
    "\<forall>a < k. (\<Sum>p\<leftarrow>?ps. residual W (mLeftSideVector S') p a) = 0"
    using emt_step_core [OF assms, of time] by blast
  have "(\<Sum>p\<leftarrow>?ps. outflow (objs S') p a) = 0"
    if a: "a < k" and v: "\<not> virtualRow (objs S) (mMNAComponents (mnaBase S)) a" for a
  proof -
    have "\<not> isVS (model (snd W p)) \<or> virtAt W p \<noteq> a" if p: "p \<in> set ?ps" for p
    proof (cases "p \<in> set (mMNAComponents (mnaBase S))")
      case True
      then show ?thesis
        using v unfolding separate_sameNet(2) [OF S'(3), symmetric] by (auto simp: virtualRow_def list_ex_iff)
    next
      case False
      then have "isSw (model (snd (objs S) p))" using p r by (auto simp: emtReady_def)
      then show ?thesis
        by (simp add: isSw_not_isVS params_class(1) [OF sameNet_params [OF S'(3)]])
    qed
    then have "(\<Sum>p\<leftarrow>?ps. residual W (mLeftSideVector S') p a) = (\<Sum>p\<leftarrow>?ps. outflow (objs S') p a)"
      using S'(4-6) post by (intro arg_cong [where f = sum_list] map_cong residual_outflow) auto
    then show ?thesis using S'(7) a by simp
  qed
  then show ?thesis using S'(1,2) by blast
qed

lemma across_VS:
  "isVS (model (snd W p)) \<Longrightarrow> postV x W p = intfV (compAt (fst W) p)"
  "isVS (model (snd W p)) \<Longrightarrow> across x W p = voltageAcross x (endsAt W p)"
  by (cases "model (snd W p)"; simp add: isVS_def postV_def across_def)+

lemma across_other:
  assumes "\<not> isVS (model (snd W p))" "params (model (snd W' p)) = params (model (snd W p))" "endsAt W' p = endsAt W p"
  shows "postV x W' p = across x W p"
  using assms
  by (cases "model (snd W p)"; cases "model (snd W' p)") (simp_all add: isVS_def postV_def across_def params_def)

lemma step_laws:
  assumes r: "emtReady dt k D S W0"
    and lu: "\<forall>w M. systemMatrix emt_methods W0 (mnaBase S) k w = ok M \<longrightarrow> emt.lu_ok k D S M"
    and pre: "distinct pre" "set pre = {p \<in> set (mMNAComponents (mnaBase S)). hasPreStep (model (snd (objs S) p))}"
    and post: "set post = set (mMNAComponents (mnaBase S) @ mSwitches (mnaBase S))"
    and sep: "separateRows (objs S) (mMNAComponents (mnaBase S) @ mSwitches (mnaBase S))"
  shows "\<exists>S'. emtTimeStep D time pre post S = Some (ok S')
    \<and> (\<forall>p\<in>set post. emtLaw dt time (objs S) (objs S') p
         \<and> intfV (compAt (fst (objs S')) p) = across (mLeftSideVector S') (objs S) p)"
proof -
  let ?cs = "mMNAComponents (mnaBase S)" let ?ps = "?cs @ mSwitches (mnaBase S)"
  obtain S' W where S': "emtTimeStep D time pre post S = Some (ok S')"
    "sameNet (objs S) W" "\<forall>p\<in>set pre. agree p (preWorld time (objs S) p) W" "\<forall>p. p \<notin> set pre \<longrightarrow> agree p (objs S) W"
    "\<forall>p\<in>set post. intfV (compAt (fst (objs S')) p) = postV (mLeftSideVector S') W p
       \<and> intfI (compAt (fst (objs S')) p) = postI (mLeftSideVector S') W p"
    "\<forall>a < k. (\<Sum>p\<leftarrow>?ps. residual W (mLeftSideVector S') p a) = 0"
    using emt_step_core [OF r lu pre post, of time] by blast
  let ?x = "mLeftSideVector S'"
  note rd = r [unfolded emtReady_def]
  note cls = params_class(1,2,4) [OF sameNet_params [OF S'(2)]] sameNet_ends(2,4) [OF S'(2)]
  have sw: "isSw (model (snd (objs S) p)) \<Longrightarrow> \<not> hasPreStep (model (snd (objs S) p)) \<and> emtParams dt (model (snd (objs S) p))" for p
    by (cases "model (snd (objs S) p)") (simp_all add: isSw_def hasPreStep_def emtParams_def)
  have "emtLaw dt time (objs S) (objs S') p" if p: "p \<in> set post" for p
  proof (rule step_law [where ?W1.0 = W and x = ?x])
    show "agree p (preWorld time (objs S) p) W" if "hasPreStep (model (snd (objs S) p))"
      using that S'(3) sw rd p post pre(2) by auto
    show "agree p (objs S) W" if "\<not> hasPreStep (model (snd (objs S) p))" using that S'(4) pre(2) by auto
    show "emtParams dt (model (snd (objs S) p))" using rd sw p post by auto
  qed (use S'(5) p in simp_all)
  moreover have "intfV (compAt (fst (objs S')) p) = across ?x (objs S) p" if p: "p \<in> set post" for p
  proof -
    have "postV ?x W p = across ?x (objs S) p"
    proof (cases "isVS (model (snd (objs S) p))")
      case True
      then have nsw: "\<not> isSw (model (snd (objs S) p))" using isSw_not_isVS by blast
      then have pc: "p \<in> set ?cs" "p \<notin> set (mSwitches (mnaBase S))" using p post rd by auto
      have fit: "emtFit k (objs S) p" using rd pc by blast
      have vk: "virtAt W p < k" using emtFitD(4) [OF fit True] cls(5) by simp
      have "voltageAcross ?x (endsAt W p) = intfV (compAt (fst W) p)"
      proof (rule residual_source [of ?cs W "mSwitches (mnaBase S)"])
        show "distinct ?cs" using rd by blast
        show "separateRows W ?ps" using sep separate_sameNet(1) [OF S'(2)] by simp
        show "isVS (model (snd W p))" using True cls(1) by simp
      qed (use pc S'(6) vk in simp_all)
      then show ?thesis using across_VS True cls(1,4) by simp
    next
      case False
      then show ?thesis using across_other sameNet_params [OF S'(2)] cls(4) by blast
    qed
    then show ?thesis using S'(5) p by simp
  qed
  ultimately show ?thesis using S'(1) by blast
qed

section \<open>A run\<close>

text \<open>The states of a run over the given times.\<close>

primrec emtRun :: "'f direct_solver \<Rightarrow> nat list \<Rightarrow> nat list \<Rightarrow> real list \<Rightarrow> (emt_ext, 'f) mna_direct
    \<Rightarrow> (error + (emt_ext, 'f) mna_direct list) option" where
  "emtRun D pre post [] S = Some (ok [])"
| "emtRun D pre post (time # ts) S = (case emtTimeStep D time pre post S of
     Some (Inr S') \<Rightarrow> map_option (\<lambda>r. bind_err r (\<lambda>Ss. ok (S' # Ss))) (emtRun D pre post ts S')
   | Some (Inl e) \<Rightarrow> Some (Inl e)
   | None \<Rightarrow> None)"

definition kirchhoff :: "nat \<Rightarrow> (emt_ext, 'f) mna_direct \<Rightarrow> bool" where
  "kirchhoff k S \<longleftrightarrow> (\<forall>a < k. \<not> virtualRow (objs S) (mMNAComponents (mnaBase S)) a \<longrightarrow>
     (\<Sum>p\<leftarrow>mMNAComponents (mnaBase S) @ mSwitches (mnaBase S). outflow (objs S) p a) = 0)"

lemma step_run:
  assumes r: "emtReady dt k D S W0"
    and lu: "\<forall>w M. systemMatrix emt_methods W0 (mnaBase S) k w = ok M \<longrightarrow> emt.lu_ok k D S M"
    and pre: "distinct pre" "set pre = {p \<in> set (mMNAComponents (mnaBase S)). hasPreStep (model (snd (objs S) p))}"
    and post: "set post = set (mMNAComponents (mnaBase S) @ mSwitches (mnaBase S))"
    and sep: "separateRows (objs S) (mMNAComponents (mnaBase S) @ mSwitches (mnaBase S))"
  shows "\<exists>S'. emtTimeStep D time pre post S = Some (ok S') \<and> emtReady dt k D S' W0 \<and> mnaBase S' = mnaBase S
    \<and> (\<forall>w M. systemMatrix emt_methods W0 (mnaBase S') k w = ok M \<longrightarrow> emt.lu_ok k D S' M)
    \<and> sameNet (objs S) (objs S') \<and> kirchhoff k S' \<and> (\<forall>p\<in>set post. emtLaw dt time (objs S) (objs S') p)"
proof -
  obtain S' W where S': "emtTimeStep D time pre post S = Some (ok S')" "emtReady dt k D S' W0" "mnaBase S' = mnaBase S"
    "mListVariableSystemMatrixEntries S' = mListVariableSystemMatrixEntries S"
    "sameNet (objs S) W" "sameNet W (objs S')"
    using emt_step_core [OF r lu pre post, of time] by blast
  have net: "sameNet (objs S) (objs S')" by (rule sameNet_trans [OF S'(5,6)])
  have "kirchhoff k S'"
    using step_kcl [OF r lu pre post, of time] S'(1)
    by (simp add: kirchhoff_def S'(3) separate_sameNet(2) [OF net])
  moreover have "\<forall>p\<in>set post. emtLaw dt time (objs S) (objs S') p"
    using step_laws [OF r lu pre post sep, of time] S'(1) by simp
  moreover have "\<forall>w M. systemMatrix emt_methods W0 (mnaBase S') k w = ok M \<longrightarrow> emt.lu_ok k D S' M"
    using lu by (simp add: S'(3,4) emt.lu_ok_def)
  ultimately show ?thesis using S'(1-3) net by blast
qed

lemma run_steps:
  assumes "emtReady dt k D S W0"
    and "\<forall>w M. systemMatrix emt_methods W0 (mnaBase S) k w = ok M \<longrightarrow> emt.lu_ok k D S M"
    and "distinct pre" "set pre = {p \<in> set (mMNAComponents (mnaBase S)). hasPreStep (model (snd (objs S) p))}"
    and "set post = set (mMNAComponents (mnaBase S) @ mSwitches (mnaBase S))"
    and "separateRows (objs S) (mMNAComponents (mnaBase S) @ mSwitches (mnaBase S))"
  shows "\<exists>Ss. emtRun D pre post ts S = Some (ok Ss) \<and> length Ss = length ts
    \<and> (\<forall>i < length ts. kirchhoff k (Ss ! i)
         \<and> (\<forall>p\<in>set post. emtLaw dt (ts ! i) (objs ((S # Ss) ! i)) (objs (Ss ! i)) p))"
  using assms
proof (induction ts arbitrary: S)
  case (Cons time ts)
  obtain S' where S': "emtTimeStep D time pre post S = Some (ok S')" "emtReady dt k D S' W0" "mnaBase S' = mnaBase S"
    "\<forall>w M. systemMatrix emt_methods W0 (mnaBase S') k w = ok M \<longrightarrow> emt.lu_ok k D S' M"
    "sameNet (objs S) (objs S')" "kirchhoff k S'" "\<forall>p\<in>set post. emtLaw dt time (objs S) (objs S') p"
    using step_run [OF Cons.prems, of time] by blast
  have pre: "set pre = {p \<in> set (mMNAComponents (mnaBase S')). hasPreStep (model (snd (objs S') p))}"
    using Cons.prems(4) by (simp add: S'(3) params_class(4) [OF sameNet_params [OF S'(5)]])
  have "separateRows (objs S') (mMNAComponents (mnaBase S') @ mSwitches (mnaBase S'))"
    using Cons.prems(6) by (simp add: S'(3) separate_sameNet(1) [OF S'(5)])
  then obtain Ss where Ss: "emtRun D pre post ts S' = Some (ok Ss)" "length Ss = length ts"
    "\<forall>i < length ts. kirchhoff k (Ss ! i)
       \<and> (\<forall>p\<in>set post. emtLaw dt (ts ! i) (objs ((S' # Ss) ! i)) (objs (Ss ! i)) p)"
    using Cons.IH [OF S'(2,4) Cons.prems(3) pre] Cons.prems(5) S'(3) by auto
  have "kirchhoff k ((S' # Ss) ! i) \<and> (\<forall>p\<in>set post. emtLaw dt ((time # ts) ! i)
       (objs ((S # S' # Ss) ! i)) (objs ((S' # Ss) ! i)) p)" if "i < length (time # ts)" for i
    using that S'(6,7) Ss(3) by (cases i) auto
  then show ?case using S'(1) Ss(1,2) by (intro exI [of _ "S' # Ss"]) simp
qed simp

section \<open>The theorems\<close>

text \<open>A time step of a network of single-phase EMT components returns, keeps the solver ready for the
  next step, and its currents satisfy Kirchhoff's current law: in every row that is not the virtual row of a
  voltage source, the currents that leave the node through all components and switches, as the post-steps
  store them, add up to zero.\<close>

theorem emt_step_kcl:
  assumes r: "emtReady dt k D S W0"
    and lu: "\<forall>w M. systemMatrix emt_methods W0 (mnaBase S) k w = ok M \<longrightarrow> emt.lu_ok k D S M"
    and pre: "distinct pre" "set pre = {p \<in> set (mMNAComponents (mnaBase S)). hasPreStep (model (snd (objs S) p))}"
    and post: "set post = set (mMNAComponents (mnaBase S) @ mSwitches (mnaBase S))"
  shows "\<exists>S'. emtTimeStep D time pre post S = Some (ok S') \<and> emtReady dt k D S' W0
    \<and> (\<forall>a < k. \<not> virtualRow (objs S) (mMNAComponents (mnaBase S)) a \<longrightarrow>
         (\<Sum>p\<leftarrow>mMNAComponents (mnaBase S) @ mSwitches (mnaBase S). outflow (objs S') p a) = 0)"
  using step_kcl [OF r lu pre post] .

theorem emt_step_kcl_witness:
  "\<exists>S'. emtTimeStep exLU 0 [2, 0] [3, 0, 1, 2, 3] exState = Some (ok S') \<and> emtReady 1 2 exLU S' exWorld
    \<and> (\<Sum>p\<leftarrow>[0, 1, 2, 3]. outflow (objs S') p 0) = 0"
proof -
  have L: "mMNAComponents (mnaBase exState) @ mSwitches (mnaBase exState) = [0, 1, 2, 3]" "objs exState = exWorld"
    "mMNAComponents (mnaBase exState) = [0, 1, 2]"
    by (simp_all add: exState_def exSolver_def mkMnaSolver_def)
  have "\<not> virtualRow (objs exState) (mMNAComponents (mnaBase exState)) 0"
    unfolding L by (simp add: virtualRow_def ex_views isVS_def exModel_def)
  then show ?thesis
    using emt_step_kcl [OF ex_ready ex_step(1-4), of 0] unfolding L(1) by fastforce
qed

text \<open>C14. Over a time step every component satisfies its own law between the values stored before and after
  it: Ohm's law for resistors and switches, the trapezoidal rule for inductors and capacitors, the source value
  at the time of the step for sources; and the voltage stored for a component is the difference of the solved node
  voltages at its terminals, for a voltage source too.\<close>

theorem emt_step_laws:
  assumes r: "emtReady dt k D S W0"
    and lu: "\<forall>w M. systemMatrix emt_methods W0 (mnaBase S) k w = ok M \<longrightarrow> emt.lu_ok k D S M"
    and pre: "distinct pre" "set pre = {p \<in> set (mMNAComponents (mnaBase S)). hasPreStep (model (snd (objs S) p))}"
    and post: "set post = set (mMNAComponents (mnaBase S) @ mSwitches (mnaBase S))"
    and sep: "separateRows (objs S) (mMNAComponents (mnaBase S) @ mSwitches (mnaBase S))"
  shows "\<exists>S'. emtTimeStep D time pre post S = Some (ok S')
    \<and> (\<forall>p\<in>set post. emtLaw dt time (objs S) (objs S') p
         \<and> intfV (compAt (fst (objs S')) p) = across (mLeftSideVector S') (objs S) p)"
  using step_laws [OF r lu pre post sep] .

theorem emt_step_laws_witness:
  "\<exists>S'. emtTimeStep exLU 0 [2, 0] [3, 0, 1, 2, 3] exState = Some (ok S')
    \<and> intfV (compAt (fst (objs S')) 0) = 5 \<and> 1 * (intfI (compAt (fst (objs S')) 2) - intfI (exComp 2))
         = 1 / 2 * (intfV (compAt (fst (objs S')) 2) + intfV (exComp 2))"
proof -
  have ob: "objs exState = exWorld" by (simp add: exState_def)
  obtain S' where S': "emtTimeStep exLU 0 [2, 0] [3, 0, 1, 2, 3] exState = Some (ok S')"
    "\<forall>p\<in>set [3, 0, 1, 2, 3]. emtLaw 1 0 (objs exState) (objs S') p"
    using emt_step_laws [OF ex_ready ex_step, of 0] by blast
  have "emtLaw 1 0 exWorld (objs S') 0" "emtLaw 1 0 exWorld (objs S') 2" using S'(2) unfolding ob by simp_all
  then show ?thesis using S'(1) by (simp add: emtLaw_def exModel_def sourceValue_def)
qed

text \<open>A run of any length over a network of single-phase EMT components never fails and never diverges;
  after each of its steps Kirchhoff's current law holds at every node, and every component satisfies its law between
  the states before and after the step.\<close>

theorem emt_run:
  assumes r: "emtReady dt k D S W0"
    and lu: "\<forall>w M. systemMatrix emt_methods W0 (mnaBase S) k w = ok M \<longrightarrow> emt.lu_ok k D S M"
    and pre: "distinct pre" "set pre = {p \<in> set (mMNAComponents (mnaBase S)). hasPreStep (model (snd (objs S) p))}"
    and post: "set post = set (mMNAComponents (mnaBase S) @ mSwitches (mnaBase S))"
    and sep: "separateRows (objs S) (mMNAComponents (mnaBase S) @ mSwitches (mnaBase S))"
  shows "\<exists>Ss. emtRun D pre post ts S = Some (ok Ss) \<and> length Ss = length ts
    \<and> (\<forall>i < length ts. kirchhoff k (Ss ! i)
         \<and> (\<forall>p\<in>set post. emtLaw dt (ts ! i) (objs ((S # Ss) ! i)) (objs (Ss ! i)) p))"
  using run_steps [OF assms] .

theorem emt_run_witness:
  "\<exists>Ss. emtRun exLU [2, 0] [3, 0, 1, 2, 3] [0, 1, 2] exState = Some (ok Ss) \<and> length Ss = 3
    \<and> (\<forall>i < 3. kirchhoff 2 (Ss ! i))"
  using emt_run [OF ex_ready ex_step, of "[0, 1, 2]"] by fastforce

end
