(* ===== verification/EmtInit.thy ===== *)
theory EmtInit
  imports EmtNetwork
begin

text \<open>The initialisation of the solver for an EMT network: the empty matrices are created, every
  combination of switch states is stamped and factorized, and the first right side is built.
  Afterwards the solver is ready for the first time step.\<close>

section \<open>The first right side\<close>

lemma rightStamp_ok:
  assumes "emtFit k W p"
  shows "\<exists>b'. emtRightStamp p (W, b) = ok ((fst W, (snd W)(p := (snd W p)\<lparr>model := preModel W p\<rparr>)), b')
    \<and> mrows b' = mrows b"
proof -
  note f = emtFitD(1,3) [OF assms]
  have [simp]: "mrows (setEnds x e b) = mrows b" for x e
    by (auto simp: setEnds_def setVectorElementR_def Let_def split: prod.splits)
  show ?thesis using f by (cases "model (snd W p)"; cases W)
      (auto simp: emtRightStamp_def preModel_def updateEquiv_def Let_def isVS_def setVectorElementR_def class_right)
qed

lemma rightStamps_ok:
  assumes "\<forall>p\<in>set ps. emtFit k W p"
  shows "\<exists>X b'. foldE (mnaApplyRightSideVectorStamp emt_methods) ps (W, b) = ok ((fst W, X), b')
    \<and> sameNet W (fst W, X) \<and> (\<forall>p. mRightVector (X p) = mRightVector (snd W p)) \<and> mrows b' = mrows b
    \<and> (\<forall>p. mMnaTasks (X p) = mMnaTasks (snd W p))"
  using assms
proof (induction ps arbitrary: W b)
  case Nil
  then show ?case by (cases W) (auto simp: sameNet_refl)
next
  case (Cons p ps)
  let ?W = "(fst W, (snd W)(p := (snd W p)\<lparr>model := preModel W p\<rparr>))"
  obtain b1 where b1: "emtRightStamp p (W, b) = ok (?W, b1)" "mrows b1 = mrows b" using rightStamp_ok Cons.prems by fastforce
  have net: "sameNet W ?W" by (simp add: sameNet_def preModel_def)
  have "\<forall>q\<in>set ps. emtFit k ?W q" using Cons.prems sameNet_fit [OF net] by simp
  from Cons.IH [OF this, of b1] obtain X b' where X: "foldE (mnaApplyRightSideVectorStamp emt_methods) ps (?W, b1) = ok ((fst W, X), b')"
    "sameNet ?W (fst W, X)" "\<forall>q. mRightVector (X q) = mRightVector (snd ?W q)" "mrows b' = mrows b1"
    "\<forall>q. mMnaTasks (X q) = mMnaTasks (snd ?W q)" by auto
  have "\<forall>q. mRightVector (X q) = mRightVector (snd W q)" "\<forall>q. mMnaTasks (X q) = mMnaTasks (snd W q)" using X(3,5) by simp_all
  then show ?case using b1 X(1,4) sameNet_trans [OF net X(2)] by (auto simp del: fun_upd_apply)
qed

section \<open>From the empty matrices to the first step\<close>

text \<open>The state the initialisation of the components leaves, and the same before any matrix is made.\<close>

definition emtComponents :: "real \<Rightarrow> nat \<Rightarrow> (emt_ext, 'f) mna_direct \<Rightarrow> bool" where
  "emtComponents dt k S \<longleftrightarrow> mSyncGen (mnaBase S) = [] \<and> distinct (mMNAComponents (mnaBase S))
     \<and> length (mSwitches (mnaBase S)) < 64 \<and> mNumMatrixNodeIndices (mnaBase S) = k
     \<and> \<not> mFrequencyParallel (mnaBase S) \<and> \<not> mSystemMatrixRecomputationEnabled (mnaBase S)
     \<and> mCurrentSwitchStatus S = 0
     \<and> mrows (mRightSideVector S) = k \<and> mcols (mRightSideVector S) = 1 \<and> \<not> mIsInInitialization S
     \<and> nodes_ok (fst (objs S))
     \<and> stampsOk S
     \<and> (\<forall>p\<in>set (mMNAComponents (mnaBase S)). \<not> isSw (model (snd (objs S) p)) \<and> emtFit k (objs S) p
          \<and> (hasPreStep (model (snd (objs S) p)) \<longrightarrow> emtClean k (objs S) p)
          \<and> emtParams dt (model (snd (objs S) p)))
     \<and> (\<forall>p\<in>set (mSwitches (mnaBase S)). isSw (model (snd (objs S) p)) \<and> emtFit k (objs S) p)"

definition emtInitialised :: "real \<Rightarrow> nat \<Rightarrow> (emt_ext, 'f) mna_direct \<Rightarrow> bool" where
  "emtInitialised dt k S \<longleftrightarrow> emtComponents dt k S \<and> mSwitchedMatrices S = [] \<and> mDirectLinearSolvers S = []"

lemma create_real:
  assumes "length (mSwitches (mnaBase S)) < 64" "mNumMatrixNodeIndices (mnaBase S) = k"
    "\<not> mFrequencyParallel (mnaBase S)" "\<not> mSystemMatrixRecomputationEnabled (mnaBase S)"
    "mSwitchedMatrices S = []" "mDirectLinearSolvers S = []"
  shows "\<exists>S1. createEmptySystemMatrix RealVar T D S = ok S1 \<and> keeps S S1
    \<and> (\<forall>i < 2 ^ length (mSwitches (mnaBase S)). blank k D S1 i)"
proof -
  note i = assms
  have "createEmptySystemMatrix RealVar T D S = ok (pushMatrices D k 1 (2 ^ length (mSwitches (mnaBase S))) S)"
    using i by (simp add: createEmptySystemMatrix_def switchCombinations_def Let_def)
  then show ?thesis
    using pushMatrices_blank [of "length (mSwitches (mnaBase S))" S D k] i by blast
qed

lemma blank_rhs: "blank k D (S\<lparr>mRightSideVector := b\<rparr>) i = blank k D S i"
  by (simp add: blank_def)

lemma status_bound:
  assumes "mCurrentSwitchStatus S = 0" "length (mSwitches (mnaBase S)) \<le> 64" "length (mSwitches (mnaBase S)) \<le> j"
  shows "\<not> bit (mCurrentSwitchStatus (updateSwitchStatus C S)) j"
  using assms status_bits [of "mSwitches (mnaBase S)" 0 "mnaIsClosed C (objs S)" 0 j]
  by (simp add: updateSwitchStatus_def)

lemma system_ready:
  assumes i0: "emtComponents dt k S" and blank: "\<forall>i < 2 ^ length (mSwitches (mnaBase S)). blank k D S i"
  shows "\<exists>S'. initializeSystem emt_methods T rh D S = ok S' \<and> emtReady dt k D S' (objs S)
    \<and> mnaBase S' = mnaBase S \<and> sameNet (objs S) (objs S')
    \<and> mListVariableSystemMatrixEntries S' = mListVariableSystemMatrixEntries S
    \<and> (\<forall>p. mMnaTasks (snd (objs S') p) = mMnaTasks (snd (objs S) p)
         \<and> mRightVector (snd (objs S') p) = mRightVector (snd (objs S) p))"
proof -
  note i = i0 [unfolded emtComponents_def]
  let ?L = "mnaBase S"
  let ?S1 = "S\<lparr>mRightSideVector := setZero (mRightSideVector S)\<rparr>"
  have fits: "emt.fits k (objs S) ?L" using i by (auto simp: emt.fits_def)
  obtain S2 where S2: "initializeSystemWithPrecomputedMatrices emt_methods D ?S1
       = initRightSide emt_methods (if mSwitches ?L = [] then S2 else updateSwitchStatus emt_methods S2)"
    "keeps ?S1 S2" "\<forall>i < 2 ^ length (mSwitches ?L). precomputed emt_methods D k S2 i"
    using emt.precompute_ok [of ?S1 k D] i blank fits by (auto simp: blank_rhs)
  note K2 = keepsD [OF S2(2), simplified]
  define S3 where "S3 = (if mSwitches ?L = [] then S2 else updateSwitchStatus emt_methods S2)"
  have S3: "objs S3 = objs S" "mnaBase S3 = ?L" "mRightVectorStamps S3 = mRightVectorStamps S"
    "mRightSideVector S3 = setZero (mRightSideVector S)" "mIsInInitialization S3 = mIsInInitialization S"
    "mListVariableSystemMatrixEntries S3 = mListVariableSystemMatrixEntries S"
    by (auto simp: S3_def updateSwitchStatus_def K2)
  have pre3: "precomputed emt_methods D k S3 i" if "i < 2 ^ length (mSwitches ?L)" for i
    using S2(3) that by (auto simp: S3_def updateSwitchStatus_def precomputed_def)
  have bits: "\<not> bit (mCurrentSwitchStatus S3) j" if "length (mSwitches ?L) \<le> j" for j
    using status_bound [of S2 j emt_methods] i that by (auto simp: S3_def K2)
  obtain X b where Xb: "foldE (mnaApplyRightSideVectorStamp emt_methods) (mMNAComponents ?L) (objs S, mRightSideVector S3)
       = ok ((fst (objs S), X), b)" "sameNet (objs S) (fst (objs S), X)"
    "\<forall>p. mRightVector (X p) = mRightVector (snd (objs S) p)" "mrows b = k"
    "\<forall>p. mMnaTasks (X p) = mMnaTasks (snd (objs S) p)"
    using rightStamps_ok [of "mMNAComponents ?L" k "objs S" "mRightSideVector S3"] i by (auto simp: S3(4) setZero_def)
  let ?W = "(fst (objs S), X)"
  let ?S' = "S3\<lparr>objs := ?W, mRightSideVector := b\<rparr>"
  have init: "initializeSystem emt_methods T rh D S = ok ?S'"
    using i S2(1) Xb(1) by (simp add: initializeSystem_def Let_def S3_def [symmetric] initRightSide_def S3)
  have clean: "emtClean k ?W p" if "emtClean k (objs S) p" for p
  proof -
    have "emtOwn ?W p a = emtOwn (objs S) p a" for a
      using params_class(1,2) [OF sameNet_params [OF Xb(2), of p]] sameNet_params [OF Xb(2), of p]
      by (cases "model (snd (objs S) p)"; cases "model (X p)")
        (simp_all add: emtOwn_def sameNet_ends [OF Xb(2)] params_def)
    then show ?thesis using that Xb(3) by (simp add: emtClean_def)
  qed
  have "emt.ready k D (S3\<lparr>mRightSideVector := b\<rparr>) (objs S)"
    using i pre3 bits fits Xb(4) by (simp add: emt.ready_def S3 precomputed_def)
  moreover have upd: "S3\<lparr>mRightSideVector := b, objs := ?W\<rparr> = ?S'" by simp
  ultimately have "emt.ready k D ?S' (objs S)"
    using ready_sameNet [of k D "S3\<lparr>mRightSideVector := b\<rparr>" "objs S" ?W] Xb(2) i unfolding upd by (simp add: S3)
  moreover have cls: "isSw (model (X p)) = isSw (model (snd (objs S) p))"
    "hasPreStep (model (X p)) = hasPreStep (model (snd (objs S) p))"
    "emtParams dt (model (X p)) = emtParams dt (model (snd (objs S) p))"
    "emtFit k ?W p = emtFit k (objs S) p" for p
    using params_class(2,4) [OF sameNet_params [OF Xb(2), of p]] emtParams_params [OF sameNet_params [OF Xb(2), of p]]
      sameNet_fit [OF Xb(2)] by simp_all
  ultimately have "emtReady dt k D ?S' (objs S)"
    unfolding emtReady_def using i clean by (simp add: S3 stampsOk_def Let_def Xb(3))
  then show ?thesis using init S3(2,6) Xb(2,3,5) by auto
qed

lemma initialize_ready:
  assumes "emtInitialised dt k S"
  shows "\<exists>S1 S'. createEmptySystemMatrix RealVar T D S = ok S1 \<and> initializeSystem emt_methods T rh D S1 = ok S'
    \<and> emtReady dt k D S' (objs S) \<and> mnaBase S' = mnaBase S \<and> sameNet (objs S) (objs S')
    \<and> mListVariableSystemMatrixEntries S' = mListVariableSystemMatrixEntries S"
proof -
  note i = assms [unfolded emtInitialised_def emtComponents_def]
  obtain S1 where S1: "createEmptySystemMatrix RealVar T D S = ok S1" "keeps S S1"
    "\<forall>i < 2 ^ length (mSwitches (mnaBase S)). blank k D S1 i"
    using create_real [of S k] i by blast
  note K = keepsD [OF S1(2)]
  have "emtComponents dt k S1" using i unfolding emtComponents_def stampsOk_def K by blast
  then show ?thesis using system_ready [of dt k S1 D T rh] S1 unfolding K by blast
qed

section \<open>The example network\<close>

definition exInit :: "(emt_ext, real matrix) mna_direct" where
  "exInit = exState\<lparr>mSwitchedMatrices := [], mDirectLinearSolvers := [],
     mnaBase := exSolver\<lparr>mNumMatrixNodeIndices := 2\<rparr>\<rparr>"

lemma ex_initialised: "emtInitialised 1 2 exInit"
proof -
  have nd: "nodes_ok (fst exWorld)"
    by (simp add: nodes_ok_def node_ok_def node_rows_def exNodes_def mkSimNode_def Let_def)
  have cl: "emtClean 2 exWorld p" if "p \<noteq> 1" for p
    using that by (simp add: emtClean_def zeros_def)
  have b: "mnaBase exInit = exSolver\<lparr>mNumMatrixNodeIndices := 2\<rparr>" "objs exInit = exWorld"
    "mRightVectorStamps exInit = [0, 2, 3]" "mSwitchedMatrices exInit = []" "mDirectLinearSolvers exInit = []"
    "mCurrentSwitchStatus exInit = 0" "mRightSideVector exInit = zeros 2 1" "mIsInInitialization exInit = False"
    by (simp_all add: exInit_def exState_def)
  show ?thesis
    unfolding emtInitialised_def emtComponents_def stampsOk_def Let_def b using nd cl ex_fit
    by (simp add: zeros_def exSolver_def mkMnaSolver_def exModel_def isSw_def hasPreStep_def emtParams_def)
qed

text \<open>Creating the empty matrices and initialising the system of an EMT network of initialised and
  connected components never fails, and leaves the solver ready for the first time step: for every combination of
  switch states the maps hold one matrix, the stamp of all components with the switches in that state, and its
  factorization.\<close>

theorem emt_initialize_ready:
  assumes "emtInitialised dt k S"
  shows "\<exists>S1 S'. createEmptySystemMatrix RealVar T D S = ok S1 \<and> initializeSystem emt_methods T rh D S1 = ok S'
    \<and> emtReady dt k D S' (objs S)
    \<and> (\<forall>i < 2 ^ length (mSwitches (mnaBase S)). precomputed emt_methods D k (S'\<lparr>objs := objs S\<rparr>) i)"
proof -
  obtain S1 S' where S': "createEmptySystemMatrix RealVar T D S = ok S1" "initializeSystem emt_methods T rh D S1 = ok S'"
    "emtReady dt k D S' (objs S)" "mnaBase S' = mnaBase S"
    using initialize_ready [OF assms] by blast
  have "emt.ready k D S' (objs S)" using S'(3) unfolding emtReady_def by (rule conjunct1)
  then have "\<forall>i < 2 ^ length (mSwitches (mnaBase S)). precomputed emt_methods D k (S'\<lparr>objs := objs S\<rparr>) i"
    unfolding emt.ready_def S'(4) by blast
  then show ?thesis using S'(1-3) by blast
qed

theorem emt_initialize_ready_witness:
  "\<exists>S1 S'. createEmptySystemMatrix RealVar (emptyTopology 50) exLU exInit = ok S1
    \<and> initializeSystem emt_methods (emptyTopology 50) (\<lambda>p f b. b) exLU S1 = ok S' \<and> emtReady 1 2 exLU S' exWorld"
  using emt_initialize_ready [OF ex_initialised, of "emptyTopology 50" exLU "\<lambda>p f b. b"]
  by (auto simp: exInit_def exState_def)

end
