(* ===== verification/EmtSimulation.thy ===== *)
theory EmtSimulation
  imports SimulationRun EmtInit
begin

text \<open>Events of a simulation that open and close the switches of an EMT network between its time steps.\<close>

section \<open>Switch events\<close>

definition onSwitch :: "nat \<Rightarrow> (emt_switch \<Rightarrow> emt_switch) \<Rightarrow> (emt_ext, 'f) mna_direct \<Rightarrow> (emt_ext, 'f) mna_direct" where
  "onSwitch p f S = (case model (snd (objs S) p) of
     Switch s \<Rightarrow> S\<lparr>objs := (fst (objs S), (snd (objs S))(p := (snd (objs S) p)\<lparr>model := Switch (f s)\<rparr>))\<rparr>
   | _ \<Rightarrow> S)"

definition switchEvent :: "real \<Rightarrow> nat \<Rightarrow> bool \<Rightarrow> (emt_ext, 'f) mna_direct event" where
  "switchEvent t p state = SwitchEvent t (onSwitch p closeSwitch) (onSwitch p openSwitch) state"

section \<open>Switching keeps the solver ready\<close>

lemma onSwitch_net:
  assumes "f = closeSwitch \<or> f = openSwitch"
  shows "sameNet (objs S) (objs (onSwitch p f S))" "mnaBase (onSwitch p f S) = mnaBase S"
    "mListVariableSystemMatrixEntries (onSwitch p f S) = mListVariableSystemMatrixEntries S"
    "mRightVectorStamps (onSwitch p f S) = mRightVectorStamps S"
    "fst (objs (onSwitch p f S)) = fst (objs S)"
    "mRightVector (snd (objs (onSwitch p f S)) q) = mRightVector (snd (objs S) q)"
    "\<not> isSw (model (snd (objs S) q)) \<Longrightarrow> model (snd (objs (onSwitch p f S)) q) = model (snd (objs S) q)"
    "onSwitch p f S = S\<lparr>objs := objs (onSwitch p f S)\<rparr>"
  using assms
  by (auto simp: onSwitch_def sameNet_def params_def closeSwitch_def openSwitch_def isSw_def split: emt_model.split)

lemma onSwitch_ready:
  assumes "emtReady dt k D S W0" and f: "f = closeSwitch \<or> f = openSwitch"
  shows "emtReady dt k D (onSwitch p f S) W0"
proof -
  note rd = assms(1) [unfolded emtReady_def] and n = onSwitch_net [OF f, where S = S and p = p]
  let ?W = "objs (onSwitch p f S)"
  note cls = params_class(1,2,4) [OF sameNet_params [OF n(1)]] emtParams_params [OF sameNet_params [OF n(1)]]
    sameNet_fit [OF n(1)]
  have "nodes_ok (fst ?W)" using rd unfolding n(5) by (simp add: emt.ready_def)
  then have "emt.ready k D (onSwitch p f S) W0"
    by (subst n(8), intro ready_sameNet) (use rd n(1) in auto)
  moreover have "stampsOk (onSwitch p f S)"
    using rd by (simp add: stampsOk_def Let_def cls n(2,4,6))
  moreover have "emtClean k ?W q = emtClean k (objs S) q" if "\<not> isSw (model (snd (objs S) q))" for q
  proof -
    have "emtOwn ?W q = emtOwn (objs S) q"
      using that n(7) by (intro ext) (simp add: emtOwn_def sameNet_ends [OF n(1)] cong: emt_model.case_cong)
    then show ?thesis by (simp add: emtClean_def n(6))
  qed
  ultimately show ?thesis
    using rd by (simp add: emtReady_def n(2) cls)
qed

text \<open>All that a step needs.\<close>

definition emtRunnable :: "real \<Rightarrow> nat \<Rightarrow> 'f direct_solver \<Rightarrow> nat list \<Rightarrow> nat list \<Rightarrow> mna_solver \<Rightarrow> emt_world
    \<Rightarrow> (emt_ext, 'f) mna_direct \<Rightarrow> bool" where
  "emtRunnable dt k D pre post L W0 S \<longleftrightarrow> emtReady dt k D S W0 \<and> mnaBase S = L
     \<and> (\<forall>w M. systemMatrix emt_methods W0 L k w = ok M \<longrightarrow> emt.lu_ok k D S M)
     \<and> distinct pre \<and> set pre = {p \<in> set (mMNAComponents L). hasPreStep (model (snd (objs S) p))}
     \<and> set post = set (mMNAComponents L @ mSwitches L)
     \<and> separateRows (objs S) (mMNAComponents L @ mSwitches L)"

lemma runnable_sameNet:
  assumes "emtRunnable dt k D pre post L W0 S" "emtReady dt k D S' W0" "mnaBase S' = L"
    "mListVariableSystemMatrixEntries S' = mListVariableSystemMatrixEntries S" "sameNet (objs S) (objs S')"
  shows "emtRunnable dt k D pre post L W0 S'"
  using assms(1-4) separate_sameNet(1) [OF assms(5)] params_class(4) [OF sameNet_params [OF assms(5)]]
  by (simp add: emtRunnable_def emt.lu_ok_def)

lemma runnable_event:
  assumes "emtRunnable dt k D pre post L W0 S"
  shows "emtRunnable dt k D pre post L W0 (execute (switchEvent t p st) S)"
proof -
  have "emtRunnable dt k D pre post L W0 (onSwitch p f S)" if f: "f = closeSwitch \<or> f = openSwitch" for f
  proof (rule runnable_sameNet [OF assms])
    show "emtReady dt k D (onSwitch p f S) W0"
      using assms by (intro onSwitch_ready [OF _ f]) (simp add: emtRunnable_def)
    show "mnaBase (onSwitch p f S) = L" 
      using assms onSwitch_net(2) [OF f, where S = S and p = p] unfolding emtRunnable_def by argo
  qed (rule onSwitch_net [OF f])+
  then show ?thesis by (simp add: switchEvent_def SwitchEvent_def)
qed

lemma runnable_step:
  assumes "emtRunnable dt k D pre post L W0 S"
  shows "\<exists>S'. emtTimeStep D t pre post S = Some (ok S') \<and> emtRunnable dt k D pre post L W0 S'
    \<and> kirchhoff k S' \<and> (\<forall>p\<in>set post. emtLaw dt t (objs S) (objs S') p)"
proof -
  note a = assms [unfolded emtRunnable_def]
  have "\<exists>S'. emtTimeStep D t pre post S = Some (ok S') \<and> emtReady dt k D S' W0 \<and> mnaBase S' = mnaBase S
    \<and> (\<forall>w M. systemMatrix emt_methods W0 (mnaBase S') k w = ok M \<longrightarrow> emt.lu_ok k D S' M)
    \<and> sameNet (objs S) (objs S') \<and> kirchhoff k S' \<and> (\<forall>p\<in>set post. emtLaw dt t (objs S) (objs S') p)"
    by (rule step_run) (use a in auto)
  then obtain S' where S': "emtTimeStep D t pre post S = Some (ok S')" "emtReady dt k D S' W0" "mnaBase S' = mnaBase S"
    "\<forall>w M. systemMatrix emt_methods W0 (mnaBase S') k w = ok M \<longrightarrow> emt.lu_ok k D S' M"
    "sameNet (objs S) (objs S')" "kirchhoff k S'" "\<forall>p\<in>set post. emtLaw dt t (objs S) (objs S') p" by blast
  have "emtRunnable dt k D pre post L W0 S'"
    using a S'(2-4) separate_sameNet(1) [OF S'(5)] params_class(4) [OF sameNet_params [OF S'(5)]]
    by (simp add: emtRunnable_def)
  then show ?thesis using S'(1,6,7) by auto
qed

lemma add_events:
  "fold (simAddEvent Q) es (newSimulation T dt ty q w) = newSimulation T dt ty (fold (addEvent Q) es q) w"
  by (induction es arbitrary: q) (simp_all add: simAddEvent_def newSimulation_def)

end
