(* ===== verification/MnaTasks.thy ===== *)
theory MnaTasks
  imports Scheduler EmtPh1
begin

text \<open>The tasks of an MNA solver: \<open>getTasks\<close> of dpsim/src/MNASolver.cpp, the task classes of
  dpsim/include/dpsim/MNASolverDirect.h and dpsim-models/include/dpsim-models/MNASimPowerComp.h, the
  attribute dependencies of the single-phase EMT components, and \<open>prepSchedule\<close> and \<open>schedule\<close> of
  dpsim/src/Simulation.cpp.  The tasks of a simulation are numbered in the order of its list.\<close>

section \<open>The schedule of a simulation\<close>

definition allTasks :: "'t list list \<Rightarrow> 't list list \<Rightarrow> 't list \<Rightarrow> 't list" where
  "allTasks solvers interfaces loggers = concat solvers @ concat interfaces @ loggers"

definition taskTable :: "task list \<Rightarrow> task_ref \<Rightarrow> task" where
  "taskTable ts i = (if i < length ts then ts ! i else Root)"

definition prepSchedule :: "(attr_ref \<Rightarrow> attr_ref list) \<Rightarrow> task list \<Rightarrow> task_ref list \<times> edges \<times> edges" where
  "prepSchedule gd ts = resolveDeps (taskTable ts) gd (length ts) [0..<length ts] [] []"

text \<open>\<open>schedule\<close> with the sequential scheduler, whose \<open>createSchedule\<close> is the topological sort.\<close>

definition simSchedule :: "(attr_ref \<Rightarrow> attr_ref list) \<Rightarrow> task list \<Rightarrow> error + task_ref list" where
  "simSchedule gd ts = (case prepSchedule gd ts of (tasks, inE, outE) \<Rightarrow> topologicalSort (length ts) tasks inE outE)"

lemma simSchedule_facts:
  assumes "simSchedule gd ts = ok s"
  shows "distinct s" "set s \<subseteq> {..<length ts}"
    and "i < length ts \<Longrightarrow> j < length s \<Longrightarrow> x \<in> set (mModifiedAttributes (ts ! i))
      \<Longrightarrow> x \<in> set (dep_attrs gd (ts ! (s ! j))) \<Longrightarrow> i \<in> set (take j s)"
    and "i < length ts \<Longrightarrow> external \<in> set (mModifiedAttributes (ts ! i)) \<Longrightarrow> i \<in> set s"
    and "i < length ts \<Longrightarrow> k < length ts \<Longrightarrow> x \<in> set (mModifiedAttributes (ts ! i))
      \<Longrightarrow> x \<in> set (mPrevStepDependencies (ts ! k)) \<Longrightarrow> i \<in> set s"
    and "i < length ts \<Longrightarrow> k \<in> set s \<Longrightarrow> x \<in> set (mModifiedAttributes (ts ! i))
      \<Longrightarrow> x \<in> set (dep_attrs gd (ts ! k)) \<Longrightarrow> i \<in> set s"
    and "i \<in> set s \<Longrightarrow> \<exists>x \<in> set (mModifiedAttributes (ts ! i)). x = external
      \<or> (\<exists>k \<in> set s. x \<in> set (dep_attrs gd (ts ! k))) \<or> (\<exists>k < length ts. x \<in> set (mPrevStepDependencies (ts ! k)))"
proof -
  let ?r = "length ts" and ?tbl = "taskTable ts"
  obtain tasks inE outE where res: "resolveDeps ?tbl gd ?r [0..<length ts] [] [] = (tasks, inE, outE)"
    by (cases "prepSchedule gd ts") (simp add: prepSchedule_def)
  have sort: "topologicalSort ?r tasks inE outE = ok s"
    using assms by (simp add: simSchedule_def prepSchedule_def res)
  have dist: "distinct ([0..<length ts] @ [?r])" by simp
  note f = resolveDeps_facts [OF res dist]
  note r = topologicalSort_ok [OF f(1-4) sort]
  have tasks: "set tasks = {..?r}" using resolveDeps_graph(1) [OF res] by auto
  have tbl: "?tbl i = ts ! i" if "i < length ts" for i using that by (simp add: taskTable_def)
  have root: "?tbl ?r = Root" by (simp add: taskTable_def)
  have edge: "(i, k) \<in> edge_rel inE \<longleftrightarrow> i < length ts \<and> (\<exists>x \<in> set (mModifiedAttributes (ts ! i)).
      (k < length ts \<and> x \<in> set (dep_attrs gd (ts ! k)))
      \<or> (k = ?r \<and> (x = external \<or> (\<exists>t < length ts. x \<in> set (mPrevStepDependencies (ts ! t))))))" for i k
  proof -
    have R: "set (dep_attrs gd (?tbl ?r)) = {external}" "mModifiedAttributes (?tbl ?r) = []" "mPrevStepDependencies (?tbl ?r) = []"
      by (simp_all add: root Root_def dep_attrs_def)
    have pv: "(\<exists>t\<in>{..?r}. x \<in> set (mPrevStepDependencies (?tbl t))) \<longleftrightarrow> (\<exists>t < length ts. x \<in> set (mPrevStepDependencies (ts ! t)))" for x
      using R(3) tbl by (metis atMost_iff empty_iff empty_set le_less)
    show ?thesis
      unfolding f(5) needs_def tasks mem_Collect_eq prod.case pv using R tbl by (auto simp: le_less)
  qed
  have memo: "i \<in> set s \<longleftrightarrow> (i, ?r) \<in> (edge_rel inE)\<^sup>+" for i using r(2) by simp
  show "distinct s" by (rule r(1))
  show sub: "set s \<subseteq> {..<length ts}" using edge by (auto simp: r(2) dest!: tranclD)
  show "i \<in> set (take j s)" if "i < length ts" "j < length s" "x \<in> set (mModifiedAttributes (ts ! i))"
    "x \<in> set (dep_attrs gd (ts ! (s ! j)))"
  proof (rule topo_list_nth [OF r(3) that(2)])
    have "s ! j < length ts" using sub nth_mem [OF that(2)] by auto
    then show "(i, s ! j) \<in> edge_rel inE" using edge that by blast
  qed
  show "i \<in> set s" if "i < length ts" "external \<in> set (mModifiedAttributes (ts ! i))"
    using that edge memo by blast
  show "i \<in> set s" if "i < length ts" "k < length ts" "x \<in> set (mModifiedAttributes (ts ! i))"
    "x \<in> set (mPrevStepDependencies (ts ! k))"
    using that edge memo by blast
  show "i \<in> set s" if "i < length ts" "k \<in> set s" "x \<in> set (mModifiedAttributes (ts ! i))" "x \<in> set (dep_attrs gd (ts ! k))"
  proof -
    have "k < length ts" using that(2) sub by auto
    then have "(i, k) \<in> edge_rel inE" using that edge by blast
    then show ?thesis using that(2) unfolding memo by (rule trancl_into_trancl2)
  qed
  show "\<exists>x \<in> set (mModifiedAttributes (ts ! i)). x = external \<or> (\<exists>k \<in> set s. x \<in> set (dep_attrs gd (ts ! k)))
      \<or> (\<exists>k < length ts. x \<in> set (mPrevStepDependencies (ts ! k)))" if i: "i \<in> set s"
  proof -
    obtain k where k: "(i, k) \<in> edge_rel inE" "k = ?r \<or> (k, ?r) \<in> (edge_rel inE)\<^sup>+"
      using i unfolding memo by (metis converse_tranclE)
    then show ?thesis using edge memo by blast
  qed
qed

section \<open>Attributes and dependencies of the components\<close>

text \<open>The attributes the tasks name, of component \<open>p\<close> and of node \<open>q\<close>, and the solution of the solver.\<close>

datatype emt_attr = LeftVector | RightVector nat | IntfVoltage nat | IntfCurrent nat | SourceRef nat | NodeVoltage nat

definition attrRef :: "emt_attr \<Rightarrow> attr_ref" where
  "attrRef a = Some (case a of LeftVector \<Rightarrow> 0 | RightVector p \<Rightarrow> 5 * p + 1 | IntfVoltage p \<Rightarrow> 5 * p + 2
     | IntfCurrent p \<Rightarrow> 5 * p + 3 | SourceRef p \<Rightarrow> 5 * p + 4 | NodeVoltage q \<Rightarrow> 5 * q + 5)"

lemma attrRef_eq [simp]: "attrRef a = attrRef b \<longleftrightarrow> a = b" "attrRef a \<noteq> external" "external \<noteq> attrRef a"
proof -
  show "attrRef a = attrRef b \<longleftrightarrow> a = b"
    by (cases a; cases b; simp add: attrRef_def; presburger)
qed (simp_all add: attrRef_def external_def)

text \<open>The three lists a component adds its attributes to: of the step before, needed, modified.\<close>

type_synonym dependencies = "attr_ref list \<times> attr_ref list \<times> attr_ref list"

definition inductorPreDependencies :: "nat \<Rightarrow> dependencies \<Rightarrow> dependencies" where
  "inductorPreDependencies p = (\<lambda>(prev, deps, mods).
     (prev @ [attrRef (IntfCurrent p), attrRef (IntfVoltage p)], deps, mods @ [attrRef (RightVector p)]))"

definition capacitorPreDependencies :: "nat \<Rightarrow> dependencies \<Rightarrow> dependencies" where
  "capacitorPreDependencies p = (\<lambda>(prev, deps, mods).
     (prev @ [attrRef (IntfCurrent p), attrRef (IntfVoltage p)], deps, mods @ [attrRef (RightVector p)]))"

definition voltageSourcePreDependencies :: "nat \<Rightarrow> dependencies \<Rightarrow> dependencies" where
  "voltageSourcePreDependencies p = (\<lambda>(prev, deps, mods).
     (prev, deps @ [attrRef (SourceRef p)], mods @ [attrRef (RightVector p), attrRef (IntfVoltage p)]))"

definition currentSourcePreDependencies :: "nat \<Rightarrow> dependencies \<Rightarrow> dependencies" where
  "currentSourcePreDependencies p = (\<lambda>(prev, deps, mods).
     (prev, deps @ [attrRef (SourceRef p)], mods @ [attrRef (RightVector p), attrRef (IntfCurrent p)]))"

definition resistorPostDependencies :: "nat \<Rightarrow> attr_ref \<Rightarrow> dependencies \<Rightarrow> dependencies" where
  "resistorPostDependencies p left = (\<lambda>(prev, deps, mods).
     (prev, deps @ [left], mods @ [attrRef (IntfVoltage p), attrRef (IntfCurrent p)]))"

definition inductorPostDependencies :: "nat \<Rightarrow> attr_ref \<Rightarrow> dependencies \<Rightarrow> dependencies" where
  "inductorPostDependencies p left = (\<lambda>(prev, deps, mods).
     (prev, deps @ [left], mods @ [attrRef (IntfVoltage p), attrRef (IntfCurrent p)]))"

definition capacitorPostDependencies :: "nat \<Rightarrow> attr_ref \<Rightarrow> dependencies \<Rightarrow> dependencies" where
  "capacitorPostDependencies p left = (\<lambda>(prev, deps, mods).
     (prev, deps @ [left], mods @ [attrRef (IntfVoltage p), attrRef (IntfCurrent p)]))"

definition voltageSourcePostDependencies :: "nat \<Rightarrow> attr_ref \<Rightarrow> dependencies \<Rightarrow> dependencies" where
  "voltageSourcePostDependencies p left = (\<lambda>(prev, deps, mods). (prev, deps @ [left], mods @ [attrRef (IntfCurrent p)]))"

definition currentSourcePostDependencies :: "nat \<Rightarrow> attr_ref \<Rightarrow> dependencies \<Rightarrow> dependencies" where
  "currentSourcePostDependencies p left = (\<lambda>(prev, deps, mods). (prev, deps @ [left], mods @ [attrRef (IntfVoltage p)]))"

definition switchPostDependencies :: "nat \<Rightarrow> attr_ref \<Rightarrow> dependencies \<Rightarrow> dependencies" where
  "switchPostDependencies p left = (\<lambda>(prev, deps, mods).
     (prev, deps @ [left], mods @ [attrRef (IntfVoltage p), attrRef (IntfCurrent p)]))"

lemmas class_dependencies = inductorPreDependencies_def capacitorPreDependencies_def voltageSourcePreDependencies_def
  currentSourcePreDependencies_def resistorPostDependencies_def inductorPostDependencies_def capacitorPostDependencies_def
  voltageSourcePostDependencies_def currentSourcePostDependencies_def switchPostDependencies_def

text \<open>The virtual methods of \<open>MNASimPowerComp\<close>; by default nothing is added.\<close>

definition mnaAddPreStepDependencies :: "emt_model \<Rightarrow> nat \<Rightarrow> dependencies \<Rightarrow> dependencies" where
  "mnaAddPreStepDependencies m p = (case m of
     Inductor _ _ \<Rightarrow> inductorPreDependencies p
   | Capacitor _ _ \<Rightarrow> capacitorPreDependencies p
   | VoltageSource _ _ \<Rightarrow> voltageSourcePreDependencies p
   | CurrentSource _ _ \<Rightarrow> currentSourcePreDependencies p
   | _ \<Rightarrow> id)"

definition mnaAddPostStepDependencies :: "emt_model \<Rightarrow> nat \<Rightarrow> attr_ref \<Rightarrow> dependencies \<Rightarrow> dependencies" where
  "mnaAddPostStepDependencies m p left = (case m of
     Resistor _ \<Rightarrow> resistorPostDependencies p left
   | Inductor _ _ \<Rightarrow> inductorPostDependencies p left
   | Capacitor _ _ \<Rightarrow> capacitorPostDependencies p left
   | VoltageSource _ _ \<Rightarrow> voltageSourcePostDependencies p left
   | CurrentSource _ _ \<Rightarrow> currentSourcePostDependencies p left
   | Switch _ \<Rightarrow> switchPostDependencies p left)"

definition mkTask :: "string \<Rightarrow> dependencies \<Rightarrow> task" where
  "mkTask name d = (case d of (prev, deps, mods) \<Rightarrow>
     \<lparr>mName = name, mAttributeDependencies = deps, mModifiedAttributes = mods, mPrevStepDependencies = prev\<rparr>)"

definition preStepTask :: "emt_world \<Rightarrow> nat \<Rightarrow> task" where
  "preStepTask W p = mkTask (compName (compAt (fst W) p) @ ''.MnaPreStep'')
     (mnaAddPreStepDependencies (model (snd W p)) p ([], [], []))"

definition postStepTask :: "emt_world \<Rightarrow> nat \<Rightarrow> task" where
  "postStepTask W p = mkTask (compName (compAt (fst W) p) @ ''.MnaPostStep'')
     (mnaAddPostStepDependencies (model (snd W p)) p (attrRef LeftVector) ([], [], []))"

section \<open>The tasks of the solver\<close>

definition rightVectors :: "emt_world \<Rightarrow> nat list \<Rightarrow> attr_ref list" where
  "rightVectors W ps = map (\<lambda>p. attrRef (RightVector p))
     (filter (\<lambda>p. mrows (mRightVector (snd W p)) * mcols (mRightVector (snd W p)) \<noteq> 0) ps)"

definition solveTask :: "string \<Rightarrow> (emt_ext, 'f) mna_direct \<Rightarrow> task" where
  "solveTask name S = mkTask (name @ ''.Solve'') ([], rightVectors (objs S) (mMNAComponents (mnaBase S)),
     map (\<lambda>q. attrRef (NodeVoltage q)) (mSimNodes (mnaBase S)) @ [attrRef LeftVector])"

definition solveTaskRecomp :: "string \<Rightarrow> (emt_ext, 'f) mna_direct \<Rightarrow> task" where
  "solveTaskRecomp name S = mkTask (name @ ''.Solve'') ([],
     rightVectors (objs S) (mMNAComponents (mnaBase S)) @ rightVectors (objs S) (mMNAIntfVariableComps (mnaBase S)),
     map (\<lambda>q. attrRef (NodeVoltage q)) (mSimNodes (mnaBase S)) @ [attrRef LeftVector])"

definition logTask :: "string \<Rightarrow> task" where
  "logTask name = mkTask (name @ ''.Log'') ([], [attrRef LeftVector], [external])"

text \<open>The task of a data logger with the given attributes.\<close>

definition loggerTask :: "string \<Rightarrow> attr_ref list \<Rightarrow> task" where
  "loggerTask name as = mkTask (name @ ''.Write'') ([], as, [external])"

text \<open>The objects of the task classes: a task of a component, the solve tasks, the log task of the solver
  and the task of logger \<open>n\<close>.\<close>

datatype solver_task = CompTask mna_task nat | SignalTask nat | HarmTask nat | RecompTask | SolveTask
  | StateSpaceTask | LogTask | LoggerTask nat

text \<open>\<open>getTasks\<close>: \<open>ct\<close>, \<open>nt\<close> and \<open>st\<close> give the tasks of components, nodes and signal components.\<close>

definition getTasks :: "(nat \<Rightarrow> solver_task list) \<Rightarrow> (nat \<Rightarrow> solver_task list) \<Rightarrow> (nat \<Rightarrow> solver_task list)
    \<Rightarrow> nat \<Rightarrow> bool \<Rightarrow> mna_solver \<Rightarrow> solver_task list" where
  "getTasks ct nt st numFreqs stateSpace L =
     concat (map ct (mMNAComponents L)) @ concat (map ct (mMNAIntfSwitches L))
     @ concat (map nt (mSimNodes L)) @ concat (map st (mSimSignalComps L))
     @ (if mFrequencyParallel L then map HarmTask [0..<numFreqs]
        else if mSystemMatrixRecomputationEnabled L then concat (map ct (mMNAIntfVariableComps L)) @ [RecompTask]
          @ (if stateSpace then [StateSpaceTask] else [])
        else [SolveTask] @ (if stateSpace then [StateSpaceTask] else []) @ [LogTask])"

definition compTasks :: "emt_world \<Rightarrow> nat \<Rightarrow> solver_task list" where
  "compTasks W p = map (\<lambda>t. CompTask t p) (mMnaTasks (snd W p))"

definition taskObject :: "string \<Rightarrow> (nat \<Rightarrow> task) \<Rightarrow> task list \<Rightarrow> (emt_ext, 'f) mna_direct \<Rightarrow> solver_task \<Rightarrow> task" where
  "taskObject name other loggers S t = (case t of
     CompTask MnaPreStep p \<Rightarrow> preStepTask (objs S) p
   | CompTask MnaPostStep p \<Rightarrow> postStepTask (objs S) p
   | SolveTask \<Rightarrow> solveTask name S
   | RecompTask \<Rightarrow> solveTaskRecomp name S
   | LogTask \<Rightarrow> logTask name
   | LoggerTask n \<Rightarrow> loggers ! n
   | SignalTask n \<Rightarrow> other n | HarmTask n \<Rightarrow> other n | StateSpaceTask \<Rightarrow> other 0)"

end
