(* ===== verification/EmtSchedule.thy ===== *)
theory EmtSchedule
  imports MnaTasks EmtStep
begin

text \<open>The schedule of the tasks of an EMT network, run by the sequential scheduler: every schedule the task
  graph allows is a time step, all pre-steps before the solve task and all post-steps after it.\<close>

section \<open>Running tasks\<close>

text \<open>\<open>execute\<close> of the task classes that an EMT network without recomputation has; log tasks only read.\<close>

definition execTask :: "'f direct_solver \<Rightarrow> real \<Rightarrow> solver_task \<Rightarrow> (emt_ext, 'f) mna_direct
    \<Rightarrow> (error + (emt_ext, 'f) mna_direct) option" where
  "execTask D time t S = (case t of
     CompTask MnaPreStep p \<Rightarrow> Some (bind_err (emtPreStep time p (objs S)) (\<lambda>W. ok (S\<lparr>objs := W\<rparr>)))
   | CompTask MnaPostStep p \<Rightarrow> Some (bind_err (emtPostStep (mLeftSideVector S) p (objs S)) (\<lambda>W. ok (S\<lparr>objs := W\<rparr>)))
   | SolveTask \<Rightarrow> solve emt_methods D S
   | RecompTask \<Rightarrow> Some (solveWithSystemMatrixRecomputation emt_methods D S)
   | _ \<Rightarrow> Some (ok S))"

text \<open>\<open>SequentialScheduler::step\<close>.\<close>

primrec runTasks :: "'f direct_solver \<Rightarrow> real \<Rightarrow> solver_task list \<Rightarrow> (emt_ext, 'f) mna_direct
    \<Rightarrow> (error + (emt_ext, 'f) mna_direct) option" where
  "runTasks D time [] S = Some (ok S)"
| "runTasks D time (t # ts) S = (case execTask D time t S of Some (Inr S') \<Rightarrow> runTasks D time ts S' | r \<Rightarrow> r)"

lemma runTasks_append: "runTasks D time (xs @ ys) S
    = (case runTasks D time xs S of Some (Inr S') \<Rightarrow> runTasks D time ys S' | r \<Rightarrow> r)"
  by (induction xs arbitrary: S) (auto split: option.split sum.split)

definition presOf :: "solver_task list \<Rightarrow> nat list" where
  "presOf ts = concat (map (\<lambda>t. case t of CompTask MnaPreStep p \<Rightarrow> [p] | _ \<Rightarrow> []) ts)"

definition postsOf :: "solver_task list \<Rightarrow> nat list" where
  "postsOf ts = concat (map (\<lambda>t. case t of CompTask MnaPostStep p \<Rightarrow> [p] | _ \<Rightarrow> []) ts)"

lemma set_presOf: "p \<in> set (presOf ts) \<longleftrightarrow> CompTask MnaPreStep p \<in> set ts"
proof -
  have "p \<in> set (case t of CompTask MnaPreStep p \<Rightarrow> [p] | _ \<Rightarrow> []) \<longleftrightarrow> t = CompTask MnaPreStep p" for t
    by (auto split: solver_task.split mna_task.split)
  then show ?thesis by (auto simp: presOf_def)
qed

lemma set_postsOf: "p \<in> set (postsOf ts) \<longleftrightarrow> CompTask MnaPostStep p \<in> set ts"
proof -
  have "p \<in> set (case t of CompTask MnaPostStep p \<Rightarrow> [p] | _ \<Rightarrow> []) \<longleftrightarrow> t = CompTask MnaPostStep p" for t
    by (auto split: solver_task.split mna_task.split)
  then show ?thesis by (auto simp: postsOf_def)
qed

definition isReader :: "solver_task \<Rightarrow> bool" where
  "isReader t \<longleftrightarrow> (case t of LogTask \<Rightarrow> True | LoggerTask _ \<Rightarrow> True | _ \<Rightarrow> False)"

lemma run_pres:
  assumes "\<forall>t\<in>set ts. isReader t \<or> (\<exists>p. t = CompTask MnaPreStep p)"
  shows "runTasks D time ts S = Some (bind_err (foldE (emtPreStep time) (presOf ts) (objs S)) (\<lambda>W. ok (S\<lparr>objs := W\<rparr>)))"
  using assms
proof (induction ts arbitrary: S)
  case (Cons t ts)
  show ?case
  proof (cases "isReader t")
    case True
    then show ?thesis using Cons
      by (cases t) (simp_all add: isReader_def execTask_def presOf_def)
  next
    case False
    then obtain p where t: "t = CompTask MnaPreStep p" using Cons.prems by auto
    show ?thesis
    proof (cases "emtPreStep time p (objs S)")
      case (Inr W)
      then show ?thesis using Cons by (simp add: t execTask_def presOf_def)
    qed (simp add: t execTask_def presOf_def)
  qed
qed (simp add: presOf_def)

lemma run_posts:
  assumes "\<forall>t\<in>set ts. isReader t \<or> (\<exists>p. t = CompTask MnaPostStep p)"
  shows "runTasks D time ts S
    = Some (bind_err (foldE (emtPostStep (mLeftSideVector S)) (postsOf ts) (objs S)) (\<lambda>W. ok (S\<lparr>objs := W\<rparr>)))"
  using assms
proof (induction ts arbitrary: S)
  case (Cons t ts)
  show ?case
  proof (cases "isReader t")
    case True
    then show ?thesis using Cons
      by (cases t) (simp_all add: isReader_def execTask_def postsOf_def)
  next
    case False
    then obtain p where t: "t = CompTask MnaPostStep p" using Cons.prems by auto
    show ?thesis
    proof (cases "emtPostStep (mLeftSideVector S) p (objs S)")
      case (Inr W)
      then show ?thesis using Cons by (simp add: t execTask_def postsOf_def)
    qed (simp add: t execTask_def postsOf_def)
  qed
qed (simp add: postsOf_def)

lemma run_step:
  assumes "\<forall>t\<in>set A. isReader t \<or> (\<exists>p. t = CompTask MnaPreStep p)"
    "\<forall>t\<in>set B. isReader t \<or> (\<exists>p. t = CompTask MnaPostStep p)"
  shows "runTasks D time (A @ SolveTask # B) S = emtTimeStep D time (presOf A) (postsOf B) S"
proof (cases "foldE (emtPreStep time) (presOf A) (objs S)")
  case (Inr W)
  then show ?thesis
    by (auto simp: runTasks_append run_pres [OF assms(1)] run_posts [OF assms(2)] execTask_def emtTimeStep_def
        split: option.split sum.split)
qed (simp add: runTasks_append run_pres [OF assms(1)] emtTimeStep_def)

section \<open>The tasks of a network\<close>

text \<open>The tasks of the solver and of the loggers.\<close>

definition emtTasks :: "nat \<Rightarrow> (emt_ext, 'f) mna_direct \<Rightarrow> solver_task list" where
  "emtTasks nloggers S = allTasks [getTasks (compTasks (objs S)) (\<lambda>_. []) (\<lambda>_. []) 0 False (mnaBase S)] []
     (map LoggerTask [0..<nloggers])"

definition emtTable :: "string \<Rightarrow> task list \<Rightarrow> (emt_ext, 'f) mna_direct \<Rightarrow> task list" where
  "emtTable name loggers S = map (taskObject name (\<lambda>_. Root) loggers S) (emtTasks (length loggers) S)"

text \<open>The component has the tasks and the source vector its initialisation gave it.\<close>

definition taskReady :: "emt_world \<Rightarrow> nat \<Rightarrow> bool" where
  "taskReady W p \<longleftrightarrow> (let x = snd W p; m = model x in
     set (mMnaTasks x) = (if hasPreStep m then {MnaPreStep, MnaPostStep} else {MnaPostStep}) \<and> count_list (mMnaTasks x) MnaPreStep \<le> 1
     \<and> (hasPreStep m \<longrightarrow> mrows (mRightVector x) * mcols (mRightVector x) \<noteq> 0))"

definition tasksReady :: "(emt_ext, 'f) mna_direct \<Rightarrow> bool" where
  "tasksReady S \<longleftrightarrow> (let L = mnaBase S in distinct (mMNAComponents L) \<and> set (mMNAIntfSwitches L) = set (mSwitches L)
     \<and> \<not> mFrequencyParallel L \<and> \<not> mSystemMatrixRecomputationEnabled L \<and> mSimSignalComps L = []
     \<and> (\<forall>p\<in>set (mMNAComponents L). \<not> isSw (model (snd (objs S) p)) \<and> taskReady (objs S) p)
     \<and> (\<forall>p\<in>set (mSwitches L). isSw (model (snd (objs S) p)) \<and> taskReady (objs S) p))"

text \<open>A component whose post-step somebody needs: its own next pre-step, or a logger.\<close>

definition observed :: "(attr_ref \<Rightarrow> attr_ref list) \<Rightarrow> task list \<Rightarrow> emt_world \<Rightarrow> nat \<Rightarrow> bool" where
  "observed gd loggers W p \<longleftrightarrow>
     (case model (snd W p) of Inductor _ _ \<Rightarrow> True | Capacitor _ _ \<Rightarrow> True
      | _ \<Rightarrow> list_ex (\<lambda>l. list_ex (\<lambda>x. x \<in> set (dep_attrs gd l)) (mModifiedAttributes (postStepTask W p))) loggers)"

lemma set_emtTasks:
  assumes "tasksReady S"
  shows "set (emtTasks n S) = (\<lambda>p. CompTask MnaPreStep p) ` {p \<in> set (mMNAComponents (mnaBase S)). hasPreStep (model (snd (objs S) p))}
     \<union> (\<lambda>p. CompTask MnaPostStep p) ` set (mMNAComponents (mnaBase S) @ mSwitches (mnaBase S))
     \<union> {SolveTask, LogTask} \<union> LoggerTask ` {0..<n}"
proof -
  note r = assms [unfolded tasksReady_def Let_def]
  let ?cs = "mMNAComponents (mnaBase S)"
  have sw: "isSw m \<Longrightarrow> \<not> hasPreStep m" for m by (cases m) (simp_all add: isSw_def hasPreStep_def)
  have ct: "set (compTasks (objs S) p) = (if hasPreStep (model (snd (objs S) p)) then {CompTask MnaPreStep p, CompTask MnaPostStep p}
      else {CompTask MnaPostStep p})" if "p \<in> set ?cs \<or> p \<in> set (mSwitches (mnaBase S))" for p
    using r that by (auto simp: compTasks_def taskReady_def Let_def)
  have "set (concat (map (compTasks (objs S)) ?cs)) = (\<lambda>p. CompTask MnaPreStep p) ` {p \<in> set ?cs. hasPreStep (model (snd (objs S) p))}
     \<union> (\<lambda>p. CompTask MnaPostStep p) ` set ?cs"
    using ct by (auto split: if_splits)
  moreover have "set (concat (map (compTasks (objs S)) (mMNAIntfSwitches (mnaBase S)))) = (\<lambda>p. CompTask MnaPostStep p) ` set (mSwitches (mnaBase S))"
    using ct r sw by (auto split: if_splits)
  ultimately show ?thesis
    using r by (auto simp: emtTasks_def allTasks_def getTasks_def)
qed

lemma concat_nil [simp]: "concat (map (\<lambda>_. []) xs) = []"
  by (induction xs) simp_all

lemma pre_once:
  assumes "tasksReady S"
  shows "distinct (presOf (emtTasks n S))"
proof -
  note r = assms [unfolded tasksReady_def Let_def]
  have one: "presOf (compTasks (objs S) p) = (if hasPreStep (model (snd (objs S) p)) then [p] else [])"
    if "taskReady (objs S) p" for p
  proof -
    have pc: "presOf (map (\<lambda>t. CompTask t p) ts) = replicate (count_list ts MnaPreStep) p" for ts
      by (induction ts) (auto simp: presOf_def split: mna_task.split)
    have "count_list (mMnaTasks (snd (objs S) p)) MnaPreStep = (if hasPreStep (model (snd (objs S) p)) then 1 else 0)"
    proof (cases "hasPreStep (model (snd (objs S) p))")
      case True
      then have "MnaPreStep \<in> set (mMnaTasks (snd (objs S) p))" "count_list (mMnaTasks (snd (objs S) p)) MnaPreStep \<le> 1"
        using that by (auto simp: taskReady_def Let_def)
      moreover from this(1) have "count_list (mMnaTasks (snd (objs S) p)) MnaPreStep \<noteq> 0" by (simp add: count_list_0_iff)
      ultimately show ?thesis using True by simp
    next
      case False
      then show ?thesis using that by (auto simp: taskReady_def Let_def count_list_0_iff)
    qed
    then show ?thesis by (simp add: compTasks_def pc)
  qed
  have app: "presOf (xs @ ys) = presOf xs @ presOf ys" for xs ys by (simp add: presOf_def)
  have cc: "presOf (concat (map (compTasks (objs S)) ps)) = filter (\<lambda>p. hasPreStep (model (snd (objs S) p))) ps"
    if "\<forall>p\<in>set ps. taskReady (objs S) p" for ps
    using that by (induction ps) (auto simp: app one, simp add: presOf_def)
  have sw: "isSw m \<Longrightarrow> \<not> hasPreStep m" for m by (cases m) (simp_all add: isSw_def hasPreStep_def)
  have "filter (\<lambda>p. hasPreStep (model (snd (objs S) p))) (mMNAIntfSwitches (mnaBase S)) = []"
    using r sw by (auto simp: filter_empty_conv)
  moreover have "presOf (map LoggerTask xs) = []" for xs by (induction xs) (simp_all add: presOf_def)
  moreover have "presOf (SolveTask # LogTask # xs) = presOf xs" "presOf [] = []" for xs by (simp_all add: presOf_def)
  ultimately have "presOf (emtTasks n S) = filter (\<lambda>p. hasPreStep (model (snd (objs S) p))) (mMNAComponents (mnaBase S))"
    using r by (simp add: emtTasks_def allTasks_def getTasks_def app cc)
  then show ?thesis using r by simp
qed

section \<open>Every schedule is a time step\<close>

lemma count_list_two:
  assumes "i < length xs" "j < length xs" "i \<noteq> j" "xs ! i = x" "xs ! j = x"
  shows "2 \<le> count_list xs x"
proof -
  have "{i, j} \<subseteq> {k. k < length xs \<and> xs ! k = x}" using assms by auto
  then have "card {i, j} \<le> card {k. k < length xs \<and> xs ! k = x}" by (intro card_mono) auto
  then show ?thesis using assms(3) by (simp add: count_list_eq_length_filter length_filter_conv_card eq_commute)
qed

lemma distinct_presOf:
  assumes "distinct (presOf ts)" "distinct s" "set s \<subseteq> {..<length ts}"
  shows "distinct (presOf (map ((!) ts) s))"
proof -
  have two: "i = j" if "ts ! i = CompTask MnaPreStep p" "ts ! j = CompTask MnaPreStep p" "i < length ts" "j < length ts" for i j p
    using assms(1) that
  proof (induction ts arbitrary: i j)
    case (Cons t ts)
    have tail: "distinct (presOf ts)" using Cons.prems(1) by (simp add: presOf_def)
    have hd: "p \<notin> set (presOf ts)" if "t = CompTask MnaPreStep p"
      using Cons.prems(1) that by (simp add: presOf_def)
    show ?case
    proof (cases i; cases j)
      fix i' j' assume "i = Suc i'" "j = Suc j'"
      then show ?thesis using Cons.IH [OF tail] Cons.prems by simp
    qed (use hd Cons.prems in \<open>auto simp: set_presOf dest!: nth_mem\<close>)
  qed simp
  have "distinct (presOf (map ((!) ts) s))" if "distinct s" "set s \<subseteq> {..<length ts}" for s
    using that
  proof (induction s)
    case (Cons i s)
    have "p \<notin> set (presOf (map ((!) ts) s))" if p: "ts ! i = CompTask MnaPreStep p" for p
    proof
      assume "p \<in> set (presOf (map ((!) ts) s))"
      then obtain j where "j \<in> set s" "ts ! j = CompTask MnaPreStep p" unfolding set_presOf by auto
      then show False using two [of i p j] p Cons.prems by auto
    qed
    moreover have "presOf (map ((!) ts) (i # s)) = (case ts ! i of CompTask MnaPreStep p \<Rightarrow> [p] | _ \<Rightarrow> []) @ presOf (map ((!) ts) s)"
      by (simp add: presOf_def)
    ultimately show ?case using Cons by (auto split: solver_task.split mna_task.split)
  qed (simp add: presOf_def)
  then show ?thesis using assms(2,3) by blast
qed

text \<open>The attributes the task objects name.\<close>

lemma task_attrs:
  "mModifiedAttributes (solveTask name S) = map (\<lambda>q. attrRef (NodeVoltage q)) (mSimNodes (mnaBase S)) @ [attrRef LeftVector]"
  "mAttributeDependencies (solveTask name S) = rightVectors (objs S) (mMNAComponents (mnaBase S))"
  "mAttributeDependencies (logTask name) = [attrRef LeftVector]" "mModifiedAttributes (logTask name) = [external]"
  "attrRef LeftVector \<in> set (mAttributeDependencies (postStepTask W p))"
  "hasPreStep (model (snd W p)) \<Longrightarrow> attrRef (RightVector p) \<in> set (mModifiedAttributes (preStepTask W p))"
proof -
  show "attrRef LeftVector \<in> set (mAttributeDependencies (postStepTask W p))"
    by (cases "model (snd W p)") (simp_all add: postStepTask_def mkTask_def mnaAddPostStepDependencies_def class_dependencies)
  show "attrRef (RightVector p) \<in> set (mModifiedAttributes (preStepTask W p))" if "hasPreStep (model (snd W p))"
    using that by (cases "model (snd W p)")
      (simp_all add: preStepTask_def mkTask_def mnaAddPreStepDependencies_def class_dependencies hasPreStep_def)
qed (simp_all add: solveTask_def logTask_def mkTask_def)

lemma dep_self:
  assumes "\<forall>a. a \<in> set (gd a)" "attrRef x \<in> set (mAttributeDependencies t)"
  shows "attrRef x \<in> set (dep_attrs gd t)"
  using assms by (force simp: dep_attrs_def)

lemma schedule_is_step:
  assumes r: "tasksReady S" and gd: "\<forall>a. a \<in> set (gd a)"
    and l: "\<forall>l\<in>set loggers. external \<in> set (mModifiedAttributes l)"
    and s: "simSchedule gd (emtTable name loggers S) = ok s"
  shows "\<exists>pre post. (\<forall>time S'. runTasks D time (map ((!) (emtTasks (length loggers) S)) s) S' = emtTimeStep D time pre post S')
    \<and> distinct pre \<and> set pre = {p \<in> set (mMNAComponents (mnaBase S)). hasPreStep (model (snd (objs S) p))}
    \<and> set post \<subseteq> set (mMNAComponents (mnaBase S) @ mSwitches (mnaBase S))
    \<and> (\<forall>p\<in>set (mMNAComponents (mnaBase S) @ mSwitches (mnaBase S)). observed gd loggers (objs S) p \<longrightarrow> p \<in> set post)
    \<and> (\<forall>p\<in>set post. \<exists>i\<in>set s. emtTasks (length loggers) S ! i = CompTask MnaPostStep p)"
proof -
  note rd = r [unfolded tasksReady_def Let_def]
  let ?cs = "mMNAComponents (mnaBase S)" and ?ts = "emtTasks (length loggers) S" and ?W = "objs S"
  let ?obj = "taskObject name (\<lambda>_. Root) loggers S"
  note mem = set_emtTasks [OF r, of "length loggers"]
  note f = simSchedule_facts [OF s]
  have len: "length (emtTable name loggers S) = length ?ts" by (simp add: emtTable_def)
  have obj: "emtTable name loggers S ! i = ?obj (?ts ! i)" if "i < length ?ts" for i
    using that by (simp add: emtTable_def)
  have sub: "i < length ?ts" if "i \<in> set s" for i using f(2) that len by auto
  have ent: "\<exists>i < length ?ts. ?ts ! i = t" if "t \<in> set ?ts" for t using that by (simp add: in_set_conv_nth)
  obtain sg where sg: "sg < length ?ts" "?ts ! sg = SolveTask" using ent mem by blast
  obtain lg where log: "lg < length ?ts" "?ts ! lg = LogTask" using ent mem by blast
  note ob = obj [OF sg(1)] obj [OF log(1)]
  have "lg \<in> set s" by (rule f(4)) (simp_all add: len log ob taskObject_def task_attrs)
  then have ss: "sg \<in> set s"
    by (rule f(6) [of sg lg "attrRef LeftVector", rotated]) (simp_all add: len sg log ob taskObject_def task_attrs dep_self [OF gd])
  then obtain A B where AB: "s = A @ sg # B" by (meson split_list)
  have dist: "sg \<notin> set A" "sg \<notin> set B" "set A \<inter> set B = {}" using f(1) by (auto simp: AB)
  have notA: "?ts ! i \<noteq> SolveTask" if "i \<in> set s" "i \<noteq> sg" for i
  proof
    assume i: "?ts ! i = SolveTask"
    have "count_list (emtTasks (length loggers) S) SolveTask = 1"
    proof -
      have z: "count_list (compTasks W p) SolveTask = 0" for W p
        by (auto simp: compTasks_def count_list_0_iff)
      have "count_list (concat (map (compTasks ?W) ps)) SolveTask = 0" for ps
        by (induction ps) (simp_all add: z)
      moreover have "count_list (map LoggerTask xs) SolveTask = 0" for xs by (induction xs) simp_all
          ultimately show ?thesis using rd by (simp add: emtTasks_def allTasks_def getTasks_def)
    qed
    then show False using count_list_two [of i ?ts sg SolveTask] i sg sub that by auto
  qed
  have A: "isReader (?ts ! i) \<or> (\<exists>p. ?ts ! i = CompTask MnaPreStep p)" if i: "i \<in> set A" for i
  proof -
    have "\<not> attrRef LeftVector \<in> set (dep_attrs gd (?obj (?ts ! i)))"
    proof
      assume d: "attrRef LeftVector \<in> set (dep_attrs gd (?obj (?ts ! i)))"
      obtain j where j: "j < length A" "A ! j = i" using i by (auto simp: in_set_conv_nth)
      have "sg \<in> set (take j s)"
        by (rule f(3) [of sg j "attrRef LeftVector"])
          (use d j i sub in \<open>simp_all add: len sg ob taskObject_def task_attrs AB nth_append obj\<close>)
      then show False using j dist(1) by (auto simp: AB dest: in_set_takeD)
    qed
    then have "?ts ! i \<noteq> CompTask MnaPostStep p" for p
      using dep_self [OF gd, of LeftVector "postStepTask ?W p"] task_attrs(5) by (auto simp: taskObject_def)
    moreover have "?ts ! i \<noteq> SolveTask" using notA [of i] i dist(1) by (auto simp: AB)
    moreover have "?ts ! i \<in> set ?ts" using sub [of i] i by (auto simp: AB)
    ultimately show ?thesis unfolding mem by (auto simp: isReader_def)
  qed
  have solveDep: "attrRef (RightVector p) \<in> set (mAttributeDependencies (solveTask name S))"
    if "p \<in> set ?cs" "hasPreStep (model (snd ?W p))" for p
    using rd that by (auto simp: task_attrs rightVectors_def taskReady_def Let_def)
  have B: "isReader (?ts ! i) \<or> (\<exists>p. ?ts ! i = CompTask MnaPostStep p)" if i: "i \<in> set B" for i
  proof -
    have "?ts ! i \<noteq> CompTask MnaPreStep p" if p: "p \<in> set ?cs" "hasPreStep (model (snd ?W p))" for p
    proof
      assume t: "?ts ! i = CompTask MnaPreStep p"
      have il: "i < length ?ts" using sub [of i] i by (simp add: AB)
      have "i \<in> set (take (length A) s)"
        by (rule f(3) [of i "length A" "attrRef (RightVector p)"])
          (simp_all add: len il obj ob t sg taskObject_def AB task_attrs(6) [OF p(2)] dep_self [OF gd solveDep [OF p]])
      then show False using i dist(3) by (auto simp: AB)
    qed
    moreover have "?ts ! i \<noteq> SolveTask" using notA [of i] i dist(2) by (auto simp: AB)
    moreover have "?ts ! i \<in> set ?ts" using sub [of i] i by (auto simp: AB)
    ultimately show ?thesis unfolding mem by (auto simp: isReader_def)
  qed
  let ?A = "map ((!) ?ts) A" and ?B = "map ((!) ?ts) B"
  have run: "runTasks D time (map ((!) ?ts) s) S' = emtTimeStep D time (presOf ?A) (postsOf ?B) S'" for time S'
    using run_step [of ?A ?B D time S'] A B by (simp add: AB sg)
  have pre: "i \<in> set A" if "i \<in> set s" "?ts ! i = CompTask MnaPreStep p" for i p
    using B [of i] that sg(2) by (auto simp: AB isReader_def)
  have post: "i \<in> set B" if "i \<in> set s" "?ts ! i = CompTask MnaPostStep p" for i p
    using A [of i] that sg(2) by (auto simp: AB isReader_def)
  have "p \<in> set (presOf ?A) \<longleftrightarrow> p \<in> set ?cs \<and> hasPreStep (model (snd ?W p))" for p
  proof
    assume "p \<in> set (presOf ?A)"
    then obtain i where i: "i \<in> set A" "?ts ! i = CompTask MnaPreStep p" unfolding set_presOf by auto
    then have "CompTask MnaPreStep p \<in> set ?ts" using sub [of i] nth_mem [of i ?ts] by (simp add: AB)
    then show "p \<in> set ?cs \<and> hasPreStep (model (snd ?W p))" unfolding mem by auto
  next
    assume p: "p \<in> set ?cs \<and> hasPreStep (model (snd ?W p))"
    then obtain i where i: "i < length ?ts" "?ts ! i = CompTask MnaPreStep p" using ent [of "CompTask MnaPreStep p"] mem by blast
    have "i \<in> set s"
      by (rule f(6) [of i sg "attrRef (RightVector p)"])
        (use p ss in \<open>simp_all add: len i ob obj sg taskObject_def task_attrs(6) dep_self [OF gd solveDep]\<close>)
    then show "p \<in> set (presOf ?A)" using pre [OF _ i(2)] i(2) unfolding set_presOf by force
  qed
  moreover have "p \<in> set ?cs \<union> set (mSwitches (mnaBase S))" if q: "p \<in> set (postsOf ?B)" for p
  proof -
    obtain i where i: "i \<in> set B" "?ts ! i = CompTask MnaPostStep p" using q unfolding set_postsOf by auto
    then have "CompTask MnaPostStep p \<in> set ?ts" using sub [of i] nth_mem [of i ?ts] by (simp add: AB)
    then show ?thesis unfolding mem by auto
  qed
  moreover have "p \<in> set (postsOf ?B)"
    if p: "p \<in> set (?cs @ mSwitches (mnaBase S))" and o: "observed gd loggers ?W p" for p
  proof -
    obtain i where i: "i < length ?ts" "?ts ! i = CompTask MnaPostStep p" using p ent [of "CompTask MnaPostStep p"] mem by blast
    have "i \<in> set s"
    proof (cases "\<exists>l x. model (snd ?W p) = Inductor l x \<or> model (snd ?W p) = Capacitor l x")
      case True
      then have h: "hasPreStep (model (snd ?W p))" "\<not> isSw (model (snd ?W p))" by (auto simp: hasPreStep_def isSw_def)
      then have "p \<in> set ?cs" using p rd by auto
      then obtain k where k: "k < length ?ts" "?ts ! k = CompTask MnaPreStep p" using h ent [of "CompTask MnaPreStep p"] mem by blast
      have "attrRef (IntfCurrent p) \<in> set (mModifiedAttributes (postStepTask ?W p))"
        "attrRef (IntfCurrent p) \<in> set (mPrevStepDependencies (preStepTask ?W p))"
        using True by (auto simp: postStepTask_def preStepTask_def mkTask_def mnaAddPostStepDependencies_def
            mnaAddPreStepDependencies_def class_dependencies)
      then show ?thesis by (intro f(5) [of i k "attrRef (IntfCurrent p)"]) (simp_all add: len i k obj taskObject_def)
    next
      case False
      then have "list_ex (\<lambda>l. list_ex (\<lambda>x. x \<in> set (dep_attrs gd l)) (mModifiedAttributes (postStepTask ?W p))) loggers"
        using o by (cases "model (snd ?W p)") (simp_all add: observed_def)
      then obtain l' x where n': "l' \<in> set loggers" "x \<in> set (mModifiedAttributes (postStepTask ?W p))"
        "x \<in> set (dep_attrs gd l')" unfolding list_ex_iff by blast
      then obtain n where n: "n < length loggers" "x \<in> set (mModifiedAttributes (postStepTask ?W p))"
        "x \<in> set (dep_attrs gd (loggers ! n))" by (auto simp: in_set_conv_nth [of l' loggers])
      obtain k where k: "k < length ?ts" "?ts ! k = LoggerTask n" using ent [of "LoggerTask n"] mem n(1) by auto
      have "k \<in> set s" by (rule f(4)) (use l n(1) in \<open>simp_all add: len k obj taskObject_def\<close>)
      then show ?thesis
        by (intro f(6) [of i k x]) (use n in \<open>simp_all add: len i k obj taskObject_def\<close>)
    qed
    then show ?thesis using post [OF _ i(2)] i(2) unfolding set_postsOf by force
  qed
  moreover have "\<exists>i\<in>set s. ?ts ! i = CompTask MnaPostStep p" if "p \<in> set (postsOf ?B)" for p
    using that unfolding set_postsOf by (auto simp: AB)
  moreover have "distinct (presOf ?A)"
    by (rule distinct_presOf [OF pre_once [OF r]]) (use f(1) sub in \<open>auto simp: AB\<close>)
  ultimately show ?thesis using run by (intro exI [of _ "presOf ?A"] exI [of _ "postsOf ?B"]) auto
qed

end
