(* ===== verification/EmtTypes.thy ===== *)
theory EmtTypes
  imports EmtSolve
begin

text \<open>Well-formed EMT components: their methods keep them well-formed, and those of a
  component connected to a system of \<open>k\<close> rows touch nothing outside these rows.\<close>

definition oneByOne :: "varmat \<Rightarrow> bool" where
  "oneByOne m \<longleftrightarrow> (case m of RealM A \<Rightarrow> mrows A = 1 \<and> mcols A = 1 | ComplexM _ \<Rightarrow> False)"

definition twoTerminals :: "comp \<Rightarrow> bool" where
  "twoTerminals c \<longleftrightarrow> comp_ok c \<and> mNumTerminals c = 2 \<and> oneByOne (mIntfVoltage c) \<and> oneByOne (mIntfCurrent c)"

definition sourceNode :: "store \<Rightarrow> comp \<Rightarrow> bool" where
  "sourceNode H c \<longleftrightarrow> (case virtualIndex H c of Inl _ \<Rightarrow> False | Inr _ \<Rightarrow> True)"

definition emtTyped :: "emt_world \<Rightarrow> nat \<Rightarrow> bool" where
  "emtTyped W p \<longleftrightarrow> twoTerminals (compAt (fst W) p)
     \<and> (case model (snd W p) of VoltageSource _ _ \<Rightarrow> sourceNode (fst W) (compAt (fst W) p) | _ \<Rightarrow> True)"

lemma oneByOne_set [simp]: "oneByOne (varSet m 0 0 z) = oneByOne m"
  by (cases m) (simp_all add: oneByOne_def varSet_def)

lemma twoTerminals_set [simp]: "twoTerminals (setV x c) = twoTerminals c" "twoTerminals (setI x c) = twoTerminals c"
  by (simp_all add: twoTerminals_def setV_def setI_def comp_ok_def)

lemma virtualIndex_cong:
  "nodeAt H' = nodeAt H \<Longrightarrow> mVirtualNodes c' = mVirtualNodes c \<Longrightarrow> virtualIndex H' c' = virtualIndex H c"
  by (simp add: virtualIndex_def cong: option.case_cong)

lemma sourceNode_set [simp]:
  "sourceNode (setComp p c' H) c = sourceNode H c" "sourceNode H (setV x c) = sourceNode H c"
  "sourceNode H (setI x c) = sourceNode H c"
  using virtualIndex_cong [of "setComp p c' H" H c c] virtualIndex_cong [of H H "setV x c" c]
    virtualIndex_cong [of H H "setI x c" c]
  by (simp_all add: sourceNode_def setV_def setI_def)

lemma typed_ends:
  assumes "twoTerminals c"
  shows "\<exists>e. ends c = ok e"
  using assms by (simp add: twoTerminals_def comp_ok_def ends_def compMatrixNodeIndex_def terminalNotGrounded_def vec_at_def)

lemma sourceNode_index: "sourceNode H c \<Longrightarrow> \<exists>i. virtualIndex H c = ok i"
  by (auto simp: sourceNode_def split: sum.splits)

lemma vec_set_len: "vec_set v i x = ok v' \<Longrightarrow> length v' = length v"
  by (auto simp: vec_set_def split: if_splits)

lemma updateIndices_shape:
  "updateIndices H is c = ok c' \<Longrightarrow> \<exists>v g. c' = c\<lparr>mMatrixNodeIndices := v, mMatrixNodeIndexIsGround := g\<rparr>
     \<and> length v = length (mMatrixNodeIndices c) \<and> length g = length (mMatrixNodeIndexIsGround c)"
proof (induction "is" arbitrary: c)
  case Nil
  then show ?case by (cases c) auto
next
  case (Cons i "is")
  then obtain c1 where c1: "updateIndexAt H i c = ok c1" "updateIndices H is c1 = ok c'" by auto
  obtain p a v1 b v2 d v3 g where w: "vec_set (mMatrixNodeIndices c) (3 * i) a = ok v1" "vec_set v1 (3 * i + 1) b = ok v2"
    "vec_set v2 (3 * i + 2) d = ok v3" "vec_set (mMatrixNodeIndexIsGround c) i (isGround (nodeAt H p)) = ok g"
    and v: "c1 = c\<lparr>mMatrixNodeIndices := v3, mMatrixNodeIndexIsGround := g\<rparr>"
    using c1(1) unfolding updateIndexAt_def Let_def bind_err_eq_Inr sum.inject by blast
  note len = w [THEN vec_set_len]
  show ?case using Cons.IH [OF c1(2)] v len by auto
qed

lemma updateMatrixNodeIndices_typed:
  assumes "updateMatrixNodeIndices H c = ok c'"
  shows "twoTerminals c' = twoTerminals c" "virtualIndex H' c' = virtualIndex H' c"
  using updateIndices_shape [OF assms [unfolded updateMatrixNodeIndices_def]]
  by (auto simp: twoTerminals_def comp_ok_def virtualIndex_def)

text \<open>What a typed result of a method is.\<close>

definition keepsType :: "nat \<Rightarrow> error + emt_world \<Rightarrow> bool" where
  "keepsType p r \<longleftrightarrow> (case r of Inl _ \<Rightarrow> False | Inr W \<Rightarrow> emtTyped W p)"

lemma setEnds_dims [simp]: "mrows (setEnds x e b) = mrows b" "mcols (setEnds x e b) = mcols b"
  by (auto simp: setEnds_def setVectorElementR_def Let_def split: prod.splits)

lemma typed_right:
  assumes "emtTyped W p"
  shows "\<exists>W' b'. emtRightStamp p (W, b) = ok (W', b') \<and> emtTyped W' p \<and> mrows b' = mrows b \<and> mcols b' = mcols b"
proof -
  obtain H X where W: "W = (H, X)" by (cases W)
  have t: "twoTerminals (compAt H p)" using assms by (simp add: emtTyped_def W)
  obtain e where e: "ends (compAt H p) = ok e" using typed_ends [OF t] by auto
  show ?thesis
  proof (cases "model (X p)")
    case (VoltageSource v f)
    then obtain iv where iv: "virtualIndex H (compAt H p) = ok iv"
      using assms sourceNode_index by (auto simp: emtTyped_def W)
    show ?thesis using assms VoltageSource iv
      by (simp add: emtRightStamp_def W Let_def voltageSourceRightStamp_def setVectorElementR_def emtTyped_def)
  qed (use t e in \<open>simp_all add: emtRightStamp_def W Let_def class_right emtTyped_def\<close>)
qed

lemma updateSource_typed [simp]: "twoTerminals (updateSource time m c) = twoTerminals c"
    "sourceNode H (updateSource time m c) = sourceNode H c"
  by (simp_all add: updateSource_def voltageSourceUpdate_def currentSourceUpdate_def split: emt_model.split)

lemma typed_pre:
  assumes "emtTyped W p"
  shows "keepsType p (emtPreStep time p W)"
proof (cases "hasPreStep (model (snd W p))")
  case True
  let ?W = "(setComp p (updateSource time (model (snd W p)) (compAt (fst W) p)) (fst W), snd W)"
  have t: "emtTyped ?W p" using assms by (cases "model (snd W p)") (simp_all add: emtTyped_def)
  obtain H X b where "emtRightStamp p (?W, mRightVector (snd W p)) = ok ((H, X), b)" "emtTyped (H, X) p"
    using typed_right [OF t] by fastforce
  then show ?thesis using True
    by (cases "model (X p)") (simp_all add: emtPreStep_def Let_def keepsType_def case_prod_beta emtTyped_def)
qed (use assms in \<open>simp add: emtPreStep_def Let_def keepsType_def case_prod_beta\<close>)

lemma typed_post:
  assumes "emtTyped W p"
  shows "keepsType p (emtPostStep x p W)"
proof -
  obtain H X where W: "W = (H, X)" by (cases W)
  have t: "twoTerminals (compAt H p)" using assms by (simp add: emtTyped_def W)
  obtain i0 i1 t0 t1 where e: "ends (compAt H p) = ok (i0, i1, t0, t1)" using typed_ends [OF t] by auto
  show ?thesis
  proof (cases "model (X p)")
    case (VoltageSource v f)
    then obtain iv where iv: "virtualIndex H (compAt H p) = ok iv"
      using assms sourceNode_index by (auto simp: emtTyped_def W)
    show ?thesis using assms VoltageSource iv
      by (simp add: emtPostStep_def W Let_def voltageSourcePostStep_def keepsType_def emtTyped_def)
  qed (use t e in \<open>simp_all add: emtPostStep_def W Let_def class_post keepsType_def emtTyped_def\<close>)
qed

lemma typed_initialize:
  assumes "emtTyped W p"
  shows "case updateMatrixNodeIndices (fst W) (compAt (fst W) p) of
       Inl e \<Rightarrow> emtInitialize omega dt n p W = Inl e | Inr _ \<Rightarrow> keepsType p (emtInitialize omega dt n p W)"
proof -
  obtain H X where W: "W = (H, X)" by (cases W)
  note defs = emtInitialize_def resistorInitialize_def inductorInitialize_def capacitorInitialize_def
    voltageSourceInitialize_def currentSourceInitialize_def switchInitialize_def Let_def keepsType_def emtTyped_def
  show ?thesis
  proof (cases "updateMatrixNodeIndices H (compAt H p)")
    case (Inl e)
    then show ?thesis unfolding W by (cases "model (X p)") (simp_all add: defs)
  next
    case (Inr c)
    have "twoTerminals c" "sourceNode H c = sourceNode H (compAt H p)"
      using updateMatrixNodeIndices_typed [OF Inr] assms by (simp_all add: emtTyped_def W sourceNode_def)
    then show ?thesis using Inr assms unfolding W by (cases "model (X p)") (simp_all add: defs)
  qed
qed

section \<open>The rows a component touches\<close>

text \<open>What a stamp adds to a matrix: a fixed amount per entry, whatever the matrix holds, and none
  outside the first \<open>k\<close> rows and columns.\<close>

definition addsWithin :: "nat \<Rightarrow> (real matrix \<Rightarrow> error + real matrix) \<Rightarrow> bool" where
  "addsWithin k f \<longleftrightarrow> (\<exists>D. (\<forall>i j. D i j \<noteq> 0 \<longrightarrow> i < k \<and> j < k) \<and> (\<forall>i j. D i j = D j i)
     \<and> (\<forall>M. \<exists>M'. f M = ok M' \<and> mrows M' = mrows M \<and> mcols M' = mcols M
           \<and> (\<forall>i j. ent M' i j = ent M i j + D i j)))"

text \<open>What a right-side stamp overwrites: the first column of rows below \<open>k\<close>, with values that do not
  depend on the vector.\<close>

definition writesWithin :: "nat \<Rightarrow> (real matrix \<Rightarrow> error + 'w \<times> real matrix) \<Rightarrow> bool" where
  "writesWithin k f \<longleftrightarrow> (\<exists>w R y. (\<forall>i. R i \<longrightarrow> i < k)
     \<and> (\<forall>b. \<exists>b'. f b = ok (w, b') \<and> mrows b' = mrows b \<and> mcols b' = mcols b
           \<and> (\<forall>i j. ent b' i j = (if R i \<and> j = 0 then y i else ent b i j))))"

lemma addsWithinI:
  assumes "\<And>i j. D i j \<noteq> 0 \<Longrightarrow> i < k \<and> j < k" "\<And>i j. D i j = D j i"
    and "\<And>M. \<exists>M'. f M = ok M' \<and> mrows M' = mrows M \<and> mcols M' = mcols M \<and> (\<forall>i j. ent M' i j = ent M i j + D i j)"
  shows "addsWithin k f"
  using assms unfolding addsWithin_def by blast

lemma writesWithinI:
  assumes "\<And>i. R i \<Longrightarrow> i < k"
    and "\<And>b. \<exists>b'. f b = ok (w, b') \<and> mrows b' = mrows b \<and> mcols b' = mcols b
      \<and> (\<forall>i j. ent b' i j = (if R i \<and> j = 0 then y i else ent b i j))"
  shows "writesWithin k f"
  using assms unfolding writesWithin_def by blast

lemma addsWithin_nothing: "addsWithin k ok"
  by (rule addsWithinI [of "\<lambda>_ _. 0"]) simp_all

definition one_if :: "bool \<Rightarrow> real" where "one_if b = (if b then 1 else 0)"

lemma addsWithin_conductance:
  assumes "ends c = ok e" "endsIn k e"
  shows "addsWithin k (stampTwoPort g c)"
proof -
  obtain i0 i1 t0 t1 where e: "e = (i0, i1, t0, t1)" by (metis prod_cases4)
  let ?u = "\<lambda>i. one_if (t1 \<and> i = i1) - one_if (t0 \<and> i = i0)"
  show ?thesis
  proof (rule addsWithinI [of "\<lambda>i j. g * ?u i * ?u j"])
    show "\<exists>M'. stampTwoPort g c M = ok M' \<and> mrows M' = mrows M \<and> mcols M' = mcols M
      \<and> (\<forall>i j. ent M' i j = ent M i j + g * ?u i * ?u j)" for M
      using assms(2) by (auto simp: stampTwoPort_def assms(1) e stampConductance_def stampValue_def stampToMatrix_def
          addR_addEnt one_if_def endsIn_def)
  qed (use assms(2) in \<open>auto simp: e endsIn_def one_if_def split: if_splits\<close>)
qed

lemma addsWithin_source:
  assumes "ends c = ok e" "endsIn k e" "virtualIndex H c = ok v" "v < k"
    and "\<And>i0 i1 t0 t1. e = (i0, i1, t0, t1) \<Longrightarrow> (t0 \<longrightarrow> v \<noteq> i0) \<and> (t1 \<longrightarrow> v \<noteq> i1)"
  shows "addsWithin k (voltageSourceStamp H c)"
proof -
  obtain i0 i1 t0 t1 where e: "e = (i0, i1, t0, t1)" by (metis prod_cases4)
  let ?u = "\<lambda>i. one_if (t1 \<and> i = i1) - one_if (t0 \<and> i = i0)"
  let ?v = "\<lambda>i. one_if (i = v)"
  note n = assms(5) [OF e]
  show ?thesis
  proof (rule addsWithinI [of "\<lambda>i j. ?u i * ?v j + ?v i * ?u j"])
    show "\<exists>M'. voltageSourceStamp H c M = ok M' \<and> mrows M' = mrows M \<and> mcols M' = mcols M
      \<and> (\<forall>i j. ent M' i j = ent M i j + (?u i * ?v j + ?v i * ?u j))" for M
      using assms(2) n by (auto simp: voltageSourceStamp_def assms(1,3) e stampSource_def addToMatrixElementR_def Let_def
          one_if_def endsIn_def)
  qed (use assms(2,4) in \<open>auto simp: e endsIn_def one_if_def split: if_splits\<close>)
qed

lemma addsWithin_cong: "addsWithin k g \<Longrightarrow> (\<And>M. f M = g M) \<Longrightarrow> addsWithin k f"
proof -
  assume g: "addsWithin k g" and "\<And>M. f M = g M"
  then have "f = g" by (intro ext)
  with g show "addsWithin k f" by simp
qed

lemma range_stamp:
  assumes "emtFit k W p"
  shows "addsWithin k (emtStamp W p)" "addsWithin k (emtSwitchStamp W p cl)"
proof -
  note f = emtFitD [OF assms]
  have two: "addsWithin k h" if "\<And>M. h M = stampTwoPort g (compAt (fst W) p) M" for h g
    by (rule addsWithin_cong [OF addsWithin_conductance [OF f(1,2)] that])
  have none: "addsWithin k h" if "\<And>M. h M = ok M" for h
    by (rule addsWithin_cong [OF addsWithin_nothing that])
  show "addsWithin k (emtSwitchStamp W p cl)"
  proof (cases "model (snd W p)")
    case (Switch s)
    show ?thesis
      by (rule two [of _ "if cl then 1 / mClosedResistance s else 1 / mOpenResistance s"])
        (simp add: emtSwitchStamp_def Switch switchStampWith_def)
  qed (rule none, simp add: emtSwitchStamp_def)+
  show "addsWithin k (emtStamp W p)"
  proof (cases "model (snd W p)")
    case (VoltageSource r h)
    then have v: "isVS (model (snd W p))" by (simp add: isVS_def)
    show ?thesis
      by (rule addsWithin_cong [OF addsWithin_source [OF f(1,2) f(3) [OF v] f(4) [OF v] f(5) [OF v]]])
        (simp_all add: emtStamp_def VoltageSource)
  next
    case (CurrentSource r h)
    show ?thesis by (rule none) (simp add: emtStamp_def CurrentSource)
  next
    case (Resistor r)
    show ?thesis by (rule two [of _ "1 / r"]) (simp add: emtStamp_def Resistor resistorStamp_def)
  next
    case (Inductor r e)
    show ?thesis by (rule two [of _ "mEquivCond e"]) (simp add: emtStamp_def Inductor inductorStamp_def)
  next
    case (Capacitor r e)
    show ?thesis by (rule two [of _ "mEquivCond e"]) (simp add: emtStamp_def Capacitor capacitorStamp_def)
  next
    case (Switch s)
    show ?thesis
      by (rule two [of _ "if mIsClosed s then 1 / mClosedResistance s else 1 / mOpenResistance s"])
        (simp add: emtStamp_def Switch switchStamp_def)
  qed
qed

lemma writes_ends:
  assumes "endsIn k e" "\<And>b. f b = ok (w, setEnds x e b)"
  shows "writesWithin k f"
proof -
  obtain i0 i1 t0 t1 where e: "e = (i0, i1, t0, t1)" by (metis prod_cases4)
  show ?thesis
    by (rule writesWithinI [where w = w and R = "\<lambda>i. t0 \<and> i = i0 \<or> t1 \<and> i = i1" and y = "\<lambda>i. if t1 \<and> i = i1 then - x else x"])
      (use assms in \<open>auto simp: e endsIn_def setEnds_def setVectorElementR_def Let_def\<close>)
qed

lemma range_right:
  assumes "emtFit k W p"
  shows "writesWithin k (\<lambda>b. emtRightStamp p (W, b))"
proof -
  obtain H X where W: "W = (H, X)" by (cases W)
  note f = emtFitD [OF assms, unfolded W fst_conv snd_conv]
  have none: "writesWithin k h" if "\<And>b. h b = ok (w, b)" for h w
    by (rule writesWithinI [where w = w and R = "\<lambda>_. False"]) (use that in auto)
  have put: "writesWithin k h" if "\<And>b. h b = ok (w, setEnds x (endsAt (H, X) p) b)" for h w x
    using f(2) that by (rule writes_ends)
  show ?thesis
  proof (cases "model (X p)")
    case (VoltageSource r h)
    then have v: "isVS (model (X p))" by (simp add: isVS_def)
    show ?thesis
      by (rule writesWithinI [where R = "\<lambda>i. i = virtAt (H, X) p" and y = "\<lambda>_. intfV (compAt H p)"])
        (use f(4) [OF v] f(3) [OF v] in \<open>auto simp: W emtRightStamp_def Let_def VoltageSource voltageSourceRightStamp_def
            setVectorElementR_def\<close>)
  next
    case (CurrentSource r h)
    show ?thesis by (rule put) (simp add: W emtRightStamp_def Let_def CurrentSource class_right f(1))
  next
    case (Inductor r e)
    show ?thesis by (rule put) (simp add: W emtRightStamp_def Let_def Inductor class_right f(1))
  next
    case (Capacitor r e)
    show ?thesis by (rule put) (simp add: W emtRightStamp_def Let_def Capacitor class_right f(1))
  qed (rule none, simp add: W emtRightStamp_def Let_def)+
qed

lemma range_post:
  assumes "emtFit k W p" "\<And>i. i < k \<Longrightarrow> ent x i 0 = ent y i 0"
  shows "emtPostStep x p W = emtPostStep y p W"
proof -
  obtain H X where W: "W = (H, X)" by (cases W)
  note f = emtFitD [OF assms(1), unfolded W fst_conv snd_conv]
  obtain i0 i1 t0 t1 where e: "endsAt (H, X) p = (i0, i1, t0, t1)" by (metis prod_cases4)
  have a: "(if t then realFromVectorElement x i else 0) = (if t then realFromVectorElement y i else 0)"
    if "t \<longrightarrow> i < k" for t i using assms(2) that by (simp add: realFromVectorElement_def)
  have r: "t0 \<longrightarrow> i0 < k" "t1 \<longrightarrow> i1 < k" using f(2) by (simp_all add: e endsIn_def)
  note eq = a [OF r(1)] a [OF r(2)]
  show ?thesis
  proof (cases "model (X p)")
    case (VoltageSource g h)
    then have v: "isVS (model (X p))" by (simp add: isVS_def)
    show ?thesis using f(3,4) [OF v] assms(2)
      by (simp add: W emtPostStep_def Let_def VoltageSource voltageSourcePostStep_def realFromVectorElement_def)
  qed (use f(1) eq in \<open>simp_all add: W emtPostStep_def Let_def class_post e voltageAcross_def\<close>)
qed


text \<open>The witness: an inductor between rows 0 and 1 of a system of two rows.\<close>

definition range_demo :: comp where
  "range_demo = (fst (newInductor ''L'' ''L'' 0))\<lparr>mMatrixNodeIndices := [0, 0, 0, 1, 0, 0],
     mMatrixNodeIndexIsGround := [False, False]\<rparr>"


end
