(* ===== verification/EmtStart.thy ===== *)
theory EmtStart
  imports EmtInit EmtTypes
begin

text \<open>\<open>MnaSolver::initialize\<close> for an EMT network, from the numbered nodes on: the vectors and the empty
  matrices, the components with their power flow values, their cached indices and their tasks, the
  nodes, and the system.\<close>

section \<open>Completing the initialisation\<close>

text \<open>The part of \<open>initialize\<close> after \<open>prepareSystem\<close>, without a steady-state initialisation and a
  state-space extraction.\<close>

definition completeInitialize :: "var_type \<Rightarrow> 'x mna_methods \<Rightarrow> topology \<Rightarrow> real
    \<Rightarrow> (nat \<Rightarrow> nat \<Rightarrow> real matrix \<Rightarrow> real matrix) \<Rightarrow> 'f direct_solver
    \<Rightarrow> ('x, 'f) mna_direct \<Rightarrow> error + ('x, 'f) mna_direct" where
  "completeInitialize v C T omega rightHarm D S =
     bind_err (createEmptySystemMatrix v T D (createEmptyVectors v T S)) (\<lambda>S1.
     bind_err (initializeComponents v C T omega S1) (\<lambda>S2.
       initializeSystem C T rightHarm D (S2\<lparr>mIsInInitialization := False\<rparr>)))"

section \<open>One component\<close>

definition willFit :: "nat \<Rightarrow> emt_world \<Rightarrow> nat \<Rightarrow> bool" where
  "willFit k W p \<longleftrightarrow> (case updateMatrixNodeIndices (fst W) (compAt (fst W) p) of
     Inl _ \<Rightarrow> False | Inr c \<Rightarrow> emtFit k (setComp p c (fst W), snd W) p)"

definition emtStart :: "real \<Rightarrow> nat \<Rightarrow> emt_world \<Rightarrow> nat \<Rightarrow> bool" where
  "emtStart dt k W p \<longleftrightarrow> willFit k W p
     \<and> (case model (snd W p) of Inductor l _ \<Rightarrow> l \<noteq> 0 | Capacitor _ _ \<Rightarrow> dt \<noteq> 0 | _ \<Rightarrow> True)"

text \<open>The power flow has given the nodes of the component initial voltages.\<close>

definition flowKnown :: "emt_world \<Rightarrow> nat \<Rightarrow> bool" where
  "flowKnown W p \<longleftrightarrow> \<not> hasUnconnectedTerminals (compAt (fst W) p)
     \<and> (case initialAcross (fst W) (compAt (fst W) p) of Inl _ \<Rightarrow> False | Inr _ \<Rightarrow> True)"

text \<open>The indices and the conductance the initialisation gives a component.\<close>

definition startComp :: "emt_world \<Rightarrow> nat \<Rightarrow> comp" where
  "startComp W p = (case updateMatrixNodeIndices (fst W) (compAt (fst W) p) of Inl _ \<Rightarrow> compAt (fst W) p | Inr c \<Rightarrow> c)"

definition startModel :: "real \<Rightarrow> emt_model \<Rightarrow> emt_model" where
  "startModel dt m = (case m of Inductor l e \<Rightarrow> Inductor l (e\<lparr>mEquivCond := dt / (2 * l)\<rparr>)
     | Capacitor cap e \<Rightarrow> Capacitor cap (e\<lparr>mEquivCond := (2 * cap) / dt\<rparr>) | _ \<Rightarrow> m)"

definition startWorld :: "real \<Rightarrow> nat list \<Rightarrow> emt_world \<Rightarrow> emt_world" where
  "startWorld dt ps W = ((fst W)\<lparr>compAt := \<lambda>p. if p \<in> set ps then startComp W p else compAt (fst W) p\<rparr>,
     \<lambda>p. if p \<in> set ps then (snd W p)\<lparr>model := startModel dt (model (snd W p))\<rparr> else snd W p)"

text \<open>A component after its initialisation, of the class of \<open>m\<close> and with the indices of \<open>d\<close>.\<close>

definition started :: "real \<Rightarrow> nat \<Rightarrow> emt_model \<Rightarrow> comp \<Rightarrow> emt_world \<Rightarrow> nat \<Rightarrow> bool" where
  "started dt k m d W p \<longleftrightarrow> emtFit k W p \<and> wired d (compAt (fst W) p) \<and> (let x = snd W p in
     params (model x) = params (startModel dt m) \<and>
     isSw (model x) = isSw m \<and> hasPreStep (model x) = hasPreStep m \<and> emtParams dt (model x)
     \<and> mRightVector x = (if isRes m then zeros 0 0 else zeros k 1)
     \<and> mMnaTasks x = (if hasPreStep m then [MnaPreStep] else []) @ [MnaPostStep] @ (if isSw m then [MnaPostStep] else []))"

definition reads :: "comp \<Rightarrow> comp \<Rightarrow> bool" where
  "reads c c' \<longleftrightarrow> c' = c\<lparr>mIntfVoltage := mIntfVoltage c', mIntfCurrent := mIntfCurrent c'\<rparr>"

lemma readsE: "reads c c' \<Longrightarrow> (\<And>a b. c' = c\<lparr>mIntfVoltage := a, mIntfCurrent := b\<rparr> \<Longrightarrow> P) \<Longrightarrow> P"
  unfolding reads_def by blast

lemma reads_set [simp]: "reads c (setV x c)" "reads c (setI x c)" "reads c c"
  by (simp_all add: reads_def setV_def setI_def)

lemma reads_trans:
  assumes "reads c c1" "reads c1 c2"
  shows "reads c c2"
  using assms by (elim readsE) (simp add: reads_def)

lemma indexAt_reads:
  assumes "updateIndexAt H i c = ok d" "nodeAt H' = nodeAt H"
  shows "updateIndexAt H' i (c\<lparr>mIntfVoltage := a, mIntfCurrent := b\<rparr>) = ok (d\<lparr>mIntfVoltage := a, mIntfCurrent := b\<rparr>)"
proof -
  have n: "compNodeRef (c\<lparr>mIntfVoltage := a, mIntfCurrent := b\<rparr>) i = compNodeRef c i"
    by (simp add: compNodeRef_def compNode_def)
  obtain p x v1 y v2 z v3 g where w: "compNodeRef c i = ok p" "matrixNodeIndex (nodeAt H p) PhaseA = ok x"
    "vec_set (mMatrixNodeIndices c) (3 * i) x = ok v1" "matrixNodeIndex (nodeAt H p) PhaseB = ok y"
    "vec_set v1 (3 * i + 1) y = ok v2" "matrixNodeIndex (nodeAt H p) PhaseC = ok z"
    "vec_set v2 (3 * i + 2) z = ok v3" "vec_set (mMatrixNodeIndexIsGround c) i (isGround (nodeAt H p)) = ok g"
    and d: "d = c\<lparr>mMatrixNodeIndices := v3, mMatrixNodeIndexIsGround := g\<rparr>"
    using assms(1) unfolding updateIndexAt_def Let_def bind_err_eq_Inr sum.inject by blast
  let ?c = "c\<lparr>mIntfVoltage := a, mIntfCurrent := b\<rparr>"
  have f: "mMatrixNodeIndices ?c = mMatrixNodeIndices c" "mMatrixNodeIndexIsGround ?c = mMatrixNodeIndexIsGround c"
    by simp_all
  have "updateIndexAt H' i ?c = ok (?c\<lparr>mMatrixNodeIndices := v3, mMatrixNodeIndexIsGround := g\<rparr>)"
    unfolding updateIndexAt_def Let_def n assms(2) f w bind_err_simps ..
  also have "\<dots> = ok (d\<lparr>mIntfVoltage := a, mIntfCurrent := b\<rparr>)" by (cases c) (simp add: d)
  finally show ?thesis .
qed

lemma indices_reads:
  assumes "updateIndices H is c = ok d" "nodeAt H' = nodeAt H"
  shows "updateIndices H' is (c\<lparr>mIntfVoltage := a, mIntfCurrent := b\<rparr>) = ok (d\<lparr>mIntfVoltage := a, mIntfCurrent := b\<rparr>)"
  using assms(1)
proof (induction "is" arbitrary: c)
  case (Cons i "is")
  then obtain e where "updateIndexAt H i c = ok e" "updateIndices H is e = ok d" by auto
  then show ?case using Cons.IH indexAt_reads [OF _ assms(2)] by simp
qed simp

lemma willFit_reads:
  assumes "willFit k W p" "nodeAt (fst W') = nodeAt (fst W)" "reads (compAt (fst W) p) (compAt (fst W') p)"
    "isVS (model (snd W' p)) = isVS (model (snd W p))"
  shows "willFit k W' p"
proof -
  obtain d where d: "updateMatrixNodeIndices (fst W) (compAt (fst W) p) = ok d" "emtFit k (setComp p d (fst W), snd W) p"
    using assms(1) by (auto simp: willFit_def split: sum.splits)
  obtain a b where c: "compAt (fst W') p = (compAt (fst W) p)\<lparr>mIntfVoltage := a, mIntfCurrent := b\<rparr>"
    by (rule readsE [OF assms(3)])
  let ?d = "d\<lparr>mIntfVoltage := a, mIntfCurrent := b\<rparr>"
  have u: "updateMatrixNodeIndices (fst W') (compAt (fst W') p) = ok ?d"
    using indices_reads [OF d(1) [unfolded updateMatrixNodeIndices_def] assms(2)] by (simp add: updateMatrixNodeIndices_def c)
  have "wired d ?d" by (simp add: wired_def)
  then have e: "ends ?d = ends d" by (rule wired_ends)
  have v: "virtualIndex (setComp p ?d (fst W')) ?d = virtualIndex (setComp p d (fst W)) d"
    by (rule virtualIndex_cong) (simp_all add: assms(2))
  have "emtFit k (setComp p ?d (fst W'), snd W') p"
    using d(2) unfolding emtFit_def endsAt_def by (simp add: e v assms(4))
  then show ?thesis using u by (simp add: willFit_def)
qed

lemma willFit_agree: "agree p W W' \<Longrightarrow> willFit k W p \<Longrightarrow> willFit k W' p"
  by (rule willFit_reads [of k W]) (simp_all add: agree_def)

lemma start_agree: "agree p W W' \<Longrightarrow> emtStart dt k W p \<Longrightarrow> emtStart dt k W' p"
  using willFit_agree [of p W W' k] by (simp add: emtStart_def agree_def)

lemma started_agree: "agree p W W' \<Longrightarrow> started dt k m d W p \<Longrightarrow> started dt k m d W' p"
  using agree_views(3) [of p W W'] by (simp add: started_def agree_def Let_def)

lemma startComp_agree:
  assumes "agree p W W'"
  shows "startComp W' p = startComp W p"
proof -
  have n: "nodeAt (fst W') = nodeAt (fst W)" "compAt (fst W') p = compAt (fst W) p" using assms by (simp_all add: agree_def)
  have one: "updateIndexAt (fst W') i c = updateIndexAt (fst W) i c" for i c
    by (simp add: updateIndexAt_def n Let_def compNodeRef_def compNode_def)
  have "updateIndices (fst W') is c = updateIndices (fst W) is c" for "is" c
  proof (induction "is" arbitrary: c)
    case (Cons i "is")
    have "updateIndices (fst W') is = updateIndices (fst W) is" by (rule ext) (rule Cons.IH)
    then show ?case by (simp add: one)
  qed simp
  then show ?thesis by (simp add: startComp_def updateMatrixNodeIndices_def n split: sum.splits)
qed

lemma startComp_reads:
  assumes "updateMatrixNodeIndices (fst W) (compAt (fst W) p) = ok d" "nodeAt (fst W') = nodeAt (fst W)"
    "reads (compAt (fst W) p) (compAt (fst W') p)"
  shows "wired (startComp W p) (startComp W' p)"
proof -
  obtain a b where c: "compAt (fst W') p = (compAt (fst W) p)\<lparr>mIntfVoltage := a, mIntfCurrent := b\<rparr>"
    by (rule readsE [OF assms(3)])
  then have "updateMatrixNodeIndices (fst W') (compAt (fst W') p) = ok (d\<lparr>mIntfVoltage := a, mIntfCurrent := b\<rparr>)"
    using indices_reads [OF assms(1) [unfolded updateMatrixNodeIndices_def] assms(2)] by (simp add: updateMatrixNodeIndices_def c)
  then show ?thesis by (simp add: startComp_def assms(1) wired_def)
qed

lemma initialize_started:
  assumes "emtStart dt k W p"
  shows "\<exists>c x. emtInitialize omega dt k p W = ok (setComp p c (fst W), (snd W)(p := x))
    \<and> started dt k (model (snd W p)) (startComp W p) (setComp p c (fst W), (snd W)(p := x)) p"
proof -
  obtain H X where W: "W = (H, X)" by (cases W)
  obtain d where d: "updateMatrixNodeIndices H (compAt H p) = ok d" "emtFit k (setComp p d H, X) p"
    using assms by (auto simp: W emtStart_def willFit_def split: sum.splits)
  have fit: "emtFit k (setComp p d' H, X') p" if r: "reads d d'" and v: "isVS (model (X' p)) = isVS (model (X p))" for d' X'
  proof -
    obtain a b where c: "d' = d\<lparr>mIntfVoltage := a, mIntfCurrent := b\<rparr>" by (rule readsE [OF r])
    have "wired d d'" by (simp add: wired_def c)
    then have e: "ends d' = ends d" by (rule wired_ends)
    have "virtualIndex (setComp p d' H) d' = virtualIndex (setComp p d H) d"
      by (rule virtualIndex_cong) (simp_all add: c)
    then show ?thesis using d(2) unfolding emtFit_def endsAt_def by (simp add: e v)
  qed
  have goal: ?thesis
    if "emtInitialize omega dt k p W = ok (setComp p c H, X(p := x))" "reads d c" "isVS (model x) = isVS (model (X p))"
      "params (model x) = params (startModel dt (model (X p)))" "isSw (model x) = isSw (model (X p))" "hasPreStep (model x) = hasPreStep (model (X p))" "emtParams dt (model x)"
      "mRightVector x = (if isRes (model (X p)) then zeros 0 0 else zeros k 1)"
      "mMnaTasks x = (if hasPreStep (model (X p)) then [MnaPreStep] else []) @ [MnaPostStep]
         @ (if isSw (model (X p)) then [MnaPostStep] else [])" for c x
  proof -
    have "startComp W p = d" by (simp add: startComp_def W d(1))
    moreover have "wired d c" by (rule readsE [OF that(2)]) (simp add: wired_def)
    ultimately show ?thesis using that fit [OF that(2), of "X(p := x)"]
      by (intro exI [of _ c] exI [of _ x]) (simp add: W started_def)
  qed
  note defs = emtInitialize_def Let_def W hasPreStep_def hasPostStep_def isSw_def isRes_def emtParams_def isVS_def
    reads_def setV_def setI_def params_def startModel_def
  let ?x = "\<lambda>m. \<lparr>model = m, mRightVector = zeros k 1, mMnaTasks = [MnaPreStep, MnaPostStep]\<rparr>"
  show ?thesis
  proof (cases "model (X p)")
    case (Inductor l q)
    then have l: "l \<noteq> 0" using assms by (simp add: emtStart_def W)
    show ?thesis
      by (rule goal [where c = d and x = "?x (Inductor l (inductorUpdate d (q\<lparr>mEquivCond := dt / (2 * l)\<rparr>)))"])
        (use d(1) Inductor l in \<open>simp_all add: defs inductorInitialize_def inductorUpdate_def\<close>)
  next
    case (Capacitor l q)
    then have l: "dt \<noteq> 0" using assms by (simp add: emtStart_def W)
    show ?thesis
      by (rule goal [where c = d and x = "?x (Capacitor l (capacitorUpdate d (q\<lparr>mEquivCond := (2 * l) / dt\<rparr>)))"])
        (use d(1) Capacitor l in \<open>simp_all add: defs capacitorInitialize_def capacitorUpdate_def\<close>)
  next
    case (Resistor r)
    show ?thesis
      by (rule goal [where c = d and x = "\<lparr>model = Resistor r, mRightVector = zeros 0 0, mMnaTasks = [MnaPostStep]\<rparr>"])
        (use d(1) Resistor in \<open>simp_all add: defs resistorInitialize_def\<close>)
  next
    case (VoltageSource v f)
    show ?thesis
      by (rule goal [where c = "setV (absC v * cos (phase v)) d" and x = "?x (VoltageSource v f)"])
        (use d(1) VoltageSource in \<open>simp_all add: defs voltageSourceInitialize_def\<close>)
  next
    case (CurrentSource v f)
    show ?thesis
      by (rule goal [where c = "setI (absC v * cos (phase v)) d" and x = "?x (CurrentSource v f)"])
        (use d(1) CurrentSource in \<open>simp_all add: defs currentSourceInitialize_def\<close>)
  next
    case (Switch s)
    show ?thesis
      by (rule goal [where c = d and x = "\<lparr>model = Switch s, mRightVector = zeros k 1, mMnaTasks = [MnaPostStep, MnaPostStep]\<rparr>"])
        (use d(1) Switch in \<open>simp_all add: defs switchInitialize_def\<close>)
  qed
qed

section \<open>All components\<close>

definition elsewhere :: "nat set \<Rightarrow> emt_world \<Rightarrow> emt_world \<Rightarrow> bool" where
  "elsewhere P W W' \<longleftrightarrow> nodeAt (fst W') = nodeAt (fst W) \<and> (\<forall>q. q \<notin> P \<longrightarrow> agree q W W')"

lemma elsewhere_upd: "elsewhere {p} W (setComp p c (fst W), (snd W)(p := x))"
  by (simp add: elsewhere_def agree_def)

lemma elsewhere_trans: "elsewhere P W W1 \<Longrightarrow> elsewhere Q W1 W2 \<Longrightarrow> elsewhere (P \<union> Q) W W2"
  unfolding elsewhere_def using agree_trans by (metis UnCI)

lemma elsewhereD: "elsewhere P W W' \<Longrightarrow> q \<notin> P \<Longrightarrow> agree q W W'"
  by (simp add: elsewhere_def)

lemma initPower_ok:
  assumes "willFit k (objs S) p" "mInitFromNodes S \<longrightarrow> flowKnown (objs S) p" "\<not> hasUnconnectedTerminals (compAt (fst (objs S)) p)"
  shows "\<exists>c. initPower RealVar emt_methods T p S = ok (S\<lparr>objs := (setComp p c (fst (objs S)), snd (objs S))\<rparr>)
    \<and> reads (compAt (fst (objs S)) p) c"
proof -
  obtain H X where W: "objs S = (H, X)" by (cases "objs S")
  have same: "S = S\<lparr>objs := (setComp p (compAt H p) H, X)\<rparr>" using W by (simp add: setComp_def)
  have m: "initializeFromNodesAndTerminals emt_methods = emtInitFromNodes" by (simp add: emt_methods_def)
  show ?thesis
  proof (cases "compKind (compAt H p) = PowerComponent RealVar \<and> mInitFromNodes S")
    case True
    then obtain z where z: "initialAcross H (compAt H p) = ok z" using assms(2) W by (auto simp: flowKnown_def split: sum.splits)
    have trans: "reads c (setI y (setV x c))" for c :: comp and x y by (rule reads_trans [OF reads_set(1,2)])
    show ?thesis using True assms(3) W z trans
      by (cases "model (X p)")
        (auto simp: initPower_def castPower_def checkForUnconnectedTerminals_def m emtInitFromNodes_def Let_def
          resistorInitFromNodes_def inductorInitFromNodes_def capacitorInitFromNodes_def switchInitFromNodes_def)
  next
    case False
    then have "initPower RealVar emt_methods T p S = ok S"
      using assms(3) W by (simp add: initPower_def castPower_def checkForUnconnectedTerminals_def)
    then show ?thesis using same W by (intro exI [of _ "compAt H p"]) simp
  qed
qed

lemma initPower_all:
  assumes "distinct ps" "\<forall>p\<in>set ps. emtStart dt k (objs S) p"
    "\<forall>p\<in>set ps. (mInitFromNodes S \<longrightarrow> flowKnown (objs S) p) \<and> \<not> hasUnconnectedTerminals (compAt (fst (objs S)) p)"
  shows "\<exists>W. foldE (initPower RealVar emt_methods T) ps S = ok (S\<lparr>objs := W\<rparr>) \<and> elsewhere (set ps) (objs S) W
    \<and> snd W = snd (objs S) \<and> (\<forall>p\<in>set ps. emtStart dt k W p \<and> wired (startComp (objs S) p) (startComp W p))"
  using assms
proof (induction ps arbitrary: S)
  case Nil
  then show ?case by (intro exI [of _ "objs S"]) (simp add: elsewhere_def agree_def)
next
  case (Cons p ps)
  let ?H = "fst (objs S)" and ?X = "snd (objs S)"
  obtain c where c: "initPower RealVar emt_methods T p S = ok (S\<lparr>objs := (setComp p c ?H, ?X)\<rparr>)" "reads (compAt ?H p) c"
    using initPower_ok [of k S p T] Cons.prems by (auto simp: emtStart_def)
  let ?W = "(setComp p c ?H, ?X)"
  have else1: "elsewhere {p} (objs S) ?W" by (simp add: elsewhere_def agree_def)
  have ag: "agree q (objs S) ?W" if q: "q \<in> set ps" for q
  proof (rule elsewhereD [OF else1])
    show "q \<notin> {p}" using q Cons.prems(1) by auto
  qed
  have flow: "flowKnown ?W q = flowKnown (objs S) q" "compAt (fst ?W) q = compAt ?H q" if "q \<in> set ps" for q
  proof -
    have n: "nodeAt (fst ?W) = nodeAt ?H" by simp
    have "initialAcross (fst ?W) d = initialAcross ?H d" for d
      by (simp add: initialAcross_def compInitialSingleVoltage_def termInitialSingleVoltage_def cong: option.case_cong)
    then show "flowKnown ?W q = flowKnown (objs S) q" "compAt (fst ?W) q = compAt ?H q"
      using ag [OF that] by (simp_all add: flowKnown_def agree_def)
  qed
  obtain W where W: "foldE (initPower RealVar emt_methods T) ps (S\<lparr>objs := ?W\<rparr>) = ok (S\<lparr>objs := W\<rparr>)"
    "elsewhere (set ps) ?W W" "snd W = ?X" "\<forall>q\<in>set ps. emtStart dt k W q \<and> wired (startComp ?W q) (startComp W q)"
    using Cons.IH [of "S\<lparr>objs := ?W\<rparr>"] Cons.prems start_agree [OF ag] flow by auto
  have "emtStart dt k W p \<and> wired (startComp (objs S) p) (startComp W p)"
  proof -
    have ag': "agree p ?W W" using elsewhereD [OF W(2)] Cons.prems(1) by simp
    have "willFit k (objs S) p" using Cons.prems(2) by (simp add: emtStart_def)
    then obtain d where "updateMatrixNodeIndices ?H (compAt ?H p) = ok d" by (auto simp: willFit_def split: sum.splits)
    then have w: "wired (startComp (objs S) p) (startComp ?W p)"
      using startComp_reads [of "objs S" p d ?W] c(2) by simp
    have "willFit k ?W p"
      by (rule willFit_reads [of k "objs S"]) (use Cons.prems(2) c(2) in \<open>auto simp: emtStart_def\<close>)
    then have "emtStart dt k ?W p" using Cons.prems(2) by (simp add: emtStart_def)
    then have "emtStart dt k W p" by (rule start_agree [OF ag'])
    moreover have "startComp W p = startComp ?W p" by (rule startComp_agree [OF ag'])
    ultimately show ?thesis using w by simp
  qed
  moreover have "wired (startComp (objs S) q) (startComp W q)" if "q \<in> set ps" for q
  proof -
    have "startComp ?W q = startComp (objs S) q" by (rule startComp_agree [OF ag [OF that]])
    moreover have "wired (startComp ?W q) (startComp W q)" using W(4) that by blast
    ultimately show ?thesis by (rule subst)
  qed
  ultimately have all: "\<forall>q\<in>set (p # ps). emtStart dt k W q \<and> wired (startComp (objs S) q) (startComp W q)"
    using W(4) by simp
  show ?case using all c(1) W(1,3) elsewhere_trans [OF else1 W(2)] by (intro exI [of _ W]) simp
qed

lemma initMna_all:
  assumes "distinct ps" "\<forall>p\<in>set ps. emtStart (mTimeStep S) k (objs S) p" "mrows (mLeftSideVector S) = k" "k > 0"
  shows "\<exists>W. foldE (initMna emt_methods omega) ps S = ok (S\<lparr>objs := W,
        mRightVectorStamps := mRightVectorStamps S @ filter (\<lambda>p. \<not> isRes (model (snd (objs S) p))) ps\<rparr>)
    \<and> elsewhere (set ps) (objs S) W \<and> (\<forall>p\<in>set ps. started (mTimeStep S) k (model (snd (objs S) p)) (startComp (objs S) p) W p)"
  using assms
proof (induction ps arbitrary: S)
  case Nil
  then show ?case by (intro exI [of _ "objs S"]) (simp add: elsewhere_def agree_def)
next
  case (Cons p ps)
  let ?m = "model (snd (objs S) p)"
  obtain c x where c: "emtInitialize omega (mTimeStep S) k p (objs S) = ok (setComp p c (fst (objs S)), (snd (objs S))(p := x))"
    "started (mTimeStep S) k ?m (startComp (objs S) p) (setComp p c (fst (objs S)), (snd (objs S))(p := x)) p"
    using initialize_started [of "mTimeStep S" k "objs S" p omega] Cons.prems(2) by auto
  let ?W = "(setComp p c (fst (objs S)), (snd (objs S))(p := x))"
  let ?S = "S\<lparr>objs := ?W, mRightVectorStamps := mRightVectorStamps S @ (if isRes ?m then [] else [p])\<rparr>"
  have step: "initMna emt_methods omega p S = ok ?S"
    using c Cons.prems(3,4) by (simp add: initMna_def Let_def started_def zeros_def)
  have else1: "elsewhere {p} (objs S) ?W" by (rule elsewhere_upd)
  have ag: "agree q (objs S) ?W" if q: "q \<in> set ps" for q
  proof (rule elsewhereD [OF else1])
    show "q \<notin> {p}" using q Cons.prems(1) by auto
  qed
  have "\<forall>q\<in>set ps. emtStart (mTimeStep ?S) k (objs ?S) q" using start_agree [OF ag] Cons.prems(2) by simp
  then obtain W where W: "foldE (initMna emt_methods omega) ps ?S = ok (?S\<lparr>objs := W,
        mRightVectorStamps := mRightVectorStamps ?S @ filter (\<lambda>p. \<not> isRes (model (snd ?W p))) ps\<rparr>)"
    "elsewhere (set ps) ?W W" "\<forall>q\<in>set ps. started (mTimeStep S) k (model (snd ?W q)) (startComp ?W q) W q"
    using Cons.IH [of ?S] Cons.prems(1,3,4) by auto
  have same: "snd ?W q = snd (objs S) q" if "q \<in> set ps" for q using ag [OF that] by (simp add: agree_def)
  have flt: "filter (\<lambda>p. \<not> isRes (model (snd ?W p))) ps = filter (\<lambda>p. \<not> isRes (model (snd (objs S) p))) ps"
    using same by (intro filter_cong) auto
  have "started (mTimeStep S) k ?m (startComp (objs S) p) W p"
    using started_agree [OF _ c(2)] elsewhereD [OF W(2)] Cons.prems(1) by simp
  moreover have "started (mTimeStep S) k (model (snd (objs S) q)) (startComp (objs S) q) W q" if "q \<in> set ps" for q
    using W(3) same [OF that] startComp_agree [OF ag [OF that]] that by auto
  ultimately show ?case
    using step W(1) [unfolded flt] elsewhere_trans [OF else1 W(2)]
    by (intro exI [of _ W]) (simp del: fun_upd_apply)
qed

lemma initSwitch_all:
  assumes "distinct ps" "\<forall>p\<in>set ps. emtStart (mTimeStep S) k (objs S) p" "mrows (mLeftSideVector S) = k"
  shows "\<exists>W. foldE (initSwitch emt_methods omega) ps S = ok (S\<lparr>objs := W\<rparr>)
    \<and> elsewhere (set ps) (objs S) W \<and> (\<forall>p\<in>set ps. started (mTimeStep S) k (model (snd (objs S) p)) (startComp (objs S) p) W p)"
  using assms
proof (induction ps arbitrary: S)
  case Nil
  then show ?case by (intro exI [of _ "objs S"]) (simp add: elsewhere_def agree_def)
next
  case (Cons p ps)
  let ?m = "model (snd (objs S) p)"
  obtain c x where c: "emtInitialize omega (mTimeStep S) k p (objs S) = ok (setComp p c (fst (objs S)), (snd (objs S))(p := x))"
    "started (mTimeStep S) k ?m (startComp (objs S) p) (setComp p c (fst (objs S)), (snd (objs S))(p := x)) p"
    using initialize_started [of "mTimeStep S" k "objs S" p omega] Cons.prems(2) by auto
  let ?W = "(setComp p c (fst (objs S)), (snd (objs S))(p := x))"
  let ?S = "S\<lparr>objs := ?W\<rparr>"
  have step: "initSwitch emt_methods omega p S = ok ?S" using c(1) Cons.prems(3) by (simp add: initSwitch_def)
  have else1: "elsewhere {p} (objs S) ?W" by (rule elsewhere_upd)
  have ag: "agree q (objs S) ?W" if q: "q \<in> set ps" for q
  proof (rule elsewhereD [OF else1])
    show "q \<notin> {p}" using q Cons.prems(1) by auto
  qed
  have "\<forall>q\<in>set ps. emtStart (mTimeStep ?S) k (objs ?S) q" using start_agree [OF ag] Cons.prems(2) by simp
  then obtain W where W: "foldE (initSwitch emt_methods omega) ps ?S = ok (?S\<lparr>objs := W\<rparr>)"
    "elsewhere (set ps) ?W W" "\<forall>q\<in>set ps. started (mTimeStep S) k (model (snd ?W q)) (startComp ?W q) W q"
    using Cons.IH [of ?S] Cons.prems(1,3) by auto
  have same: "snd ?W q = snd (objs S) q" if "q \<in> set ps" for q using ag [OF that] by (simp add: agree_def)
  have "started (mTimeStep S) k ?m (startComp (objs S) p) W p"
    using started_agree [OF _ c(2)] elsewhereD [OF W(2)] Cons.prems(1) by simp
  moreover have "started (mTimeStep S) k (model (snd (objs S) q)) (startComp (objs S) q) W q" if "q \<in> set ps" for q
    using W(3) same [OF that] startComp_agree [OF ag [OF that]] that by auto
  ultimately show ?case using step W(1) elsewhere_trans [OF else1 W(2)] by (intro exI [of _ W]) simp
qed

section \<open>The whole initialisation\<close>

text \<open>A network whose nodes are numbered and whose components are connected, before its solver is initialised.\<close>

definition emtConnected :: "real \<Rightarrow> nat \<Rightarrow> (emt_ext, 'f) mna_direct \<Rightarrow> bool" where
  "emtConnected dt k S \<longleftrightarrow> (let L = mnaBase S; W = objs S in
     mSyncGen L = [] \<and> distinct (mMNAComponents L) \<and> distinct (mMNAIntfSwitches L)
     \<and> set (mMNAComponents L) \<inter> set (mMNAIntfSwitches L) = {} \<and> set (mMNAIntfSwitches L) = set (mSwitches L)
     \<and> length (mSwitches L) < 64 \<and> mNumMatrixNodeIndices L = k \<and> k > 0
     \<and> \<not> mFrequencyParallel L \<and> \<not> mSystemMatrixRecomputationEnabled L
     \<and> mMNAIntfVariableComps L = [] \<and> mSimSignalComps L = []
     \<and> mSwitchedMatrices S = [] \<and> mDirectLinearSolvers S = [] \<and> mCurrentSwitchStatus S = 0
     \<and> mRightVectorStamps S = [] \<and> mTimeStep S = dt \<and> nodes_ok (fst W)
     \<and> (\<forall>p\<in>set (mMNAComponents L). \<not> isSw (model (snd W p)) \<and> emtStart dt k W p
          \<and> \<not> hasUnconnectedTerminals (compAt (fst W) p) \<and> (mInitFromNodes S \<longrightarrow> flowKnown W p))
     \<and> (\<forall>p\<in>set (mSwitches L). isSw (model (snd W p)) \<and> emtStart dt k W p))"

lemma initNodes_voltages: "voltagesOnly (fst (objs S)) (fst (objs (initNodes S)))" "snd (objs (initNodes S)) = snd (objs S)"
proof -
  have init: "\<exists>V. initializeNode n = n\<lparr>mVoltage := V\<rparr>" for n
    by (cases n) (auto simp: initializeNode_def Let_def split: var_type.split)
  have same: "\<exists>V. n = n\<lparr>mVoltage := V\<rparr>" for n :: simNode by (rule exI [of _ "mVoltage n"]) simp
  have one: "voltagesOnly H (updNode p initializeNode H)" for p H
    using init same by (simp add: voltagesOnly_def updNode_def)
  have "voltagesOnly H (fold (\<lambda>p. updNode p initializeNode) ps H)" for ps H
  proof (induction ps arbitrary: H)
    case Nil
    then show ?case using same by (simp add: voltagesOnly_def)
  qed (auto intro: voltagesOnly_trans [OF one])
  then show "voltagesOnly (fst (objs S)) (fst (objs (initNodes S)))" by (simp add: initNodes_def)
qed (simp add: initNodes_def)

text \<open>What \<open>initializeComponents\<close> leaves of a connected network.\<close>

definition componentsStarted :: "real \<Rightarrow> nat \<Rightarrow> (emt_ext, 'f) mna_direct \<Rightarrow> (emt_ext, 'f) mna_direct \<Rightarrow> bool" where
  "componentsStarted dt k S S' \<longleftrightarrow> (\<forall>p\<in>set (mMNAComponents (mnaBase S) @ mSwitches (mnaBase S)).
     started dt k (model (snd (objs S) p)) (startComp (objs S) p) (objs S') p)"

lemma started_net:
  assumes "started dt k m d W p" "sameNet W W'" "snd W' = snd W"
  shows "started dt k m d W' p"
proof -
  have "wired (compAt (fst W) p) (compAt (fst W') p)" using assms(2) by (simp add: sameNet_def)
  then show ?thesis using assms(1) sameNet_fit [OF assms(2)] by (simp add: started_def assms(3) wired_def)
qed

lemma started_wired: "wired d' d \<Longrightarrow> started dt k m d W p \<Longrightarrow> started dt k m d' W p"
  by (simp add: started_def wired_def)

lemma started_sameNet:
  assumes "componentsStarted dt k S S'" "\<forall>q ph. matrixNodeIndex (nodeAt (fst (objs S')) q) ph = matrixNodeIndex (nodeAt (fst (objs S)) q) ph"
    and "\<forall>p. p \<notin> set (mMNAComponents (mnaBase S) @ mSwitches (mnaBase S)) \<longrightarrow>
      wired (compAt (fst (objs S)) p) (compAt (fst (objs S')) p) \<and> snd (objs S') p = snd (objs S) p"
  shows "sameNet (startWorld dt (mMNAComponents (mnaBase S) @ mSwitches (mnaBase S)) (objs S)) (objs S')"
proof -
  have st: "started dt k (model (snd (objs S) p)) (startComp (objs S) p) (objs S') p"
    if "p \<in> set (mMNAComponents (mnaBase S) @ mSwitches (mnaBase S))" for p
    using assms(1) that unfolding componentsStarted_def by blast
  then have w: "wired (startComp (objs S) p) (compAt (fst (objs S')) p)
      \<and> params (model (snd (objs S') p)) = params (startModel dt (model (snd (objs S) p)))"
    if "p \<in> set (mMNAComponents (mnaBase S) @ mSwitches (mnaBase S))" for p
    using that by (simp add: started_def Let_def)
  show ?thesis
    using w assms(2,3) unfolding sameNet_def startWorld_def by simp
qed

lemma started_components:
  assumes c: "emtConnected dt k S" and S1: "S1 = S\<lparr>mRightSideVector := zeros k 1, mLeftSideVector := zeros k 1,
      mSwitchedMatrices := ms, mDirectLinearSolvers := fs\<rparr>"
  shows "\<exists>S2. initializeComponents RealVar emt_methods T omega S1 = ok S2 \<and> mnaBase S2 = mnaBase S
    \<and> mSwitchedMatrices S2 = ms \<and> mDirectLinearSolvers S2 = fs \<and> mCurrentSwitchStatus S2 = 0
    \<and> mRightSideVector S2 = zeros k 1 \<and> mListVariableSystemMatrixEntries S2 = mListVariableSystemMatrixEntries S
    \<and> nodes_ok (fst (objs S2)) \<and> componentsStarted dt k S S2
    \<and> sameNet (startWorld dt (mMNAComponents (mnaBase S) @ mSwitches (mnaBase S)) (objs S)) (objs S2)
    \<and> mRightVectorStamps S2 = filter (\<lambda>p. \<not> isRes (model (snd (objs S) p))) (mMNAComponents (mnaBase S))"
proof -
  note c = c [unfolded emtConnected_def Let_def]
  let ?cs = "mMNAComponents (mnaBase S)" and ?sw = "mMNAIntfSwitches (mnaBase S)"
  have lists: "mMNAIntfVariableComps (mnaBase S) = []" "mSimSignalComps (mnaBase S) = []" "mCurrentSwitchStatus S = 0"
    using c by blast+
  have s1: "objs S1 = objs S" "mnaBase S1 = mnaBase S" "mTimeStep S1 = dt" "mrows (mLeftSideVector S1) = k"
    "mRightVectorStamps S1 = []" "mInitFromNodes S1 = mInitFromNodes S"
    using c by (simp_all add: S1)
  obtain W1 where W1: "foldE (initPower RealVar emt_methods T) ?cs S1 = ok (S1\<lparr>objs := W1\<rparr>)" "elsewhere (set ?cs) (objs S) W1"
    "snd W1 = snd (objs S)" "\<forall>p\<in>set ?cs. emtStart dt k W1 p \<and> wired (startComp (objs S) p) (startComp W1 p)"
    using initPower_all [of ?cs dt k S1 T] c by (auto simp: s1)
  obtain W2 where W2: "foldE (initMna emt_methods omega) ?cs (S1\<lparr>objs := W1\<rparr>) = ok (S1\<lparr>objs := W2,
      mRightVectorStamps := filter (\<lambda>p. \<not> isRes (model (snd (objs S) p))) ?cs\<rparr>)" "elsewhere (set ?cs) W1 W2"
    "\<forall>p\<in>set ?cs. started dt k (model (snd (objs S) p)) (startComp W1 p) W2 p"
    using initMna_all [of ?cs "S1\<lparr>objs := W1\<rparr>" k omega] c W1(3,4) by (auto simp: s1)
  let ?S3 = "S1\<lparr>objs := W2, mRightVectorStamps := filter (\<lambda>p. \<not> isRes (model (snd (objs S) p))) ?cs\<rparr>"
  have e2: "elsewhere (set ?cs) (objs S) W2" using elsewhere_trans [OF W1(2) W2(2)] by simp
  have sw2: "agree p (objs S) W2" if "p \<in> set ?sw" for p using elsewhereD [OF e2, of p] c that by blast
  have "\<forall>p\<in>set ?sw. emtStart dt k W2 p" using start_agree [OF sw2] c by blast
  then obtain W3 where W3: "foldE (initSwitch emt_methods omega) ?sw ?S3 = ok (?S3\<lparr>objs := W3\<rparr>)" "elsewhere (set ?sw) W2 W3"
    "\<forall>p\<in>set ?sw. started dt k (model (snd W2 p)) (startComp W2 p) W3 p"
    using initSwitch_all [of ?sw ?S3 k omega] c by (auto simp: s1)
  let ?S5 = "initNodes (?S3\<lparr>objs := W3\<rparr>)"
  have run: "initializeComponents RealVar emt_methods T omega S1 = ok ?S5"
    using W1(1) W2(1) W3(1) by (simp add: initializeComponents_def allMNAComps_def s1 lists)
  have V: "voltagesOnly (fst W3) (fst (objs ?S5))" "snd (objs ?S5) = snd W3"
    using initNodes_voltages [of "?S3\<lparr>objs := W3\<rparr>"] by simp_all
  have net: "sameNet W3 (objs ?S5)"
  proof -
    have "objs ?S5 = (fst (objs ?S5), snd W3)" by (rule prod_eqI) (simp_all only: fst_conv snd_conv V(2))
    then show ?thesis using voltagesOnly_sameNet [OF V(1)] by argo
  qed
  have nok: "nodes_ok (fst (objs ?S5))"
  proof (rule voltagesOnly_nodes_ok [OF V(1)])
    have "nodeAt (fst W3) = nodeAt (fst (objs S))" using e2 W3(2) by (simp add: elsewhere_def)
    then show "nodes_ok (fst W3)" using c by (simp add: nodes_ok_def)
  qed
  have st: "started dt k (model (snd (objs S) p)) (startComp (objs S) p) (objs ?S5) p" if p: "p \<in> set (?cs @ mSwitches (mnaBase S))" for p
  proof (rule started_net [OF _ net V(2)])
    show "started dt k (model (snd (objs S) p)) (startComp (objs S) p) W3 p"
    proof (cases "p \<in> set ?cs")
      case True
      then have "agree p W2 W3" using elsewhereD [OF W3(2)] c by blast
      then show ?thesis using W1(4) W2(3) True started_agree started_wired by blast
    next
      case False
      then have sw: "p \<in> set ?sw" using p c by auto
      then have "model (snd W2 p) = model (snd (objs S) p)" "startComp W2 p = startComp (objs S) p"
        using sw2 [OF sw] startComp_agree [OF sw2 [OF sw]] by (simp_all add: agree_def)
      then show ?thesis using W3(3) sw by auto
    qed
  qed
  have "mnaBase ?S5 = mnaBase S \<and> mSwitchedMatrices ?S5 = ms \<and> mDirectLinearSolvers ?S5 = fs
    \<and> mCurrentSwitchStatus ?S5 = 0 \<and> mRightSideVector ?S5 = zeros k 1
    \<and> mListVariableSystemMatrixEntries ?S5 = mListVariableSystemMatrixEntries S
    \<and> mRightVectorStamps ?S5 = filter (\<lambda>p. \<not> isRes (model (snd (objs S) p))) ?cs"
    by (simp add: initNodes_def S1 lists)
  moreover have cst: "componentsStarted dt k S ?S5" unfolding componentsStarted_def using st by blast
  moreover have "sameNet (startWorld dt (?cs @ mSwitches (mnaBase S)) (objs S)) (objs ?S5)"
  proof (rule started_sameNet [OF cst], safe)
    have n: "nodeAt (fst W3) = nodeAt (fst (objs S))" using e2 W3(2) by (simp add: elsewhere_def)
    show "matrixNodeIndex (nodeAt (fst (objs ?S5)) q) ph = matrixNodeIndex (nodeAt (fst (objs S)) q) ph" for q ph
      using net unfolding sameNet_def n by blast
    fix p assume p: "p \<notin> set (?cs @ mSwitches (mnaBase S))"
    then have nsw: "p \<notin> set ?sw" using c by auto
    have "agree p (objs S) W3" using agree_trans [OF elsewhereD [OF e2] elsewhereD [OF W3(2) nsw]] p by simp
    then have "compAt (fst W3) p = compAt (fst (objs S)) p" "snd W3 p = snd (objs S) p" by (simp_all add: agree_def)
    then show "wired (compAt (fst (objs S)) p) (compAt (fst (objs ?S5)) p)" "snd (objs ?S5) p = snd (objs S) p"
      using net V(2) unfolding sameNet_def by metis+
  qed
  ultimately show ?thesis using run nok by blast
qed

lemma started_ready:
  assumes "emtConnected dt k S" "componentsStarted dt k S S2" "mnaBase S2 = mnaBase S"
    "mRightVectorStamps S2 = filter (\<lambda>p. \<not> isRes (model (snd (objs S) p))) (mMNAComponents (mnaBase S))"
    "mRightSideVector S2 = zeros k 1" "mCurrentSwitchStatus S2 = 0" "nodes_ok (fst (objs S2))" "\<not> mIsInInitialization S2"
  shows "emtComponents dt k S2"
proof -
  note c = assms(1) [unfolded emtConnected_def Let_def]
  let ?cs = "mMNAComponents (mnaBase S)" and ?m = "\<lambda>p. model (snd (objs S) p)" and ?m2 = "\<lambda>p. model (snd (objs S2) p)"
  have st: "started dt k (?m p) (startComp (objs S) p) (objs S2) p" if "p \<in> set ?cs \<or> p \<in> set (mSwitches (mnaBase S))" for p
    using assms(2) that by (simp add: componentsStarted_def)
  note s = st [unfolded started_def Let_def]
  have pre: "hasPreStep m \<Longrightarrow> \<not> isRes m" for m by (cases m) (simp_all add: hasPreStep_def isRes_def)
  have clean: "emtClean k (objs S2) p" if "p \<in> set ?cs" "hasPreStep (?m2 p)" for p
    using s [of p] that pre [of "?m p"] by (simp add: emtClean_def zeros_def)
  have flt: "filter (\<lambda>p. hasPreStep (?m2 p)) (filter (\<lambda>p. \<not> isRes (?m p)) ?cs) = filter (\<lambda>p. hasPreStep (?m2 p)) ?cs"
    using s pre by (simp add: filter_filter) (intro filter_cong; auto)
  have zero: "ent (mRightVector (snd (objs S2) p)) a 0 = 0" if "p \<in> set ?cs" for p a
    using s [of p] that by (simp add: zeros_def)
  have "stampsOk S2" unfolding stampsOk_def Let_def assms(3,4) using flt zero by simp
  then show ?thesis
    unfolding emtComponents_def assms(3,5,6) using assms(7,8) c s clean by simp
qed

lemma complete_ready:
  assumes c: "emtConnected dt k S"
  shows "\<exists>S1 S2 S'. createEmptySystemMatrix RealVar T D (createEmptyVectors RealVar T S) = ok S1
    \<and> initializeComponents RealVar emt_methods T omega S1 = ok S2
    \<and> completeInitialize RealVar emt_methods T omega rh D S = ok S' \<and> componentsStarted dt k S S2
    \<and> sameNet (startWorld dt (mMNAComponents (mnaBase S) @ mSwitches (mnaBase S)) (objs S)) (objs S2)
    \<and> emtReady dt k D S' (objs S2) \<and> mnaBase S' = mnaBase S \<and> sameNet (objs S2) (objs S')
    \<and> mListVariableSystemMatrixEntries S' = mListVariableSystemMatrixEntries S
    \<and> (\<forall>p. mMnaTasks (snd (objs S') p) = mMnaTasks (snd (objs S2) p)
         \<and> mRightVector (snd (objs S') p) = mRightVector (snd (objs S2) p))"
proof -
  note c' = c [unfolded emtConnected_def Let_def]
  let ?S0 = "createEmptyVectors RealVar T S" and ?n = "2 ^ length (mSwitches (mnaBase S))"
  have S0: "?S0 = S\<lparr>mRightSideVector := zeros k 1, mLeftSideVector := zeros k 1\<rparr>"
    using c' by (simp add: createEmptyVectors_def Let_def)
  obtain S1 where S1: "createEmptySystemMatrix RealVar T D ?S0 = ok S1" "keeps ?S0 S1" "\<forall>i < ?n. blank k D S1 i"
    using create_real [of ?S0 k T D] c' by (auto simp: S0)
  have S1eq: "S1 = S\<lparr>mRightSideVector := zeros k 1, mLeftSideVector := zeros k 1,
      mSwitchedMatrices := mSwitchedMatrices S1, mDirectLinearSolvers := mDirectLinearSolvers S1\<rparr>"
    using S1(2) by (simp add: keeps_def S0)
  obtain S2 where S2: "initializeComponents RealVar emt_methods T omega S1 = ok S2" "mnaBase S2 = mnaBase S"
    "mSwitchedMatrices S2 = mSwitchedMatrices S1" "mDirectLinearSolvers S2 = mDirectLinearSolvers S1"
    "mCurrentSwitchStatus S2 = 0" "mRightSideVector S2 = zeros k 1"
    "mListVariableSystemMatrixEntries S2 = mListVariableSystemMatrixEntries S" "nodes_ok (fst (objs S2))"
    "componentsStarted dt k S S2" "sameNet (startWorld dt (mMNAComponents (mnaBase S) @ mSwitches (mnaBase S)) (objs S)) (objs S2)"
    "mRightVectorStamps S2 = filter (\<lambda>p. \<not> isRes (model (snd (objs S) p))) (mMNAComponents (mnaBase S))"
    using started_components [OF c S1eq, of T omega] by blast
  let ?S3 = "S2\<lparr>mIsInInitialization := False\<rparr>"
  have "emtComponents dt k ?S3"
    by (rule started_ready [OF c]) (use S2 in \<open>simp_all add: componentsStarted_def\<close>)
  moreover have "\<forall>i < 2 ^ length (mSwitches (mnaBase ?S3)). blank k D ?S3 i"
    using S1(3) S2(2-4) by (simp add: blank_def)
  ultimately obtain S' where S': "initializeSystem emt_methods T rh D ?S3 = ok S'" "emtReady dt k D S' (objs ?S3)"
    "mnaBase S' = mnaBase ?S3" "sameNet (objs ?S3) (objs S')"
    "mListVariableSystemMatrixEntries S' = mListVariableSystemMatrixEntries ?S3"
    "\<forall>p. mMnaTasks (snd (objs S') p) = mMnaTasks (snd (objs ?S3) p)
       \<and> mRightVector (snd (objs S') p) = mRightVector (snd (objs ?S3) p)"
    using system_ready [of dt k ?S3 D T rh] by blast
  have "completeInitialize RealVar emt_methods T omega rh D S = ok S'"
    using S1(1) S2(1) S'(1) by (simp add: completeInitialize_def)
  then show ?thesis using S1(1) S2 S' by auto
qed

end
