(* ===== verification/EmtRun.thy ===== *)
theory EmtRun
  imports EmtSimulation EmtSchedule EmtStart
begin

text \<open>A simulation of an EMT network from its numbered nodes to the final time: \<open>initialize\<close> of the solver,
  the schedule of the tasks, and the steps of the simulation, each of them the tasks of the schedule in turn.\<close>

section \<open>The matrix of a network\<close>

lemma stamp_net:
  assumes "sameNet W W'"
  shows "\<not> isSw (model (snd W p)) \<Longrightarrow> emtStamp W' p M = emtStamp W p M" "emtSwitchStamp W' p cl M = emtSwitchStamp W p cl M"
proof -
  note e = sameNet_ends [OF assms] and c = params_class(2,3) [OF sameNet_params [OF assms, of p]]
  note pp = sameNet_params [OF assms, of p]
  show "emtStamp W' p M = emtStamp W p M" if "\<not> isSw (model (snd W p))"
    using pp c(2) [of True] that
    by (cases "model (snd W p)"; cases "model (snd W' p)")
      (simp_all add: emtStamp_def class_stamps e params_def emtConductance_def isSw_def Let_def)
  show "emtSwitchStamp W' p cl M = emtSwitchStamp W p cl M"
    using pp c(2) [of cl]
    by (cases "model (snd W p)"; cases "model (snd W' p)")
      (simp_all add: emtSwitchStamp_def class_stamps e params_def emtConductance_def switchResistance_def split: if_splits)
qed

lemma systemMatrix_net:
  assumes "sameNet W W'" "\<forall>p\<in>set (mMNAComponents L). \<not> isSw (model (snd W p))"
  shows "systemMatrix emt_methods W' L k w = systemMatrix emt_methods W L k w"
proof -
  have "stampComps emt_methods W' ps M = stampComps emt_methods W ps M" if "\<forall>p\<in>set ps. \<not> isSw (model (snd W p))" for ps M
    using that by (induction ps arbitrary: M) (simp_all add: stampComps_def stamp_net(1) [OF assms(1)] bind_err_def split: sum.split)
  moreover have sw: "(\<lambda>(i, p). emtSwitchStamp W' p (bit w i)) = (\<lambda>(i, p). emtSwitchStamp W p (bit w i))"
    by (auto simp: fun_eq_iff stamp_net(2) [OF assms(1)])
  then have "stampSwitches emt_methods W' w ps = stampSwitches emt_methods W w ps" for ps
    by (intro ext) (simp only: stampSwitches_def emt_methods_simps sw)
  ultimately show ?thesis using assms(2) by (simp add: systemMatrix_def)
qed

section \<open>A schedule exists\<close>

lemma simSchedule_exists:
  assumes "\<And>i j x. i < length ts \<Longrightarrow> j < length ts \<Longrightarrow> x \<in> set (mModifiedAttributes (ts ! i))
    \<Longrightarrow> x \<in> set (dep_attrs gd (ts ! j)) \<Longrightarrow> f i < (f j :: nat)"
  shows "\<exists>s. simSchedule gd ts = ok s"
proof -
  let ?r = "length ts" and ?tbl = "taskTable ts"
  obtain tasks inE outE where res: "resolveDeps ?tbl gd ?r [0..<length ts] [] [] = (tasks, inE, outE)"
    by (cases "prepSchedule gd ts") (simp add: prepSchedule_def)
  have "distinct ([0..<length ts] @ [?r])" by simp
  note g = resolveDeps_facts [OF res this]
  have tasks: "set tasks = {..?r}" using resolveDeps_graph(1) [OF res] by auto
  let ?f = "\<lambda>i. if i < ?r then f i else Suc (\<Sum>j < ?r. f j)"
  have lt: "?f i < ?f j" if e: "(i, j) \<in> edge_rel inE" for i j
  proof -
    have i: "i < ?r" "j \<le> ?r"
      using e tasks unfolding g(5) needs_def by (auto simp: taskTable_def Root_def split: if_splits)
    show ?thesis
    proof (cases "j < ?r")
      case True
      then show ?thesis using e i(1) assms [of i j] unfolding g(5) needs_def by (auto simp: taskTable_def)
    next
      case False
      have "f i \<le> (\<Sum>j < ?r. f j)" using i(1) by (intro member_le_sum) auto
      then show ?thesis using False i(1) by simp
    qed
  qed
  have "edge_rel inE \<subseteq> measure ?f"
  proof
    fix e assume e: "e \<in> edge_rel inE"
    obtain i j where "e = (i, j)" by (cases e)
    then show "e \<in> (measure ?f)" using lt [of i j] e by (simp only: in_measure)
  qed
  moreover have "acyclic (measure ?f)" by (simp add: wf_acyclic)
  ultimately have "acyclic (edge_rel inE)" by (meson acyclic_subset)
  then obtain P where "topologicalSort ?r tasks inE outE = ok (filter (\<lambda>x. (x, ?r) \<in> (edge_rel inE)\<^sup>* \<and> x \<noteq> ?r) P)"
    using topologicalSort_run [OF g(1-3), of ?r] by (metis (full_types))
  then show ?thesis by (simp add: simSchedule_def prepSchedule_def res)
qed

text \<open>The dependencies of the attributes: an attribute of a component is static, and a reference value
  depends on no attribute a task of the network modifies.\<close>

definition plainAttributes :: "(attr_ref \<Rightarrow> attr_ref list) \<Rightarrow> bool" where
  "plainAttributes gd \<longleftrightarrow> (\<forall>a. a \<in> set (gd a)) \<and> (\<forall>a. case a of
     SourceRef p \<Rightarrow> external \<notin> set (gd (attrRef a)) \<and> (\<forall>b. attrRef b \<in> set (gd (attrRef a)) \<longrightarrow> (\<exists>q. b = SourceRef q))
   | _ \<Rightarrow> gd (attrRef a) = [attrRef a])"

definition taskRank :: "solver_task \<Rightarrow> nat" where
  "taskRank t = (case t of CompTask MnaPreStep _ \<Rightarrow> 0 | SolveTask \<Rightarrow> 1 | CompTask MnaPostStep _ \<Rightarrow> 2 | _ \<Rightarrow> 3)"

lemma pre_post_attrs:
  "set (mModifiedAttributes (preStepTask W p)) \<subseteq> attrRef ` {RightVector p, IntfVoltage p, IntfCurrent p}"
  "set (mAttributeDependencies (preStepTask W p)) \<subseteq> {attrRef (SourceRef p)}"
  "set (mModifiedAttributes (postStepTask W p)) \<subseteq> attrRef ` {IntfVoltage p, IntfCurrent p}"
  "set (mAttributeDependencies (postStepTask W p)) = {attrRef LeftVector}"
  by (cases "model (snd W p)";
      simp add: preStepTask_def postStepTask_def mkTask_def mnaAddPreStepDependencies_def mnaAddPostStepDependencies_def
        class_dependencies)+

lemma dep_attrs_plain:
  assumes "plainAttributes gd"
  shows "x \<in> set (dep_attrs gd (preStepTask W p)) \<Longrightarrow> x \<noteq> external \<and> (\<forall>b. x = attrRef b \<longrightarrow> (\<exists>q. b = SourceRef q))"
    "set (dep_attrs gd (postStepTask W p)) = {attrRef LeftVector}"
    "set (dep_attrs gd (logTask name)) = {attrRef LeftVector}"
    "set (dep_attrs gd (solveTask name S)) \<subseteq> range (\<lambda>p. attrRef (RightVector p))"
proof -
  have a: "case a of SourceRef p \<Rightarrow> external \<notin> set (gd (attrRef a)) \<and> (\<forall>b. attrRef b \<in> set (gd (attrRef a)) \<longrightarrow> (\<exists>q. b = SourceRef q))
     | _ \<Rightarrow> gd (attrRef a) = [attrRef a]" for a
    using assms by (simp add: plainAttributes_def)
  have left: "gd (attrRef LeftVector) = [attrRef LeftVector]" and right: "gd (attrRef (RightVector p)) = [attrRef (RightVector p)]" for p
    using a [of LeftVector] a [of "RightVector p"] by simp_all
  show "x \<noteq> external \<and> (\<forall>b. x = attrRef b \<longrightarrow> (\<exists>q. b = SourceRef q))" if "x \<in> set (dep_attrs gd (preStepTask W p))"
    using that pre_post_attrs(2) [of W p] a [of "SourceRef p"] by (auto simp: dep_attrs_def)
  show "set (dep_attrs gd (postStepTask W p)) = {attrRef LeftVector}"
    using pre_post_attrs(4) [of W p] left by (auto simp: dep_attrs_def)
  show "set (dep_attrs gd (logTask name)) = {attrRef LeftVector}"
    using left by (simp add: dep_attrs_def task_attrs)
  show "set (dep_attrs gd (solveTask name S)) \<subseteq> range (\<lambda>p. attrRef (RightVector p))"
    using right by (auto simp: dep_attrs_def task_attrs rightVectors_def)
qed

lemma emt_schedule_exists:
  assumes r: "tasksReady S" and gd: "plainAttributes gd"
    and l: "\<forall>l\<in>set loggers. mModifiedAttributes l = [external] \<and> external \<notin> set (dep_attrs gd l)"
  shows "\<exists>s. simSchedule gd (emtTable name loggers S) = ok s"
proof (rule simSchedule_exists [where f = "\<lambda>i. taskRank (emtTasks (length loggers) S ! i)"])
  let ?ts = "emtTasks (length loggers) S" and ?obj = "taskObject name (\<lambda>_. Root) loggers S"
  fix i j x
  assume i: "i < length (emtTable name loggers S)" and j: "j < length (emtTable name loggers S)"
    and m: "x \<in> set (mModifiedAttributes (emtTable name loggers S ! i))"
    and d: "x \<in> set (dep_attrs gd (emtTable name loggers S ! j))"
  have mem: "?ts ! i \<in> set ?ts" "?ts ! j \<in> set ?ts" using i j by (auto simp: emtTable_def)
  have m': "x \<in> set (mModifiedAttributes (?obj (?ts ! i)))" and d': "x \<in> set (dep_attrs gd (?obj (?ts ! j)))"
    using i j m d by (simp_all add: emtTable_def)
  have I: "(taskRank (?ts ! i) = 0 \<and> (\<exists>p. x = attrRef (RightVector p) \<or> x = attrRef (IntfVoltage p) \<or> x = attrRef (IntfCurrent p)))
    \<or> (taskRank (?ts ! i) = 1 \<and> (x = attrRef LeftVector \<or> (\<exists>q. x = attrRef (NodeVoltage q))))
    \<or> (taskRank (?ts ! i) = 2 \<and> (\<exists>p. x = attrRef (IntfVoltage p) \<or> x = attrRef (IntfCurrent p)))
    \<or> (taskRank (?ts ! i) = 3 \<and> x = external)"
  proof -
    consider (pre) p where "?ts ! i = CompTask MnaPreStep p" | (solve) "?ts ! i = SolveTask"
      | (post) p where "?ts ! i = CompTask MnaPostStep p" | (log) "?ts ! i = LogTask" | (logger) n where "?ts ! i = LoggerTask n" "n < length loggers"
      using mem(1) unfolding set_emtTasks [OF r] by auto
    then show ?thesis
    proof cases
      case pre
      then show ?thesis using m' pre_post_attrs(1) [of "objs S" p] by (auto simp: taskObject_def taskRank_def)
    next
      case solve
      then show ?thesis using m' by (auto simp: taskObject_def task_attrs taskRank_def)
    next
      case post
      then show ?thesis using m' pre_post_attrs(3) [of "objs S" p] by (auto simp: taskObject_def taskRank_def)
    next
      case log
      then show ?thesis using m' by (auto simp: taskObject_def task_attrs taskRank_def)
    next
      case logger
      then show ?thesis using m' l by (auto simp: taskObject_def taskRank_def)
    qed
  qed
  consider (pre) p where "?ts ! j = CompTask MnaPreStep p" | (solve) "?ts ! j = SolveTask"
    | (post) p where "?ts ! j = CompTask MnaPostStep p" | (log) "?ts ! j = LogTask" | (logger) n where "?ts ! j = LoggerTask n" "n < length loggers"
    using mem(2) unfolding set_emtTasks [OF r] by auto
  then show "taskRank (?ts ! i) < taskRank (?ts ! j)"
  proof cases
    case pre
    then have x: "x \<noteq> external" "\<forall>b. x = attrRef b \<longrightarrow> (\<exists>q. b = SourceRef q)"
      using d' dep_attrs_plain(1) [OF gd] by (simp_all add: taskObject_def)
    from I x(1) obtain b where "x = attrRef b" "\<forall>q. b \<noteq> SourceRef q" by blast
    then show ?thesis using x(2) by blast
  next
    case solve
    then have "\<exists>p. x = attrRef (RightVector p)" using d' dep_attrs_plain(4) [OF gd, of name S] by (auto simp: taskObject_def)
    then have "taskRank (?ts ! i) = 0" using I by auto
    then show ?thesis by (simp add: solve taskRank_def)
  next
    case post
    then have "x = attrRef LeftVector" using d' dep_attrs_plain(2) [OF gd, of "objs S" p] by (simp add: taskObject_def)
    then have "taskRank (?ts ! i) = 1" using I by auto
    then show ?thesis by (simp add: post taskRank_def)
  next
    case log
    then have "x = attrRef LeftVector" using d' dep_attrs_plain(3) [OF gd, of name] by (simp add: taskObject_def)
    then have "taskRank (?ts ! i) = 1" using I by auto
    then show ?thesis by (simp add: log taskRank_def)
  next
    case logger
    then have "x \<noteq> external" using d' l by (auto simp: taskObject_def)
    then have "taskRank (?ts ! i) \<le> 2" using I by auto
    then show ?thesis by (simp add: logger taskRank_def)
  qed
qed

text \<open>A scheduled post-step is one that somebody needs.\<close>

lemma prev_attrs:
  "x \<in> set (mPrevStepDependencies (preStepTask W p)) \<Longrightarrow> (\<exists>l c. model (snd W p) = Inductor l c \<or> model (snd W p) = Capacitor l c)
     \<and> (x = attrRef (IntfCurrent p) \<or> x = attrRef (IntfVoltage p))"
  "mPrevStepDependencies (postStepTask W p) = []" "mPrevStepDependencies (solveTask name S) = []"
  "mPrevStepDependencies (logTask name) = []"
proof -
  show "(\<exists>l c. model (snd W p) = Inductor l c \<or> model (snd W p) = Capacitor l c)
     \<and> (x = attrRef (IntfCurrent p) \<or> x = attrRef (IntfVoltage p))" if "x \<in> set (mPrevStepDependencies (preStepTask W p))"
    using that by (cases "model (snd W p)")
      (auto simp: preStepTask_def mkTask_def mnaAddPreStepDependencies_def class_dependencies)
  show "mPrevStepDependencies (postStepTask W p) = []"
    by (cases "model (snd W p)") (simp_all add: postStepTask_def mkTask_def mnaAddPostStepDependencies_def class_dependencies)
qed (simp_all add: solveTask_def logTask_def mkTask_def)

lemma scheduled_post_observed:
  assumes r: "tasksReady S" and gd: "plainAttributes gd"
    and l: "\<forall>l\<in>set loggers. mModifiedAttributes l = [external] \<and> mPrevStepDependencies l = []"
    and s: "simSchedule gd (emtTable name loggers S) = ok s"
    and i: "i \<in> set s" "emtTasks (length loggers) S ! i = CompTask MnaPostStep p"
  shows "observed gd loggers (objs S) p"
proof -
  let ?ts = "emtTasks (length loggers) S" and ?W = "objs S"
  let ?obj = "taskObject name (\<lambda>_. Root) loggers S"
  note f = simSchedule_facts [OF s]
  have len: "length (emtTable name loggers S) = length ?ts" by (simp add: emtTable_def)
  have obj: "emtTable name loggers S ! k = ?obj (?ts ! k)" if "k < length ?ts" for k
    using that by (simp add: emtTable_def)
  have sub: "k < length ?ts" if "k \<in> set s" for k using f(2) that len by auto
  have kind: "(\<exists>q. ?ts ! k = CompTask MnaPreStep q) \<or> ?ts ! k = SolveTask \<or> (\<exists>q. ?ts ! k = CompTask MnaPostStep q)
      \<or> ?ts ! k = LogTask \<or> (\<exists>n < length loggers. ?ts ! k = LoggerTask n)" if "k < length ?ts" for k
    using nth_mem [OF that] unfolding set_emtTasks [OF r] by auto
  obtain x where x: "x \<in> set (mModifiedAttributes (postStepTask ?W p))"
    "x = external \<or> (\<exists>k \<in> set s. x \<in> set (dep_attrs gd (emtTable name loggers S ! k)))
       \<or> (\<exists>k < length ?ts. x \<in> set (mPrevStepDependencies (emtTable name loggers S ! k)))"
    using f(7) [OF i(1)] obj [OF sub [OF i(1)]] i(2) len by (auto simp: taskObject_def)
  obtain a where a: "x = attrRef a" "a = IntfVoltage p \<or> a = IntfCurrent p"
    using x(1) pre_post_attrs(3) [of ?W p] by blast
  from x(2) a(1) consider k where "k \<in> set s" "x \<in> set (dep_attrs gd (emtTable name loggers S ! k))"
    | k where "k < length ?ts" "x \<in> set (mPrevStepDependencies (emtTable name loggers S ! k))" by auto
  then show ?thesis
  proof cases
    case 1
    then have d: "x \<in> set (dep_attrs gd (?obj (?ts ! k)))" using obj [OF sub [OF 1(1)]] by simp
    have "\<exists>n < length loggers. ?ts ! k = LoggerTask n"
    proof (rule ccontr)
      assume "\<not> ?thesis"
      with kind [OF sub [OF 1(1)]] consider q where "?ts ! k = CompTask MnaPreStep q" | "?ts ! k = SolveTask"
        | q where "?ts ! k = CompTask MnaPostStep q" | "?ts ! k = LogTask" by blast
      then show False
      proof cases
        case (1 q)
        then have "x \<in> set (dep_attrs gd (preStepTask ?W q))" using d by (simp add: taskObject_def)
        from dep_attrs_plain(1) [OF gd this] a show False by auto
      next
        case 2
        then have "x \<in> set (dep_attrs gd (solveTask name S))" using d by (simp add: taskObject_def)
        then show False using dep_attrs_plain(4) [OF gd, of name S] a by auto
      next
        case (3 q)
        then show False using d dep_attrs_plain(2) [OF gd, of ?W q] a by (auto simp: taskObject_def)
      next
        case 4
        then show False using d dep_attrs_plain(3) [OF gd, of name] a by (auto simp: taskObject_def)
      qed
    qed
    then obtain n where "n < length loggers" "x \<in> set (dep_attrs gd (loggers ! n))"
      using d by (auto simp: taskObject_def)
    then have "list_ex (\<lambda>l. list_ex (\<lambda>x. x \<in> set (dep_attrs gd l)) (mModifiedAttributes (postStepTask ?W p))) loggers"
      using x(1) nth_mem unfolding list_ex_iff by blast
    then show ?thesis by (simp add: observed_def split: emt_model.split)
  next
    case 2
    then have d: "x \<in> set (mPrevStepDependencies (?obj (?ts ! k)))" using obj by simp
    have e: "set (mPrevStepDependencies (postStepTask ?W q)) = {}" "set (mPrevStepDependencies (solveTask name S)) = {}"
      "set (mPrevStepDependencies (logTask name)) = {}" for q by (simp_all add: prev_attrs(2,3,4))
    have "\<exists>q. x \<in> set (mPrevStepDependencies (preStepTask ?W q))"
      using kind [OF 2(1)] d l e by (elim disjE exE) (auto simp: taskObject_def)
    then obtain q where "x \<in> set (mPrevStepDependencies (preStepTask ?W q))" by blast
    from prev_attrs(1) [OF this] a have "q = p" "\<exists>l c. model (snd ?W p) = Inductor l c \<or> model (snd ?W p) = Capacitor l c"
      by auto
    then show ?thesis by (auto simp: observed_def)
  qed
qed

section \<open>Initialising and scheduling\<close>

text \<open>The world of the simulation: the solver, and the tasks in the order of the schedule.\<close>

type_synonym 'f emt_run_world = "(emt_ext, 'f) mna_direct \<times> solver_task list"

definition emtBegin :: "(attr_ref \<Rightarrow> attr_ref list) \<Rightarrow> string \<Rightarrow> task list \<Rightarrow> topology \<Rightarrow> real
    \<Rightarrow> (nat \<Rightarrow> nat \<Rightarrow> real matrix \<Rightarrow> real matrix) \<Rightarrow> 'f direct_solver \<Rightarrow> 'f emt_run_world \<Rightarrow> error + 'f emt_run_world" where
  "emtBegin gd name loggers T omega rh D = (\<lambda>(S, _).
     bind_err (completeInitialize RealVar emt_methods T omega rh D S) (\<lambda>S1.
     bind_err (simSchedule gd (emtTable name loggers S1)) (\<lambda>s.
       ok (S1, map ((!) (emtTasks (length loggers) S1)) s))))"

definition emtTick :: "'f direct_solver \<Rightarrow> 'f emt_run_world sched_step" where
  "emtTick D time timeStepCount = (\<lambda>(S, ts). map_option (\<lambda>r. bind_err r (\<lambda>S'. ok (S', ts))) (runTasks D time ts S))"

definition runSwitch :: "nat \<Rightarrow> (emt_switch \<Rightarrow> emt_switch) \<Rightarrow> 'f emt_run_world \<Rightarrow> 'f emt_run_world" where
  "runSwitch p f = (\<lambda>(S, ts). (onSwitch p f S, ts))"

definition runSwitchEvent :: "real \<Rightarrow> nat \<Rightarrow> bool \<Rightarrow> 'f emt_run_world event" where
  "runSwitchEvent t p state = SwitchEvent t (runSwitch p closeSwitch) (runSwitch p openSwitch) state"

lemma observed_net:
  assumes "sameNet W W'"
  shows "observed gd loggers W' p = observed gd loggers W p"
  using sameNet_params [OF assms, of p]
  by (cases "model (snd W p)"; cases "model (snd W' p)")
    (simp_all add: observed_def params_def postStepTask_def mkTask_def mnaAddPostStepDependencies_def class_dependencies)

lemma observed_model:
  "observed gd loggers (startWorld dt ps W) p = observed gd loggers W p"
  by (cases "model (snd W p)")
    (simp_all add: observed_def startWorld_def startModel_def postStepTask_def mkTask_def mnaAddPostStepDependencies_def
      class_dependencies)

lemma started_tasks:
  assumes c: "emtConnected dt k S" and st: "componentsStarted dt k S S2" and b: "mnaBase S' = mnaBase S"
    and net: "sameNet (objs S2) (objs S')"
    and same: "\<forall>p. mMnaTasks (snd (objs S') p) = mMnaTasks (snd (objs S2) p)
         \<and> mRightVector (snd (objs S') p) = mRightVector (snd (objs S2) p)"
  shows "tasksReady S'"
proof -
  note c' = c [unfolded emtConnected_def Let_def]
  have pre: "hasPreStep m \<Longrightarrow> \<not> isRes m \<and> \<not> isSw m" for m
    by (cases m) (simp_all add: hasPreStep_def isRes_def isSw_def)
  have "taskReady (objs S') p \<and> isSw (model (snd (objs S') p)) = isSw (model (snd (objs S) p))"
    if "p \<in> set (mMNAComponents (mnaBase S) @ mSwitches (mnaBase S))" for p
  proof -
    have s: "started dt k (model (snd (objs S) p)) (startComp (objs S) p) (objs S2) p"
      using st that by (simp add: componentsStarted_def)
    note cls = params_class(2,4) [OF sameNet_params [OF net, of p]]
    show ?thesis
      using s cls same pre [of "model (snd (objs S) p)"] c'
      by (auto simp: taskReady_def started_def Let_def zeros_def)
  qed
  then show ?thesis using c' by (simp add: tasksReady_def Let_def b)
qed

lemma begin_runnable:
  fixes S :: "(emt_ext, 'f) mna_direct"
  defines "L \<equiv> mnaBase S"
  defines "ps \<equiv> mMNAComponents L @ mSwitches L"
  assumes c: "emtConnected dt k S" and gd: "plainAttributes gd"
    and l: "\<forall>l\<in>set loggers. mModifiedAttributes l = [external] \<and> external \<notin> set (dep_attrs gd l)"
    and o: "\<forall>p\<in>set ps. observed gd loggers (objs S) p"
    and lu: "\<forall>w M. systemMatrix emt_methods (startWorld dt ps (objs S)) L k w = ok M \<longrightarrow> emt.lu_ok k D S M"
    and sep: "separateRows (startWorld dt ps (objs S)) ps"
  shows "\<exists>S1 ts pre post W0. emtBegin gd name loggers T omega rh D (S, []) = ok (S1, ts)
    \<and> emtRunnable dt k D pre post L W0 S1 \<and> (\<forall>time S'. runTasks D time ts S' = emtTimeStep D time pre post S')
    \<and> sameNet (startWorld dt ps (objs S)) (objs S1)"
proof -
  note c' = c [unfolded emtConnected_def Let_def]
  obtain S2 S' where S': "completeInitialize RealVar emt_methods T omega rh D S = ok S'" "componentsStarted dt k S S2"
    "sameNet (startWorld dt ps (objs S)) (objs S2)" "emtReady dt k D S' (objs S2)" "mnaBase S' = L" "sameNet (objs S2) (objs S')"
    "mListVariableSystemMatrixEntries S' = mListVariableSystemMatrixEntries S"
    "\<forall>p. mMnaTasks (snd (objs S') p) = mMnaTasks (snd (objs S2) p) \<and> mRightVector (snd (objs S') p) = mRightVector (snd (objs S2) p)"
    using complete_ready [OF c, of T D omega rh] unfolding L_def ps_def by blast
  have net: "sameNet (startWorld dt ps (objs S)) (objs S')" by (rule sameNet_trans [OF S'(3,6)])
  have tr: "tasksReady S'" by (rule started_tasks [OF c S'(2) S'(5) [unfolded L_def] S'(6,8)])
  obtain s where s: "simSchedule gd (emtTable name loggers S') = ok s" using emt_schedule_exists [OF tr gd l] by blast
  let ?ts = "map ((!) (emtTasks (length loggers) S')) s"
  have gd1: "\<forall>a. a \<in> set (gd a)" using gd by (simp add: plainAttributes_def)
  have l1: "\<forall>l\<in>set loggers. external \<in> set (mModifiedAttributes l)" using l by simp
  obtain pre post where pp: "\<forall>time S1. runTasks D time ?ts S1 = emtTimeStep D time pre post S1"
    "distinct pre" "set pre = {p \<in> set (mMNAComponents L). hasPreStep (model (snd (objs S') p))}"
    "set post \<subseteq> set ps" "\<forall>p\<in>set ps. observed gd loggers (objs S') p \<longrightarrow> p \<in> set post"
    using schedule_is_step [OF tr gd1 l1 s, of D] unfolding S'(5) ps_def by blast
  have "set post = set ps" using pp(4,5) o observed_net [OF net] observed_model by blast
  moreover have "\<forall>w M. systemMatrix emt_methods (objs S2) L k w = ok M \<longrightarrow> emt.lu_ok k D S' M"
  proof -
    have sw: "isSw (startModel dt m) = isSw m" for m by (cases m) (simp_all add: isSw_def startModel_def)
    have "\<forall>p\<in>set (mMNAComponents L). \<not> isSw (model (snd (startWorld dt ps (objs S)) p))"
      using c' by (simp add: startWorld_def sw L_def)
    then show ?thesis using lu systemMatrix_net [OF S'(3)] by (simp add: emt.lu_ok_def S'(7))
  qed
  moreover have "separateRows (objs S') ps" using sep separate_sameNet(1) [OF net] by simp
  ultimately have "emtRunnable dt k D pre post L (objs S2) S'"
    using S'(4,5) pp(2,3) by (simp add: emtRunnable_def ps_def)
  moreover have "emtBegin gd name loggers T omega rh D (S, []) = ok (S', ?ts)"
    by (simp add: emtBegin_def S'(1) s)
  ultimately show ?thesis using pp(1) net by blast
qed

section \<open>The example network, from its nodes on\<close>

text \<open>Node 2 is the ground.\<close>

definition connNodes :: "nat \<Rightarrow> simNode" where "connNodes q = (exNodes q)\<lparr>isGround := (q = 2)\<rparr>"

definition connTerminal :: "nat \<Rightarrow> terminal" where "connTerminal q = (mkTerminal ''t'')\<lparr>termNode := Some q\<rparr>"

definition connComp :: "nat \<Rightarrow> comp" where
  "connComp p = (mkPowerComp RealVar ''c'' ''c'' ''EMT'' PhaseSingle)\<lparr>mNumTerminals := 2,
     mTerminals := [Some (connTerminal 2), Some (connTerminal 0)], mMatrixNodeIndices := replicate 6 0,
     mMatrixNodeIndexIsGround := [3 < p, False], mVirtualNodes := (if p = 0 then [Some 1] else [])\<rparr>"

definition connModel :: "nat \<Rightarrow> emt_model" where
  "connModel p = (if p = 2 then Inductor 1 \<lparr>mEquivCond = 0, mEquivCurrent = 0\<rparr> else exModel p)"

definition exConnected :: "(emt_ext, real matrix) mna_direct" where
  "exConnected = exInit\<lparr>objs := (\<lparr>nodeAt = connNodes, nextNode = 3, compAt = connComp, nextComp = 4\<rparr>,
       \<lambda>p. \<lparr>model = connModel p, mRightVector = zeros 0 0, mMnaTasks = []\<rparr>),
     mnaBase := exSolver\<lparr>mMNAIntfSwitches := [3], mNumMatrixNodeIndices := 2\<rparr>,
     mRightVectorStamps := [], mRightSideVector := zeros 0 0, mLeftSideVector := zeros 0 0\<rparr>"

definition exLogger :: task where
  "exLogger = loggerTask ''log'' (map (\<lambda>p. attrRef (IntfCurrent p)) [0, 1, 3])"

lemma conn_facts [simp]:
  "compAt (fst (objs exConnected)) = connComp" "nodeAt (fst (objs exConnected)) = connNodes"
  "model (snd (objs exConnected) p) = connModel p"
  "mMNAComponents (mnaBase exConnected) = [0, 1, 2]" "mSwitches (mnaBase exConnected) = [3]"
  "mMNAIntfSwitches (mnaBase exConnected) = [3]" "mNumMatrixNodeIndices (mnaBase exConnected) = 2"
  by (simp_all add: exConnected_def exInit_def exState_def exSolver_def mkMnaSolver_def)

lemma conn_index: "matrixNodeIndex (connNodes q) ph = matrixNodeIndex (exNodes q) ph" "isGround (connNodes q) \<longleftrightarrow> q = 2"
  by (simp_all add: connNodes_def matrixNodeIndex_def)

lemma conn_update:
  assumes "nodeAt H = connNodes"
  shows "updateMatrixNodeIndices H (connComp p)
    = ok ((connComp p)\<lparr>mMatrixNodeIndices := [0, 0, 0, 0, 0, 0], mMatrixNodeIndexIsGround := [True, False]\<rparr>)"
proof -
  have m: "matrixNodeIndex (exNodes q) ph = ok (if q = 1 then 1 else 0)" if "ph = PhaseA" for q ph
    by (simp add: that matrixNodeIndex_def exNodes_def mkSimNode_def Let_def vec_at_def)
  have m': "matrixNodeIndex (exNodes q) PhaseB = ok 0" "matrixNodeIndex (exNodes q) PhaseC = ok 0" for q
    by (simp_all add: matrixNodeIndex_def exNodes_def mkSimNode_def Let_def vec_at_def)
  show ?thesis
    by (simp add: updateMatrixNodeIndices_def updateIndexAt_def assms conn_index m m' Let_def compNodeRef_def compNode_def
      connComp_def mkPowerComp_def connTerminal_def vec_set_def upt_rec numeral_eq_Suc)
qed

lemma conn_fit: "p \<in> {0, 1, 2, 3} \<Longrightarrow> emtStart 1 2 (objs exConnected) p"
proof -
  let ?d = "(connComp p)\<lparr>mMatrixNodeIndices := [0, 0, 0, 0, 0, 0], mMatrixNodeIndexIsGround := [True, False]\<rparr>"
  let ?W = "(setComp p ?d (fst (objs exConnected)), snd (objs exConnected))"
  have w: "wired (exComp p) ?d" by (simp add: wired_def exComp_def connComp_def)
  then have e: "ends ?d = ok (0, 0, False, True)" using wired_ends ex_ends by simp
  have v: "virtualIndex (fst ?W) ?d = ok 1" if "p = 0"
    using ex_virtual that by (simp add: virtualIndex_def connComp_def exComp_def vec_at_def conn_index)
  have "emtFit 2 ?W p"
    using e v by (auto simp: emtFit_def endsAt_def endsIn_def isVS_def connModel_def exModel_def)
  then have "willFit 2 (objs exConnected) p" by (simp add: willFit_def conn_update)
  then show "emtStart 1 2 (objs exConnected) p" by (simp add: emtStart_def connModel_def exModel_def)
qed

lemma conn_connected: "emtConnected 1 2 exConnected"
proof -
  have nd: "nodes_ok (fst (objs exConnected))"
    by (simp add: nodes_ok_def node_ok_def node_rows_def connNodes_def exNodes_def mkSimNode_def Let_def)
  have t: "\<not> hasUnconnectedTerminals (connComp p)" for p by (simp add: hasUnconnectedTerminals_def connComp_def)
  have "mSyncGen (mnaBase exConnected) = [] \<and> \<not> mFrequencyParallel (mnaBase exConnected)
     \<and> \<not> mSystemMatrixRecomputationEnabled (mnaBase exConnected) \<and> mMNAIntfVariableComps (mnaBase exConnected) = []
     \<and> mSimSignalComps (mnaBase exConnected) = [] \<and> mSwitchedMatrices exConnected = [] \<and> mDirectLinearSolvers exConnected = []
     \<and> mCurrentSwitchStatus exConnected = 0 \<and> mRightVectorStamps exConnected = [] \<and> mTimeStep exConnected = 1
     \<and> \<not> mInitFromNodes exConnected"
    by (simp add: exConnected_def exInit_def exState_def exSolver_def mkMnaSolver_def)
  then show ?thesis
    unfolding emtConnected_def Let_def using nd t conn_fit
    by (simp add: connModel_def exModel_def isSw_def)
qed

lemma conn_start: "sameNet exWorld (startWorld 1 [0, 1, 2, 3] (objs exConnected))"
proof -
  have "startComp (objs exConnected) p = (connComp p)\<lparr>mMatrixNodeIndices := [0, 0, 0, 0, 0, 0], mMatrixNodeIndexIsGround := [True, False]\<rparr>" for p
    by (simp add: startComp_def conn_update)
  then have "wired (exComp p) (startComp (objs exConnected) p)" for p
    by (simp add: wired_def exComp_def connComp_def)
  moreover have "wired (exComp p) (connComp p)" if "p \<notin> {0, 1, 2, 3}" for p
    using that by (simp add: wired_def exComp_def connComp_def numeral_eq_Suc)
  moreover have "params (startModel 1 (connModel p)) = params (exModel p)" "p \<noteq> 2 \<Longrightarrow> params (connModel p) = params (exModel p)" for p
    by (simp_all add: startModel_def params_def connModel_def exModel_def)
  ultimately show ?thesis by (simp add: sameNet_def startWorld_def conn_index)
qed

section \<open>The initialisation and the schedule\<close>

text \<open>C7. The initialisation of an EMT network of numbered nodes and connected components (\<open>emtConnected\<close>: fewer than
  64 switches, precomputed matrices, no generators, variable or signal components) never fails: it makes the
  vectors and the empty matrices, initialises the components, the switches and the nodes, and stamps and
  factorizes one matrix for every combination of switch states, the stamp of all components with
  the switches in that state.  It leaves the solver ready for the first time step and all tasks in place, and gives
  the components exactly the indices of their nodes and the conductances of \<open>startWorld\<close>.\<close>

theorem emt_initialize_complete:
  assumes "emtConnected dt k S"
  shows "\<exists>S' W0. completeInitialize RealVar emt_methods T omega rh D S = ok S' \<and> emtReady dt k D S' W0 \<and> tasksReady S'
    \<and> mnaBase S' = mnaBase S
    \<and> sameNet (startWorld dt (mMNAComponents (mnaBase S) @ mSwitches (mnaBase S)) (objs S)) (objs S')
    \<and> (\<forall>i < 2 ^ length (mSwitches (mnaBase S)). precomputed emt_methods D k (S'\<lparr>objs := W0\<rparr>) i)"
proof -
  obtain S2 S' where S': "completeInitialize RealVar emt_methods T omega rh D S = ok S'" "componentsStarted dt k S S2"
    "sameNet (startWorld dt (mMNAComponents (mnaBase S) @ mSwitches (mnaBase S)) (objs S)) (objs S2)"
    "emtReady dt k D S' (objs S2)" "mnaBase S' = mnaBase S" "sameNet (objs S2) (objs S')"
    "\<forall>p. mMnaTasks (snd (objs S') p) = mMnaTasks (snd (objs S2) p) \<and> mRightVector (snd (objs S') p) = mRightVector (snd (objs S2) p)"
    using complete_ready [OF assms, of T D omega rh] by blast
  have "emt.ready k D S' (objs S2)" using S'(4) unfolding emtReady_def by (rule conjunct1)
  then have "\<forall>i < 2 ^ length (mSwitches (mnaBase S)). precomputed emt_methods D k (S'\<lparr>objs := objs S2\<rparr>) i"
    unfolding emt.ready_def S'(5) by blast
  then show ?thesis
    using S'(1,4,5) started_tasks [OF assms S'(2,5,6,7)] sameNet_trans [OF S'(3,6)] by blast
qed

theorem emt_initialize_complete_witness:
  "\<exists>S' W0. completeInitialize RealVar emt_methods (emptyTopology 50) 314 (\<lambda>p f b. b) exLU exConnected = ok S'
    \<and> emtReady 1 2 exLU S' W0 \<and> tasksReady S'"
  using emt_initialize_complete [OF conn_connected, of "emptyTopology 50" 314 "\<lambda>p f b. b" exLU] by blast

text \<open>C6. The tasks of an EMT network whose initialisation has put them in place can always be scheduled when the
  loggers read attributes but modify none and the attributes are static, except that the references of sources may
  depend on each other, and
  running them in the order of the schedule is a time step: first the pre-steps of exactly the sources, inductors
  and capacitors, each once, then the solution of the system, then post-steps.  The post-steps that are run
  are exactly those of the inductors and capacitors, whose next pre-step reads them, and of the components a
  logger reads: any other post-step is left out.\<close>

theorem emt_schedule_is_step:
  assumes "tasksReady S" and "plainAttributes gd"
    and "\<forall>l\<in>set loggers. mModifiedAttributes l = [external] \<and> external \<notin> set (dep_attrs gd l) \<and> mPrevStepDependencies l = []"
  shows "\<exists>s pre post. simSchedule gd (emtTable name loggers S) = ok s
    \<and> (\<forall>time S'. runTasks D time (map ((!) (emtTasks (length loggers) S)) s) S' = emtTimeStep D time pre post S')
    \<and> distinct pre \<and> set pre = {p \<in> set (mMNAComponents (mnaBase S)). hasPreStep (model (snd (objs S) p))}
    \<and> set post = {p \<in> set (mMNAComponents (mnaBase S) @ mSwitches (mnaBase S)). observed gd loggers (objs S) p}"
proof -
  let ?ps = "set (mMNAComponents (mnaBase S) @ mSwitches (mnaBase S))"
  have l: "\<forall>l\<in>set loggers. mModifiedAttributes l = [external] \<and> external \<notin> set (dep_attrs gd l)"
    "\<forall>l\<in>set loggers. mModifiedAttributes l = [external] \<and> mPrevStepDependencies l = []" using assms(3) by blast+
  obtain s where s: "simSchedule gd (emtTable name loggers S) = ok s" using emt_schedule_exists [OF assms(1,2) l(1)] by blast
  have gd: "\<forall>a. a \<in> set (gd a)" "\<forall>l\<in>set loggers. external \<in> set (mModifiedAttributes l)"
    using assms(2,3) by (simp_all add: plainAttributes_def)
  obtain pre post where pp:
    "\<forall>time S'. runTasks D time (map ((!) (emtTasks (length loggers) S)) s) S' = emtTimeStep D time pre post S'"
    "distinct pre" "set pre = {p \<in> set (mMNAComponents (mnaBase S)). hasPreStep (model (snd (objs S) p))}"
    "set post \<subseteq> ?ps" "\<forall>p\<in>?ps. observed gd loggers (objs S) p \<longrightarrow> p \<in> set post"
    "\<forall>p\<in>set post. \<exists>i\<in>set s. emtTasks (length loggers) S ! i = CompTask MnaPostStep p"
    using schedule_is_step [OF assms(1) gd s, of D] by blast
  have "set post = {p \<in> ?ps. observed gd loggers (objs S) p}"
    using pp(4,5,6) scheduled_post_observed [OF assms(1,2) l(2) s] by blast
  with s pp(1,2,3) show ?thesis by blast
qed

text \<open>Without loggers only the inductor has its post-step run.\<close>

definition exTasked :: "(emt_ext, real matrix) mna_direct" where
  "exTasked = exConnected\<lparr>objs := (fst (objs exConnected), \<lambda>p. \<lparr>model = connModel p, mRightVector = zeros 2 1,
     mMnaTasks = (if hasPreStep (connModel p) then [MnaPreStep] else []) @ [MnaPostStep]\<rparr>)\<rparr>"

theorem emt_schedule_is_step_witness:
  "\<exists>s pre post. simSchedule (\<lambda>a. [a]) (emtTable ''mna'' [] exTasked) = ok s \<and> set pre = {0, 2} \<and> set post = {2}
    \<and> (\<forall>S'. runTasks exLU 1 (map ((!) (emtTasks 0 exTasked)) s) S' = emtTimeStep exLU 1 pre post S')"
proof -
  have b: "mMNAComponents (mnaBase exTasked) = [0, 1, 2]" "mSwitches (mnaBase exTasked) = [3]" "mMNAIntfSwitches (mnaBase exTasked) = [3]"
    "model (snd (objs exTasked) p) = connModel p" for p
    by (simp_all add: exTasked_def)
  have r: "tasksReady exTasked"
    unfolding tasksReady_def Let_def b
    by (simp add: taskReady_def exTasked_def connModel_def exModel_def isSw_def hasPreStep_def zeros_def insert_commute)
      (simp add: exConnected_def exInit_def exState_def exSolver_def mkMnaSolver_def)
  have plain: "plainAttributes (\<lambda>a. [a])" by (auto simp: plainAttributes_def split: emt_attr.split)
  have o: "{p \<in> set ([0, 1, 2] @ [3]). observed (\<lambda>a. [a]) [] (objs exTasked) p} = {2}"
    by (auto simp: observed_def b connModel_def exModel_def)
  have "{p \<in> set [0, 1, 2]. hasPreStep (connModel p)} = {0, 2}"
    by (auto simp: connModel_def exModel_def hasPreStep_def)
  with emt_schedule_is_step [OF r plain, of "[]" "''mna''" exLU, unfolded b] o
  show ?thesis by simp metis
qed

section \<open>The simulation\<close>

definition runReady :: "real \<Rightarrow> nat \<Rightarrow> 'f direct_solver \<Rightarrow> nat list \<Rightarrow> nat list \<Rightarrow> mna_solver \<Rightarrow> emt_world
    \<Rightarrow> solver_task list \<Rightarrow> 'f emt_run_world \<Rightarrow> bool" where
  "runReady dt k D pre post L W0 ts w \<longleftrightarrow> emtRunnable dt k D pre post L W0 (fst w) \<and> snd w = ts"

lemma run_event:
  assumes "runReady dt k D pre post L W0 ts w"
  shows "runReady dt k D pre post L W0 ts (execute (runSwitchEvent t p st) w)"
proof -
  have "execute (runSwitchEvent t p st) w = (execute (switchEvent t p st) (fst w), snd w)"
    by (cases w) (simp add: runSwitchEvent_def runSwitch_def switchEvent_def SwitchEvent_def)
  then show ?thesis using runnable_event [OF conjunct1 [OF assms [unfolded runReady_def]], of t p st] assms by (simp add: runReady_def)
qed

lemma run_tick:
  assumes "runReady dt k D pre post L W0 ts w" "\<forall>time S'. runTasks D time ts S' = emtTimeStep D time pre post S'"
  shows "\<exists>w'. emtTick D t n w = Some (ok w') \<and> runReady dt k D pre post L W0 ts w' \<and> kirchhoff k (fst w')
      \<and> (\<forall>p\<in>set post. emtLaw dt t (objs (fst w)) (objs (fst w')) p)"
proof -
  obtain S2 where S2: "emtTimeStep D t pre post (fst w) = Some (ok S2)" "emtRunnable dt k D pre post L W0 S2"
    "kirchhoff k S2" "\<forall>p\<in>set post. emtLaw dt t (objs (fst w)) (objs S2) p"
    using runnable_step assms(1) unfolding runReady_def by blast
  have "emtTick D t n w = Some (ok (S2, ts))"
    using assms S2(1) by (cases w) (simp add: emtTick_def runReady_def)
  then show ?thesis using S2(2-4) by (intro exI [of _ "(S2, ts)"]) (simp add: runReady_def)
qed

text \<open>C5. A whole simulation of a network of single-phase EMT components with switching events, from the numbered
  nodes to the final time, returns without an error: the initialisation of the solver and the scheduling of its
  tasks succeed, and so does every step.  At every step each event is executed that became due since the step
  before, in the order of time; after the step Kirchhoff's current law holds at every node, and every
  component satisfies its law over the step, switches with the resistance of the state the events have put them in.

  The conditions: the time step is positive; the event queue keeps its contract; the network is connected
  (\<open>emtConnected\<close>: numbered nodes, fewer than 64 switches, precomputed matrices, no generators, variable or signal
  components); every component is observed, that is read by its own next pre-step or by a logger (the
  post-step of any other component is not scheduled, and its stored voltage and current stay as they were); the
  loggers modify nothing; the attributes are static, except that the references of sources may depend on each
  other; the LU solver returns the solution for the system matrix of every combination of switch states; no two
  voltage sources share an extra row; the events are switchings; and there are fewer than 2 to the power 31 steps.\<close>

theorem emt_simulation:
  fixes S :: "(emt_ext, 'f) mna_direct"
  defines "ps \<equiv> mMNAComponents (mnaBase S) @ mSwitches (mnaBase S)"
  assumes "event_queue Q elems legal" "legal q" "elems q = {#}"
    and c: "emtConnected dt k S" and dt: "dt > 0" and gd: "plainAttributes gd"
    and l: "\<forall>l\<in>set loggers. mModifiedAttributes l = [external] \<and> external \<notin> set (dep_attrs gd l)"
    and o: "\<forall>p\<in>set ps. observed gd loggers (objs S) p"
    and lu: "\<forall>w M. systemMatrix emt_methods (startWorld dt ps (objs S)) (mnaBase S) k w = ok M \<longrightarrow> emt.lu_ok k D S M"
    and sep: "separateRows (startWorld dt ps (objs S)) ps"
    and es: "\<forall>e\<in>set es. \<exists>t p st. e = runSwitchEvent t p st"
    and N: "N = nat \<lceil>(T + DOUBLE_EPSILON - dt) / dt\<rceil>" "int N < 2 ^ 31"
  shows "\<exists>w1 S' ess ws. emtBegin gd name loggers G omega rh D (S, []) = ok w1
    \<and> simRun Q (emtBegin gd name loggers G omega rh D) (emtTick D)
        (fold (simAddEvent Q) es (newSimulation T dt MNA q (S, []))) = Some (ok S')
    \<and> length ws = N \<and> simWorld S' = last (w1 # ws)
    \<and> (\<forall>j < N. sorted (map mTime (ess ! j)) \<and> mset (ess ! j) = filter_mset (dueAt dt dt j) (mset es)
         \<and> kirchhoff k (fst (ws ! j))
         \<and> (\<forall>p\<in>set ps. emtLaw dt (dt + real j * dt)
              (objs (fst (fold execute (ess ! j) ((w1 # ws) ! j)))) (objs (fst (ws ! j))) p))"
proof -
  let ?L = "mnaBase S" and ?create = "emtBegin gd name loggers G omega rh D"
  obtain S1 ts pre post W0 where S1: "?create (S, []) = ok (S1, ts)" "emtRunnable dt k D pre post ?L W0 S1"
    "\<forall>time S'. runTasks D time ts S' = emtTimeStep D time pre post S'"
    using begin_runnable [OF c gd l o [unfolded ps_def] lu [unfolded ps_def] sep [unfolded ps_def], of name G omega rh] by blast
  let ?P = "runReady dt k D pre post ?L W0 ts"
  have post: "set post = set ps" using S1(2) by (simp add: emtRunnable_def ps_def)
  have exec: "?P (execute e w)" if m: "e \<in> set es" and P: "?P w" for e w
  proof -
    obtain t p st where "e = runSwitchEvent t p st" using es m by blast
    then show ?thesis using run_event [OF P] by simp
  qed
  have tick: "\<exists>w'. emtTick D t n w = Some (ok w') \<and> ?P w' \<and> kirchhoff k (fst w')
      \<and> (\<forall>p\<in>set ps. emtLaw dt t (objs (fst w)) (objs (fst w')) p)" if "?P w" for t n w
    using run_tick [OF that S1(3)] unfolding post by blast
  let ?q = "fold (addEvent Q) es q"
  let ?X = "newSimulation T dt MNA ?q (S, [])"
  let ?S1 = "?X\<lparr>simWorld := (S1, ts), simTime := (if MNA \<noteq> NRP then dt else 0), mInitialized := True\<rparr>"
  have q: "legal ?q" "elems ?q = mset es"
    using event_queue.addEvents [OF assms(2,3), of es] assms(4) by simp_all
  have ev: "\<forall>e\<in>#elems ?q. \<forall>w. ?P w \<longrightarrow> ?P (execute e w)" using exec unfolding q(2) by simp
  have sched: "\<forall>t c w. ?P w \<longrightarrow> (\<exists>w'. emtTick D t c w = Some (ok w') \<and> ?P w')" using tick by blast
  have N': "N = nat \<lceil>(T + DOUBLE_EPSILON - simTime ?S1) / dt\<rceil>" using N(1) by simp
  have P1: "?P (S1, ts)" using S1(2) by (simp add: runReady_def)
  obtain S' ess ws where S': "simRun Q ?create (emtTick D) ?X = Some (ok S')" "length ws = N"
    "\<forall>j < N. runStep (emtTick D) ?S1 (elems ?q) j (ess ! j) (((S1, ts) # ws) ! j) (ws ! j) \<and> ?P (ws ! j)"
    "simWorld S' = last ((S1, ts) # ws)"
    using simulation_loop [where create = ?create and w = "(S, [])" and P = ?P,
      OF assms(2) q(1) S1(1) dt P1 ev sched refl N' N(2)] by blast
  have step: "sorted (map mTime (ess ! j)) \<and> mset (ess ! j) = filter_mset (dueAt dt dt j) (mset es) \<and> kirchhoff k (fst (ws ! j))
      \<and> (\<forall>p\<in>set ps. emtLaw dt (dt + real j * dt) (objs (fst (fold execute (ess ! j) (((S1, ts) # ws) ! j)))) (objs (fst (ws ! j))) p)"
    if j: "j < N" for j
  proof -
    note r = S'(3) [rule_format, OF j, THEN conjunct1, unfolded runStep_def q(2)]
    have m: "mset (ess ! j) = filter_mset (dueAt dt dt j) (mset es)" "sorted (map mTime (ess ! j))"
      "emtTick D (dt + real j * dt) (int j) (fold execute (ess ! j) (((S1, ts) # ws) ! j)) = Some (ok (ws ! j))"
      using r by (simp_all add: newSimulation_def)
    have "?P (((S1, ts) # ws) ! j)" using S'(3) j P1 by (cases j) auto
    moreover have "set (ess ! j) \<subseteq> set es" using mset_eq_setD [of "ess ! j" "filter (dueAt dt dt j) es"] m(1) by auto
    ultimately have P: "?P (fold execute (ess ! j) (((S1, ts) # ws) ! j))"
      using exec by (intro fold_execute_inv [of ?P]) auto
    show ?thesis using tick [OF P, of "dt + real j * dt" "int j"] m by auto
  qed
  then show ?thesis using S1(1) S'(1,2,4) unfolding add_events
    by (intro exI [of _ "(S1, ts)"] exI [of _ S'] exI [of _ ess] exI [of _ ws]) simp
qed

text \<open>A run of three steps whose switch opens at the second.\<close>

theorem emt_simulation_witness:
  "\<exists>w1 S' ws. simRun sortedQueue (emtBegin (\<lambda>a. [a]) ''mna'' [exLogger] (emptyTopology 50) 314 (\<lambda>p f b. b) exLU) (emtTick exLU)
       (fold (simAddEvent sortedQueue) [runSwitchEvent 2 3 False] (newSimulation 3 1 MNA [] (exConnected, []))) = Some (ok S')
    \<and> length ws = 3 \<and> simWorld S' = last (w1 # ws) \<and> (\<forall>j < 3. kirchhoff 2 (fst (ws ! j)))"
proof -
  have "\<lceil>(3 + DOUBLE_EPSILON - 1) / 1\<rceil> = 3" by (simp add: DOUBLE_EPSILON_def ceiling_eq_iff)
  then have N: "3 = nat \<lceil>(3 + DOUBLE_EPSILON - 1) / 1\<rceil>" by simp
  have ps: "mMNAComponents (mnaBase exConnected) @ mSwitches (mnaBase exConnected) = [0, 1, 2, 3]" by simp
  have ns: "\<forall>p\<in>set (mMNAComponents (mnaBase exConnected)). \<not> isSw (model (snd exWorld p))"
    by (simp add: exModel_def isSw_def)
  have sys: "systemMatrix emt_methods exWorld (mnaBase exConnected) 2 w = systemMatrix emt_methods exWorld (mnaBase exState) 2 w" for w
    by (simp add: systemMatrix_def exConnected_def exInit_def exState_def)
  have lu: "\<forall>w M. systemMatrix emt_methods (startWorld 1 [0, 1, 2, 3] (objs exConnected)) (mnaBase exConnected) 2 w = ok M
      \<longrightarrow> emt.lu_ok 2 exLU exConnected M"
    using ex_step(1) unfolding systemMatrix_net [OF conn_start ns] sys
    by (simp add: emt.lu_ok_def exConnected_def exInit_def exState_def)
  have sep: "separateRows (startWorld 1 [0, 1, 2, 3] (objs exConnected)) [0, 1, 2, 3]"
    unfolding separate_sameNet(1) [OF conn_start] by (simp add: separateRows_def touches_def ex_views isVS_def exModel_def)
  have plain: "plainAttributes (\<lambda>a. [a])" by (auto simp: plainAttributes_def split: emt_attr.split)
  have l: "\<forall>l\<in>set [exLogger]. mModifiedAttributes l = [external] \<and> external \<notin> set (dep_attrs (\<lambda>a. [a]) l)"
    by (simp add: exLogger_def loggerTask_def mkTask_def dep_attrs_def)
  have o: "\<forall>p\<in>set [0, 1, 2, 3]. observed (\<lambda>a. [a]) [exLogger] (objs exConnected) p"
    by (simp add: observed_def exLogger_def loggerTask_def mkTask_def dep_attrs_def connModel_def exModel_def
        postStepTask_def mnaAddPostStepDependencies_def class_dependencies)
  have h: "sorted (map mTime ([] :: real matrix emt_run_world event list))" "mset ([] :: real matrix emt_run_world event list) = {#}"
    "(1::real) > 0" "int 3 < 2 ^ 31"
    "\<forall>e\<in>set [runSwitchEvent 2 3 False :: real matrix emt_run_world event]. \<exists>t p st. e = runSwitchEvent t p st"
    by auto
  from emt_simulation [OF sorted_queue.event_queue_axioms h(1,2) conn_connected h(3) plain l, unfolded ps, OF o lu sep h(5) N h(4),
      of "''mna''" "emptyTopology 50" 314 "\<lambda>p f b. b"]
  show ?thesis by blast
qed

end
