(* ===== verification/MnaRecompute.thy ===== *)
theory MnaRecompute
  imports EmtNetwork
begin

text \<open>The recomputed system matrix: when the matrix the solver keeps is the one of the current
  switch states.\<close>

section \<open>Switch states\<close>

definition wasClosed :: "emt_world \<Rightarrow> nat \<Rightarrow> bool" where
  "wasClosed W p = (case model (snd W p) of Switch s \<Rightarrow> mIsClosedPrev s | _ \<Rightarrow> False)"

definition settledAt :: "emt_world \<Rightarrow> nat \<Rightarrow> bool" where
  "settledAt W p \<longleftrightarrow> wasClosed W p = emtIsClosed W p"

definition toggle :: "nat \<Rightarrow> emt_world \<Rightarrow> emt_world" where
  "toggle p W = (case model (snd W p) of
     Switch s \<Rightarrow> (fst W, (snd W)(p := (snd W p)\<lparr>model := Switch (if mIsClosed s then openSwitch s else closeSwitch s)\<rparr>))
   | _ \<Rightarrow> W)"

definition settle :: "nat \<Rightarrow> emt_world \<Rightarrow> emt_world" where
  "settle p W = snd (emtHasParameterChanged p W)"

lemma changed_iff: "fst (emtHasParameterChanged p W) \<longleftrightarrow> \<not> settledAt W p"
  by (simp add: emtHasParameterChanged_def switchHasParameterChanged_def settledAt_def wasClosed_def
      emtIsClosed_def split: emt_model.split)

lemma settle_id: "settledAt W p \<Longrightarrow> settle p W = W"
  by (cases W) (auto simp: settle_def emtHasParameterChanged_def switchHasParameterChanged_def settledAt_def
      wasClosed_def emtIsClosed_def split: emt_model.split)

lemma settle_states:
  "emtIsClosed (settle p W) q = emtIsClosed W q"
  "wasClosed (settle p W) q = (if q = p then emtIsClosed W p else wasClosed W q)"
  "sameNet W (settle p W)" "fst (settle p W) = fst W"
  by (auto simp: settle_def emtHasParameterChanged_def switchHasParameterChanged_def
      wasClosed_def emtIsClosed_def sameNet_def params_def split: emt_model.split)

lemma toggle_states:
  "emtIsClosed (toggle p W) q = (if q = p \<and> isSw (model (snd W p)) then \<not> emtIsClosed W p else emtIsClosed W q)"
  "wasClosed (toggle p W) q = wasClosed W q" "sameNet W (toggle p W)" "fst (toggle p W) = fst W"
  by (auto simp: toggle_def emtIsClosed_def wasClosed_def sameNet_def params_def isSw_def closeSwitch_def
      openSwitch_def split: emt_model.split)

text \<open>The components are asked up to the first one that has changed.\<close>

lemma hasVariableComponentChanged_eq:
  "hasVariableComponentChanged emt_methods ps W
     = (case find (\<lambda>p. \<not> settledAt W p) ps of None \<Rightarrow> (False, W) | Some p \<Rightarrow> (True, settle p W))"
proof (induction ps)
  case (Cons p ps)
  obtain c W' where c: "emtHasParameterChanged p W = (c, W')" by (cases "emtHasParameterChanged p W")
  show ?case
  proof (cases "settledAt W p")
    case True
    then have "c = False" "W' = W" using c changed_iff [of p W] settle_id [of W p] by (simp_all add: settle_def)
    then show ?thesis using Cons True c by simp
  next
    case False
    then have "c = True" using c changed_iff [of p W] by simp
    then show ?thesis using False c by (simp add: settle_def)
  qed
qed simp

section \<open>The matrix and the states\<close>

lemma emtStamp_conductance:
  "emtStamp W p M = (case model (snd W p) of VoltageSource _ _ \<Rightarrow> voltageSourceStamp (fst W) (compAt (fst W) p) M
     | CurrentSource _ _ \<Rightarrow> ok M
     | m \<Rightarrow> stampTwoPort (emtConductance m (emtIsClosed W p)) (compAt (fst W) p) M)"
  by (cases "model (snd W p)") (simp_all add: emtStamp_def resistorStamp_def inductorStamp_def capacitorStamp_def
      switchStamp_def emtConductance_def emtIsClosed_def switchResistance_def Let_def)

lemma emtStamp_state:
  assumes "sameNet W W'" "emtIsClosed W' p = emtIsClosed W p"
  shows "emtStamp W' p M = emtStamp W p M"
proof -
  note e = sameNet_ends(1,3) [OF assms(1), of p] and pa = sameNet_params [OF assms(1), of p]
  have two: "stampTwoPort g (compAt (fst W') p) M = stampTwoPort g (compAt (fst W) p) M" for g
    by (simp add: stampTwoPort_def e)
  show ?thesis
    using pa params_class(3) [OF pa, of "emtIsClosed W p"]
    by (cases "model (snd W p)"; cases "model (snd W' p)")
      (simp_all add: emtStamp_conductance voltageSourceStamp_def e two params_def assms(2))
qed

lemma stampComps_state:
  assumes "sameNet W W'" "\<forall>p\<in>set ps. emtIsClosed W' p = emtIsClosed W p"
  shows "stampComps emt_methods W' ps M = stampComps emt_methods W ps M"
  using assms(2) emtStamp_state [OF assms(1)]
  by (induction ps arbitrary: M) (simp_all add: stampComps_def bind_err_def cong: sum.case_cong)

definition currentMatrix :: "(emt_ext, 'f) mna_direct \<Rightarrow> bool" where
  "currentMatrix S \<longleftrightarrow> stampComps emt_methods (objs S) (mMNAIntfVariableComps (mnaBase S)) (mBaseSystemMatrix S)
     = ok (mVariableSystemMatrix S)"

definition settledAll :: "(emt_ext, 'f) mna_direct \<Rightarrow> bool" where
  "settledAll S \<longleftrightarrow> (\<forall>p\<in>set (mVariableComps (mnaBase S)). settledAt (objs S) p)"

lemma recompute_solve:
  assumes "nodes_ok (fst W)" "stampComps emt_methods W (mMNAIntfVariableComps (mnaBase S)) (mBaseSystemMatrix S) = ok M"
    and "find (\<lambda>p. \<not> settledAt W p) (mVariableComps (mnaBase S)) = r"
  shows "\<exists>S' H. solveWithSystemMatrixRecomputation emt_methods D (S\<lparr>objs := W\<rparr>) = ok S'
    \<and> objs S' = (H, snd (case r of None \<Rightarrow> W | Some p \<Rightarrow> settle p W)) \<and> voltagesOnly (fst W) H
    \<and> mnaBase S' = mnaBase S \<and> mBaseSystemMatrix S' = mBaseSystemMatrix S
    \<and> mVariableComponentChanged S' = (r \<noteq> None)
    \<and> mVariableSystemMatrix S' = (if r = None then mVariableSystemMatrix S else M)
    \<and> mNumRecomputations S' = mNumRecomputations S + (if r = None then 0 else 1)"
proof -
  let ?S1 = "sumRightVectors emt_methods (S\<lparr>objs := W\<rparr>)"
  let ?W = "case r of None \<Rightarrow> W | Some p \<Rightarrow> settle p W"
  have S1: "mnaBase ?S1 = mnaBase S" "objs ?S1 = W" "mVariableSystemMatrix ?S1 = mVariableSystemMatrix S"
    "mBaseSystemMatrix ?S1 = mBaseSystemMatrix S" "mNumRecomputations ?S1 = mNumRecomputations S"
    by (simp_all add: sumRightVectors_def)
  have chg: "hasVariableComponentChanged emt_methods (mVariableComps (mnaBase ?S1)) (objs ?S1) = (r \<noteq> None, ?W)"
    using assms(3) by (simp add: S1 hasVariableComponentChanged_eq split: option.split)
  let ?S2 = "?S1\<lparr>objs := ?W, mVariableComponentChanged := (r \<noteq> None)\<rparr>"
  have st: "stampComps emt_methods ?W (mMNAIntfVariableComps (mnaBase S)) (mBaseSystemMatrix S) = ok M"
  proof (cases r)
    case (Some p)
    then show ?thesis using stampComps_state [OF settle_states(3)] settle_states(1) assms(2) by simp
  qed (use assms(2) in simp)
  obtain S3 where S3: "(if r \<noteq> None then recomputeSystemMatrix emt_methods D ?S2 else ok ?S2) = ok S3"
    "objs S3 = ?W" "mnaBase S3 = mnaBase S" "mBaseSystemMatrix S3 = mBaseSystemMatrix S"
    "mVariableComponentChanged S3 = (r \<noteq> None)"
    "mVariableSystemMatrix S3 = (if r = None then mVariableSystemMatrix S else M)"
    "mNumRecomputations S3 = mNumRecomputations S + (if r = None then 0 else 1)"
    using st by (cases r) (simp_all add: recomputeSystemMatrix_def S1)
  let ?S4 = "S3\<lparr>mLeftSideVector := lusolve D (mVariableSolver S3) (mRightSideVector S3)\<rparr>"
  have f: "fst ?W = fst W" by (simp add: settle_states(4) split: option.split)
  obtain H where H: "updateNodes ?S4 = ok (?S4\<lparr>objs := (H, snd (objs ?S4))\<rparr>)" "voltagesOnly (fst W) H"
    using updateNodes_ok [of ?S4] assms(1) S3(2) f by auto
  have "solveWithSystemMatrixRecomputation emt_methods D (S\<lparr>objs := W\<rparr>) = ok (?S4\<lparr>objs := (H, snd ?W)\<rparr>)"
    unfolding solveWithSystemMatrixRecomputation_def Let_def chg prod.case S3(1) bind_err_simps
    using H(1) S3(2) by simp
  then show ?thesis using S3 H(2) by (intro exI [of _ "?S4\<lparr>objs := (H, snd ?W)\<rparr>"] exI [of _ H]) simp
qed

lemma find_none_iff: "find P xs = None \<longleftrightarrow> (\<forall>x\<in>set xs. \<not> P x)"
  by (auto simp: find_None_iff)

lemma settled_after:
  assumes "objs S' = (H, snd W)" "voltagesOnly (fst W) H"
  shows "emtIsClosed (objs S') q = emtIsClosed W q" "wasClosed (objs S') q = wasClosed W q" "sameNet W (objs S')"
  using voltagesOnly_sameNet [OF assms(2)] assms(1) by (simp_all add: emtIsClosed_def wasClosed_def)

text \<open>C16. What a solve does to the recomputed system matrix.  If the state of some variable switch differs from
  the flag of the last check, the matrix is recomputed for the present states and only the first such switch is marked as
  seen; otherwise the matrix is kept.  So a current matrix stays current in a solve before which no switch
  changed, and, once every switch is marked as seen (which is not so at the start, where every flag is false), in
  every solve before which at most one switch changed, after which again every switch is marked.\<close>

theorem recompute_current:
  assumes cur: "currentMatrix S" and same: "mMNAIntfVariableComps (mnaBase S) = mVariableComps (mnaBase S)"
    and net: "sameNet (objs S) W" "nodes_ok (fst W)" and flags: "\<forall>q. wasClosed W q = wasClosed (objs S) q"
    and stamp: "\<exists>M. stampComps emt_methods W (mMNAIntfVariableComps (mnaBase S)) (mBaseSystemMatrix S) = ok M"
  shows "\<exists>S'. solveWithSystemMatrixRecomputation emt_methods D (S\<lparr>objs := W\<rparr>) = ok S'
    \<and> (\<forall>q. emtIsClosed (objs S') q = emtIsClosed W q)
    \<and> (case find (\<lambda>q. \<not> settledAt W q) (mVariableComps (mnaBase S)) of
         None \<Rightarrow> mVariableSystemMatrix S' = mVariableSystemMatrix S \<and> (\<forall>q. settledAt (objs S') q = settledAt W q)
       | Some u \<Rightarrow> currentMatrix S' \<and> (\<forall>q. settledAt (objs S') q \<longleftrightarrow> q = u \<or> settledAt W q))
    \<and> ((\<forall>q \<in> set (mVariableComps (mnaBase S)). emtIsClosed W q = emtIsClosed (objs S) q) \<longrightarrow> currentMatrix S')
    \<and> (settledAll S \<and> (\<exists>p. \<forall>q. q \<noteq> p \<longrightarrow> emtIsClosed W q = emtIsClosed (objs S) q)
         \<longrightarrow> settledAll S' \<and> currentMatrix S')"
proof -
  let ?ps = "mVariableComps (mnaBase S)"
  obtain M where M: "stampComps emt_methods W (mMNAIntfVariableComps (mnaBase S)) (mBaseSystemMatrix S) = ok M"
    using stamp by blast
  define r where "r = find (\<lambda>q. \<not> settledAt W q) ?ps"
  let ?W = "case r of None \<Rightarrow> W | Some q \<Rightarrow> settle q W"
  obtain S' H where S': "solveWithSystemMatrixRecomputation emt_methods D (S\<lparr>objs := W\<rparr>) = ok S'"
    "objs S' = (H, snd ?W)" "voltagesOnly (fst W) H" "mnaBase S' = mnaBase S" "mBaseSystemMatrix S' = mBaseSystemMatrix S"
    "mVariableSystemMatrix S' = (if r = None then mVariableSystemMatrix S else M)"
    using recompute_solve [OF net(2) M r_def [symmetric], of D] by blast
  have f: "fst ?W = fst W" by (simp add: settle_states(4) split: option.split)
  note af = settled_after [OF S'(2) S'(3) [folded f]]
  have closed: "emtIsClosed (objs S') q = emtIsClosed W q" for q
    unfolding af by (cases r) (simp_all add: settle_states(1))
  have seen: "settledAt (objs S') q \<longleftrightarrow> r = Some q \<or> settledAt W q" for q
    by (cases r) (auto simp: settledAt_def closed af settle_states)
  have "sameNet W (objs S')"
    using af(3) settle_states(3) sameNet_trans [of W ?W "objs S'"] by (cases r) auto
  then have eq: "stampComps emt_methods (objs S') (mMNAIntfVariableComps (mnaBase S)) (mBaseSystemMatrix S) = ok M"
    using stampComps_state closed M by metis
  have changed: "currentMatrix S'" if "r \<noteq> None" using that eq by (auto simp: currentMatrix_def S'(4-6))
  have still: "currentMatrix S'" if "\<forall>q \<in> set ?ps. emtIsClosed W q = emtIsClosed (objs S) q"
  proof (cases r)
    case None
    have "stampComps emt_methods W (mMNAIntfVariableComps (mnaBase S)) (mBaseSystemMatrix S)
          = stampComps emt_methods (objs S) (mMNAIntfVariableComps (mnaBase S)) (mBaseSystemMatrix S)"
      using that by (intro stampComps_state [OF net(1)]) (simp add: same)
    then show ?thesis using M cur eq None by (simp add: currentMatrix_def S'(4-6))
  qed (use changed in simp)
  have "settledAll S' \<and> currentMatrix S'"
    if s: "settledAll S" and one: "\<forall>q. q \<noteq> p \<longrightarrow> emtIsClosed W q = emtIsClosed (objs S) q" for p
  proof
    have others: "settledAt W q" if "q \<in> set ?ps" "q \<noteq> p" for q
      using that s one flags by (simp add: settledAll_def settledAt_def)
    have "settledAt W p \<or> r = Some p" if "p \<in> set ?ps"
    proof (cases r)
      case (Some u)
      then have "\<not> settledAt W u" "u \<in> set ?ps" using r_def by (auto simp: find_Some_iff)
      then show ?thesis using others Some by blast
    qed (use that in \<open>auto simp: r_def find_None_iff\<close>)
    then show "settledAll S'" using others by (auto simp: settledAll_def S'(4) seen)
    show "currentMatrix S'"
    proof (cases r)
      case None
      then have "settledAt W q" if "q \<in> set ?ps" for q using that by (auto simp: r_def find_None_iff)
      then show ?thesis using s flags by (intro still) (auto simp: settledAll_def settledAt_def)
    qed (use changed in simp)
  qed
  moreover have "case find (\<lambda>q. \<not> settledAt W q) ?ps of
         None \<Rightarrow> mVariableSystemMatrix S' = mVariableSystemMatrix S \<and> (\<forall>q. settledAt (objs S') q = settledAt W q)
       | Some u \<Rightarrow> currentMatrix S' \<and> (\<forall>q. settledAt (objs S') q \<longleftrightarrow> q = u \<or> settledAt W q)"
    unfolding r_def [symmetric] using changed S'(6) by (cases r) (auto simp: seen)
  ultimately show ?thesis using S'(1) closed still by blast
qed

section \<open>Two switches at once\<close>

lemma stamps_exist:
  assumes "\<forall>p\<in>set ps. emtFit k W p" "square k M"
  shows "\<exists>M'. stampComps emt_methods W ps M = ok M'"
  using emt.stampComps_rows [of ps k W M] assms by blast

text \<open>C15. The matrix can be stale.  When two settled switches p and q are toggled before the same solve, the solve
  recomputes the matrix but only p, the first of the list, is marked as seen; when q is toggled back before the next
  solve, no change is detected, and that solve uses a matrix with q in the state it no longer has.\<close>

theorem recompute_stale:
  assumes ps: "mVariableComps (mnaBase S) = us @ p # vs" "q \<in> set vs" "distinct (us @ p # vs)"
    and same: "mMNAIntfVariableComps (mnaBase S) = mVariableComps (mnaBase S)"
    and set: "settledAll S" and sw: "isSw (model (snd (objs S) p))" "isSw (model (snd (objs S) q))"
    and fit: "\<forall>u\<in>set (us @ p # vs). emtFit k (objs S) u" "square k (mBaseSystemMatrix S)" "nodes_ok (fst (objs S))"
  shows "\<exists>S1 S2. solveWithSystemMatrixRecomputation emt_methods D (S\<lparr>objs := toggle q (toggle p (objs S))\<rparr>) = ok S1
    \<and> solveWithSystemMatrixRecomputation emt_methods D (S1\<lparr>objs := toggle q (objs S1)\<rparr>) = ok S2
    \<and> \<not> mVariableComponentChanged S2 \<and> emtIsClosed (objs S2) q = emtIsClosed (objs S) q
    \<and> stampComps emt_methods (toggle q (toggle p (objs S))) (us @ p # vs) (mBaseSystemMatrix S)
        = ok (mVariableSystemMatrix S2)
    \<and> emtIsClosed (toggle q (toggle p (objs S))) q \<noteq> emtIsClosed (objs S2) q"
proof -
  let ?W = "toggle q (toggle p (objs S))" let ?ps = "us @ p # vs"
  have pq: "p \<noteq> q" "p \<notin> set us" "q \<notin> set us" using ps by auto
  have net: "sameNet (objs S) ?W" using sameNet_trans [OF toggle_states(3) toggle_states(3)] .
  have isq: "isSw (model (snd (toggle p (objs S)) q))"
    using sw(2) params_class(2) [OF sameNet_params [OF toggle_states(3)]] by simp
  have st: "emtIsClosed ?W u = (if u = p \<or> u = q then \<not> emtIsClosed (objs S) u else emtIsClosed (objs S) u)"
    "wasClosed ?W u = wasClosed (objs S) u" for u
    using pq sw isq by (auto simp: toggle_states)
  have nd: "nodes_ok (fst ?W)" using fit(3) by (simp add: toggle_states(4))
  have was: "wasClosed (objs S) u = emtIsClosed (objs S) u" if "u \<in> set ?ps" for u
    using that set unfolding settledAll_def settledAt_def ps(1) by blast
  have "\<forall>u\<in>set us. settledAt ?W u" using was pq by (auto simp: settledAt_def st)
  moreover have "\<not> settledAt ?W p" using was [of p] by (simp add: settledAt_def st)
  ultimately have r: "find (\<lambda>u. \<not> settledAt ?W u) (mVariableComps (mnaBase S)) = Some p"
    unfolding ps(1) by (induction us) auto
  have "\<forall>u\<in>set ?ps. emtFit k ?W u" using fit(1) sameNet_fit [OF net] by blast
  from stamps_exist [OF this fit(2)] obtain M where M: "stampComps emt_methods ?W ?ps (mBaseSystemMatrix S) = ok M" by blast
  then have M': "stampComps emt_methods ?W (mMNAIntfVariableComps (mnaBase S)) (mBaseSystemMatrix S) = ok M"
    by (simp add: same ps(1))
  obtain S1 H1 where S1: "solveWithSystemMatrixRecomputation emt_methods D (S\<lparr>objs := ?W\<rparr>) = ok S1"
    "objs S1 = (H1, snd (settle p ?W))" "voltagesOnly (fst ?W) H1" "mnaBase S1 = mnaBase S"
    "mBaseSystemMatrix S1 = mBaseSystemMatrix S" "mVariableSystemMatrix S1 = M"
    using recompute_solve [OF nd M' r, of D] by auto
  note a1 = settled_after [OF S1(2), unfolded settle_states(4), OF S1(3)]
  let ?W2 = "toggle q (objs S1)"
  have net1: "sameNet ?W (objs S1)" by (rule sameNet_trans [OF settle_states(3) a1(3)])
  have net2: "sameNet ?W ?W2" by (rule sameNet_trans [OF net1 toggle_states(3)])
  have isq1: "isSw (model (snd (objs S1) q))"
    using isq params_class(2) [OF sameNet_params [OF sameNet_trans [OF toggle_states(3) net1]]] by simp
  have c1: "emtIsClosed (objs S1) u = emtIsClosed ?W u"
    "wasClosed (objs S1) u = (if u = p then emtIsClosed ?W p else wasClosed ?W u)" for u
    by (simp_all add: a1 settle_states)
  have st2: "emtIsClosed ?W2 u = (if u = p then \<not> emtIsClosed (objs S) u else emtIsClosed (objs S) u)"
    "wasClosed ?W2 u = (if u = p then \<not> emtIsClosed (objs S) p else wasClosed (objs S) u)" for u
    using pq isq1 by (auto simp: toggle_states(1,2) [of q "objs S1"] c1 st)
  have "\<forall>u\<in>set (mVariableComps (mnaBase S1)). settledAt ?W2 u"
    using was by (auto simp: S1(4) ps(1) settledAt_def st2)
  then have r2: "find (\<lambda>u. \<not> settledAt ?W2 u) (mVariableComps (mnaBase S1)) = None" by (auto simp: find_None_iff)
  have nd2: "nodes_ok (fst ?W2)"
    using voltagesOnly_nodes_ok [OF S1(3) nd] S1(2) by (simp add: toggle_states(4))
  have "\<forall>u\<in>set ?ps. emtFit k ?W2 u" using fit(1) sameNet_fit [OF sameNet_trans [OF net net2]] by blast
  from stamps_exist [OF this fit(2)] obtain M2
    where M2: "stampComps emt_methods ?W2 (mMNAIntfVariableComps (mnaBase S1)) (mBaseSystemMatrix S1) = ok M2"
    by (auto simp: S1(4,5) same ps(1))
  obtain S2 H2 where S2: "solveWithSystemMatrixRecomputation emt_methods D (S1\<lparr>objs := ?W2\<rparr>) = ok S2"
    "objs S2 = (H2, snd ?W2)" "voltagesOnly (fst ?W2) H2" "\<not> mVariableComponentChanged S2" "mVariableSystemMatrix S2 = M"
    using recompute_solve [OF nd2 M2 r2, of D] S1(6) by auto
  have "emtIsClosed (objs S2) q = emtIsClosed (objs S) q"
    using settled_after(1) [OF S2(2,3), of q] st2(1) [of q] pq by simp
  then show ?thesis using S1(1) S2(1,4,5) M st(1) [of q] by (intro exI [of _ S1] exI [of _ S2]) simp
qed

section \<open>Two switches of a bus\<close>

definition swWorld :: emt_world where
  "swWorld = (fst exWorld, \<lambda>p. \<lparr>model = Switch \<lparr>mOpenResistance = 1000, mClosedResistance = 1, mIsClosed = True,
     mIsClosedPrev = True\<rparr>, mRightVector = zeros 2 1, mMnaTasks = []\<rparr>)"

definition swState :: "(emt_ext, real matrix) mna_direct" where
  "swState = exState\<lparr>objs := swWorld, mnaBase := exSolver\<lparr>mVariableComps := [0, 1], mMNAIntfVariableComps := [0, 1]\<rparr>,
     mRightVectorStamps := [], mBaseSystemMatrix := zeros 2 2,
     mVariableSystemMatrix := (case stampComps emt_methods swWorld [0, 1] (zeros 2 2) of Inl _ \<Rightarrow> zeros 0 0 | Inr M \<Rightarrow> M)\<rparr>"

lemma sw_fit: "emtFit 2 swWorld p"
proof -
  have "endsAt swWorld p = (0, 0, False, True)" using ex_ends by (simp add: endsAt_def swWorld_def)
  then show ?thesis using ex_ends by (auto simp: emtFit_def endsIn_def isVS_def swWorld_def)
qed

lemma sw_state:
  "mVariableComps (mnaBase swState) = [0, 1]" "mMNAIntfVariableComps (mnaBase swState) = [0, 1]"
  "objs swState = swWorld" "mBaseSystemMatrix swState = zeros 2 2" "square 2 (zeros 2 2)"
  "isSw (model (snd swWorld p))" "nodes_ok (fst swWorld)" "settledAll swState"
  by (simp_all add: swState_def exSolver_def square_def isSw_def swWorld_def nodes_ok_def node_ok_def node_rows_def
      exNodes_def mkSimNode_def Let_def settledAll_def settledAt_def wasClosed_def emtIsClosed_def)

theorem recompute_stale_witness:
  "\<exists>S1 S2. solveWithSystemMatrixRecomputation emt_methods exLU (swState\<lparr>objs := toggle 1 (toggle 0 swWorld)\<rparr>) = ok S1
    \<and> solveWithSystemMatrixRecomputation emt_methods exLU (S1\<lparr>objs := toggle 1 (objs S1)\<rparr>) = ok S2
    \<and> \<not> mVariableComponentChanged S2 \<and> emtIsClosed (objs S2) 1"
proof -
  have "emtIsClosed swWorld 1" by (simp add: emtIsClosed_def swWorld_def)
  then show ?thesis
    using recompute_stale [of swState "[]" 0 "[1]" 1 2 exLU] sw_fit sw_state by auto
qed

theorem recompute_current_witness:
  "\<exists>S'. solveWithSystemMatrixRecomputation emt_methods exLU (swState\<lparr>objs := toggle 0 swWorld\<rparr>) = ok S'
    \<and> settledAll S' \<and> currentMatrix S'"
proof -
  have fit: "\<forall>p\<in>set [0, 1]. emtFit 2 W p" if "sameNet swWorld W" for W
    using sameNet_fit [OF that] sw_fit by simp
  obtain M where M: "stampComps emt_methods swWorld [0, 1] (zeros 2 2) = ok M"
    using stamps_exist [OF fit [OF sameNet_refl] sw_state(5)] by blast
  then have cur: "currentMatrix swState" by (simp add: currentMatrix_def sw_state) (simp add: swState_def)
  have st: "\<exists>M. stampComps emt_methods (toggle 0 swWorld) (mMNAIntfVariableComps (mnaBase swState)) (mBaseSystemMatrix swState) = ok M"
    using stamps_exist [OF fit [OF toggle_states(3)] sw_state(5)] by (simp add: sw_state)
  have net: "sameNet (objs swState) (toggle 0 swWorld)" "nodes_ok (fst (toggle 0 swWorld))"
    "mMNAIntfVariableComps (mnaBase swState) = mVariableComps (mnaBase swState)"
    "\<forall>q. wasClosed (toggle 0 swWorld) q = wasClosed (objs swState) q"
    by (simp_all add: sw_state toggle_states)
  have "\<exists>p. \<forall>q. q \<noteq> p \<longrightarrow> emtIsClosed (toggle 0 swWorld) q = emtIsClosed (objs swState) q"
    by (intro exI [of _ 0]) (simp add: sw_state toggle_states)
  then show ?thesis using recompute_current [OF cur net(3,1,2,4) st, of exLU] sw_state(8) by blast
qed

end
