(* ===== verification/Interfaces.thy ===== *)
theory Interfaces
  imports MnaTasks "HOL-Library.Sublist"
begin

text \<open>The exchange of attribute values with the environment: dpsim/src/Interface.cpp,
  dpsim/src/InterfaceQueued.cpp and their headers.  Two threads of the interface and the thread of the simulation
  share two queues of packets; a run of a method is a sequence of queue operations between which the other side may act.
  The worker that talks to the environment is a parameter.  An attribute is its value and the type of the value.\<close>

section \<open>Packets and attributes\<close>

type_synonym uint = "32 word"

record 'v packet =
  packetValue :: "'v option"
  attributeId :: uint
  sequenceId :: uint
  packetFlags :: "8 word"

definition PACKET_NO_FLAGS :: "8 word" where "PACKET_NO_FLAGS = 0"
definition PACKET_CLOSE_INTERFACE :: "8 word" where "PACKET_CLOSE_INTERFACE = 1"

record 'v import_attr =
  importValue :: 'v
  importSeq :: uint
  blockOnRead :: bool
  syncOnSimulationStart :: bool

record 'v export_attr =
  exportValue :: 'v
  exportSeq :: uint

record 'v intf =
  mImportAttrsDpsim :: "'v import_attr list"
  mExportAttrsDpsim :: "'v export_attr list"
  mCurrentSequenceDpsimToInterface :: uint
  mNextSequenceInterfaceToDpsim :: uint
  mIntfOpened :: bool
  mDownsampling :: uint
  mQueueInterfaceToDpsim :: "'v packet list"
  mQueueDpsimToInterface :: "'v packet list"

definition newInterface :: "uint \<Rightarrow> 'v intf" where
  "newInterface downsampling = \<lparr>mImportAttrsDpsim = [], mExportAttrsDpsim = [], mCurrentSequenceDpsimToInterface = 1,
     mNextSequenceInterfaceToDpsim = 1, mIntfOpened = False, mDownsampling = downsampling,
     mQueueInterfaceToDpsim = [], mQueueDpsimToInterface = []\<rparr>"

text \<open>After the interface is opened the program ends; here this is an exception.\<close>

definition addImport :: "'v \<Rightarrow> bool \<Rightarrow> bool \<Rightarrow> 'v intf \<Rightarrow> error + 'v intf" where
  "addImport v block sync I = (if mIntfOpened I then throw SystemError
     else ok (I\<lparr>mImportAttrsDpsim := mImportAttrsDpsim I @
       [\<lparr>importValue = v, importSeq = 0, blockOnRead = block, syncOnSimulationStart = sync\<rparr>]\<rparr>))"

definition addExport :: "'v \<Rightarrow> 'v intf \<Rightarrow> error + 'v intf" where
  "addExport v I = (if mIntfOpened I then throw SystemError
     else ok (I\<lparr>mExportAttrsDpsim := mExportAttrsDpsim I @ [\<lparr>exportValue = v, exportSeq = 0\<rparr>]\<rparr>))"

text \<open>\<open>copyValue\<close> copies when the dynamic cast to the type of the attribute succeeds; \<open>ty\<close> is \<open>getType\<close>.\<close>

definition copyOnto :: "('v \<Rightarrow> 't) \<Rightarrow> 'v option \<Rightarrow> 'v import_attr \<Rightarrow> 'v import_attr" where
  "copyOnto ty v a = (case v of None \<Rightarrow> a | Some x \<Rightarrow> if ty x = ty (importValue a) then a\<lparr>importValue := x\<rparr> else a)"

section \<open>Reading\<close>

text \<open>What the simulation does with a packet it takes.\<close>

definition takePacket :: "('v \<Rightarrow> 't) \<Rightarrow> 'v packet \<Rightarrow> 'v intf \<Rightarrow> error + 'v intf" where
  "takePacket ty p I = (let i = unat (attributeId p) in
     if i < length (mImportAttrsDpsim I)
     then ok (I\<lparr>mImportAttrsDpsim := (mImportAttrsDpsim I)[i := (copyOnto ty (packetValue p) (mImportAttrsDpsim I ! i))
            \<lparr>importSeq := sequenceId p\<rparr>],
          mNextSequenceInterfaceToDpsim := sequenceId p + 1\<rparr>)
     else throw UndefinedBehaviour)"

text \<open>The attribute the loop of \<open>popDpsimAttrsFromQueue\<close> still waits for.\<close>

definition awaited :: "bool \<Rightarrow> uint \<Rightarrow> 'v import_attr \<Rightarrow> bool" where
  "awaited isSync current a \<longleftrightarrow> (if isSync then syncOnSimulationStart a else blockOnRead a) \<and> importSeq a < current"

text \<open>Where the method is: at the test of its first loop, discarding overrun packets with the last one it took, in
  \<open>wait_dequeue\<close>, in its second loop, or returned.\<close>

datatype 'v pop_at = AtTest | Discarding "'v packet" | Waiting | Fetching | Returned

text \<open>One queue operation of \<open>popDpsimAttrsFromQueue\<close>, with what follows it; None when the thread has to wait.\<close>

definition popStep :: "('v \<Rightarrow> 't) \<Rightarrow> bool \<Rightarrow> uint \<Rightarrow> 'v pop_at \<times> 'v intf \<Rightarrow> (error + 'v pop_at \<times> 'v intf) option" where
  "popStep ty isSync current = (\<lambda>(pc, I). let q = mQueueInterfaceToDpsim I in case pc of
     AtTest \<Rightarrow> Some (ok (if list_ex (awaited isSync current) (mImportAttrsDpsim I)
       then (case q of [] \<Rightarrow> (Waiting, I) | p # q' \<Rightarrow> (Discarding p, I\<lparr>mQueueInterfaceToDpsim := q'\<rparr>))
       else (Fetching, I)))
   | Discarding p \<Rightarrow> (case q of
       [] \<Rightarrow> Some (bind_err (takePacket ty p I) (\<lambda>I'. ok (AtTest, I')))
     | p' # q' \<Rightarrow> Some (ok (Discarding p', I\<lparr>mQueueInterfaceToDpsim := q'\<rparr>)))
   | Waiting \<Rightarrow> (case q of [] \<Rightarrow> None
     | p # q' \<Rightarrow> Some (bind_err (takePacket ty p (I\<lparr>mQueueInterfaceToDpsim := q'\<rparr>)) (\<lambda>I'. ok (AtTest, I'))))
   | Fetching \<Rightarrow> (case q of [] \<Rightarrow> Some (ok (Returned, I))
     | p # q' \<Rightarrow> Some (bind_err (takePacket ty p (I\<lparr>mQueueInterfaceToDpsim := q'\<rparr>)) (\<lambda>I'. ok (Fetching, I'))))
   | Returned \<Rightarrow> None)"

text \<open>A run of the method while the reader thread enqueues the packets \<open>ps\<close> at any time.\<close>

inductive popRun :: "('v \<Rightarrow> 't) \<Rightarrow> bool \<Rightarrow> uint \<Rightarrow> 'v packet list \<Rightarrow> 'v pop_at \<times> 'v intf \<Rightarrow> 'v pop_at \<times> 'v intf \<Rightarrow> bool"
  for ty isSync current where
  popRefl: "popRun ty isSync current [] s s"
| popArrive: "popRun ty isSync current ps s (pc, I)
    \<Longrightarrow> popRun ty isSync current (ps @ [p]) s (pc, I\<lparr>mQueueInterfaceToDpsim := mQueueInterfaceToDpsim I @ [p]\<rparr>)"
| popAct: "popRun ty isSync current ps s s1 \<Longrightarrow> popStep ty isSync current s1 = Some (ok s2)
    \<Longrightarrow> popRun ty isSync current ps s s2"

section \<open>Writing\<close>

text \<open>\<open>pushDpsimAttrsToQueue\<close>.\<close>

definition pushAttr :: "nat \<Rightarrow> 'v intf \<Rightarrow> 'v intf" where
  "pushAttr i I = (let a = mExportAttrsDpsim I ! i in
     I\<lparr>mQueueDpsimToInterface := mQueueDpsimToInterface I @ [\<lparr>packetValue = Some (exportValue a), attributeId = of_nat i,
          sequenceId = exportSeq a, packetFlags = PACKET_NO_FLAGS\<rparr>],
       mExportAttrsDpsim := (mExportAttrsDpsim I)[i := a\<lparr>exportSeq := mCurrentSequenceDpsimToInterface I\<rparr>],
       mCurrentSequenceDpsimToInterface := mCurrentSequenceDpsimToInterface I + 1\<rparr>)"

definition pushDpsimAttrsToQueue :: "'v intf \<Rightarrow> 'v intf" where
  "pushDpsimAttrsToQueue I = fold pushAttr [0..<length (mExportAttrsDpsim I)] I"

definition closePacket :: "'v packet" where
  "closePacket = \<lparr>packetValue = None, attributeId = 0, sequenceId = 0, packetFlags = PACKET_CLOSE_INTERFACE\<rparr>"

definition openInterface :: "'v intf \<Rightarrow> 'v intf" where
  "openInterface I = I\<lparr>mIntfOpened := True\<rparr>"

definition closeInterface :: "'v intf \<Rightarrow> 'v intf" where
  "closeInterface I = I\<lparr>mIntfOpened := False, mQueueDpsimToInterface := mQueueDpsimToInterface I @ [closePacket]\<rparr>"

text \<open>The writer thread: it waits for a packet, takes all others, and hands the list to the worker.  The worker keeps
  a state of its own and may change the list in any way (the worker for VILLASnode removes outdated packets and
  those it sends from anywhere in it); it is an arbitrary function of its state and the list.  \<open>written\<close> records the
  list of every call before and after it.\<close>

unbundle bit_operations_syntax

definition isClose :: "'v packet \<Rightarrow> bool" where
  "isClose p \<longleftrightarrow> packetFlags p AND PACKET_CLOSE_INTERFACE \<noteq> 0"

datatype writer_at = WaitPacket | MorePackets | WriterDone

type_synonym ('s, 'v) worker = "'s \<Rightarrow> 'v packet list \<Rightarrow> 's \<times> 'v packet list"

record ('s, 'v) writer =
  writerAt :: writer_at
  attrsToWrite :: "'v packet list"
  interfaceClosed :: bool
  workerState :: 's
  written :: "('v packet list \<times> 'v packet list) list"

definition newWriter :: "'s \<Rightarrow> ('s, 'v) writer" where
  "newWriter s0 = \<lparr>writerAt = WaitPacket, attrsToWrite = [], interfaceClosed = False, workerState = s0, written = []\<rparr>"

definition collectPacket :: "'v packet \<Rightarrow> ('s, 'v) writer \<Rightarrow> ('s, 'v) writer" where
  "collectPacket p w = (if isClose p then w\<lparr>interfaceClosed := True\<rparr> else w\<lparr>attrsToWrite := attrsToWrite w @ [p]\<rparr>)"

definition writeOut :: "('s, 'v) worker \<Rightarrow> ('s, 'v) writer \<Rightarrow> ('s, 'v) writer" where
  "writeOut work w = (case work (workerState w) (attrsToWrite w) of (st, left) \<Rightarrow>
     w\<lparr>written := written w @ [(attrsToWrite w, left)], attrsToWrite := left, workerState := st,
       writerAt := (if interfaceClosed w then WriterDone else WaitPacket)\<rparr>)"

definition writerStep :: "('s, 'v) worker \<Rightarrow> ('s, 'v) writer \<times> 'v packet list \<Rightarrow> (('s, 'v) writer \<times> 'v packet list) option" where
  "writerStep work = (\<lambda>(w, q). case writerAt w of
     WaitPacket \<Rightarrow> (case q of [] \<Rightarrow> None | p # q' \<Rightarrow> Some ((collectPacket p w)\<lparr>writerAt := MorePackets\<rparr>, q'))
   | MorePackets \<Rightarrow> (case q of [] \<Rightarrow> Some (writeOut work w, []) | p # q' \<Rightarrow> Some (collectPacket p w, q'))
   | WriterDone \<Rightarrow> None)"

text \<open>A run of the writer thread while the simulation enqueues the packets \<open>ps\<close>.\<close>

inductive writerRun :: "('s, 'v) worker \<Rightarrow> 's \<Rightarrow> 'v packet list \<Rightarrow> ('s, 'v) writer \<times> 'v packet list \<Rightarrow> bool"
  for work s0 where
  writerInit: "writerRun work s0 [] (newWriter s0, [])"
| writerArrive: "writerRun work s0 ps (w, q) \<Longrightarrow> writerRun work s0 (ps @ [p]) (w, q @ [p])"
| writerAct: "writerRun work s0 ps s \<Longrightarrow> writerStep work s = Some s' \<Longrightarrow> writerRun work s0 ps s'"

section \<open>The tasks of the interface\<close>

text \<open>\<open>timeStepCount % mDownsampling\<close> converts the step count to unsigned; a downsampling of 0 divides by zero.\<close>

definition stepSampled :: "int \<Rightarrow> 'v intf \<Rightarrow> error + bool" where
  "stepSampled timeStepCount I = (if mDownsampling I = 0 then throw UndefinedBehaviour
     else ok (word_of_int timeStepCount mod mDownsampling I = 0))"

definition postStepExecute :: "int \<Rightarrow> 'v intf \<Rightarrow> error + 'v intf" where
  "postStepExecute timeStepCount I = bind_err (stepSampled timeStepCount I)
     (\<lambda>b. ok (if b then pushDpsimAttrsToQueue I else I))"

definition readTask :: "string \<Rightarrow> attr_ref list \<Rightarrow> task" where
  "readTask name imports = mkTask (name @ ''.Read'') ([], [], imports)"

definition writeTask :: "string \<Rightarrow> attr_ref list \<Rightarrow> task" where
  "writeTask name exports = mkTask (name @ ''.Write'') ([], exports, [external])"

definition interfaceTasks :: "string \<Rightarrow> attr_ref list \<Rightarrow> attr_ref list \<Rightarrow> task list" where
  "interfaceTasks name imports exports =
     (if imports = [] then [] else [readTask name imports]) @ (if exports = [] then [] else [writeTask name exports])"

section \<open>What a read gives\<close>

lemma popStepE:
  assumes "popStep ty isSync current (pc, I) = Some (ok s)"
  obtains (wait) "pc = AtTest" "list_ex (awaited isSync current) (mImportAttrsDpsim I)" "mQueueInterfaceToDpsim I = []" "s = (Waiting, I)"
  | (overrun) p q where "pc = AtTest" "list_ex (awaited isSync current) (mImportAttrsDpsim I)" "mQueueInterfaceToDpsim I = p # q"
      "s = (Discarding p, I\<lparr>mQueueInterfaceToDpsim := q\<rparr>)"
  | (read) "pc = AtTest" "\<not> list_ex (awaited isSync current) (mImportAttrsDpsim I)" "s = (Fetching, I)"
  | (keep) p I' where "pc = Discarding p" "mQueueInterfaceToDpsim I = []" "takePacket ty p I = ok I'" "s = (AtTest, I')"
  | (discard) p p' q where "pc = Discarding p" "mQueueInterfaceToDpsim I = p' # q" "s = (Discarding p', I\<lparr>mQueueInterfaceToDpsim := q\<rparr>)"
  | (taken) p q I' where "pc = Waiting" "mQueueInterfaceToDpsim I = p # q" "takePacket ty p (I\<lparr>mQueueInterfaceToDpsim := q\<rparr>) = ok I'"
      "s = (AtTest, I')"
  | (fetched) p q I' where "pc = Fetching" "mQueueInterfaceToDpsim I = p # q" "takePacket ty p (I\<lparr>mQueueInterfaceToDpsim := q\<rparr>) = ok I'"
      "s = (Fetching, I')"
  | (return) "pc = Fetching" "mQueueInterfaceToDpsim I = []" "s = (Returned, I)"
proof (cases pc)
  case AtTest
  then show thesis using assms wait overrun read by (auto simp: popStep_def Let_def split: if_splits list.splits)
next
  case (Discarding p)
  then show thesis using assms keep discard by (auto simp: popStep_def Let_def split: list.splits)
next
  case Waiting
  then show thesis using assms taken by (auto simp: popStep_def Let_def split: list.splits)
next
  case Fetching
  then show thesis using assms fetched return by (auto simp: popStep_def Let_def split: list.splits)
next
  case Returned
  then show thesis using assms by (simp add: popStep_def)
qed

lemma takePacket_ok:
  assumes "takePacket ty p I = ok I'"
  shows "mQueueInterfaceToDpsim I' = mQueueInterfaceToDpsim I" "length (mImportAttrsDpsim I') = length (mImportAttrsDpsim I)"
    "unat (attributeId p) < length (mImportAttrsDpsim I)"
    "mImportAttrsDpsim I' ! i = (if i = unat (attributeId p)
       then (copyOnto ty (packetValue p) (mImportAttrsDpsim I ! i))\<lparr>importSeq := sequenceId p\<rparr> else mImportAttrsDpsim I ! i)"
  using assms by (auto simp: takePacket_def Let_def split: if_splits)

lemma takePacket_settled:
  assumes "takePacket ty p I = ok I'" "current \<le> sequenceId p" "\<forall>a\<in>set (mImportAttrsDpsim I). \<not> awaited isSync current a"
  shows "\<forall>a\<in>set (mImportAttrsDpsim I'). \<not> awaited isSync current a"
proof
  fix a assume "a \<in> set (mImportAttrsDpsim I')"
  then obtain i where i: "i < length (mImportAttrsDpsim I)" "mImportAttrsDpsim I' ! i = a"
    using takePacket_ok(2) [OF assms(1)] by (auto simp: in_set_conv_nth)
  then have "mImportAttrsDpsim I ! i \<in> set (mImportAttrsDpsim I)" by simp
  then have old: "\<not> awaited isSync current (mImportAttrsDpsim I ! i)" using assms(3) by blast
  show "\<not> awaited isSync current a"
  proof (cases "i = unat (attributeId p)")
    case True
    then have "importSeq a = sequenceId p" using takePacket_ok(4) [OF assms(1), of i] by (simp flip: i(2))
    then show ?thesis using assms(2) by (simp add: awaited_def not_less)
  next
    case False
    then show ?thesis using takePacket_ok(4) [OF assms(1), of i] old by (simp flip: i(2))
  qed
qed

text \<open>The second loop runs only when no attribute is awaited, and keeps it so when the packets are new.\<close>

definition fresh :: "bool \<Rightarrow> uint \<Rightarrow> 'v packet set \<Rightarrow> 'v pop_at \<times> 'v intf \<Rightarrow> bool" where
  "fresh isSync current P = (\<lambda>(pc, I). set (mQueueInterfaceToDpsim I) \<subseteq> P
     \<and> (pc = Fetching \<or> pc = Returned \<longrightarrow> (\<forall>a\<in>set (mImportAttrsDpsim I). \<not> awaited isSync current a)))"

lemma popRun_fresh:
  assumes "popRun ty isSync current ps s s'" "fresh isSync current P s" "set ps \<subseteq> P" "\<forall>p\<in>P. current \<le> sequenceId p"
  shows "fresh isSync current P s'"
  using assms
proof (induction rule: popRun.induct)
  case (popArrive ps s pc I p)
  have "set ps \<subseteq> P" "p \<in> P" using popArrive.prems(2) by simp_all
  then show ?case using popArrive.IH [OF popArrive.prems(1) _ popArrive.prems(3)] by (simp add: fresh_def)
next
  case (popAct ps s s1 s2)
  obtain pc I where s1: "s1 = (pc, I)" by (cases s1)
  have f: "fresh isSync current P (pc, I)" using popAct s1 by simp
  from popAct.hyps(2) [unfolded s1] show ?case
  proof (cases rule: popStepE)
    case (fetched p q I')
    have q: "p \<in> P" "set q \<subseteq> P" "\<forall>a\<in>set (mImportAttrsDpsim I). \<not> awaited isSync current a"
      using f by (simp_all add: fresh_def fetched(1,2))
    then have "\<forall>a\<in>set (mImportAttrsDpsim I'). \<not> awaited isSync current a"
      using popAct.prems(3) by (intro takePacket_settled [OF fetched(3)]) simp_all
    then show ?thesis using q takePacket_ok(1) [OF fetched(3)] by (simp add: fresh_def fetched(4))
  next
    case (keep p I')
    then show ?thesis using f takePacket_ok(1) [OF keep(3)] by (simp add: fresh_def)
  next
    case (taken p q I')
    then show ?thesis using f takePacket_ok(1) [OF taken(3)] by (simp add: fresh_def)
  qed (use f in \<open>simp_all add: fresh_def list_ex_iff\<close>)
qed simp

text \<open>What a list of packets, taken in order, makes of attribute \<open>i\<close>: the value of the last packet for it that has its
  type, and the sequence number of the last packet for it.\<close>

definition packetsFor :: "nat \<Rightarrow> 'v packet list \<Rightarrow> 'v packet list" where
  "packetsFor i xs = filter (\<lambda>p. unat (attributeId p) = i) xs"

definition valuesFor :: "('v \<Rightarrow> 't) \<Rightarrow> 'v import_attr \<Rightarrow> 'v packet list \<Rightarrow> 'v list" where
  "valuesFor ty a ps = concat (map (\<lambda>p. case packetValue p of None \<Rightarrow> [] | Some x \<Rightarrow> if ty x = ty (importValue a) then [x] else []) ps)"

definition received :: "('v \<Rightarrow> 't) \<Rightarrow> nat \<Rightarrow> 'v packet list \<Rightarrow> 'v import_attr \<Rightarrow> 'v import_attr" where
  "received ty i xs a = a\<lparr>importValue := last (importValue a # valuesFor ty a (packetsFor i xs)),
     importSeq := last (importSeq a # map sequenceId (packetsFor i xs))\<rparr>"

lemma received_Nil: "received ty i [] a = a"
  by (simp add: received_def packetsFor_def valuesFor_def)

lemma valuesFor_type: "ty (last (importValue a # valuesFor ty a ps)) = ty (importValue a)"
proof -
  have "x \<in> set (valuesFor ty a ps) \<Longrightarrow> ty x = ty (importValue a)" for x
    by (auto simp: valuesFor_def split: option.splits if_splits)
  then show ?thesis using last_in_set by fastforce
qed

lemma received_snoc:
  "received ty i (xs @ [p]) a = (if unat (attributeId p) = i
     then (copyOnto ty (packetValue p) (received ty i xs a))\<lparr>importSeq := sequenceId p\<rparr> else received ty i xs a)"
proof (cases "unat (attributeId p) = i")
  case True
  have t: "ty (importValue (received ty i xs a)) = ty (importValue a)"
    using valuesFor_type [of ty a "packetsFor i xs"] by (simp add: received_def)
  have f: "packetsFor i (xs @ [p]) = packetsFor i xs @ [p]" using True by (simp add: packetsFor_def)
  have v: "valuesFor ty a (ys @ [p]) = valuesFor ty a ys @ (case packetValue p of None \<Rightarrow> []
      | Some x \<Rightarrow> if ty x = ty (importValue a) then [x] else [])" for ys by (simp add: valuesFor_def)
  have l: "received ty i (xs @ [p]) a = a\<lparr>importValue := last (importValue a # valuesFor ty a (packetsFor i xs) @ (case packetValue p of
      None \<Rightarrow> [] | Some x \<Rightarrow> if ty x = ty (importValue a) then [x] else [])), importSeq := sequenceId p\<rparr>"
    by (simp only: received_def f v map_append list.map last_snoc append_Cons [symmetric])
  show ?thesis
  proof (cases "packetValue p")
    case None
    then show ?thesis using True unfolding l by (simp add: received_def copyOnto_def)
  next
    case (Some x)
    have e: "last (c # ys @ [x]) = x" for c ys by simp
    show ?thesis
      using True t unfolding l Some
      by (cases "ty x = ty (importValue a)") (simp_all add: received_def copyOnto_def e del: last.simps)
  qed
qed (simp add: received_def packetsFor_def)

text \<open>The packet the method holds while it discards overrun packets.\<close>

definition held :: "'v pop_at \<Rightarrow> 'v packet list" where
  "held pc = (case pc of Discarding p \<Rightarrow> [p] | _ \<Rightarrow> [])"

definition tookFrom :: "('v \<Rightarrow> 't) \<Rightarrow> 'v intf \<Rightarrow> 'v packet list \<Rightarrow> 'v pop_at \<times> 'v intf \<Rightarrow> bool" where
  "tookFrom ty I ps = (\<lambda>(pc, J). \<exists>xs zs. subseq xs zs \<and> zs @ held pc @ mQueueInterfaceToDpsim J = mQueueInterfaceToDpsim I @ ps
     \<and> length (mImportAttrsDpsim J) = length (mImportAttrsDpsim I)
     \<and> (\<forall>i < length (mImportAttrsDpsim I). mImportAttrsDpsim J ! i = received ty i xs (mImportAttrsDpsim I ! i))
     \<and> mNextSequenceInterfaceToDpsim J = (if xs = [] then mNextSequenceInterfaceToDpsim I else sequenceId (last xs) + 1))"

lemma takePacket_next:
  "takePacket ty p I = ok I' \<Longrightarrow> mNextSequenceInterfaceToDpsim I' = sequenceId p + 1"
  by (auto simp: takePacket_def Let_def split: if_splits)

lemma tookFrom_take:
  assumes "tookFrom ty I ps (pc, J)" "held pc @ mQueueInterfaceToDpsim J = p # q" "mImportAttrsDpsim K = mImportAttrsDpsim J"
    and "mQueueInterfaceToDpsim K = q" "takePacket ty p K = ok I'" "held pc' = []"
  shows "tookFrom ty I ps (pc', I')"
proof -
  obtain xs zs where h: "subseq xs zs" "zs @ held pc @ mQueueInterfaceToDpsim J = mQueueInterfaceToDpsim I @ ps"
    "length (mImportAttrsDpsim J) = length (mImportAttrsDpsim I)"
    "\<forall>i < length (mImportAttrsDpsim I). mImportAttrsDpsim J ! i = received ty i xs (mImportAttrsDpsim I ! i)"
    using assms(1) by (auto simp: tookFrom_def)
  note tk = takePacket_ok [OF assms(5)]
  have "subseq (xs @ [p]) (zs @ [p])" using h(1) by (simp add: list_emb_append_mono)
  moreover have "(zs @ [p]) @ held pc' @ mQueueInterfaceToDpsim I' = mQueueInterfaceToDpsim I @ ps"
    using h(2) assms(2,4,6) tk(1) by simp
  moreover have "mImportAttrsDpsim I' ! i = received ty i (xs @ [p]) (mImportAttrsDpsim I ! i)" if "i < length (mImportAttrsDpsim I)" for i
    using tk(4) [of i] h(4) that assms(3) by (auto simp: received_snoc)
  ultimately show ?thesis using h(3) tk(2) assms(3) takePacket_next [OF assms(5)] unfolding tookFrom_def prod.case
    by (intro exI [of _ "xs @ [p]"] exI [of _ "zs @ [p]"]) simp
qed

lemma tookFrom_move:
  assumes "tookFrom ty I ps (pc, J)" "mImportAttrsDpsim K = mImportAttrsDpsim J"
    "mNextSequenceInterfaceToDpsim K = mNextSequenceInterfaceToDpsim J"
    and "\<exists>ds. held pc @ mQueueInterfaceToDpsim J = ds @ held pc' @ mQueueInterfaceToDpsim K"
  shows "tookFrom ty I ps (pc', K)"
proof -
  obtain xs zs where h: "subseq xs zs" "zs @ held pc @ mQueueInterfaceToDpsim J = mQueueInterfaceToDpsim I @ ps"
    "length (mImportAttrsDpsim J) = length (mImportAttrsDpsim I)"
    "\<forall>i < length (mImportAttrsDpsim I). mImportAttrsDpsim J ! i = received ty i xs (mImportAttrsDpsim I ! i)"
    "mNextSequenceInterfaceToDpsim J = (if xs = [] then mNextSequenceInterfaceToDpsim I else sequenceId (last xs) + 1)"
    using assms(1) by (auto simp: tookFrom_def)
  obtain ds where ds: "held pc @ mQueueInterfaceToDpsim J = ds @ held pc' @ mQueueInterfaceToDpsim K" using assms(4) by blast
  show ?thesis unfolding tookFrom_def prod.case
    by (intro exI [of _ xs] exI [of _ "zs @ ds"]) (use h ds assms(2,3) in \<open>simp add: list_emb_prefix\<close>)
qed

lemma popRun_took:
  assumes "popRun ty isSync current ps s s'" "s = (AtTest, I)"
  shows "tookFrom ty I ps s'"
  using assms
proof (induction rule: popRun.induct)
  case (popRefl s)
  have "tookFrom ty I [] (AtTest, I)" unfolding tookFrom_def prod.case
    by (intro exI [of _ "[]"]) (simp add: held_def received_Nil)
  then show ?case using popRefl by simp
next
  case (popArrive ps s pc J p)
  then have "tookFrom ty I ps (pc, J)" by simp
  then obtain xs zs where "subseq xs zs" "zs @ held pc @ mQueueInterfaceToDpsim J = mQueueInterfaceToDpsim I @ ps"
    "length (mImportAttrsDpsim J) = length (mImportAttrsDpsim I)"
    "\<forall>i < length (mImportAttrsDpsim I). mImportAttrsDpsim J ! i = received ty i xs (mImportAttrsDpsim I ! i)"
    "mNextSequenceInterfaceToDpsim J = (if xs = [] then mNextSequenceInterfaceToDpsim I else sequenceId (last xs) + 1)"
    by (auto simp: tookFrom_def)
  then show ?case unfolding tookFrom_def prod.case by (intro exI [of _ xs] exI [of _ zs]) (simp flip: append_assoc)
next
  case (popAct ps s s1 s2)
  obtain pc J where s1: "s1 = (pc, J)" by (cases s1)
  have t: "tookFrom ty I ps (pc, J)" using popAct s1 by simp
  from popAct.hyps(2) [unfolded s1] show ?case
  proof (cases rule: popStepE)
    case (keep p I')
    show ?thesis unfolding keep(4)
      by (rule tookFrom_take [OF t _ refl _ keep(3)]) (simp_all add: keep held_def)
  next
    case (taken p q I')
    show ?thesis unfolding taken(4)
      by (rule tookFrom_take [OF t _ _ _ taken(3)]) (simp_all add: taken held_def)
  next
    case (fetched p q I')
    show ?thesis unfolding fetched(4)
      by (rule tookFrom_take [OF t _ _ _ fetched(3)]) (simp_all add: fetched held_def)
  qed (auto intro: tookFrom_move [OF t] simp: held_def)
qed

lemma subseq_sorted:
  assumes "subseq xs zs" "sorted_wrt (<) (map f zs)"
  shows "sorted_wrt (<) (map f xs)"
  using assms by (induction xs zs rule: list_emb.induct) (auto dest: list_emb_set)

lemma last_seq_bound:
  assumes "subseq xs zs" "sorted_wrt (<) (map sequenceId zs)" "x \<in> set xs"
  shows "(sequenceId x :: uint) \<le> sequenceId (last xs)"
proof -
  have "sorted_wrt (<) (map sequenceId xs)"
    using assms(1,2) by (rule subseq_sorted)
  moreover obtain ys where ys: "xs = ys @ [last xs]" using assms(3) by (metis append_butlast_last_id empty_iff list.set(1))
  ultimately have "sorted_wrt (<) (map sequenceId (ys @ [last xs]))" by (rule back_subst [of "\<lambda>l. sorted_wrt (<) (map sequenceId l)"])
  then have "\<forall>y \<in> set ys. sequenceId y < sequenceId (last xs)" by (simp add: sorted_wrt_append)
  moreover have "x \<in> set (ys @ [last xs])" using assms(3) ys by (rule back_subst [of "\<lambda>l. x \<in> set l"])
  ultimately show ?thesis by (auto intro: less_imp_le)
qed

lemma below_next:
  assumes "x \<le> y" "y < - 1"
  shows "(x :: uint) < y + 1"
proof -
  have "1 + y \<noteq> 0"
  proof
    assume "1 + y = 0"
    then have "y = - 1" by (simp add: eq_neg_iff_add_eq_0 add.commute)
    then show False using assms(2) by simp
  qed
  then have "unat (y + 1) = Suc (unat y)" using unatSuc [of y] by (simp add: add.commute)
  then show ?thesis using assms(1) by (simp add: word_less_nat_alt word_le_nat_alt)
qed

lemma pop_awaits:
  assumes run: "popRun ty isSync (mNextSequenceInterfaceToDpsim I) ps (AtTest, I) (Returned, I')"
    and old: "\<forall>a\<in>set (mImportAttrsDpsim I). importSeq a < mNextSequenceInterfaceToDpsim I"
    and inc: "sorted_wrt (<) (map sequenceId (mQueueInterfaceToDpsim I @ ps))"
    and new: "\<forall>p\<in>set (mQueueInterfaceToDpsim I @ ps). mNextSequenceInterfaceToDpsim I \<le> sequenceId p \<and> sequenceId p < - 1"
  shows "\<exists>xs zs. subseq xs zs \<and> zs @ mQueueInterfaceToDpsim I' = mQueueInterfaceToDpsim I @ ps
    \<and> length (mImportAttrsDpsim I') = length (mImportAttrsDpsim I)
    \<and> (\<forall>i < length (mImportAttrsDpsim I). let a = mImportAttrsDpsim I ! i in
         mImportAttrsDpsim I' ! i = received ty i xs a
         \<and> ((if isSync then syncOnSimulationStart a else blockOnRead a) \<longrightarrow> packetsFor i xs \<noteq> []))
    \<and> (\<forall>a\<in>set (mImportAttrsDpsim I'). importSeq a < mNextSequenceInterfaceToDpsim I')
    \<and> (\<forall>p\<in>set (mQueueInterfaceToDpsim I'). mNextSequenceInterfaceToDpsim I' \<le> sequenceId p)"
proof -
  let ?c = "mNextSequenceInterfaceToDpsim I"
  have f: "fresh isSync ?c (set (mQueueInterfaceToDpsim I @ ps)) (Returned, I')"
    by (rule popRun_fresh [OF run]) (use new in \<open>auto simp: fresh_def\<close>)
  obtain xs zs where h: "subseq xs zs" "zs @ mQueueInterfaceToDpsim I' = mQueueInterfaceToDpsim I @ ps"
    "length (mImportAttrsDpsim I') = length (mImportAttrsDpsim I)"
    "\<forall>i < length (mImportAttrsDpsim I). mImportAttrsDpsim I' ! i = received ty i xs (mImportAttrsDpsim I ! i)"
    "mNextSequenceInterfaceToDpsim I' = (if xs = [] then ?c else sequenceId (last xs) + 1)"
    using popRun_took [OF run refl] by (auto simp: tookFrom_def held_def)
  have sub: "set xs \<subseteq> set zs" using h(1) by (auto dest: list_emb_set)
  have all: "x \<in> set (mQueueInterfaceToDpsim I @ ps)" if "x \<in> set xs" for x
    using that sub arg_cong [OF h(2), of set] by auto
  have zs: "sorted_wrt (<) (map sequenceId zs)" using inc unfolding h(2) [symmetric] by (simp add: sorted_wrt_append)
  have bound: "?c \<le> sequenceId (last xs)" "sequenceId (last xs) < - 1" if "xs \<noteq> []"
    using new all [OF last_in_set [OF that]] by blast+
  have b1: "packetsFor i xs \<noteq> []"
    if i: "i < length (mImportAttrsDpsim I)" "if isSync then syncOnSimulationStart (mImportAttrsDpsim I ! i) else blockOnRead (mImportAttrsDpsim I ! i)" for i
  proof
    assume n: "packetsFor i xs = []"
    have "mImportAttrsDpsim I' ! i \<in> set (mImportAttrsDpsim I')" using i(1) h(3) by simp
    then have "\<not> awaited isSync ?c (mImportAttrsDpsim I' ! i)" using f by (simp add: fresh_def)
    then have "\<not> awaited isSync ?c (mImportAttrsDpsim I ! i)" using h(4) i(1) by (simp add: received_def n valuesFor_def)
    then show False using i old by (simp add: awaited_def)
  qed
  have b2: "importSeq a < mNextSequenceInterfaceToDpsim I'" if a: "a \<in> set (mImportAttrsDpsim I')" for a
  proof -
    obtain i where i: "i < length (mImportAttrsDpsim I)" "a = received ty i xs (mImportAttrsDpsim I ! i)"
      using a h(3,4) by (auto simp: in_set_conv_nth)
    show ?thesis
    proof (cases "packetsFor i xs = []")
      case True
      then have "importSeq a < ?c" using i old by (simp add: received_def)
      then show ?thesis using h(5) bound below_next by (cases "xs = []") (auto intro: less_trans less_le_trans less_imp_le)
    next
      case False
      then have m: "last (packetsFor i xs) \<in> set xs" using last_in_set [OF False] by (simp add: packetsFor_def)
      then have "importSeq a \<le> sequenceId (last xs)"
        using last_seq_bound [OF h(1) zs m] False i(2) by (simp add: received_def last_map)
      then show ?thesis using h(5) bound(2) m by (auto intro: below_next)
    qed
  qed
  have b3: "mNextSequenceInterfaceToDpsim I' \<le> sequenceId p" if p: "p \<in> set (mQueueInterfaceToDpsim I')" for p
  proof (cases "xs = []")
    case True
    have "p \<in> set (mQueueInterfaceToDpsim I @ ps)" using p by (simp flip: h(2))
    then show ?thesis using True h(5) new by simp
  next
    case False
    then have "last xs \<in> set zs" using sub last_in_set by blast
    then have "sequenceId (last xs) < sequenceId p"
      using inc p unfolding h(2) [symmetric] by (simp add: sorted_wrt_append)
    then show ?thesis using False h(5) by (simp add: inc_le)
  qed
  show ?thesis using h(1-4) b1 b2 b3 by (intro exI [of _ xs] exI [of _ zs]) (auto simp: Let_def)
qed

text \<open>Without an awaited attribute the packets are taken in the order of the queue, and none is lost.\<close>

lemma takePacket_queue:
  "takePacket ty p (I\<lparr>mQueueInterfaceToDpsim := q\<rparr>) = bind_err (takePacket ty p I) (\<lambda>J. ok (J\<lparr>mQueueInterfaceToDpsim := q\<rparr>))"
  by (simp add: takePacket_def Let_def)

lemma pop_fetches:
  assumes "popRun ty isSync current ps s s'" "s = (AtTest, I)" "\<not> list_ex (awaited isSync current) (mImportAttrsDpsim I)"
  shows "\<exists>xs J pc q. s' = (pc, J\<lparr>mQueueInterfaceToDpsim := q\<rparr>) \<and> xs @ q = mQueueInterfaceToDpsim I @ ps
    \<and> foldE (takePacket ty) xs I = ok J \<and> (pc = AtTest \<longrightarrow> J = I) \<and> pc \<in> {AtTest, Fetching, Returned}"
  using assms
proof (induction rule: popRun.induct)
  case (popRefl s)
  then show ?case by (intro exI [of _ "[]"] exI [of _ I] exI [of _ AtTest] exI [of _ "mQueueInterfaceToDpsim I"]) simp
next
  case (popArrive ps s pc I2 p)
  then obtain xs J q where "I2 = J\<lparr>mQueueInterfaceToDpsim := q\<rparr>" "xs @ q = mQueueInterfaceToDpsim I @ ps"
    "foldE (takePacket ty) xs I = ok J" "pc = AtTest \<longrightarrow> J = I" "pc \<in> {AtTest, Fetching, Returned}" by auto
  then show ?case by (intro exI [of _ xs] exI [of _ J] exI [of _ pc] exI [of _ "q @ [p]"]) auto
next
  case (popAct ps s s1 s2)
  obtain xs J pc q where h: "s1 = (pc, J\<lparr>mQueueInterfaceToDpsim := q\<rparr>)" "xs @ q = mQueueInterfaceToDpsim I @ ps"
    "foldE (takePacket ty) xs I = ok J" "pc = AtTest \<longrightarrow> J = I" "pc \<in> {AtTest, Fetching, Returned}"
    using popAct.IH popAct.prems by blast
  from popAct.hyps(2) [unfolded h(1)] show ?case
  proof (cases rule: popStepE)
    case (fetched p q' I')
    then obtain J' where J': "takePacket ty p J = ok J'" "I' = J'\<lparr>mQueueInterfaceToDpsim := q'\<rparr>"
      by (auto simp: takePacket_queue)
    have "foldE (takePacket ty) (xs @ [p]) I = ok J'" using h(3) J'(1) by (simp add: foldE_append)
    then show ?thesis using h(2) fetched J'(2)
      by (intro exI [of _ "xs @ [p]"] exI [of _ J'] exI [of _ Fetching] exI [of _ q']) auto
  next
    case read
    then show ?thesis using h
      by (intro exI [of _ xs] exI [of _ J] exI [of _ Fetching] exI [of _ q]) simp
  next
    case return
    then show ?thesis using h
      by (intro exI [of _ xs] exI [of _ J] exI [of _ Returned] exI [of _ q]) simp
  qed (use h popAct.prems in auto)
qed

text \<open>Of the packets that are queued at its first test, the loop takes only the last.\<close>

lemma pop_discard_loop:
  assumes "popRun ty isSync current ps s (Discarding r, I)" "mQueueInterfaceToDpsim I = q" "last (r # q) = p"
  shows "popRun ty isSync current ps s (Discarding p, I\<lparr>mQueueInterfaceToDpsim := []\<rparr>)"
  using assms
proof (induction q arbitrary: r I)
  case Nil
  then have e: "I\<lparr>mQueueInterfaceToDpsim := []\<rparr> = I" by (cases I) simp
  have "r = p" using Nil.prems(3) by simp
  then show ?case using Nil.prems(1) unfolding e by simp
next
  case (Cons r' q)
  have "popRun ty isSync current ps s (Discarding r', I\<lparr>mQueueInterfaceToDpsim := q\<rparr>)"
    by (rule popAct [OF Cons.prems(1)]) (simp add: popStep_def Cons.prems(2))
  from Cons.IH [OF this] Cons.prems(3) show ?case by simp
qed

text \<open>The states a read can be in before another packet arrives: \<open>J\<close> is the interface with the last packet taken.\<close>

definition overrun_states :: "'v packet \<Rightarrow> 'v intf \<Rightarrow> 'v intf \<Rightarrow> 'v pop_at \<times> 'v intf \<Rightarrow> bool" where
  "overrun_states p I J s \<longleftrightarrow> s = (AtTest, I) \<or> (\<exists>r q. s = (Discarding r, I\<lparr>mQueueInterfaceToDpsim := q\<rparr>) \<and> last (r # q) = p)
     \<or> s = (AtTest, J) \<or> s = (Waiting, J)"

lemma pop_discards:
  assumes "popRun ty isSync current ps s s'" "ps = []" "s = (AtTest, I)" "mQueueInterfaceToDpsim I = qs @ [p]"
    and "takePacket ty p (I\<lparr>mQueueInterfaceToDpsim := []\<rparr>) = ok J"
    and "list_ex (awaited isSync current) (mImportAttrsDpsim I)" "list_ex (awaited isSync current) (mImportAttrsDpsim J)"
  shows "overrun_states p I J s'"
  using assms(1-3)
proof (induction rule: popRun.induct)
  case (popRefl s)
  then show ?case by (simp add: overrun_states_def)
next
  case (popAct ps s s1 s2)
  have qJ: "mQueueInterfaceToDpsim J = []" using takePacket_ok(1) [OF assms(5)] by simp
  obtain pc K where s1: "s1 = (pc, K)" by (cases s1)
  have "overrun_states p I J (pc, K)" using popAct s1 by simp
  then consider "pc = AtTest" "K = I" | r q where "pc = Discarding r" "K = I\<lparr>mQueueInterfaceToDpsim := q\<rparr>" "last (r # q) = p"
    | "pc = AtTest" "K = J" | "pc = Waiting" "K = J" by (auto simp: overrun_states_def)
  then show ?case
  proof cases
    case 1
    obtain r q where q: "mQueueInterfaceToDpsim I = r # q" "last (r # q) = p" using assms(4) by (cases qs) auto
    have "popStep ty isSync current (AtTest, I) = Some (ok (Discarding r, I\<lparr>mQueueInterfaceToDpsim := q\<rparr>))"
      by (simp add: popStep_def q(1) assms(6))
    then have "s2 = (Discarding r, I\<lparr>mQueueInterfaceToDpsim := q\<rparr>)" using popAct.hyps(2) by (simp add: s1 1)
    then show ?thesis unfolding overrun_states_def using q(2) by blast
  next
    case (2 r q)
    show ?thesis
    proof (cases q)
      case Nil
      have "popStep ty isSync current (Discarding r, I\<lparr>mQueueInterfaceToDpsim := []\<rparr>) = Some (ok (AtTest, J))"
        using 2(3) assms(5) by (simp add: popStep_def Nil)
      then have "s2 = (AtTest, J)" using popAct.hyps(2) by (simp add: s1 2(1,2) Nil)
      then show ?thesis unfolding overrun_states_def by blast
    next
      case (Cons r' q')
      have "popStep ty isSync current (Discarding r, I\<lparr>mQueueInterfaceToDpsim := q\<rparr>)
          = Some (ok (Discarding r', I\<lparr>mQueueInterfaceToDpsim := q'\<rparr>))" by (simp add: popStep_def Cons)
      then have "s2 = (Discarding r', I\<lparr>mQueueInterfaceToDpsim := q'\<rparr>)" using popAct.hyps(2) by (simp add: s1 2(1,2))
      moreover have "last (r' # q') = p" using 2(3) Cons by simp
      ultimately show ?thesis unfolding overrun_states_def by blast
    qed
  next
    case 3
    have "popStep ty isSync current (AtTest, J) = Some (ok (Waiting, J))" by (simp add: popStep_def qJ assms(7))
    then have "s2 = (Waiting, J)" using popAct.hyps(2) by (simp add: s1 3)
    then show ?thesis unfolding overrun_states_def by blast
  next
    case 4
    have "popStep ty isSync current (Waiting, J) = None" by (simp add: popStep_def qJ)
    then show ?thesis using popAct.hyps(2) by (simp add: s1 4)
  qed
qed simp

lemma pop_overrun_waits:
  assumes "mQueueInterfaceToDpsim I = qs @ [p]" "takePacket ty p (I\<lparr>mQueueInterfaceToDpsim := []\<rparr>) = ok J"
    and "list_ex (awaited isSync current) (mImportAttrsDpsim I)" "list_ex (awaited isSync current) (mImportAttrsDpsim J)"
  shows "popRun ty isSync current [] (AtTest, I) (Waiting, J)" "popStep ty isSync current (Waiting, J) = None"
proof -
  have qJ: "mQueueInterfaceToDpsim J = []" using takePacket_ok(1) [OF assms(2)] by simp
  obtain r q where q: "mQueueInterfaceToDpsim I = r # q" "last (r # q) = p" using assms(1) by (cases qs) auto
  have "popRun ty isSync current [] (AtTest, I) (Discarding r, I\<lparr>mQueueInterfaceToDpsim := q\<rparr>)"
    by (rule popAct [OF popRefl]) (simp add: popStep_def q(1) assms(3))
  from pop_discard_loop [OF this _ q(2)]
  have "popRun ty isSync current [] (AtTest, I) (Discarding p, I\<lparr>mQueueInterfaceToDpsim := []\<rparr>)" by simp
  then have "popRun ty isSync current [] (AtTest, I) (AtTest, J)"
    by (rule popAct) (simp add: popStep_def assms(2))
  then show "popRun ty isSync current [] (AtTest, I) (Waiting, J)"
    by (rule popAct) (simp add: popStep_def assms(4) qJ)
  show "popStep ty isSync current (Waiting, J) = None" by (simp add: popStep_def qJ)
qed

section \<open>What is written\<close>

definition exportPacket :: "'v export_attr \<Rightarrow> nat \<Rightarrow> uint \<Rightarrow> 'v packet" where
  "exportPacket a i n = \<lparr>packetValue = Some (exportValue a), attributeId = of_nat i, sequenceId = n, packetFlags = PACKET_NO_FLAGS\<rparr>"

lemma push_all:
  fixes I :: "'v intf"
  defines "E \<equiv> mExportAttrsDpsim I" and "c \<equiv> mCurrentSequenceDpsimToInterface I"
  shows "pushDpsimAttrsToQueue I = I\<lparr>mQueueDpsimToInterface := mQueueDpsimToInterface I
       @ map (\<lambda>i. exportPacket (E ! i) i (exportSeq (E ! i))) [0..<length E],
     mExportAttrsDpsim := map (\<lambda>i. (E ! i)\<lparr>exportSeq := c + of_nat i\<rparr>) [0..<length E],
     mCurrentSequenceDpsimToInterface := c + of_nat (length E)\<rparr>"
proof -
  have "fold pushAttr [0..<k] I = I\<lparr>mQueueDpsimToInterface := mQueueDpsimToInterface I
       @ map (\<lambda>i. exportPacket (E ! i) i (exportSeq (E ! i))) [0..<k],
     mExportAttrsDpsim := map (\<lambda>i. if i < k then (E ! i)\<lparr>exportSeq := c + of_nat i\<rparr> else E ! i) [0..<length E],
     mCurrentSequenceDpsimToInterface := c + of_nat k\<rparr>" if "k \<le> length E" for k
    using that
  proof (induction k)
    case 0
    then show ?case by (simp add: E_def c_def map_nth)
  next
    case (Suc k)
    have "(map (\<lambda>i. if i < k then (E ! i)\<lparr>exportSeq := c + of_nat i\<rparr> else E ! i) [0..<length E])[k := (E ! k)\<lparr>exportSeq := c + of_nat k\<rparr>]
        = map (\<lambda>i. if i < Suc k then (E ! i)\<lparr>exportSeq := c + of_nat i\<rparr> else E ! i) [0..<length E]"
      by (rule nth_equalityI) (auto simp: nth_list_update less_Suc_eq)
    then show ?case using Suc by (simp add: pushAttr_def Let_def exportPacket_def)
  qed
  from this [of "length E"] show ?thesis by (simp add: pushDpsimAttrsToQueue_def E_def c_def cong: map_cong)
qed

text \<open>The sequence number of attribute \<open>i\<close> in push \<open>m\<close> of an interface with \<open>n\<close> exports.\<close>

definition sentSeq :: "nat \<Rightarrow> nat \<Rightarrow> nat \<Rightarrow> uint" where
  "sentSeq n m i = (if m = 0 then 0 else of_nat (1 + (m - 1) * n + i))"

lemma push_repeated:
  fixes I :: "'v intf"
  defines "E \<equiv> mExportAttrsDpsim I"
  assumes "\<forall>a\<in>set E. exportSeq a = 0" "mCurrentSequenceDpsimToInterface I = 1" "mQueueDpsimToInterface I = []"
  shows "(pushDpsimAttrsToQueue ^^ m) I = I\<lparr>
     mQueueDpsimToInterface := concat (map (\<lambda>k. map (\<lambda>i. exportPacket (E ! i) i (sentSeq (length E) k i)) [0..<length E]) [0..<m]),
     mExportAttrsDpsim := map (\<lambda>i. (E ! i)\<lparr>exportSeq := sentSeq (length E) m i\<rparr>) [0..<length E],
     mCurrentSequenceDpsimToInterface := of_nat (1 + m * length E)\<rparr>"
proof (induction m)
  case 0
  have "map (\<lambda>i. (E ! i)\<lparr>exportSeq := 0\<rparr>) [0..<length E] = E"
    using assms(2) by (intro nth_equalityI) simp_all
  then show ?case using assms(3,4) by (simp add: sentSeq_def E_def)
next
  case (Suc m)
  have "exportPacket ((E ! i)\<lparr>exportSeq := x\<rparr>) i y = exportPacket (E ! i) i y" for i x y by (simp add: exportPacket_def)
  then show ?case
    using Suc.IH by (simp add: push_all sentSeq_def algebra_simps cong: map_cong)
qed

text \<open>Every call of the worker is offered what the call before left, followed by the packets taken since.\<close>

definition leftBy :: "('v packet list \<times> 'v packet list) list \<Rightarrow> 'v packet list" where
  "leftBy calls = (if calls = [] then [] else snd (last calls))"

definition offers :: "('v packet list \<times> 'v packet list) list \<Rightarrow> 'v packet list list \<Rightarrow> bool" where
  "offers calls news \<longleftrightarrow> length news = length calls
     \<and> (\<forall>i < length calls. fst (calls ! i) = leftBy (take i calls) @ news ! i)"

lemma offers_snoc:
  assumes "offers calls news" "x = leftBy calls @ ys"
  shows "offers (calls @ [(x, y)]) (news @ [ys])"
  using assms by (auto simp: offers_def nth_append less_Suc_eq)

definition writerInv :: "'v packet list \<Rightarrow> ('s, 'v) writer \<times> 'v packet list \<Rightarrow> bool" where
  "writerInv ps = (\<lambda>(w, q). (\<exists>news fresh xs. offers (written w) news \<and> attrsToWrite w = leftBy (written w) @ fresh
     \<and> (writerAt w \<noteq> MorePackets \<longrightarrow> fresh = []) \<and> ps = xs @ q \<and> concat news @ fresh = filter (\<lambda>p. \<not> isClose p) xs
     \<and> (interfaceClosed w \<longleftrightarrow> list_ex isClose xs) \<and> (writerAt w = WriterDone \<longrightarrow> interfaceClosed w)))"

lemma writerInv_collect:
  assumes "writerInv ps (w, p # q)"
  shows "writerInv ps ((collectPacket p w)\<lparr>writerAt := MorePackets\<rparr>, q)"
proof -
  obtain news new xs where h: "offers (written w) news" "attrsToWrite w = leftBy (written w) @ new"
    "ps = xs @ p # q" "concat news @ new = filter (\<lambda>p. \<not> isClose p) xs" "interfaceClosed w \<longleftrightarrow> list_ex isClose xs"
    using assms by (auto simp: writerInv_def)
  show ?thesis unfolding writerInv_def prod.case
    by (intro exI [of _ news] exI [of _ "if isClose p then new else new @ [p]"] exI [of _ "xs @ [p]"])
      (use h in \<open>auto simp: collectPacket_def\<close>)
qed

lemma writerInv_write:
  assumes "writerInv ps (w, q)" "writerAt w = MorePackets"
  shows "writerInv ps (writeOut work w, q)"
proof -
  obtain news new xs where h: "offers (written w) news" "attrsToWrite w = leftBy (written w) @ new"
    "ps = xs @ q" "concat news @ new = filter (\<lambda>p. \<not> isClose p) xs" "interfaceClosed w \<longleftrightarrow> list_ex isClose xs"
    using assms by (auto simp: writerInv_def)
  obtain st left where wk: "work (workerState w) (attrsToWrite w) = (st, left)" by (cases "work (workerState w) (attrsToWrite w)")
  have o: "offers (written w @ [(attrsToWrite w, left)]) (news @ [new])" by (rule offers_snoc [OF h(1,2)])
  have wo: "writeOut work w = w\<lparr>written := written w @ [(attrsToWrite w, left)], attrsToWrite := left, workerState := st,
       writerAt := (if interfaceClosed w then WriterDone else WaitPacket)\<rparr>" by (simp add: writeOut_def wk)
  show ?thesis unfolding writerInv_def prod.case wo
    by (intro exI [of _ "news @ [new]"] exI [of _ "[]"] exI [of _ xs])
      (use h(3-5) o in \<open>simp add: leftBy_def\<close>)
qed

lemma writerRun_inv:
  assumes "writerRun work s0 ps s"
  shows "writerInv ps s"
  using assms
proof (induction rule: writerRun.induct)
  case writerInit
  show ?case unfolding writerInv_def prod.case
    by (intro exI [of _ "[]"]) (simp add: newWriter_def offers_def leftBy_def)
next
  case (writerArrive ps w q p)
  then obtain news new xs where "offers (written w) news" "attrsToWrite w = leftBy (written w) @ new"
    "writerAt w \<noteq> MorePackets \<longrightarrow> new = []" "ps = xs @ q" "concat news @ new = filter (\<lambda>p. \<not> isClose p) xs"
    "interfaceClosed w \<longleftrightarrow> list_ex isClose xs" "writerAt w = WriterDone \<longrightarrow> interfaceClosed w" by (auto simp: writerInv_def)
  then show ?case unfolding writerInv_def prod.case
    by (intro exI [of _ news] exI [of _ new] exI [of _ xs]) simp
next
  case (writerAct ps s s')
  obtain w q where s: "s = (w, q)" by (cases s)
  have inv: "writerInv ps (w, q)" using writerAct.IH s by simp
  show ?case
  proof (cases "writerAt w")
    case WaitPacket
    then obtain p q' where "q = p # q'" "s' = ((collectPacket p w)\<lparr>writerAt := MorePackets\<rparr>, q')"
      using writerAct.hyps(2) by (auto simp: writerStep_def s split: list.splits)
    then show ?thesis using writerInv_collect inv by simp
  next
    case MorePackets
    show ?thesis
    proof (cases q)
      case Nil
      then have "s' = (writeOut work w, q)" using writerAct.hyps(2) MorePackets by (simp add: writerStep_def s)
      then show ?thesis using writerInv_write [OF inv MorePackets] by simp
    next
      case (Cons p q')
      have "(collectPacket p w)\<lparr>writerAt := MorePackets\<rparr> = collectPacket p w" using MorePackets by (simp add: collectPacket_def)
      moreover have "s' = (collectPacket p w, q')" using writerAct.hyps(2) MorePackets Cons by (simp add: writerStep_def s)
      ultimately show ?thesis using writerInv_collect inv Cons by metis
    qed
  next
    case WriterDone
    then show ?thesis using writerAct.hyps(2) by (simp add: writerStep_def s)
  qed
qed

section \<open>The theorems\<close>

text \<open>C17. A read that returns, whatever the reader thread enqueues while it runs.  The reads take some of the packets
  of the queue, in their order, and leave a rest of the queue; every imported attribute has the value of the last
  packet taken for it whose value has its type, and the sequence number of the last packet taken for it; and for every
  attribute the simulation blocks on (at the start: that is synchronised) such a packet was taken during
  the read.  This holds when the sequence numbers of the packets increase from the next expected one and do not
  reach the largest number, and those of the attributes lie below it, as they do before the first read; they then do
  so again before the next read.\<close>

theorem interface_read_waits:
  assumes "popRun ty isSync (mNextSequenceInterfaceToDpsim I) ps (AtTest, I) (Returned, I')"
    and "\<forall>a\<in>set (mImportAttrsDpsim I). importSeq a < mNextSequenceInterfaceToDpsim I"
    and "sorted_wrt (<) (map sequenceId (mQueueInterfaceToDpsim I @ ps))"
    and "\<forall>p\<in>set (mQueueInterfaceToDpsim I @ ps). mNextSequenceInterfaceToDpsim I \<le> sequenceId p \<and> sequenceId p < - 1"
  shows "\<exists>xs zs. subseq xs zs \<and> zs @ mQueueInterfaceToDpsim I' = mQueueInterfaceToDpsim I @ ps
    \<and> length (mImportAttrsDpsim I') = length (mImportAttrsDpsim I)
    \<and> (\<forall>i < length (mImportAttrsDpsim I). let a = mImportAttrsDpsim I ! i in
         mImportAttrsDpsim I' ! i = received ty i xs a
         \<and> ((if isSync then syncOnSimulationStart a else blockOnRead a) \<longrightarrow> packetsFor i xs \<noteq> []))
    \<and> (\<forall>a\<in>set (mImportAttrsDpsim I'). importSeq a < mNextSequenceInterfaceToDpsim I')
    \<and> (\<forall>p\<in>set (mQueueInterfaceToDpsim I'). mNextSequenceInterfaceToDpsim I' \<le> sequenceId p)"
  by (rule pop_awaits [OF assms])

definition demoPacket :: "uint \<Rightarrow> uint \<Rightarrow> real \<Rightarrow> real packet" where
  "demoPacket i n x = \<lparr>packetValue = Some x, attributeId = i, sequenceId = n, packetFlags = PACKET_NO_FLAGS\<rparr>"

definition demoImport :: "uint \<Rightarrow> real \<Rightarrow> real import_attr" where
  "demoImport n x = \<lparr>importValue = x, importSeq = n, blockOnRead = True, syncOnSimulationStart = True\<rparr>"

definition demoIntf :: "real import_attr list \<Rightarrow> uint \<Rightarrow> real packet list \<Rightarrow> real intf" where
  "demoIntf as n q = (newInterface 1)\<lparr>mImportAttrsDpsim := as, mNextSequenceInterfaceToDpsim := n, mQueueInterfaceToDpsim := q\<rparr>"

lemma demo_pop_run:
  "popRun (\<lambda>_. ()) False 1 [demoPacket 0 1 5] (AtTest, demoIntf [demoImport 0 0] 1 [])
     (Returned, demoIntf [demoImport 1 5] 2 [])"
proof -
  note st = popStep_def takePacket_def Let_def demoIntf_def demoImport_def demoPacket_def newInterface_def awaited_def copyOnto_def
  let ?I = "\<lambda>q. demoIntf [demoImport 0 0] 1 q" and ?p = "demoPacket 0 1 5" and ?J = "demoIntf [demoImport 1 5] 2 []"
  have "popRun (\<lambda>_. ()) False 1 [] (AtTest, ?I []) (Waiting, ?I [])"
    by (rule popAct [OF popRefl]) (simp add: st)
  from popArrive [OF this, of ?p] have "popRun (\<lambda>_. ()) False 1 [?p] (AtTest, ?I []) (Waiting, ?I [?p])"
    by (simp add: demoIntf_def)
  then have "popRun (\<lambda>_. ()) False 1 [?p] (AtTest, ?I []) (AtTest, ?J)" by (rule popAct) (simp add: st)
  then have "popRun (\<lambda>_. ()) False 1 [?p] (AtTest, ?I []) (Fetching, ?J)" by (rule popAct) (simp add: st)
  then show ?thesis by (rule popAct) (simp add: st)
qed

theorem interface_read_waits_witness:
  "\<exists>xs. subseq xs [demoPacket 0 1 5] \<and> packetsFor 0 xs \<noteq> []
     \<and> demoImport 1 5 = received (\<lambda>_. ()) 0 xs (demoImport 0 0)"
proof -
  let ?I = "demoIntf [demoImport 0 0] 1 []" and ?I' = "demoIntf [demoImport 1 5] 2 []" and ?ps = "[demoPacket 0 1 5]"
  have n: "mNextSequenceInterfaceToDpsim ?I = 1" "mImportAttrsDpsim ?I = [demoImport 0 0]" "mQueueInterfaceToDpsim ?I = []"
    "mImportAttrsDpsim ?I' = [demoImport 1 5]" "mQueueInterfaceToDpsim ?I' = []" by (simp_all add: demoIntf_def newInterface_def)
  have lt: "(1 :: uint) < - 1" by code_simp
  have h: "\<forall>a\<in>set [demoImport 0 0]. importSeq a < 1" "sorted_wrt (<) (map sequenceId ([] @ ?ps))"
    "\<forall>p\<in>set ([] @ ?ps). 1 \<le> sequenceId p \<and> sequenceId p < - 1"
    using lt by (simp_all add: demoImport_def demoPacket_def)
  obtain xs where xs: "subseq xs [demoPacket 0 1 5]" "\<forall>i < length [demoImport 0 0]. let a = [demoImport 0 0] ! i in
         [demoImport 1 5] ! i = received (\<lambda>_. ()) i xs a \<and> ((if False then syncOnSimulationStart a else blockOnRead a) \<longrightarrow> packetsFor i xs \<noteq> [])"
    using interface_read_waits [of "\<lambda>_. ()" False ?I ?ps ?I', unfolded n, OF demo_pop_run h] by auto
  have "blockOnRead (demoImport 0 0)" by (simp add: demoImport_def)
  then show ?thesis using xs by (intro exI [of _ xs]) simp
qed

text \<open>C18. With two attributes the simulation blocks on, a read on packets that are all queued when it is called
  discards every packet but the last as overrun, also when the others update the other attribute: unless further
  packets arrive, it comes to wait with the queue empty and only the attribute of the last packet changed,
  where it is stuck, and it does not return or come to wait in any other state.\<close>

theorem interface_overrun_loses_updates:
  assumes "i < length (mImportAttrsDpsim I)" "j < length (mImportAttrsDpsim I)" "i \<noteq> j"
    and "awaited isSync current (mImportAttrsDpsim I ! i)" "awaited isSync current (mImportAttrsDpsim I ! j)"
    and "mQueueInterfaceToDpsim I = qs @ [p]" "unat (attributeId p) < length (mImportAttrsDpsim I)"
  shows "\<exists>J. mQueueInterfaceToDpsim J = []
    \<and> mImportAttrsDpsim J = (mImportAttrsDpsim I)[unat (attributeId p) :=
        (copyOnto ty (packetValue p) (mImportAttrsDpsim I ! unat (attributeId p)))\<lparr>importSeq := sequenceId p\<rparr>]
    \<and> popRun ty isSync current [] (AtTest, I) (Waiting, J) \<and> popStep ty isSync current (Waiting, J) = None
    \<and> (\<forall>s. popRun ty isSync current [] (AtTest, I) s \<longrightarrow> fst s \<noteq> Returned \<and> (fst s = Waiting \<longrightarrow> s = (Waiting, J)))"
proof -
  obtain J where J: "takePacket ty p (I\<lparr>mQueueInterfaceToDpsim := []\<rparr>) = ok J" "mQueueInterfaceToDpsim J = []"
    "mImportAttrsDpsim J = (mImportAttrsDpsim I)[unat (attributeId p) :=
        (copyOnto ty (packetValue p) (mImportAttrsDpsim I ! unat (attributeId p)))\<lparr>importSeq := sequenceId p\<rparr>]"
    using assms(7) by (simp add: takePacket_def Let_def)
  have a: "list_ex (awaited isSync current) (mImportAttrsDpsim I)"
    using assms(1,4) by (auto simp: list_ex_iff)
  obtain l where l: "l < length (mImportAttrsDpsim I)" "l \<noteq> unat (attributeId p)" "awaited isSync current (mImportAttrsDpsim I ! l)"
    using assms(1-5) by metis
  then have "mImportAttrsDpsim J ! l = mImportAttrsDpsim I ! l" "l < length (mImportAttrsDpsim J)" using J(3) by simp_all
  then have b: "list_ex (awaited isSync current) (mImportAttrsDpsim J)"
    unfolding list_ex_iff using l(3) by (metis nth_mem)
  have "fst s \<noteq> Returned \<and> (fst s = Waiting \<longrightarrow> s = (Waiting, J))" if "popRun ty isSync current [] (AtTest, I) s" for s
    using pop_discards [OF that refl refl assms(6) J(1) a b] by (auto simp: overrun_states_def)
  then show ?thesis using J(2,3) pop_overrun_waits [OF assms(6) J(1) a b] by blast
qed

theorem interface_overrun_loses_updates_witness:
  "\<exists>J. mQueueInterfaceToDpsim J = [] \<and> mImportAttrsDpsim J = [demoImport 0 0, demoImport 2 6]
     \<and> popRun (\<lambda>_. ()) False 1 [] (AtTest, demoIntf [demoImport 0 0, demoImport 0 0] 1 [demoPacket 0 1 5, demoPacket 1 2 6]) (Waiting, J)"
proof -
  let ?I = "demoIntf [demoImport 0 0, demoImport 0 0] 1 [demoPacket 0 1 5, demoPacket 1 2 6]"
  have q: "mQueueInterfaceToDpsim ?I = [demoPacket 0 1 5] @ [demoPacket 1 2 6]" by (simp add: demoIntf_def)
  have m: "mImportAttrsDpsim ?I = [demoImport 0 0, demoImport 0 0]" by (simp add: demoIntf_def)
  have "unat (attributeId (demoPacket 1 2 6)) = 1" by (simp add: demoPacket_def)
  moreover have "(copyOnto (\<lambda>_. ()) (packetValue (demoPacket 1 2 6)) (demoImport 0 0))\<lparr>importSeq := sequenceId (demoPacket 1 2 6)\<rparr>
      = demoImport 2 6" by (simp add: copyOnto_def demoPacket_def demoImport_def)
  moreover have "awaited False 1 (demoImport 0 0)" by (simp add: awaited_def demoImport_def)
  ultimately show ?thesis
    using interface_overrun_loses_updates [of 0 ?I 1 False 1 "[demoPacket 0 1 5]" "demoPacket 1 2 6" "\<lambda>_. ()", OF _ _ _ _ _ q]
    unfolding m by auto
qed

text \<open>Without an attribute to wait for, \<open>popDpsimAttrsFromQueue\<close> takes the packets in the order of the queue and loses
  none: when it returns, the imported attributes are what the packets it took make of them, one after the other, and
  the others are still queued.\<close>

theorem interface_read_in_order:
  assumes "popRun ty isSync current ps (AtTest, I) (Returned, I')" "\<not> list_ex (awaited isSync current) (mImportAttrsDpsim I)"
  shows "\<exists>xs J. xs @ mQueueInterfaceToDpsim I' = mQueueInterfaceToDpsim I @ ps \<and> foldE (takePacket ty) xs I = ok J
    \<and> mImportAttrsDpsim I' = mImportAttrsDpsim J"
  using pop_fetches [OF assms(1) refl assms(2)] by auto

theorem interface_read_in_order_witness:
  "\<exists>xs J. xs = ([] :: real packet list) \<and> foldE (takePacket (\<lambda>_. ())) xs (demoIntf [demoImport 3 7] 1 []) = ok J
     \<and> mImportAttrsDpsim J = [demoImport 3 7]"
proof -
  note st = popStep_def Let_def demoIntf_def demoImport_def newInterface_def awaited_def
  let ?I = "demoIntf [demoImport 3 7] 1 []"
  have a: "\<not> list_ex (awaited False 1) (mImportAttrsDpsim ?I)" by (simp add: st)
  have "popRun (\<lambda>_. ()) False 1 [] (AtTest, ?I) (Fetching, ?I)" by (rule popAct [OF popRefl]) (simp add: st)
  then have "popRun (\<lambda>_. ()) False 1 [] (AtTest, ?I) (Returned, ?I)" by (rule popAct) (simp add: st)
  from interface_read_in_order [OF this a] show ?thesis by (auto simp: demoIntf_def newInterface_def)
qed

text \<open>The packets of an interface whose exports have not been sent before, after any number of pushes: one packet for
  each export in every push, in the order of the exports.  The first packets of all exports have the sequence number
  0; after that the numbers count up, modulo the width of the type, one push behind the counter of the interface.\<close>

theorem interface_push_numbers:
  fixes I :: "'v intf"
  defines "E \<equiv> mExportAttrsDpsim I"
  assumes "\<forall>a\<in>set E. exportSeq a = 0" "mCurrentSequenceDpsimToInterface I = 1" "mQueueDpsimToInterface I = []"
  shows "mQueueDpsimToInterface ((pushDpsimAttrsToQueue ^^ m) I)
    = concat (map (\<lambda>k. map (\<lambda>i. exportPacket (E ! i) i (sentSeq (length E) k i)) [0..<length E]) [0..<m])"
  unfolding E_def using push_repeated [OF assms(2-4) [unfolded E_def], of m] by simp

theorem interface_push_numbers_witness:
  "map sequenceId (mQueueDpsimToInterface ((pushDpsimAttrsToQueue ^^ 3)
     ((newInterface 1)\<lparr>mExportAttrsDpsim := [\<lparr>exportValue = (5::real), exportSeq = 0\<rparr>, \<lparr>exportValue = 6, exportSeq = 0\<rparr>]\<rparr>)))
   = [0, 0, 1, 2, 3, 4]"
  by (subst interface_push_numbers)
    (simp_all add: newInterface_def sentSeq_def exportPacket_def upt_rec numeral_eq_Suc)

text \<open>C19. Whenever packets are enqueued, and whatever the worker with its state does to its list: every packet that the
  writer thread takes from the queue, but for those that close the interface, is offered to the worker in the next
  call, in the order of the queue, after what the call before has left in the list, and nothing else is.  The thread
  ends only after it has taken a close packet, with no packet taken that was not offered.\<close>

theorem interface_write_order:
  assumes "writerRun work s0 ps (w, q)"
  shows "\<exists>news fresh xs. length news = length (written w)
    \<and> (\<forall>i < length news. fst (written w ! i) = (if i = 0 then [] else snd (written w ! (i - 1))) @ news ! i)
    \<and> ps = xs @ q \<and> concat news @ fresh = filter (\<lambda>p. \<not> isClose p) xs
    \<and> (writerAt w \<noteq> MorePackets \<longrightarrow> fresh = []) \<and> (writerAt w = WriterDone \<longrightarrow> list_ex isClose xs)"
proof -
  obtain news new xs where h: "offers (written w) news" "writerAt w \<noteq> MorePackets \<longrightarrow> new = []" "ps = xs @ q"
    "concat news @ new = filter (\<lambda>p. \<not> isClose p) xs" "writerAt w = WriterDone \<longrightarrow> list_ex isClose xs"
    using writerRun_inv [OF assms] by (auto simp: writerInv_def)
  have "leftBy (take i (written w)) = (if i = 0 then [] else snd (written w ! (i - 1)))" if "i < length (written w)" for i
    using that by (auto simp: leftBy_def last_conv_nth)
  then show ?thesis using h by (intro exI [of _ news] exI [of _ new] exI [of _ xs]) (simp add: offers_def)
qed

text \<open>A worker that counts its calls and keeps the last packet of its list for the next call.\<close>

definition demoWorker :: "(nat, real) worker" where
  "demoWorker n ps = (n + 1, if ps = [] then [] else [last ps])"

theorem interface_write_order_witness:
  "\<exists>w :: (nat, real) writer. writerRun demoWorker 0 [demoPacket 0 0 5, closePacket] (w, []) \<and> writerAt w = WriterDone
     \<and> written w = [([demoPacket 0 0 5], [demoPacket 0 0 5]), ([demoPacket 0 0 5], [demoPacket 0 0 5])]
     \<and> (\<exists>news. length news = 2 \<and> concat news = [demoPacket 0 0 5])"
proof -
  let ?p = "demoPacket 0 0 5"
  let ?w = "\<lambda>pc as c n wr. \<lparr>writerAt = pc, attrsToWrite = as, interfaceClosed = c, workerState = n, written = wr\<rparr> :: (nat, real) writer"
  note st = writerStep_def collectPacket_def writeOut_def isClose_def demoPacket_def closePacket_def PACKET_NO_FLAGS_def
    PACKET_CLOSE_INTERFACE_def demoWorker_def
  let ?run = "writerRun demoWorker 0"
  have "?run [] (?w WaitPacket [] False 0 [], [])" using writerInit [of demoWorker 0] by (simp add: newWriter_def)
  from writerArrive [OF this, of ?p] have "?run [?p] (?w WaitPacket [] False 0 [], [?p])" by simp
  then have "?run [?p] (?w MorePackets [?p] False 0 [], [])" by (rule writerAct) (simp add: st)
  then have "?run [?p] (?w WaitPacket [?p] False 1 [([?p], [?p])], [])" by (rule writerAct) (simp add: st)
  from writerArrive [OF this, of closePacket]
  have "?run [?p, closePacket] (?w WaitPacket [?p] False 1 [([?p], [?p])], [closePacket])" by simp
  then have "?run [?p, closePacket] (?w MorePackets [?p] True 1 [([?p], [?p])], [])" by (rule writerAct) (simp add: st)
  then have r: "?run [?p, closePacket] (?w WriterDone [?p] True 2 [([?p], [?p]), ([?p], [?p])], [])"
    by (rule writerAct) (simp add: st)
  have "\<not> isClose ?p" "isClose (closePacket :: real packet)" by (simp_all add: st)
  then have f: "filter (\<lambda>p. \<not> isClose p) [?p, closePacket] = [?p]" by simp
  obtain news fresh xs where n: "length news = length [([?p], [?p]), ([?p], [?p])]" "[?p, closePacket] = xs @ []"
    "concat news @ fresh = filter (\<lambda>p. \<not> isClose p) xs" "WriterDone \<noteq> MorePackets \<longrightarrow> fresh = []"
    using interface_write_order [OF r] by (simp only: writer.simps) blast
  have "length news = 2" using n(1) by simp
  moreover have "concat news = [?p]" using n(2-4) f by simp
  ultimately have "\<exists>news. length news = 2 \<and> concat news = [?p]" by blast
  then show ?thesis using r
    by (intro exI [of _ "?w WriterDone [?p] True 2 [([?p], [?p]), ([?p], [?p])]"]) simp
qed

text \<open>C27. The task that reads the imported attributes is scheduled only when some task depends on one of them: an
  import that no scheduled task reads, and that no task needs from the step before, is never read from its queue.\<close>

theorem interface_unused_import_not_read:
  assumes "simSchedule gd ts = ok s" "i < length ts" "ts ! i = readTask name imports" "external \<notin> set imports"
    and "\<forall>x\<in>set imports. \<forall>t\<in>set ts. x \<notin> set (dep_attrs gd t) \<and> x \<notin> set (mPrevStepDependencies t)"
  shows "i \<notin> set s"
proof
  assume "i \<in> set s"
  from simSchedule_facts(7) [OF assms(1) this] obtain x where x: "x \<in> set imports"
    "x = external \<or> (\<exists>k\<in>set s. x \<in> set (dep_attrs gd (ts ! k))) \<or> (\<exists>k < length ts. x \<in> set (mPrevStepDependencies (ts ! k)))"
    by (auto simp: assms(3) readTask_def mkTask_def)
  have "k < length ts" if "k \<in> set s" for k using simSchedule_facts(2) [OF assms(1)] that by auto
  then show False using x assms(4,5) by (meson nth_mem)
qed

theorem interface_unused_import_not_read_witness:
  "simSchedule (\<lambda>a. [a]) [readTask ''intf'' [Some 3], logTask ''mna''] = ok [1] \<and> 0 \<notin> set [1 :: nat]"
proof -
  have s: "simSchedule (\<lambda>a. [a]) [readTask ''intf'' [Some 3], logTask ''mna''] = ok [1]" by code_simp
  show ?thesis
    using s interface_unused_import_not_read [OF s, of 0 "''intf''" "[Some 3]"]
    by (simp add: readTask_def logTask_def mkTask_def dep_attrs_def external_def attrRef_def)
qed

end
