(* ===== verification/EmtSteady.thy ===== *)
theory EmtSteady
  imports EmtRun EmtTypes
begin

text \<open>\<open>MnaSolver::steadyStateInitialization\<close> of dpsim/src/MNASolver.cpp: before the simulation starts, the tasks of the
  solver run until the solution no longer changes.  The loop is modelled for any tasks, then run with the
  tasks of an EMT network.\<close>

section \<open>The loop\<close>

text \<open>\<open>lpNorm<Infinity>\<close> of a column.\<close>

definition infNorm :: "real matrix \<Rightarrow> real" where
  "infNorm M = fold (\<lambda>i m. max m \<bar>ent M i 0\<bar>) [0..<mrows M] 0"

text \<open>\<open>maxDiff / max < mSteadStIniAccLimit\<close>: with \<open>max\<close> 0 the quotient is infinite or not a number.\<close>

definition settledWithin :: "real \<Rightarrow> real matrix \<Rightarrow> real matrix \<Rightarrow> bool" where
  "settledWithin acc prev left \<longleftrightarrow> infNorm left \<noteq> 0 \<and> infNorm (mat_sub prev left) / infNorm left < acc"

text \<open>Subtracting vectors of different lengths is undefined, as is counting steps past the largest \<open>int\<close>.\<close>

partial_function (option) steadyLoop :: "('x, 'f) mna_direct sched_step \<Rightarrow> real \<Rightarrow> real \<Rightarrow> real \<Rightarrow> real \<Rightarrow> int
    \<Rightarrow> real matrix \<Rightarrow> ('x, 'f) mna_direct \<Rightarrow> (error + ('x, 'f) mna_direct) option" where
  "steadyLoop step timeLimit acc dt time timeStepCount prev S = (if time < timeLimit
     then Option.bind (step time timeStepCount (S\<lparr>mRightSideVector := setZero (mRightSideVector S)\<rparr>)) (\<lambda>r. case r of
       Inl e \<Rightarrow> Some (throw e)
     | Inr S1 \<Rightarrow> if timeStepCount + 1 < 2 ^ 31 \<and> mrows prev = mrows (mLeftSideVector S1) \<and> mcols prev = mcols (mLeftSideVector S1)
         then if settledWithin acc prev (mLeftSideVector S1) then Some (ok S1)
           else steadyLoop step timeLimit acc dt (time + dt) (timeStepCount + 1) (mLeftSideVector S1) S1
         else Some (throw UndefinedBehaviour))
     else Some (ok S))"

text \<open>The tasks, without the switches and the log tasks.\<close>

definition steadyTasks :: "(nat \<Rightarrow> solver_task list) \<Rightarrow> (nat \<Rightarrow> solver_task list) \<Rightarrow> (nat \<Rightarrow> solver_task list)
    \<Rightarrow> mna_solver \<Rightarrow> solver_task list" where
  "steadyTasks ct nt st L = concat (map nt (mSimNodes L)) @ concat (map ct (mMNAComponents L))
     @ concat (map st (mSimSignalComps L)) @ [SolveTask]"

definition emtSteadyTasks :: "(emt_ext, 'f) mna_direct \<Rightarrow> solver_task list" where
  "emtSteadyTasks S = steadyTasks (compTasks (objs S)) (\<lambda>_. []) (\<lambda>_. []) (mnaBase S)"

definition emtSteadyTable :: "string \<Rightarrow> (emt_ext, 'f) mna_direct \<Rightarrow> task list" where
  "emtSteadyTable name S = map (taskObject name (\<lambda>_. Root) [] S) (emtSteadyTasks S)"

text \<open>The previous solution starts as a zero vector of two rows for every node.\<close>

definition steadyStateInitialization :: "(attr_ref \<Rightarrow> attr_ref list) \<Rightarrow> string \<Rightarrow> topology
    \<Rightarrow> (nat \<Rightarrow> nat \<Rightarrow> real matrix \<Rightarrow> real matrix) \<Rightarrow> 'f direct_solver \<Rightarrow> real \<Rightarrow> real
    \<Rightarrow> (emt_ext, 'f) mna_direct \<Rightarrow> (error + (emt_ext, 'f) mna_direct) option" where
  "steadyStateInitialization gd name T rh D timeLimit acc S =
     (case initializeSystem emt_methods T rh D S of Inl e \<Rightarrow> Some (throw e) | Inr S1 \<Rightarrow>
      (case simSchedule gd (emtSteadyTable name S1) of Inl e \<Rightarrow> Some (throw e) | Inr s \<Rightarrow>
        map_option (\<lambda>r. bind_err r (\<lambda>S2. ok (S2\<lparr>mRightSideVector := setZero (mRightSideVector S2)\<rparr>)))
          (steadyLoop (\<lambda>time c. runTasks D time (map ((!) (emtSteadyTasks S1)) s)) timeLimit acc (mTimeStep S1) 0 0
            (zeros (2 * mNumNodes (mnaBase S1)) 1) S1)))"

section \<open>The loop ends\<close>

lemma steadyLoop_returns:
  assumes "\<forall>time c S. P S \<longrightarrow> (\<exists>r. step time c S = Some r \<and> (\<forall>S'. r = ok S' \<longrightarrow> P S'))"
    and "\<forall>S. P S \<longrightarrow> P (S\<lparr>mRightSideVector := setZero (mRightSideVector S)\<rparr>)" "dt > 0" "P S"
  shows "\<exists>r. steadyLoop step timeLimit acc dt time c prev S = Some r"
  using assms(4)
proof (induction "nat \<lceil>(timeLimit - time) / dt\<rceil>" arbitrary: time c prev S)
  case 0
  then have "\<not> time < timeLimit" using assms(3) by (auto simp: divide_le_0_iff ceiling_le_zero not_less)
  then show ?case by (subst steadyLoop.simps) simp
next
  case (Suc n)
  have less: "n = nat \<lceil>(timeLimit - (time + dt)) / dt\<rceil>"
  proof -
    have "(timeLimit - (time + dt)) / dt = (timeLimit - time) / dt - 1" using assms(3) by (simp add: field_simps)
    then show ?thesis using Suc.hyps(2) by (simp add: ceiling_diff_one)
  qed
  obtain r where r: "step time c (S\<lparr>mRightSideVector := setZero (mRightSideVector S)\<rparr>) = Some r" "\<forall>S'. r = ok S' \<longrightarrow> P S'"
    using assms(1,2) Suc.prems by blast
  show ?case
  proof (cases r)
    case (Inl e)
    then show ?thesis using r(1) by (subst steadyLoop.simps) simp
  next
    case (Inr S1)
    then have "\<exists>r. steadyLoop step timeLimit acc dt (time + dt) (c + 1) (mLeftSideVector S1) S1 = Some r"
      using Suc.hyps(1) [OF less] r(2) by blast
    then show ?thesis using r(1) Inr by (subst steadyLoop.simps) auto
  qed
qed

section \<open>The length of the solution\<close>

text \<open>The first comparison is of a vector of two rows per node with the solution.\<close>

lemma steadyLoop_rows:
  assumes "steadyLoop step timeLimit acc dt time c prev S = Some (ok S')" "time < timeLimit"
    and "\<forall>S1. step time c (S\<lparr>mRightSideVector := setZero (mRightSideVector S)\<rparr>) = Some (ok S1) \<longrightarrow> mrows (mLeftSideVector S1) = k"
  shows "mrows prev = k"
  using assms by (subst (asm) steadyLoop.simps) (auto split: sum.splits if_splits Option.bind_splits)

definition sized :: "nat \<Rightarrow> (emt_ext, 'f) mna_direct \<Rightarrow> bool" where
  "sized k S \<longleftrightarrow> mrows (mLeftSideVector S) = k \<and> mrows (mRightSideVector S) = k \<and> mSyncGen (mnaBase S) = []"

lemma emtRightStamp_rows:
  assumes "emtRightStamp p (W, b) = ok (W', b')"
  shows "mrows b' = mrows b"
proof -
  obtain H X where W: "W = (H, X)" by (cases W)
  show ?thesis
    using assms by (cases "model (X p)") (auto simp: emtRightStamp_def W Let_def class_right setVectorElementR_def)
qed

lemma rightStamps_rows:
  "foldE (emtRightStamp) ps (W, b) = ok (W', b') \<Longrightarrow> mrows b' = mrows b"
  by (rule foldE_invariant [of emtRightStamp ps "(W, b)" "(W', b')" "\<lambda>s. mrows (snd s) = mrows b", simplified])
    (auto dest: emtRightStamp_rows)

lemma initializeSystem_sized:
  assumes "initializeSystem emt_methods T rh D S = ok S1" "sized k S" "\<not> mFrequencyParallel (mnaBase S)"
    "\<not> mSystemMatrixRecomputationEnabled (mnaBase S)"
  shows "sized k S1 \<and> mnaBase S1 = mnaBase S"
proof -
  let ?S = "S\<lparr>mRightSideVector := setZero (mRightSideVector S)\<rparr>"
  let ?I = "\<lambda>S1. sized k S1 \<and> mnaBase S1 = mnaBase S"
  have e: "?I s'" if "switchedMatrixEmpty i s = ok s'" "?I s" for i and s s' :: "(emt_ext, 'f) mna_direct"
    using that by (auto simp: switchedMatrixEmpty_def emptyAt_def Let_def sized_def)
  have st: "?I s'" if "switchedMatrixStamp emt_methods D i s = ok s'" "?I s" for i s s'
    using that by (auto simp: switchedMatrixStamp_def Let_def sized_def)
  have r: "?I s'" if i: "initRightSide emt_methods s = ok s'" and I: "?I s" for s s' :: "(emt_ext, 'f) mna_direct"
  proof -
    obtain W b where Wb: "foldE emtRightStamp (mMNAComponents (mnaBase s)) (objs s, mRightSideVector s) = ok (W, b)"
      "s' = s\<lparr>objs := W, mRightSideVector := b\<rparr>"
      using i by (auto simp: initRightSide_def)
    then show ?thesis using I rightStamps_rows [OF Wb(1)] by (auto simp: sized_def)
  qed
  have u: "?I (updateSwitchStatus emt_methods s)" if "?I s" for s
    using that by (auto simp: updateSwitchStatus_def sized_def)
  have S: "?I ?S" using assms(2) by (simp add: sized_def setZero_def)
  have pre: "initializeSystemWithPrecomputedMatrices emt_methods D ?S = ok S1"
    using assms(1,3,4) by (simp add: initializeSystem_def Let_def split: if_splits)
  obtain n S2 S3 where n: "foldE switchedMatrixEmpty [0..<n] ?S = ok S2"
    "(if length (mSwitches (mnaBase S2)) < 1 then switchedMatrixStamp emt_methods D 0 S2
      else bind_err (foldE (switchedMatrixStamp emt_methods D) [0..<n] S2) (\<lambda>S2. ok (updateSwitchStatus emt_methods S2))) = ok S3"
    "initRightSide emt_methods S3 = ok S1"
    using pre unfolding initializeSystemWithPrecomputedMatrices_def bind_err_eq_Inr by blast
  have "?I S2" by (rule foldE_invariant [OF n(1), of ?I, OF S]) (use e in blast)
  then have S2: "?I S2" .
  have "?I S3"
  proof (cases "length (mSwitches (mnaBase S2)) < 1")
    case True
    then show ?thesis using n(2) st [OF _ S2] by simp
  next
    case False
    then obtain x where x: "foldE (switchedMatrixStamp emt_methods D) [0..<n] S2 = ok x" "S3 = updateSwitchStatus emt_methods x"
      using n(2) by auto
    have "?I x" by (rule foldE_invariant [OF x(1), of ?I, OF S2]) (use st in blast)
    then show ?thesis unfolding x(2) by (rule u)
  qed
  then show ?thesis using r n(3) by blast
qed

lemma execTask_sized:
  assumes "execTask D time t S = Some (ok S')" "sized k S" "t \<noteq> RecompTask" "\<forall>f b. mrows b = k \<longrightarrow> mrows (lusolve D f b) = k"
  shows "sized k S'"
proof -
  have add: "mrows (fold (\<lambda>p b. mat_add b (g p)) ps b) = mrows b" for g :: "nat \<Rightarrow> real matrix" and ps b
    by (induction ps arbitrary: b) (simp_all add: mat_add_def)
  have rhs: "sized k (switchStep emt_methods (sumRightVectors emt_methods S))"
    using assms(2) by (simp add: sized_def switchStep_def updateSwitchStatus_def sumRightVectors_def add setZero_def)
  have cur: "sized k S2" if "solveCurrent D S1 = ok S2" "sized k S1" for S1 S2 :: "(emt_ext, 'a) mna_direct"
    using that assms(4) by (auto simp: solveCurrent_def sized_def split: if_splits)
  have nodes: "sized k S2" if "updateNodes S1 = ok S2" "sized k S1" for S1 S2 :: "(emt_ext, 'a) mna_direct"
    using that by (auto simp: updateNodes_def sized_def)
  show ?thesis
  proof (cases t)
    case (CompTask m p)
    then show ?thesis using assms(1,2) by (cases m) (auto simp: execTask_def sized_def)
  next
    case SolveTask
    have "solve emt_methods D S = Some (ok S')" using assms(1) by (simp add: execTask_def SolveTask)
    then obtain S1 where S1: "solveCurrent D (switchStep emt_methods (sumRightVectors emt_methods S)) = ok S1"
      "updateNodes ((updateGens emt_methods S1)\<lparr>mIter := 0,
         mSystemMatrixChanged := mCurrentSwitchStatus S1 \<noteq> mCurrentSwitchStatus S\<rparr>) = ok S'"
      using cur [OF _ rhs]
      by (cases "solveCurrent D (switchStep emt_methods (sumRightVectors emt_methods S))")
        (auto simp: solve_def Let_def updateGens_def sized_def)
    have "sized k S1" by (rule cur [OF S1(1) rhs])
    then show ?thesis by (intro nodes [OF S1(2)]) (simp add: sized_def updateGens_def)
  qed (use assms in \<open>simp_all add: execTask_def\<close>)
qed

lemma runTasks_sized:
  assumes "runTasks D time ts S = Some (ok S')" "sized k S" "RecompTask \<notin> set ts" "\<forall>f b. mrows b = k \<longrightarrow> mrows (lusolve D f b) = k"
  shows "sized k S'"
  using assms(1-3)
proof (induction ts arbitrary: S)
  case (Cons t ts)
  obtain S1 where S1: "execTask D time t S = Some (ok S1)" "runTasks D time ts S1 = Some (ok S')"
    using Cons.prems(1) by (auto split: option.splits sum.splits)
  have "sized k S1" by (rule execTask_sized [OF S1(1)]) (use Cons.prems assms(4) in auto)
  then show ?case using Cons.IH [OF S1(2)] Cons.prems(3) by simp
qed simp

lemma recomp_not_steady: "RecompTask \<notin> set (emtSteadyTasks S)"
  by (auto simp: emtSteadyTasks_def steadyTasks_def compTasks_def)

section \<open>What is run\<close>

text \<open>Without a task that has an effect outside or on the next step, nothing is scheduled.\<close>

lemma simSchedule_empty:
  assumes "simSchedule gd ts = ok s" "\<forall>t\<in>set ts. external \<notin> set (mModifiedAttributes t) \<and> mPrevStepDependencies t = []"
  shows "s = []"
proof (rule ccontr)
  assume "s \<noteq> []"
  then have l: "last s \<in> set s" by simp
  note f = simSchedule_facts [OF assms(1)]
  have len: "k < length ts" if "k \<in> set s" for k using f(2) that by auto
  obtain x where x: "x \<in> set (mModifiedAttributes (ts ! last s))" "x = external \<or> (\<exists>k\<in>set s. x \<in> set (dep_attrs gd (ts ! k)))
      \<or> (\<exists>k < length ts. x \<in> set (mPrevStepDependencies (ts ! k)))"
    using f(7) [OF l] by blast
  have "x \<noteq> external" "\<forall>k < length ts. mPrevStepDependencies (ts ! k) = []" using assms(2) x(1) len [OF l] by (auto simp: nth_mem)
  then obtain k where "k \<in> set s" "x \<in> set (dep_attrs gd (ts ! k))" using x(2) by auto
  then obtain j where j: "j < length s" "x \<in> set (dep_attrs gd (ts ! (s ! j)))" by (auto simp: in_set_conv_nth)
  have m: "last s \<in> set (take j s)" by (rule f(3) [OF len [OF l] j(1) x(1) j(2)])
  then obtain i where "i < j" "s ! i = last s" by (auto simp: in_set_conv_nth)
  moreover have "last s = s ! (length s - 1)" using \<open>s \<noteq> []\<close> by (simp add: last_conv_nth)
  ultimately show False using f(1) j(1) nth_eq_iff_index_eq [of s i "length s - 1"] by simp
qed

section \<open>The theorems\<close>

text \<open>With a positive time step the loop of the steady-state initialisation ends, whatever the tasks compute: when
  every step returns, the loop returns.\<close>

theorem steady_state_ends:
  assumes "\<forall>time c S. step time c S \<noteq> None" "dt > 0"
  shows "steadyLoop step timeLimit acc dt time c prev S \<noteq> None"
  using steadyLoop_returns [of "\<lambda>_. True" step dt S timeLimit acc time c prev] assms by auto

theorem steady_state_ends_witness:
  "steadyLoop (\<lambda>time c S. Some (ok S)) 10 1 1 0 0 (zeros 2 1) (undefined :: (emt_ext, real matrix) mna_direct) \<noteq> None"
  by (rule steady_state_ends) simp_all

text \<open>C33. The steady-state initialisation of an EMT network fails when the system has not two rows per node (a network of
  single-phase nodes has one).  For a positive time limit, without synchronous generators, frequency-parallel
  solution and recomputation of the matrix, and with a linear solver that returns as many rows as it is given: unless
  initialising the system, scheduling or running the tasks once fails before, the first pass of the loop subtracts the
  solution from a vector of two rows per node, which has another length, and this is undefined.\<close>

theorem steady_state_emt_fails:
  assumes "mrows (mLeftSideVector S) = k" "mrows (mRightSideVector S) = k" "2 * mNumNodes (mnaBase S) \<noteq> k" "0 < timeLimit"
    and "mSyncGen (mnaBase S) = []" "\<not> mFrequencyParallel (mnaBase S)" "\<not> mSystemMatrixRecomputationEnabled (mnaBase S)"
    and "\<forall>f b. mrows b = k \<longrightarrow> mrows (lusolve D f b) = k"
  shows "case initializeSystem emt_methods T rh D S of
      Inl e \<Rightarrow> steadyStateInitialization gd name T rh D timeLimit acc S = Some (throw e)
    | Inr S1 \<Rightarrow> (case simSchedule gd (emtSteadyTable name S1) of
        Inl e \<Rightarrow> steadyStateInitialization gd name T rh D timeLimit acc S = Some (throw e)
      | Inr s \<Rightarrow> (case runTasks D 0 (map ((!) (emtSteadyTasks S1)) s) (S1\<lparr>mRightSideVector := setZero (mRightSideVector S1)\<rparr>) of
          None \<Rightarrow> steadyStateInitialization gd name T rh D timeLimit acc S = None
        | Some (Inl e) \<Rightarrow> steadyStateInitialization gd name T rh D timeLimit acc S = Some (throw e)
        | Some (Inr S2) \<Rightarrow> mrows (mLeftSideVector S2) = k \<and> mrows (zeros (2 * mNumNodes (mnaBase S1)) 1) \<noteq> k
            \<and> steadyStateInitialization gd name T rh D timeLimit acc S = Some (throw UndefinedBehaviour)))"
proof (cases "initializeSystem emt_methods T rh D S")
  case (Inl e)
  then show ?thesis by (simp add: steadyStateInitialization_def)
next
  case S1: (Inr S1)
  have sz: "sized k S1" "mnaBase S1 = mnaBase S"
    using initializeSystem_sized [OF S1] assms(1,2,5-7) by (simp_all add: sized_def)
  show ?thesis
  proof (cases "simSchedule gd (emtSteadyTable name S1)")
    case (Inl e)
    then show ?thesis using S1 by (simp add: steadyStateInitialization_def)
  next
    case s: (Inr s)
    let ?ts = "map ((!) (emtSteadyTasks S1)) s" and ?S0 = "S1\<lparr>mRightSideVector := setZero (mRightSideVector S1)\<rparr>"
    have "i < length (emtSteadyTasks S1)" if "i \<in> set s" for i
      using simSchedule_facts(2) [OF s] that by (auto simp: emtSteadyTable_def)
    then have "set ?ts \<subseteq> set (emtSteadyTasks S1)" by auto
    then have nr: "RecompTask \<notin> set ?ts" using recomp_not_steady [of S1] by blast
    have len: "mrows (zeros (2 * mNumNodes (mnaBase S1)) 1) \<noteq> k" using assms(3) sz(2) by (simp add: zeros_def)
    have left: "mrows (mLeftSideVector S2) = k" if "runTasks D 0 ?ts ?S0 = Some (ok S2)" for S2
    proof -
      have "sized k S2" by (rule runTasks_sized [OF that _ nr assms(8)]) (use sz(1) in \<open>simp add: sized_def setZero_def\<close>)
      then show ?thesis by (simp add: sized_def)
    qed
    have run: "steadyStateInitialization gd name T rh D timeLimit acc S = (case runTasks D 0 ?ts ?S0 of
        None \<Rightarrow> None | Some (Inl e) \<Rightarrow> Some (throw e) | Some (Inr S2) \<Rightarrow> Some (throw UndefinedBehaviour))"
      unfolding steadyStateInitialization_def S1 s sum.case
      by (subst steadyLoop.simps) (use assms(4) len left in \<open>auto split: option.split sum.split\<close>)
    show ?thesis unfolding S1 s sum.case run using len left by (auto split: option.split sum.split)
  qed
qed

text \<open>The example network: its system has two rows, and two nodes.\<close>

definition exSteady :: "(emt_ext, real matrix) mna_direct" where
  "exSteady = exInit\<lparr>mnaBase := exSolver\<lparr>mNumMatrixNodeIndices := 2, mNumNodes := 2\<rparr>\<rparr>"

lemma ex_steady_initialised: "emtInitialised 1 2 exSteady"
  using ex_initialised
  by (simp add: emtInitialised_def emtComponents_def stampsOk_def exSteady_def exInit_def Let_def)

lemma ex_steady_schedule:
  assumes "\<forall>p. mMnaTasks (snd (objs S) p) = []" "mSimNodes (mnaBase S) = []" "mSimSignalComps (mnaBase S) = []"
  shows "\<exists>s. simSchedule (\<lambda>a. [a]) (emtSteadyTable name S) = ok s"
    "simSchedule (\<lambda>a. [a]) (emtSteadyTable name S) = ok s \<Longrightarrow> s = []"
proof -
  have "concat (map (compTasks (objs S)) ps) = []" for ps using assms(1) by (simp add: compTasks_def)
  then have t: "emtSteadyTable name S = [solveTask name S]"
    using assms(2,3) by (simp add: emtSteadyTable_def emtSteadyTasks_def steadyTasks_def taskObject_def)
  have m: "mModifiedAttributes (solveTask name S) = [attrRef LeftVector]" using assms(2) by (simp add: task_attrs)
  have d: "attrRef LeftVector \<notin> set (dep_attrs (\<lambda>a. [a]) (solveTask name S))"
    by (auto simp: dep_attrs_def task_attrs rightVectors_def)
  show "\<exists>s. simSchedule (\<lambda>a. [a]) (emtSteadyTable name S) = ok s"
    by (rule simSchedule_exists [where f = "\<lambda>_. 0"]) (use d in \<open>auto simp: t m\<close>)
  show "s = []" if "simSchedule (\<lambda>a. [a]) (emtSteadyTable name S) = ok s"
    by (rule simSchedule_empty [OF that]) (simp add: t m, simp add: solveTask_def mkTask_def)
qed

theorem steady_state_emt_fails_witness:
  "\<exists>S0 S1. createEmptySystemMatrix RealVar (emptyTopology 50) exLU exSteady = ok S0
    \<and> initializeSystem emt_methods (emptyTopology 50) (\<lambda>p f b. b) exLU S0 = ok S1
    \<and> steadyStateInitialization (\<lambda>a. [a]) ''mna'' (emptyTopology 50) (\<lambda>p f b. b) exLU 10 (1 / 10000) S0
       = Some (throw UndefinedBehaviour)"
proof -
  let ?G = "emptyTopology 50" and ?rh = "\<lambda>p f b. b"
  note i = ex_steady_initialised [unfolded emtInitialised_def emtComponents_def]
  obtain S0 where S0: "createEmptySystemMatrix RealVar ?G exLU exSteady = ok S0" "keeps exSteady S0"
    "\<forall>i < 2 ^ length (mSwitches (mnaBase exSteady)). blank 2 exLU S0 i"
    using create_real [of exSteady 2 ?G exLU] i by blast
  note K = keepsD [OF S0(2)]
  have "emtComponents 1 2 S0" using i unfolding emtComponents_def stampsOk_def K by blast
  then obtain S1 where S1: "initializeSystem emt_methods ?G ?rh exLU S0 = ok S1" "mnaBase S1 = mnaBase S0"
    "\<forall>p. mMnaTasks (snd (objs S1) p) = mMnaTasks (snd (objs S0) p)"
    using system_ready [of 1 2 S0 exLU ?G ?rh] S0(3) unfolding K by blast
  have b: "mnaBase S0 = exSolver\<lparr>mNumMatrixNodeIndices := 2, mNumNodes := 2\<rparr>" "objs S0 = exWorld"
    "mLeftSideVector S0 = zeros 2 1" "mRightSideVector S0 = zeros 2 1"
    using K by (simp_all add: exSteady_def exInit_def exState_def)
  have none: "\<forall>p. mMnaTasks (snd (objs S1) p) = []" "mSimNodes (mnaBase S1) = []" "mSimSignalComps (mnaBase S1) = []"
    using S1(2,3) b(1,2) by (simp_all add: exWorld_def exSolver_def mkMnaSolver_def)
  have sch: "simSchedule (\<lambda>a. [a]) (emtSteadyTable ''mna'' S1) = ok []"
    using ex_steady_schedule(1) [OF none] ex_steady_schedule(2) [OF none] by blast
  have lu: "\<forall>f b. mrows b = 2 \<longrightarrow> mrows (lusolve exLU f b) = 2" by (simp add: exLU_def cramer_def Let_def)
  have z: "mrows (mLeftSideVector S0) = 2" "mrows (mRightSideVector S0) = 2" "2 * mNumNodes (mnaBase S0) \<noteq> 2" "(0 :: real) < 10"
    "mSyncGen (mnaBase S0) = []" "\<not> mFrequencyParallel (mnaBase S0)" "\<not> mSystemMatrixRecomputationEnabled (mnaBase S0)"
    by (simp_all add: b zeros_def exSolver_def mkMnaSolver_def)
  have "steadyStateInitialization (\<lambda>a. [a]) ''mna'' ?G ?rh exLU 10 (1 / 10000) S0 = Some (throw UndefinedBehaviour)"
    using steady_state_emt_fails [OF z lu, where T = ?G and rh = ?rh and gd = "\<lambda>a. [a]" and name = "''mna''" and acc = "1 / 10000", unfolded S1(1) sum.case sch] by simp
  then show ?thesis using S0(1) S1(1) by blast
qed

text \<open>The steady-state initialisation of a network of resistors, sources and switches schedules no task at
  all: it adds no log task, so that only what an inductor or capacitor reads in its next pre-step is needed.\<close>

theorem steady_state_without_dynamics:
  assumes "\<forall>p\<in>set (mMNAComponents (mnaBase S)). case model (snd (objs S) p) of Inductor _ _ \<Rightarrow> False | Capacitor _ _ \<Rightarrow> False | _ \<Rightarrow> True"
    and "simSchedule gd (emtSteadyTable name S) = ok s"
  shows "s = []"
proof (rule simSchedule_empty [OF assms(2)], intro ballI)
  fix t assume "t \<in> set (emtSteadyTable name S)"
  then obtain u where u: "u \<in> set (emtSteadyTasks S)" "t = taskObject name (\<lambda>_. Root) [] S u" by (auto simp: emtSteadyTable_def)
  then consider (comp) m p where "u = CompTask m p" "p \<in> set (mMNAComponents (mnaBase S))" | (solve) "u = SolveTask"
    by (auto simp: emtSteadyTasks_def steadyTasks_def compTasks_def)
  then show "external \<notin> set (mModifiedAttributes t) \<and> mPrevStepDependencies t = []"
  proof cases
    case comp
    then show ?thesis using assms(1) u(2)
      by (cases m; cases "model (snd (objs S) p)")
        (auto simp: taskObject_def preStepTask_def postStepTask_def mkTask_def mnaAddPreStepDependencies_def
          mnaAddPostStepDependencies_def class_dependencies)
  next
    case solve
    then show ?thesis using u(2) by (auto simp: taskObject_def solveTask_def mkTask_def)
  qed
qed

definition exStatic :: "(emt_ext, real matrix) mna_direct" where
  "exStatic = exSteady\<lparr>objs := (fst (objs exSteady), \<lambda>p. \<lparr>model = (if p = 0 then VoltageSource 5 0 else Resistor 2),
     mRightVector = zeros 2 1, mMnaTasks = (if p = 0 then [MnaPreStep] else []) @ [MnaPostStep]\<rparr>)\<rparr>"

theorem steady_state_without_dynamics_witness:
  "\<forall>s. simSchedule (\<lambda>a. [a]) (emtSteadyTable ''mna'' exStatic) = ok s \<longrightarrow> s = []"
  using steady_state_without_dynamics [of exStatic "\<lambda>a. [a]" "''mna''"] by (simp add: exStatic_def)

end
