(* ===== verification/Spec2Isabelle.thy ===== *)
theory Spec2Isabelle
  imports ThreadExecution Attributes Stamping Subnets PFSolution EmtRun MnaRecompute Interfaces EmtSteady
begin

text \<open>A verification library for DPsim, a power system simulator in C++.

  \<^bold>\<open>The program.\<close>  A network (\<open>SystemTopology\<close>) is a list of nodes and components that refer to each other.  For a
  time-domain simulation the solver for modified nodal analysis (\<open>MnaSolver\<close>, \<open>MnaSolverDirect\<close>) numbers the nodes,
  lets every component stamp its discretised model into a system matrix, factorizes that matrix, and solves it at
  every step; for a power flow \<open>PFSolver\<close> classifies the buses and runs Newton's method.  The work of a step is cut
  into tasks that read and modify attributes.  A scheduler orders the tasks by these attributes and runs them,
  sequentially or in several threads.  A simulation (\<open>Simulation\<close>) initialises the solver, makes the schedule
  and then, step by step, executes the events that are due and runs the schedule.  Interfaces exchange attribute
  values with the outside while the simulation runs.

  \<^bold>\<open>Theories and code.\<close>  Paths are relative to the source directory; M stands for \<open>dpsim-models/src\<close>, D for \<open>dpsim/src\<close>.
  Definitions keep the names of the code; the headers of the theories say how the state corresponds.

  \<^item> DPsim_Prelude: named collections, multimap operations, lists and association lists.
  \<^item> Scheduler, Measurements: D/Scheduler.cpp.  \<open>resolveDeps\<close>, \<open>topologicalSort\<close>, \<open>levelSchedule\<close>; the table of durations
    and its file.  A task is its name and its lists of attributes, named by its place in the task list.
  \<^item> Distribution, ThreadExecution: D/ThreadLevelScheduler.cpp, D/ThreadListScheduler.cpp, D/ThreadScheduler.cpp,
    D/SequentialScheduler.cpp, D/OpenMPLevelScheduler.cpp.  The distribution of a schedule over threads, and the threads
    of a step as a step relation over counters and waits.
  \<^item> Attributes: Attribute.h and AttributeList.h.  Attributes as objects over a store of data cells, with their update
    tasks, derived attributes, references and dependencies.
  \<^item> MatrixOps, Stamping: M/MathUtils.cpp, M/MNAStampUtils.cpp.
  \<^item> Components, Topology, Subnets: M/TopologicalNode.cpp, M/SimNode.cpp, M/TopologicalTerminal.cpp, M/SimPowerComp.cpp,
    M/SystemTopology.cpp.  Nodes and components in a store, since the code shares them by pointer.
  \<^item> PFComponents, PowerFlow, PowerPolar, PFLimits, PFZones, PFSolution: the power flow sections of M/SP, D/PFSolver.cpp
    and D/PFSolverPowerPolar.cpp.
  \<^item> Events, SimulationRun: D/Event.cpp, D/Simulation.cpp.
  \<^item> MnaNumbering, MnaDirect, MnaSolve, MnaRecompute: D/MNASolver.cpp, D/MNASolverDirect.cpp.  Reading the topology, numbering,
    matrices of all switch states or one recomputed matrix, and the solution of a step.
  \<^item> EmtPh1, EmtSolve, EmtStep, EmtNetwork, EmtTypes: the single-phase classes of M/EMT and M/MNASimPowerComp.cpp, and the
    time step of a network of them.
  \<^item> MnaTasks, EmtSchedule, EmtStart, EmtInit, EmtSimulation, EmtRun, EmtSteady: the task classes and \<open>getTasks\<close>, the schedule
    of an EMT network, its initialisation, its run from the numbered nodes to the final time with switching
    events, and \<open>steadyStateInitialization\<close>.
  \<^item> Interfaces: D/Interface.cpp, D/InterfaceQueued.cpp.

  \<^bold>\<open>What is shown.\<close>
  The scheduler orders modifiers before readers, finds a schedule exactly when there is one, and keeps
  exactly the tasks that are needed; levels, distributions and threads respect that order, no interleaving
  deadlocks, and with independent tasks that commute a threaded step computes what the sequential one does.
  The subnet numbering and the split of a network compute the connected parts.  Stamps add the nodal
  currents of an element and nothing else.  The power flow's Jacobian is the derivative of its
  power equations, a converged solution meets them within the tolerance and respects the limits, and the flows it
  reports add up to the power of the assembled matrix.  The simulation makes the right steps and
  executes every event once.  For EMT networks the parts are put together: initialisation, scheduling and every
  step succeed, Kirchhoff's current law holds after every step, and every component satisfies the trapezoidal rule or
  its own law.  Reads and writes of an interface lose, keep and order values as stated there.  Where the
  code does not do this (stale recomputed matrices, updates lost in an overrun, an initialisation that
  subtracts vectors of different lengths, a numbering or a run that does not end), that is a theorem too.

  \<^bold>\<open>Interfaces between components.\<close>  \<open>distribution\<close> (Distribution) is what a threaded scheduler relies on, proved for both
  ways of distributing; \<open>event_queue\<close> (Events) the contract of the priority queue, proved for a sorted list;
  \<open>additive_stamp\<close> (Stamping) what stamping needs of an element value, proved for real, complex and packed values;
  \<open>mna_components\<close> (MnaSolve) what the solver needs of component stamps, proved for the EMT components;
  \<open>pf_formulation\<close> (PowerFlow) what the Newton loop needs of a formulation, proved for the polar one.

  \<^bold>\<open>Numbers and memory.\<close>  Doubles are reals.  Where the code tests for non-finite values the type has one: a bound or an
  increment of the power flow, and after a non-finite increment the flag \<open>solFinite\<close> says that the solution vectors mean
  nothing.  Counters whose overflow matters keep their width.  Matrix access out of range, undefined in the
  code, is total here; properties about entries assume indices in range, and theory EmtTypes proves that the EMT
  methods stay in range.  Access to a vector or a map out of range is an error value.

  \<^bold>\<open>Loops.\<close>  Structural recursion, or a measure, where the loop ends (\<open>backSearch\<close>, \<open>kahn\<close>, \<open>fillNet\<close>).  Loops that may not end
  (\<open>handleEvents\<close>, \<open>iterateGens\<close>, \<open>createAll\<close>, \<open>findZone\<close>, \<open>subnetLoop\<close>, \<open>simLoop\<close>, \<open>steadyLoop\<close>) are partial functions, \<open>None\<close> being
  no return; that they return is proved where a property needs it.  The virtual calls between attributes are
  recursive up to a depth, and what is stated holds for every depth that is large enough, or for all.  The loop of
  the list distribution has fuel for one round per task, which is shown to suffice.

  \<^bold>\<open>Parameters.\<close>  The LU solver and \<open>Eigen\<close>'s inverse, the virtual methods of components, the execution of tasks, the priority
  queue, and the worker of an interface with its own state.  The laws used of them are hypotheses (\<open>lu_ok\<close> and the
  locales above), applied to concrete functions in the witnesses.

  \<^bold>\<open>Not modelled.\<close>  The readers of CIM and CSV files, loggers, command line, Python bindings and real-time waits, which are
  input and output; the wrappers of third-party solvers and of the VILLASnode library; the DAE and ODE solvers, which
  are callbacks of such libraries; the sparse variant of the polar power flow; diakoptics and the state-space
  extraction; and the other component classes (phasor domains, three phases, machines, inverters, controllers), of
  which the solver sees the virtual methods that are parameters here.\<close>

end
